(* ===== verification/Prelude.thy ===== *)
theory Prelude
  imports Main "HOL-Library.Word" "HOL-Library.Signed_Division" "HOL-Library.Sublist"
begin

text \<open>
  Shared vocabulary of the development: the fixed-width integer types the C sources use, the
  error classes of \<^verbatim>\<open>qlang/base/q_err.h\<close>, C's truncating division on mathematical integers,
  bytes cut out of words and words put together from bytes, and the list lemmas the components
  share. The collections \<open>ctrunc\<close> and \<open>byte_simps\<close> carry the arithmetic of the component proofs.
\<close>

unbundle bit_operations_syntax

named_theorems ctrunc \<open>rewriting C division and remainder into floor division\<close>
named_theorems byte_simps \<open>cutting words into bytes and joining bytes into words\<close>

section \<open>Types\<close>

type_synonym u8 = "8 word"
type_synonym u16 = "16 word"
type_synonym u32 = "32 word"
type_synonym u64 = "64 word"
type_synonym bytes = "8 word list"

text \<open>
  The classes of \<open>q_err_e\<close> that the modelled operations raise; the enum's other members belong to
  parts of the system outside this development.
\<close>

datatype q_err_e =
    QE_TYPE | QE_LENGTH | QE_RANK | QE_DOMAIN | QE_LIMIT | QE_NYI | QE_WSFULL
  | QE_OOM | QE_NAME | QE_BADFUNC | QE_ACCESS | QE_CONN

type_synonym 'a qres = "q_err_e + 'a"

abbreviation INT64_MAX :: int where "INT64_MAX \<equiv> 9223372036854775807"
abbreviation INT32_MAX :: int where "INT32_MAX \<equiv> 2147483647"

definition in_i64 :: "int \<Rightarrow> bool" where
  "in_i64 x \<longleftrightarrow> - 9223372036854775808 \<le> x \<and> x \<le> INT64_MAX"

text \<open>
  The value a 64-bit register holds after an operation whose exact result is \<open>x\<close>. For unsigned arithmetic
  this is C's own rule. For signed arithmetic C leaves an overflow undefined and this is the value of the
  machine instruction; the statements about such code exclude the overflow by \<open>in_i64\<close>.
\<close>

definition wrap_i64 :: "int \<Rightarrow> int" where
  "wrap_i64 x = (x + 9223372036854775808) mod 18446744073709551616 - 9223372036854775808"

lemma wrap_i64_id: "in_i64 x \<Longrightarrow> wrap_i64 x = x"
  by (simp add: in_i64_def wrap_i64_def mod_pos_pos_trivial)

lemma wrap_i64_range: "in_i64 (wrap_i64 x)"
  by (simp add: in_i64_def wrap_i64_def)

text \<open>Unsigned 32-bit counters: conversion and subtraction modulo \<open>2\<^sup>3\<^sup>2\<close>.\<close>

definition to_u32 :: "nat \<Rightarrow> nat" where
  "to_u32 x = x mod 4294967296"

definition sub_u32 :: "nat \<Rightarrow> nat \<Rightarrow> nat" where
  "sub_u32 a b = to_u32 (a + (4294967296 - b mod 4294967296))"

lemma to_u32_id: "x < 4294967296 \<Longrightarrow> to_u32 x = x"
  by (simp add: to_u32_def)

lemma sub_u32_id: "b \<le> a \<Longrightarrow> a < 4294967296 \<Longrightarrow> sub_u32 a b = a - b"
  by (simp add: sub_u32_def to_u32_def mod_if)

section \<open>C division\<close>

text \<open>C's \<open>/\<close> and \<open>%\<close> truncate towards zero: \<open>sdiv\<close> and \<open>smod\<close> of the library.\<close>

lemma sdiv_nonneg [ctrunc]: "0 \<le> a \<Longrightarrow> 0 < b \<Longrightarrow> a sdiv b = a div b" for a b :: int
  by (auto simp: signed_divide_int_def sgn_if)

lemma smod_sdiv_eq: "a smod b = a - (a sdiv b) * b" for a b :: int
  using sdiv_mult_smod_eq [of a b] by linarith

lemma smod_nonneg [ctrunc]: "0 \<le> a \<Longrightarrow> 0 < b \<Longrightarrow> a smod b = a mod b" for a b :: int
  by (simp add: smod_sdiv_eq sdiv_nonneg minus_div_mult_eq_mod)

lemma sdiv_neg [ctrunc]: "a < 0 \<Longrightarrow> 0 < b \<Longrightarrow> a sdiv b = - ((- a) div b)" for a b :: int
  by (auto simp: signed_divide_int_def sgn_if)

lemma smod_neg [ctrunc]: "a < 0 \<Longrightarrow> 0 < b \<Longrightarrow> a smod b = - ((- a) mod b)" for a b :: int
  using div_mult_mod_eq [of "- a" b] by (simp only: smod_sdiv_eq sdiv_neg)

text \<open>The idiom \<open>((x % n) + n) % n\<close> is the floor remainder.\<close>

lemma smod_floor: "0 < n \<Longrightarrow> ((x smod n) + n) smod n = x mod n" for x n :: int
proof (cases "0 \<le> x")
  case True
  assume n: "0 < n"
  with True have "x smod n = x mod n" by (simp add: smod_nonneg)
  moreover have "0 \<le> x mod n + n" using n by (simp add: add_nonneg_nonneg)
  ultimately show ?thesis using n by (simp add: smod_nonneg)
next
  case False
  assume n: "0 < n"
  from False n have eq: "x smod n = - ((- x) mod n)" by (simp add: smod_neg)
  have "(- x) mod n < n" using n by simp
  then have "0 \<le> - ((- x) mod n) + n" by simp
  with n eq have "((x smod n) + n) smod n = (- ((- x) mod n) + n) mod n"
    by (simp add: smod_nonneg)
  also have "\<dots> = x mod n" by (simp add: mod_minus_eq)
  finally show ?thesis .
qed

text \<open>A quotient is named by its multiple and remainder.\<close>

lemma floor_div_eq: "0 \<le> r \<Longrightarrow> r < n \<Longrightarrow> x = q * n + r \<Longrightarrow> x div n = q" for x n q r :: int
  by (rule int_div_pos_eq [of x n q r]) (simp_all add: ac_simps)

lemma sdiv_neg_floor:
  fixes x n :: int
  assumes "x < 0" "0 < n"
  shows "x sdiv n = (if x mod n = 0 then x div n else x div n + 1)"
proof (cases "x mod n = 0")
  case True
  then have "- x = (- (x div n)) * n + 0" using div_mult_mod_eq [of x n] by simp
  then have "(- x) div n = - (x div n)" using assms by (intro floor_div_eq [of 0]) auto
  with True assms show ?thesis by (simp add: sdiv_neg)
next
  case False
  have "x mod n < n" "0 \<le> x mod n" using assms by simp_all
  moreover have "- x = (- (x div n) - 1) * n + (n - x mod n)"
    using div_mult_mod_eq [of x n] by (simp add: algebra_simps)
  ultimately have "(- x) div n = - (x div n) - 1"
    using False by (intro floor_div_eq [of "n - x mod n"]) auto
  with False assms show ?thesis by (simp add: sdiv_neg)
qed

text \<open>The idiom that adjusts a truncated quotient gives the floor quotient.\<close>

lemma sdiv_floor_adjust:
  fixes x n :: int
  assumes n: "0 < n"
  shows "(if x - (x sdiv n) * n < 0 then x sdiv n - 1 else x sdiv n) = x div n"
proof (cases "0 \<le> x")
  case True
  with n show ?thesis by (simp add: sdiv_nonneg minus_div_mult_eq_mod not_less)
next
  case False
  have m: "x - x div n * n = x mod n" "x mod n < n" "0 \<le> x mod n"
    using n by (simp_all add: minus_div_mult_eq_mod)
  show ?thesis
  proof (cases "x mod n = 0")
    case True
    with False n m show ?thesis by (simp add: sdiv_neg_floor)
  next
    case nz: False
    have "x sdiv n = x div n + 1" using False nz n by (simp add: sdiv_neg_floor)
    moreover have "x - (x div n + 1) * n < 0" unfolding distrib_right using m by linarith
    ultimately show ?thesis by simp
  qed
qed

text \<open>The idiom that shifts a negative dividend before dividing gives the floor quotient.\<close>

lemma sdiv_floor_shift:
  fixes x n :: int
  assumes n: "0 < n"
  shows "(if x \<ge> 0 then x else x - (n - 1)) sdiv n = x div n"
proof (cases "0 \<le> x")
  case False
  have eq: "x = x div n * n + x mod n" by simp
  have r: "x mod n < n" "0 \<le> x mod n" using n by simp_all
  have "(x - (n - 1)) sdiv n = x div n"
  proof (cases "x mod n = n - 1")
    case True
    then have "x - (n - 1) = x div n * n + 0" using eq by linarith
    then have "(x - (n - 1)) div n = x div n" "(x - (n - 1)) mod n = 0"
      using n by (auto intro: floor_div_eq [of 0])
    with False n show ?thesis by (simp add: sdiv_neg_floor)
  next
    case mid: False
    have d: "x - (n - 1) = (x div n - 1) * n + (x mod n + 1)"
      using eq by (simp add: algebra_simps)
    with r mid have "(x - (n - 1)) div n = x div n - 1"
      by (intro floor_div_eq [of "x mod n + 1"]) auto
    moreover have "(x - (n - 1)) mod n = (x mod n + 1) mod n"
      by (subst d) (rule mod_mult_self3)
    ultimately show ?thesis using False n r mid by (simp add: sdiv_neg_floor)
  qed
  with False show ?thesis by simp
qed (use n in \<open>simp add: sdiv_nonneg\<close>)

text \<open>Stepping a floor quotient by one.\<close>

lemma div_pred:
  fixes x n :: int
  assumes n: "0 < n"
  shows "(x - 1) div n = x div n - (if x mod n = 0 then 1 else 0)"
proof (cases "x mod n = 0")
  case True
  then have "x - 1 = (x div n - 1) * n + (n - 1)"
    using div_mult_mod_eq [of x n] by (simp add: algebra_simps)
  with n True show ?thesis by (simp add: floor_div_eq [of "n - 1" n "x - 1" "x div n - 1"])
next
  case False
  have "x - 1 = x div n * n + (x mod n - 1)" by simp
  moreover have "x mod n < n" "0 \<le> x mod n" using n by simp_all
  ultimately have "(x - 1) div n = x div n"
    using False by (intro floor_div_eq [of "x mod n - 1"]) linarith+
  with False show ?thesis by simp
qed

text \<open>Two more idioms: adjusting a negative remainder, and adjusting a quotient by its remainder.\<close>

lemma smod_adjust: "0 < n \<Longrightarrow> (if x smod n < 0 then x smod n + n else x smod n) = x mod n"
  for x n :: int
proof (cases "0 \<le> x")
  case True
  assume "0 < n"
  with True show ?thesis by (simp add: smod_nonneg not_less)
next
  case False
  assume n: "0 < n"
  define r where "r = (- x) mod n"
  have "x smod n = - r" using False n by (simp add: smod_neg r_def)
  moreover have "x mod n = (if r = 0 then 0 else n - r)"
    using zmod_zminus1_eq_if [of "- x" n] by (simp only: r_def minus_minus)
  moreover have "0 \<le> r" using n by (simp add: r_def)
  ultimately show ?thesis by auto
qed

lemma sdiv_adjust_mod:
  fixes x n :: int
  assumes n: "0 < n"
  shows "(if x < 0 \<and> x smod n \<noteq> 0 then x sdiv n - 1 else x sdiv n) = x div n"
proof -
  have "x smod n = 0 \<longleftrightarrow> x mod n = 0"
    using n by (cases "0 \<le> x") (simp_all add: smod_nonneg smod_neg mod_eq_0_iff_dvd)
  then show ?thesis using n
    by (cases "x < 0") (simp_all add: sdiv_neg_floor sdiv_nonneg)
qed

section \<open>Words\<close>

lemma xor_zero_iff [byte_simps]: "a XOR b = 0 \<longleftrightarrow> a = b" for a b :: "'a :: len word"
  by (auto simp: bit_eq_iff bit_xor_iff)

lemma xor_cancel_left [byte_simps]: "a XOR b = a XOR c \<longleftrightarrow> b = c" for a b c :: "'a :: len word"
  by (auto simp: bit_eq_iff bit_xor_iff)

section \<open>Growing buffers\<close>

text \<open>The loop \<open>while (cap < need) cap *= 2\<close> from a positive capacity.\<close>

function grow_cap :: "nat \<Rightarrow> nat \<Rightarrow> nat" where
  "grow_cap cap need = (if 0 < cap \<and> cap < need then grow_cap (cap * 2) need else cap)"
  by pat_completeness auto
termination by (relation "measure (\<lambda>(cap, need). need - cap)") auto

declare grow_cap.simps [simp del]

lemma grow_cap_enough: "0 < cap \<Longrightarrow> need \<le> grow_cap cap need"
proof (induction cap need rule: grow_cap.induct)
  case (1 cap need)
  then show ?case by (subst grow_cap.simps) auto
qed

section \<open>Text and bytes\<close>

text \<open>A C string literal as the bytes it denotes.\<close>

definition lit :: "string \<Rightarrow> bytes" where
  "lit s = map of_char s"

text \<open>
  The q values a string boundary distinguishes (\<open>q_str_text_bytes\<close> and \<open>q_str_text_or_bytevec\<close> of
  \<^verbatim>\<open>qlang/ops/q_str.c\<close>): internal string atoms, char vectors, char atoms, byte vectors, byte atoms,
  and everything else.
\<close>

datatype qtext = QStr bytes | QCharv bytes | QChar u8 | QByteVec bytes | QByte u8 | QOther

fun q_str_text_bytes :: "qtext \<Rightarrow> bytes option" where
  "q_str_text_bytes (QStr b) = Some b"
| "q_str_text_bytes (QCharv b) = Some b"
| "q_str_text_bytes (QChar c) = Some [c]"
| "q_str_text_bytes _ = None"

fun q_str_text_or_bytes :: "qtext \<Rightarrow> bytes option" where
  "q_str_text_or_bytes (QByte c) = Some [c]"
| "q_str_text_or_bytes (QByteVec b) = Some b"
| "q_str_text_or_bytes x = q_str_text_bytes x"

definition q_str_text_or_bytevec :: "qtext \<Rightarrow> bytes option" where
  "q_str_text_or_bytevec x = (case x of QByte _ \<Rightarrow> None | _ \<Rightarrow> q_str_text_or_bytes x)"

section \<open>Decimal text\<close>

text \<open>ASCII digits, the number a run of them stands for, and the digits \<open>printf\<close> writes for a number.\<close>

definition is_digit :: "u8 \<Rightarrow> bool" where
  "is_digit c \<longleftrightarrow> 48 \<le> c \<and> c \<le> 57"

definition dec_val :: "bytes \<Rightarrow> nat" where
  "dec_val ds = foldl (\<lambda>v c. v * 10 + (unat c - 48)) 0 ds"

fun dec_text :: "nat \<Rightarrow> bytes" where
  "dec_text n = (if n < 10 then [of_nat (48 + n)] else dec_text (n div 10) @ [of_nat (48 + n mod 10)])"

declare dec_text.simps [simp del]

lemma is_digit_unat: "is_digit c \<longleftrightarrow> 48 \<le> unat c \<and> unat c \<le> 57"
  by (simp add: is_digit_def word_le_nat_alt)

lemma dec_val_nil [simp]: "dec_val [] = 0"
  by (simp add: dec_val_def)

lemma dec_val_snoc [simp]: "dec_val (ds @ [c]) = dec_val ds * 10 + (unat c - 48)"
  by (simp add: dec_val_def)

lemma unat_digit: "n < 10 \<Longrightarrow> unat (of_nat (48 + n) :: u8) = 48 + n"
  by (subst unat_of_nat) (simp add: take_bit_nat_eq_self)

lemma dec_text_val [simp]: "dec_val (dec_text n) = n"
proof (induction n rule: dec_text.induct)
  case (1 n)
  show ?case
  proof (cases "n < 10")
    case True
    then show ?thesis using dec_val_snoc [of "[]"] by (simp add: dec_text.simps [of n] unat_digit del: of_nat_add)
  next
    case False
    then show ?thesis using 1 by (simp add: dec_text.simps [of n] unat_digit del: of_nat_add)
  qed
qed

lemma dec_text_digits: "c \<in> set (dec_text n) \<Longrightarrow> is_digit c"
proof (induction n rule: dec_text.induct)
  case (1 n)
  then show ?case
    by (subst (asm) dec_text.simps) (auto simp: is_digit_unat unat_digit simp del: of_nat_add split: if_splits)
qed

lemma dec_text_nonempty [simp]: "dec_text n \<noteq> []"
  by (subst dec_text.simps) simp

lemma dec_text_length: "n < 10 ^ k \<Longrightarrow> 0 < k \<Longrightarrow> length (dec_text n) \<le> k"
proof (induction k arbitrary: n)
  case (Suc k)
  then show ?case
  proof (cases "n < 10")
    case False
    then have "0 < k" using Suc.prems(1) by (cases k) simp_all
    moreover have "n div 10 < 10 ^ k" using Suc.prems(1) by (simp add: div_less_iff_less_mult mult.commute)
    ultimately show ?thesis using Suc.IH [of "n div 10"] False by (simp add: dec_text.simps [of n])
  qed (simp add: dec_text.simps)
qed simp

lemma dec_val_append: "dec_val (xs @ ys) = dec_val xs * 10 ^ length ys + dec_val ys"
proof (induction ys rule: rev_induct)
  case (snoc y ys)
  then show ?case by (simp add: algebra_simps flip: append_assoc)
qed simp

lemma dec_val_less: "\<forall>c\<in>set ds. is_digit c \<Longrightarrow> dec_val ds < 10 ^ length ds"
proof (induction ds rule: rev_induct)
  case (snoc c ds)
  then have "dec_val ds * 10 + (unat c - 48) < dec_val ds * 10 + 10" "dec_val ds + 1 \<le> 10 ^ length ds"
    by (auto simp: is_digit_unat)
  then show ?case by simp
qed simp

section \<open>Lossless codecs\<close>

text \<open>
  The contract every encoder and decoder pair of the system promises its callers: decoding what was
  encoded gives it back. A decoder that also accepts nothing but encodings, up to a normalisation
  \<open>norm\<close> of its input, is canonical.
\<close>

locale lossless_codec =
  fixes enc :: "'a \<Rightarrow> 'b" and dec :: "'b \<Rightarrow> 'a option"
  assumes dec_enc: "dec (enc x) = Some x"
begin

lemma enc_eq_iff: "enc x = enc y \<longleftrightarrow> x = y"
  using dec_enc by (metis option.inject)

lemma enc_inj: "inj enc"
  by (simp add: inj_def enc_eq_iff)

end

locale canonical_codec = lossless_codec +
  fixes norm :: "'b \<Rightarrow> 'b"
  assumes dec_canonical: "dec y = Some x \<Longrightarrow> norm y = enc x"
    and dec_norm: "dec (norm y) = dec y"
begin

lemma dec_iff: "dec y = Some x \<longleftrightarrow> norm y = enc x"
  using dec_canonical dec_norm dec_enc by metis

lemma accepts_iff: "(\<exists>x. dec y = Some x) \<longleftrightarrow> norm y \<in> range enc"
  by (auto simp: dec_iff)

end

section \<open>Prefix codecs\<close>

text \<open>
  A codec whose decoder takes an encoding off the front of its input and says how long it was. Encodings are then
  prefix-free, and a concatenation of them is taken apart again in one way only.
\<close>

locale prefix_codec =
  fixes ok :: "'a \<Rightarrow> bool" and enc :: "'a \<Rightarrow> 'b list" and dec :: "'b list \<Rightarrow> ('e + 'a) \<times> nat"
  assumes dec_front: "ok x \<Longrightarrow> dec (enc x @ rest) = (Inr x, length (enc x))"
begin

lemma prefix_free: "ok x \<Longrightarrow> ok y \<Longrightarrow> prefix (enc x) (enc y) \<Longrightarrow> x = y"
  using dec_front [of x] dec_front [of y "[]"] by (auto simp: prefix_def)

lemma split_unique: "ok x \<Longrightarrow> ok y \<Longrightarrow> enc x @ r = enc y @ s \<Longrightarrow> x = y \<and> r = s"
  using dec_front [of x r] dec_front [of y s] by auto

lemma stream_unique:
  assumes "list_all ok xs" "list_all ok ys" "\<And>x. ok x \<Longrightarrow> enc x \<noteq> []" "concat (map enc xs) = concat (map enc ys)"
  shows "xs = ys"
  using assms
proof (induction xs arbitrary: ys)
  case Nil
  then show ?case by (cases ys) auto
next
  case (Cons x xs)
  then obtain y zs where ys: "ys = y # zs" by (cases ys) auto
  then have "x = y" "concat (map enc xs) = concat (map enc zs)" using Cons.prems split_unique [of x y] by auto
  then show ?case using Cons ys by auto
qed

end

end
