(* ===== verification/Calendar.thy ===== *)
theory Calendar
  imports Prelude
begin

text \<open>
  The civil calendar core: \<^verbatim>\<open>src/qlang/base/q_calendar.c\<close>, the integer part of
  \<^verbatim>\<open>src/lang/cal.h\<close> and \<open>month_payload_as_days\<close> of \<^verbatim>\<open>src/lang/internal.h\<close>. The C code is pure
  arithmetic on \<open>int64_t\<close>; it is modelled on mathematical integers with C's truncating division,
  and the one place where the 64-bit range decides the result (\<open>ts_compose_checked\<close>, computed in
  \<open>__int128\<close>) tests it explicitly. Dates are day counts since 2000.01.01.

  Shown: the day count of the civil date is the one that starts at 2000.01.01 and counts one per
  day (leap rule included), the two encoders agree, the month decoder inverts the encoder, the
  timestamp split and its composition are inverse, composition saturates at the 64-bit bounds.
\<close>

section \<open>q_calendar.c\<close>

definition q_calendar_days_from_civil :: "int \<Rightarrow> int \<Rightarrow> int \<Rightarrow> int" where
  "q_calendar_days_from_civil y0 m d =
    (let y = y0 - (if m \<le> 2 then 1 else 0);
         era = (if y \<ge> 0 then y else y - 399) sdiv 400;
         yoe = y - era * 400;
         doy = (153 * (m + (if m > 2 then -3 else 9)) + 2) sdiv 5 + d - 1;
         doe = yoe * 365 + yoe sdiv 4 - yoe sdiv 100 + doy
     in era * 146097 + doe - 719468 - 10957)"

definition leap_rule :: "int \<Rightarrow> bool" where
  "leap_rule y \<longleftrightarrow> y smod 4 = 0 \<and> (y smod 100 \<noteq> 0 \<or> y smod 400 = 0)"

definition md :: "int list" where
  "md = [31,28,31,30,31,30,31,31,30,31,30,31]"

definition q_calendar_date_valid :: "int \<Rightarrow> int \<Rightarrow> int \<Rightarrow> bool" where
  "q_calendar_date_valid y m d =
    (if y < 1 \<or> y > 9999 \<or> m < 1 \<or> m > 12 \<or> d < 1 then False
     else d \<le> md ! nat (m - 1) + (if m = 2 \<and> leap_rule y then 1 else 0))"

abbreviation NS_PER_DAY :: int where "NS_PER_DAY \<equiv> 86400000000000"

text \<open>\<open>ts_compose_checked\<close> of \<^verbatim>\<open>cal.h\<close>: \<open>None\<close> is the return value 0.\<close>

definition ts_compose_checked :: "int \<Rightarrow> int \<Rightarrow> int option" where
  "ts_compose_checked days tod_ns =
    (let ns = days * NS_PER_DAY + tod_ns
     in if ns > INT64_MAX \<or> ns < - INT64_MAX then None else Some ns)"

definition q_calendar_ts_compose :: "int \<Rightarrow> int \<Rightarrow> int" where
  "q_calendar_ts_compose days tod_ns =
    (case ts_compose_checked days tod_ns of
       Some ns \<Rightarrow> ns
     | None \<Rightarrow> if days * NS_PER_DAY + tod_ns < 0 then - INT64_MAX else INT64_MAX)"

definition q_calendar_week_start :: "int \<Rightarrow> int \<Rightarrow> int" where
  "q_calendar_week_start days start =
    (let n = ((start smod 7) + 7) smod 7
     in days - ((((days - n) smod 7) + 7) smod 7))"

text \<open>
  \<open>doe\<close> and the values computed from it are non-negative \<open>uint64_t\<close>s in the source, on which C's
  division is floor division. The pair is the stored payload and the returned flag.
\<close>

definition q_calendar_month_from_days :: "int \<Rightarrow> int \<times> bool" where
  "q_calendar_month_from_days days =
    (let z = days + 10957 + 719468;
         era = (if z \<ge> 0 then z else z - 146096) sdiv 146097;
         doe = z - era * 146097;
         yoe = (doe - doe div 1460 + doe div 36524 - doe div 146096) div 365;
         y = yoe + era * 400;
         doy = doe - (365 * yoe + yoe div 4 - yoe div 100);
         mp = (5 * doy + 2) div 153;
         d = doy - (153 * mp + 2) div 5 + 1;
         m = (if mp < 10 then mp + 3 else mp - 9);
         y' = y + (if m \<le> 2 then 1 else 0)
     in (12 * (y' - 2000) + m - 1, d = 1))"

section \<open>cal.h and internal.h\<close>

definition MONTHDAYS :: "int list list" where
  "MONTHDAYS =
    [[0, 31, 59, 90, 120, 151, 181, 212, 243, 273, 304, 334, 365],
     [0, 31, 60, 91, 121, 152, 182, 213, 244, 274, 305, 335, 366]]"

definition date_leap_year :: "int \<Rightarrow> bool" where
  "date_leap_year year \<longleftrightarrow> (year smod 4 = 0 \<and> year smod 100 \<noteq> 0) \<or> year smod 400 = 0"

definition date_years_by_days :: "int \<Rightarrow> int" where
  "date_years_by_days yy = yy * 365 + yy sdiv 4 - yy sdiv 100 + yy sdiv 400"

abbreviation RAY_DATE_EPOCH :: int where "RAY_DATE_EPOCH \<equiv> 2000"

definition ymd_to_date :: "int \<Rightarrow> int \<Rightarrow> int \<Rightarrow> int" where
  "ymd_to_date year month day =
    (let yy = (if year > 0 then year - 1 else 0);
         ydays = date_years_by_days yy;
         leap = (if date_leap_year year then 1 else 0);
         mm = (if month > 0 then month - 1 else 0);
         mdays = MONTHDAYS ! leap ! nat mm
     in ydays - date_years_by_days (RAY_DATE_EPOCH - 1) + mdays + day - 1)"

definition ts_days_floor :: "int \<Rightarrow> int" where
  "ts_days_floor ns =
    (let q = ns sdiv NS_PER_DAY
     in if ns - q * NS_PER_DAY < 0 then q - 1 else q)"

definition ts_ns_in_day :: "int \<Rightarrow> int" where
  "ts_ns_in_day ns = (let r = ns smod NS_PER_DAY in if r < 0 then r + NS_PER_DAY else r)"

definition month_payload_as_days :: "int \<Rightarrow> int" where
  "month_payload_as_days p =
    (let y0 = 2000 + (if p \<ge> 0 then p sdiv 12 else - ((- p + 11) sdiv 12));
         m = 1 + (p smod 12 + 12) smod 12;
         y = y0 - (if m \<le> 2 then 1 else 0);
         era = (if y \<ge> 0 then y else y - 399) sdiv 400;
         yoe = y - era * 400;
         doy = (153 * (m + (if m > 2 then -3 else 9)) + 2) sdiv 5;
         doe = yoe * 365 + yoe sdiv 4 - yoe sdiv 100 + doy
     in era * 146097 + doe - 719468 - 10957)"

section \<open>The day count in closed form\<close>

text \<open>Days before the first of March of year \<open>y\<close>, counted from the year 0.\<close>

definition march_days :: "int \<Rightarrow> int" where
  "march_days y = 365 * y + y div 4 - y div 100 + y div 400"

definition month_offset :: "int \<Rightarrow> int" where
  "month_offset mp = (153 * mp + 2) div 5"

lemma era_floor: "(if y \<ge> 0 then y else y - 399) sdiv 400 = y div 400" for y :: int
  using sdiv_floor_shift [of 400 y] by (simp split: if_splits)

lemma era_day_floor: "(if z \<ge> 0 then z else z - 146096) sdiv 146097 = z div 146097" for z :: int
  using sdiv_floor_shift [of 146097 z] by (simp split: if_splits)

lemma march_days_era:
  "march_days y = (y div 400) * 146097 + (y mod 400 * 365 + y mod 400 div 4 - y mod 400 div 100)"
proof -
  define e r where "e = y div 400" and "r = y mod 400"
  have y: "y = r + 400 * e" unfolding e_def r_def by simp
  have r: "0 \<le> r" "r < 400" unfolding r_def by simp_all
  have "y div 4 = 100 * e + r div 4"
    by (rule floor_div_eq [of "r mod 4"]) (simp_all add: y)
  moreover have "y div 100 = 4 * e + r div 100"
    by (rule floor_div_eq [of "r mod 100"]) (simp_all add: y)
  moreover have "y div 400 = e" by (simp add: e_def)
  ultimately show ?thesis unfolding march_days_def e_def [symmetric] r_def [symmetric]
    by (simp add: y)
qed

text \<open>The encoder's era arithmetic, for any month number: the civil year starts in March.\<close>

lemma civil_core_eq:
  assumes "0 \<le> 153 * mp + 2"
  shows "(let era = (if y \<ge> 0 then y else y - 399) sdiv 400;
              yoe = y - era * 400;
              doy = (153 * mp + 2) sdiv 5 + k;
              doe = yoe * 365 + yoe sdiv 4 - yoe sdiv 100 + doy
          in era * 146097 + doe - 719468 - 10957)
       = march_days y + month_offset mp + k - 730425"
proof -
  have "y - y div 400 * 400 = y mod 400" by (simp add: minus_div_mult_eq_mod)
  then show ?thesis using assms unfolding era_floor Let_def
    by (simp add: march_days_era month_offset_def sdiv_nonneg)
qed

definition march_month :: "int \<Rightarrow> int" where
  "march_month m = (if m > 2 then m - 3 else m + 9)"

lemma days_from_civil_closed:
  assumes "1 \<le> m"
  shows "q_calendar_days_from_civil y m d =
    march_days (y - (if m \<le> 2 then 1 else 0)) + month_offset (march_month m) + d - 730426"
proof -
  have "0 \<le> 153 * march_month m + 2" using assms by (simp add: march_month_def)
  from civil_core_eq [OF this, of "y - (if m \<le> 2 then 1 else 0)" "d - 1"] show ?thesis
    by (simp add: q_calendar_days_from_civil_def Let_def march_month_def algebra_simps split: if_splits)
qed

lemma month_cases:
  assumes "1 \<le> m" "m \<le> (12::int)"
  shows "m \<in> {1, 2, 3, 4, 5, 6, 7, 8, 9, 10, 11, 12}"
  unfolding insert_iff empty_iff using assms by presburger

text \<open>The Gregorian rule with floor remainders, for years of either sign.\<close>

definition leap_floor :: "int \<Rightarrow> bool" where
  "leap_floor y \<longleftrightarrow> y mod 4 = 0 \<and> (y mod 100 \<noteq> 0 \<or> y mod 400 = 0)"

lemma smod_eq_0_iff: "x smod n = 0 \<longleftrightarrow> x mod n = 0" if "0 < n" for x n :: int
  using that by (cases "0 \<le> x") (simp_all add: ctrunc mod_eq_0_iff_dvd)

lemma leap_rule_floor: "leap_rule y = leap_floor y"
  by (simp add: leap_rule_def leap_floor_def smod_eq_0_iff)

lemma mod_100_400: "y mod 100 = 0 \<Longrightarrow> y mod 4 = 0" "y mod 400 = 0 \<Longrightarrow> y mod 100 = 0"
  for y :: int
  using dvd_trans [of 4 100 y] dvd_trans [of 100 400 y] by (simp_all add: mod_eq_0_iff_dvd)

lemma date_leap_year_floor: "date_leap_year y = leap_floor y"
  using mod_100_400 [of y] by (auto simp: date_leap_year_def leap_floor_def smod_eq_0_iff)

lemma march_days_pred:
  "march_days (y - 1) = march_days y - 365 - (if leap_floor y then 1 else 0)"
proof -
  have q: "(y - 1) div n = y div n - (if y mod n = 0 then 1 else 0)" if "0 < n" for n
    using div_pred [OF that] .
  have "march_days (y - 1) = march_days y - 365 - (if y mod 4 = 0 then 1 else 0)
      + (if y mod 100 = 0 then 1 else 0) - (if y mod 400 = 0 then 1 else 0)"
    unfolding march_days_def q [of 4, simplified] q [of 100, simplified] q [of 400, simplified]
    by (simp only: right_diff_distrib)
  also have "\<dots> = march_days y - 365 - (if leap_floor y then 1 else 0)"
    using mod_100_400 [of y] unfolding leap_floor_def
    by (cases "y mod 4 = 0"; cases "y mod 100 = 0"; cases "y mod 400 = 0") (simp_all only: if_True if_False simp_thms)
  finally show ?thesis .
qed

section \<open>Counting days\<close>

definition month_len :: "int \<Rightarrow> int \<Rightarrow> int" where
  "month_len y m = md ! nat (m - 1) + (if m = 2 \<and> leap_floor y then 1 else 0)"

definition civil_ok :: "int \<Rightarrow> int \<Rightarrow> int \<Rightarrow> bool" where
  "civil_ok y m d \<longleftrightarrow> 1 \<le> m \<and> m \<le> 12 \<and> 1 \<le> d \<and> d \<le> month_len y m"

definition next_civil :: "int \<Rightarrow> int \<Rightarrow> int \<Rightarrow> int \<times> int \<times> int" where
  "next_civil y m d =
    (if d < month_len y m then (y, m, d + 1)
     else if m < 12 then (y, m + 1, 1)
     else (y + 1, 1, 1))"

lemma date_valid_civil_ok: "q_calendar_date_valid y m d \<Longrightarrow> civil_ok y m d"
  by (auto simp: q_calendar_date_valid_def civil_ok_def month_len_def leap_rule_floor split: if_splits)

lemmas month_eval = month_offset_def march_month_def month_len_def md_def

text \<open>Consecutive days get consecutive numbers, for every year.\<close>

lemma days_from_civil_next:
  assumes "civil_ok y m d"
  shows "(case next_civil y m d of (y', m', d') \<Rightarrow> q_calendar_days_from_civil y' m' d')
       = q_calendar_days_from_civil y m d + 1"
proof -
  have m: "1 \<le> m" "m \<le> 12" and d: "d \<le> month_len y m" using assms by (auto simp: civil_ok_def)
  show ?thesis
  proof (cases "d < month_len y m")
    case True
    with m show ?thesis by (simp add: next_civil_def days_from_civil_closed)
  next
    case False
    with d have "d = month_len y m" by simp
    with month_cases [OF m] show ?thesis
      by (auto simp: next_civil_def days_from_civil_closed march_days_pred month_eval)
  qed
qed

section \<open>Decoding a day count\<close>

text \<open>
  The decoder's estimate of the year of the era. An era is four centuries of 36524 days and a last
  day; a century is 25 cycles of 1461 days, the last one short by a day; a cycle is four years,
  the last one with the leap day.
\<close>

definition civil_num :: "int \<Rightarrow> int" where
  "civil_num doe = doe - doe div 1460 + doe div 36524 - doe div 146096"

lemma civil_century:
  assumes "0 \<le> c" "c \<le> 3" "0 \<le> x" "x < 36524 \<or> (c = 3 \<and> x = (36524::int))"
    and doe: "doe = 36524 * c + x"
  shows "doe div 36524 - doe div 146096 = c"
proof (cases "x < 36524")
  case True
  with assms have "doe div 36524 = c" by (intro floor_div_eq [of x]) auto
  moreover have "doe div 146096 = 0" using assms True by (intro floor_div_eq [of doe]) auto
  ultimately show ?thesis by simp
next
  case False
  with assms have "doe = 146096" "c = 3" by auto
  then show ?thesis by simp
qed

lemma civil_cycle:
  assumes "0 \<le> t" "t \<le> 1600" and doe: "doe = 1460 * n + (t::int)"
  shows "doe div 1460 = n + (if t \<ge> 1460 then 1 else 0)"
proof (cases "t \<ge> 1460")
  case True
  with assms have "doe div 1460 = n + 1" by (intro floor_div_eq [of "t - 1460"]) auto
  with True show ?thesis by simp
next
  case False
  with assms have "doe div 1460 = n" by (intro floor_div_eq [of t]) auto
  with False show ?thesis by simp
qed

lemma civil_num_div:
  assumes c: "0 \<le> c" "c \<le> 3" and q: "0 \<le> q" "q \<le> 24" and k: "0 \<le> k" "k \<le> 3"
    and doy: "0 \<le> doy" "doy \<le> 365" "doy = 365 \<Longrightarrow> k = 3 \<and> (q \<noteq> 24 \<or> c = 3)"
    and doe: "doe = 36524 * c + 1461 * q + 365 * k + (doy::int)"
  shows "civil_num doe div 365 = 100 * c + 4 * q + k"
proof -
  define t where "t = 24 * c + q + 365 * k + doy"
  have cen: "doe div 36524 - doe div 146096 = c"
  proof (rule civil_century)
    show "1461 * q + 365 * k + doy < 36524 \<or> (c = 3 \<and> 1461 * q + 365 * k + doy = 36524)"
      using c q k doy by (cases "q = 24"; cases "doy = 365") auto
  qed (use c q k doy doe in auto)
  have cyc: "doe div 1460 = 25 * c + q + (if t \<ge> 1460 then 1 else 0)"
    by (rule civil_cycle) (use c q k doy doe t_def in auto)
  define r where "r = doy - (if t \<ge> 1460 then 1 else 0)"
  have "0 \<le> r" "r < 365"
    using c q k doy unfolding r_def t_def by (cases "doy = 365"; cases "doy = 0"; auto)+
  moreover have "civil_num doe = (100 * c + 4 * q + k) * 365 + r"
  proof -
    have "civil_num doe = doe - doe div 1460 + (doe div 36524 - doe div 146096)"
      by (simp only: civil_num_def)
    also have "\<dots> = (100 * c + 4 * q + k) * 365 + r"
      unfolding cen cyc r_def using doe by (simp add: algebra_simps)
    finally show ?thesis .
  qed
  ultimately show ?thesis by (intro floor_div_eq [of r])
qed

text \<open>The same with the year of the era given as a number.\<close>

lemma year_digits:
  assumes "0 \<le> yoe" "yoe < (400::int)"
  obtains c q k where "0 \<le> c" "c \<le> 3" "0 \<le> q" "q \<le> 24" "0 \<le> k" "k \<le> 3"
    "yoe = 100 * c + 4 * q + k" "yoe div 4 = 25 * c + q" "yoe div 100 = c"
    "leap_floor (yoe + 1) \<longleftrightarrow> k = 3 \<and> (q \<noteq> 24 \<or> c = 3)"
proof -
  define c r where "c = yoe div 100" and "r = yoe mod 100"
  define q k where "q = r div 4" and "k = r mod 4"
  have r: "0 \<le> r" "r < 100" and k: "0 \<le> k" "k \<le> 3" by (simp_all add: r_def k_def)
  have req: "r = 4 * q + k" by (simp add: q_def k_def)
  have yeq: "yoe = 100 * c + r" by (simp add: c_def r_def)
  have c: "0 \<le> c" "c \<le> 3" using assms yeq r by linarith+
  have q: "0 \<le> q" "q \<le> 24" using r req k by linarith+
  have d4: "yoe div 4 = 25 * c + q" using k yeq req by (intro floor_div_eq [of k]) auto
  have m4: "(yoe + 1) mod 4 = 0 \<longleftrightarrow> k = 3"
  proof -
    have "yoe + 1 = 4 * (25 * c + q) + (k + 1)" using yeq req by simp
    then have "(yoe + 1) mod 4 = (k + 1) mod 4" by (metis mod_mult_self4)
    then show ?thesis using k by presburger
  qed
  have m100: "(yoe + 1) mod 100 = 0 \<longleftrightarrow> r = 99"
  proof -
    have "yoe + 1 = 100 * c + (r + 1)" using yeq by simp
    then have "(yoe + 1) mod 100 = (r + 1) mod 100" by (metis mod_mult_self4)
    then show ?thesis using r by (cases "r = 99") (simp_all add: mod_pos_pos_trivial)
  qed
  have m400: "(yoe + 1) mod 400 = 0 \<longleftrightarrow> yoe = 399"
    using assms by (cases "yoe = 399") (simp_all add: mod_pos_pos_trivial)
  have lp: "leap_floor (yoe + 1) \<longleftrightarrow> k = 3 \<and> (q \<noteq> 24 \<or> c = 3)"
    unfolding leap_floor_def m4 m100 m400 using yeq req c q k by auto
  show thesis
    by (rule that [OF c q k _ d4 c_def [symmetric] lp]) (use yeq req in linarith)
qed

lemma civil_yoe_eq:
  assumes "0 \<le> yoe" "yoe < 400" "0 \<le> doy" "doy \<le> 364 + (if leap_floor (yoe + 1) then 1 else 0)"
    and doe: "doe = yoe * 365 + yoe div 4 - yoe div 100 + doy"
  shows "civil_num doe div 365 = yoe"
proof -
  from year_digits [OF assms(1,2)] obtain c q k where
    d: "0 \<le> c" "c \<le> 3" "0 \<le> q" "q \<le> 24" "0 \<le> k" "k \<le> 3"
    "yoe = 100 * c + 4 * q + k" "yoe div 4 = 25 * c + q" "yoe div 100 = c"
    "leap_floor (yoe + 1) \<longleftrightarrow> k = 3 \<and> (q \<noteq> 24 \<or> c = 3)" by blast
  have "civil_num doe div 365 = 100 * c + 4 * q + k"
  proof (rule civil_num_div [OF d(1-6)])
    show "doy = 365 \<Longrightarrow> k = 3 \<and> (q \<noteq> 24 \<or> c = 3)" using assms(4) d(10) by (auto split: if_splits)
  qed (use assms d in \<open>auto split: if_splits\<close>)
  with d show ?thesis by simp
qed

text \<open>The decoder in one definition; both C copies of it are shown to be this one.\<close>

definition civil_from_days :: "int \<Rightarrow> int \<times> int \<times> int" where
  "civil_from_days days =
    (let z = days + 730425;
         era = z div 146097;
         doe = z mod 146097;
         yoe = civil_num doe div 365;
         doy = doe - (365 * yoe + yoe div 4 - yoe div 100);
         mp = (5 * doy + 2) div 153;
         m = (if mp < 10 then mp + 3 else mp - 9)
     in (yoe + era * 400 + (if m \<le> 2 then 1 else 0), m, doy - month_offset mp + 1))"

lemma month_from_days_civil:
  "q_calendar_month_from_days days =
    (case civil_from_days days of (y, m, d) \<Rightarrow> (12 * (y - 2000) + m - 1, d = 1))"
proof -
  have z: "days + 10957 + 719468 = days + 730425" by simp
  have e: "z - z div 146097 * 146097 = z mod 146097" for z :: int
    by (rule minus_div_mult_eq_mod)
  show ?thesis
    unfolding q_calendar_month_from_days_def civil_from_days_def Let_def era_day_floor
      civil_num_def month_offset_def prod.case z e by (rule refl)
qed

text \<open>Within a March year the month is recovered from the day of the year.\<close>

lemma march_doy:
  assumes "civil_ok y m d"
  defines "doy \<equiv> month_offset (march_month m) + d - 1"
  shows "(5 * doy + 2) div 153 = march_month m" "0 \<le> doy"
    "doy \<le> 364 + (if leap_floor (y - (if m \<le> 2 then 1 else 0) + 1) then 1 else 0)"
    "(if march_month m < 10 then march_month m + 3 else march_month m - 9) = m"
proof -
  have m: "1 \<le> m" "m \<le> 12" and d: "1 \<le> d" "d \<le> month_len y m"
    using assms by (auto simp: civil_ok_def)
  have hi: "5 * doy + 2 < 153 * march_month m + 153"
    and lo: "153 * march_month m \<le> 5 * doy + 2"
    using month_cases [OF m] d unfolding doy_def
    by (auto simp: month_eval split: if_splits)
  show "(5 * doy + 2) div 153 = march_month m"
    by (rule floor_div_eq [of "5 * doy + 2 - march_month m * 153"]) (use lo hi in auto)
  show "0 \<le> doy"
    using month_cases [OF m] d unfolding doy_def by (auto simp: month_eval)
  show "doy \<le> 364 + (if leap_floor (y - (if m \<le> 2 then 1 else 0) + 1) then 1 else 0)"
    using month_cases [OF m] d unfolding doy_def by (auto simp: month_eval split: if_splits)
  show "(if march_month m < 10 then march_month m + 3 else march_month m - 9) = m"
    using m by (auto simp: march_month_def)
qed

lemma leap_floor_mod: "leap_floor (y mod 400 + 1) = leap_floor (y + 1)"
proof -
  have "(y mod 400 + 1) mod n = (y + 1) mod n" if "n dvd 400" for n
    using that by (metis mod_add_left_eq mod_mod_cancel)
  then show ?thesis by (simp add: leap_floor_def)
qed

lemma civil_from_days_inverse:
  assumes ok: "civil_ok y m d"
  shows "civil_from_days (q_calendar_days_from_civil y m d) = (y, m, d)"
proof -
  define Y where "Y = y - (if m \<le> 2 then 1 else 0)"
  define doy where "doy = month_offset (march_month m) + d - 1"
  define yoe where "yoe = Y mod 400"
  define doe where "doe = yoe * 365 + yoe div 4 - yoe div 100 + doy"
  note mdoy = march_doy [OF ok, folded doy_def Y_def]
  have yoe: "0 \<le> yoe" "yoe < 400" by (simp_all add: yoe_def)
  have up: "doy \<le> 364 + (if leap_floor (yoe + 1) then 1 else 0)"
    using mdoy(3) by (simp add: yoe_def leap_floor_mod)
  have est: "civil_num doe div 365 = yoe"
    by (rule civil_yoe_eq [OF yoe mdoy(2) up doe_def])
  have rng: "0 \<le> doe" "doe < 146097"
  proof -
    from year_digits [OF yoe] obtain c q k where
      "0 \<le> c" "c \<le> 3" "0 \<le> q" "q \<le> 24" "0 \<le> k" "k \<le> 3"
      "yoe = 100 * c + 4 * q + k" "yoe div 4 = 25 * c + q" "yoe div 100 = c"
      "leap_floor (yoe + 1) \<longleftrightarrow> k = 3 \<and> (q \<noteq> 24 \<or> c = 3)" by blast
    then show "0 \<le> doe" "doe < 146097"
      using up mdoy(2) unfolding doe_def by (auto split: if_splits)
  qed
  have z: "q_calendar_days_from_civil y m d + 730425 = (Y div 400) * 146097 + doe"
    using ok by (simp add: days_from_civil_closed civil_ok_def march_days_era Y_def doe_def yoe_def doy_def)
  have era: "(q_calendar_days_from_civil y m d + 730425) div 146097 = Y div 400"
    by (rule floor_div_eq [OF rng z])
  have rem: "(q_calendar_days_from_civil y m d + 730425) mod 146097 = doe"
    unfolding z mod_mult_self3 using rng by (rule mod_pos_pos_trivial)
  have day: "doe - (365 * yoe + yoe div 4 - yoe div 100) = doy" by (simp add: doe_def)
  have year: "yoe + Y div 400 * 400 + (if m \<le> 2 then 1 else 0) = y"
    unfolding yoe_def mod_div_mult_eq by (simp add: Y_def)
  have dom: "doy - month_offset (march_month m) + 1 = d" by (simp add: doy_def)
  show ?thesis
    unfolding civil_from_days_def Let_def era rem est day mdoy(1) mdoy(4) year dom by (rule refl)
qed

section \<open>The other encoders\<close>

lemma years_by_days_march: "1 \<le> y \<Longrightarrow> date_years_by_days (y - 1) = march_days (y - 1)"
  by (simp add: date_years_by_days_def march_days_def sdiv_nonneg)

lemma ymd_to_date_civil:
  assumes ok: "civil_ok y m d" and y: "1 \<le> y"
  shows "ymd_to_date y m d = q_calendar_days_from_civil y m d"
proof -
  have m: "1 \<le> m" "m \<le> 12" using ok by (auto simp: civil_ok_def)
  have e: "date_years_by_days (RAY_DATE_EPOCH - 1) = 730119"
    by (simp add: date_years_by_days_def sdiv_nonneg)
  have "ymd_to_date y m d = march_days (y - 1) - 730119
      + MONTHDAYS ! (if leap_floor y then 1 else 0) ! nat (m - 1) + d - 1"
    unfolding ymd_to_date_def Let_def e using y m
    by (simp add: years_by_days_march date_leap_year_floor)
  also have "\<dots> = q_calendar_days_from_civil y m d"
    using month_cases [OF m] unfolding days_from_civil_closed [OF m(1)]
    by (auto simp: MONTHDAYS_def month_eval march_days_pred)
  finally show ?thesis .
qed

lemma month_payload_civil:
  "month_payload_as_days p = q_calendar_days_from_civil (2000 + p div 12) (1 + p mod 12) 1"
proof -
  have y: "(if p \<ge> 0 then p sdiv 12 else - ((- p + 11) sdiv 12)) = p div 12"
  proof (cases "p \<ge> 0")
    case False
    then have "(- p + 11) sdiv 12 = (11 - p) div 12" by (simp add: sdiv_nonneg)
    also have "\<dots> = - (p div 12)"
    proof (rule floor_div_eq [of "11 - p mod 12"])
      show "11 - p = - (p div 12) * 12 + (11 - p mod 12)"
        using div_mult_mod_eq [of p 12] by linarith
    qed simp_all
    finally show ?thesis using False by simp
  qed (simp add: sdiv_nonneg)
  have m: "(p smod 12 + 12) smod 12 = p mod 12" by (rule smod_floor) simp
  show ?thesis
    unfolding month_payload_as_days_def q_calendar_days_from_civil_def y m Let_def by simp
qed

section \<open>Timestamps\<close>

lemma ts_days_floor_div: "ts_days_floor ns = ns div NS_PER_DAY"
  unfolding ts_days_floor_def Let_def by (rule sdiv_floor_adjust) simp

lemma ts_ns_in_day_mod: "ts_ns_in_day ns = ns mod NS_PER_DAY"
proof (cases "0 \<le> ns")
  case True
  then show ?thesis by (simp add: ts_ns_in_day_def smod_nonneg Let_def not_less)
next
  case False
  then have "ns smod NS_PER_DAY = - ((- ns) mod NS_PER_DAY)" by (simp add: smod_neg)
  then show ?thesis
    by (auto simp: ts_ns_in_day_def Let_def zmod_zminus1_eq_if split: if_splits)
qed

section \<open>Properties\<close>

text \<open>
  C1. The civil encoder counts days. 2000.01.01 is day 0, and for every date of the literal domain
  the day after it (next day of the month, first of the next month, first of January) has the
  next number.
\<close>

theorem civil_day_count:
  assumes "q_calendar_date_valid y m d"
  shows "q_calendar_days_from_civil 2000 1 1 = 0 \<and>
    (case next_civil y m d of (y', m', d') \<Rightarrow> q_calendar_days_from_civil y' m' d')
      = q_calendar_days_from_civil y m d + 1"
  using days_from_civil_next [OF date_valid_civil_ok [OF assms]]
  by (simp add: days_from_civil_closed march_days_def month_eval)

theorem civil_day_count_witness:
  "q_calendar_date_valid 2024 2 29 \<and>
   q_calendar_days_from_civil 2024 3 1 = q_calendar_days_from_civil 2024 2 29 + 1"
proof -
  have v: "q_calendar_date_valid 2024 2 29" by code_simp
  have n: "next_civil 2024 2 29 = (2024, 3, 1)" by code_simp
  show ?thesis using civil_day_count [OF v] v unfolding n by simp
qed

text \<open>
  The three encoders of the code base agree: on every valid date \<open>ymd_to_date\<close> (cumulative
  month table) gives the same day count as \<open>q_calendar_days_from_civil\<close> (era arithmetic), and a
  month payload decodes to the first day of its month.
\<close>

theorem civil_encoders_agree:
  assumes "q_calendar_date_valid y m d"
  shows "ymd_to_date y m d = q_calendar_days_from_civil y m d \<and>
    month_payload_as_days (12 * (y - 2000) + m - 1) = q_calendar_days_from_civil y m 1"
proof
  have ok: "civil_ok y m d" and y: "1 \<le> y"
    using assms date_valid_civil_ok by (auto simp: q_calendar_date_valid_def split: if_splits)
  show "ymd_to_date y m d = q_calendar_days_from_civil y m d"
    using ok y by (rule ymd_to_date_civil)
  have m: "0 \<le> m - 1" "m - 1 < 12" using ok by (auto simp: civil_ok_def)
  have p: "12 * (y - 2000) + m - 1 = (y - 2000) * 12 + (m - 1)" by simp
  have "(12 * (y - 2000) + m - 1) div 12 = y - 2000" by (rule floor_div_eq [OF m p])
  moreover have "(12 * (y - 2000) + m - 1) mod 12 = m - 1"
    unfolding p mod_mult_self3 using m by (rule mod_pos_pos_trivial)
  ultimately show "month_payload_as_days (12 * (y - 2000) + m - 1) = q_calendar_days_from_civil y m 1"
    unfolding month_payload_civil by simp
qed

theorem civil_encoders_agree_witness:
  "q_calendar_date_valid 1900 3 1 \<and> ymd_to_date 1900 3 1 = q_calendar_days_from_civil 1900 3 1"
proof -
  have v: "q_calendar_date_valid 1900 3 1" by code_simp
  show ?thesis using civil_encoders_agree [OF v] v by simp
qed

text \<open>
  Decoding a day count to a month inverts the encoder: for every valid date the payload is the
  month of the date, and the flag says whether the date is the first of its month.
\<close>

theorem month_from_days_inverts:
  assumes "q_calendar_date_valid y m d"
  shows "q_calendar_month_from_days (q_calendar_days_from_civil y m d)
       = (12 * (y - 2000) + m - 1, d = 1)"
  unfolding month_from_days_civil civil_from_days_inverse [OF date_valid_civil_ok [OF assms]]
  by simp

theorem month_from_days_inverts_witness:
  "q_calendar_date_valid 1 1 1 \<and>
   q_calendar_month_from_days (q_calendar_days_from_civil 1 1 1) = (-23988, True)"
proof -
  have v: "q_calendar_date_valid 1 1 1" by code_simp
  show ?thesis using month_from_days_inverts [OF v] v by simp
qed

text \<open>
  C2. Splitting a timestamp into day and time of day and composing it again is exact, the time of
  day is inside the day, and the saturating composition is the exact value clamped to the range
  between the two 64-bit infinities.
\<close>

theorem timestamp_split_compose:
  assumes "- INT64_MAX \<le> ns" "ns \<le> INT64_MAX"
  shows "ts_compose_checked (ts_days_floor ns) (ts_ns_in_day ns) = Some ns \<and>
    0 \<le> ts_ns_in_day ns \<and> ts_ns_in_day ns < NS_PER_DAY \<and>
    q_calendar_ts_compose days tod = max (- INT64_MAX) (min INT64_MAX (days * NS_PER_DAY + tod))"
proof -
  have "ts_days_floor ns * NS_PER_DAY + ts_ns_in_day ns = ns"
    unfolding ts_days_floor_div ts_ns_in_day_mod by (rule div_mult_mod_eq)
  with assms have "ts_compose_checked (ts_days_floor ns) (ts_ns_in_day ns) = Some ns"
    by (simp add: ts_compose_checked_def)
  moreover have "q_calendar_ts_compose days tod = max (- INT64_MAX) (min INT64_MAX (days * NS_PER_DAY + tod))"
    by (auto simp: q_calendar_ts_compose_def ts_compose_checked_def Let_def)
  ultimately show ?thesis by (simp add: ts_ns_in_day_mod)
qed

theorem timestamp_split_compose_witness:
  "ts_compose_checked (ts_days_floor (-1)) (ts_ns_in_day (-1)) = Some (-1) \<and>
   q_calendar_ts_compose (-106752) 763145224194 = -9223372036854775806"
  using timestamp_split_compose [of "-1" "-106752" "763145224194"] by simp

end
