(* ===== verification/Temporal.thy ===== *)
theory Temporal
  imports Calendar
begin

text \<open>
  Field extraction and truncation of temporal values, \<^verbatim>\<open>src/ops/temporal.c\<close>. The file has two
  extractors, the standalone \<open>ray_temporal_extract\<close> over \<open>rte_extract_one\<close> and the column operator
  \<open>exec_extract\<close> with its own inlined kernel, and two truncations. A vector is its element type,
  its has-nulls flag and its raw cells; a cell of a flagged vector is null when it holds the
  sentinel of its type (\<open>ray_vec_is_null\<close>), and writing a null sets sentinel and flag.

  Shown: the calendar and clock fields of a timestamp built from a date and a time of day are the
  ones it was built from, day of week and day of year agree with the day count, the two extractors
  agree, month truncation is the first day of the month.
\<close>

section \<open>Codes and types\<close>

abbreviation RAY_EXTRACT_YEAR :: nat where "RAY_EXTRACT_YEAR \<equiv> 0"
abbreviation RAY_EXTRACT_MONTH :: nat where "RAY_EXTRACT_MONTH \<equiv> 1"
abbreviation RAY_EXTRACT_DAY :: nat where "RAY_EXTRACT_DAY \<equiv> 2"
abbreviation RAY_EXTRACT_HOUR :: nat where "RAY_EXTRACT_HOUR \<equiv> 3"
abbreviation RAY_EXTRACT_MINUTE :: nat where "RAY_EXTRACT_MINUTE \<equiv> 4"
abbreviation RAY_EXTRACT_SECOND :: nat where "RAY_EXTRACT_SECOND \<equiv> 5"
abbreviation RAY_EXTRACT_DOW :: nat where "RAY_EXTRACT_DOW \<equiv> 6"
abbreviation RAY_EXTRACT_DOY :: nat where "RAY_EXTRACT_DOY \<equiv> 7"
abbreviation RAY_EXTRACT_EPOCH :: nat where "RAY_EXTRACT_EPOCH \<equiv> 8"

abbreviation USEC_PER_SEC :: int where "USEC_PER_SEC \<equiv> 1000000"
abbreviation USEC_PER_MIN :: int where "USEC_PER_MIN \<equiv> 60000000"
abbreviation USEC_PER_HOUR :: int where "USEC_PER_HOUR \<equiv> 3600000000"
abbreviation USEC_PER_DAY :: int where "USEC_PER_DAY \<equiv> 86400000000"

datatype ttype = TDate | TTime | TTimestamp | TOther

abbreviation NULL_I64 :: int where "NULL_I64 \<equiv> - 9223372036854775808"
abbreviation NULL_I32 :: int where "NULL_I32 \<equiv> - 2147483648"

fun sentinel_of :: "ttype \<Rightarrow> int" where
  "sentinel_of TDate = NULL_I32"
| "sentinel_of TTime = NULL_I32"
| "sentinel_of TTimestamp = NULL_I64"
| "sentinel_of TOther = NULL_I64"

record tvec =
  tv_type :: ttype
  tv_has_nulls :: bool
  tv_data :: "int list"

definition ray_vec_is_null :: "tvec \<Rightarrow> int \<Rightarrow> bool" where
  "ray_vec_is_null v cell \<longleftrightarrow> tv_has_nulls v \<and> cell = sentinel_of (tv_type v)"

section \<open>The standalone extractor\<close>

definition dbm :: "int list" where
  "dbm = [0, 0, 31, 59, 90, 120, 151, 181, 212, 243, 273, 304, 334]"

definition rte_extract_one :: "int \<Rightarrow> nat \<Rightarrow> int" where
  "rte_extract_one us field =
    (if field = RAY_EXTRACT_EPOCH then us
     else if field = RAY_EXTRACT_HOUR then
       (let day_us = us smod USEC_PER_DAY;
            day_us' = (if day_us < 0 then day_us + USEC_PER_DAY else day_us)
        in day_us' sdiv USEC_PER_HOUR)
     else if field = RAY_EXTRACT_MINUTE then
       (let day_us = us smod USEC_PER_DAY;
            day_us' = (if day_us < 0 then day_us + USEC_PER_DAY else day_us)
        in (day_us' smod USEC_PER_HOUR) sdiv USEC_PER_MIN)
     else if field = RAY_EXTRACT_SECOND then
       (let day_us = us smod USEC_PER_DAY;
            day_us' = (if day_us < 0 then day_us + USEC_PER_DAY else day_us)
        in (day_us' smod USEC_PER_MIN) sdiv USEC_PER_SEC)
     else
       (let q = us sdiv USEC_PER_DAY;
            days_since_2000 = (if us < 0 \<and> us smod USEC_PER_DAY \<noteq> 0 then q - 1 else q);
            z = days_since_2000 + 10957 + 719468;
            era = (if z \<ge> 0 then z else z - 146096) sdiv 146097;
            doe = z - era * 146097;
            yoe = (doe - doe div 1460 + doe div 36524 - doe div 146096) div 365;
            y0 = yoe + era * 400;
            doy_mar = doe - (365 * yoe + yoe div 4 - yoe div 100);
            mp = (5 * doy_mar + 2) div 153;
            d = doy_mar - (153 * mp + 2) div 5 + 1;
            mo = (if mp < 10 then mp + 3 else mp - 9);
            y = y0 + (if mo \<le> 2 then 1 else 0)
        in if field = RAY_EXTRACT_YEAR then y
           else if field = RAY_EXTRACT_MONTH then mo
           else if field = RAY_EXTRACT_DAY then d
           else if field = RAY_EXTRACT_DOW then ((days_since_2000 smod 7) + 7 + 5) smod 7 + 1
           else if field = RAY_EXTRACT_DOY then
             (if mo < 1 \<or> mo > 12 then 0
              else (let leap = (y smod 4 = 0 \<and> (y smod 100 \<noteq> 0 \<or> y smod 400 = 0));
                        doy_jan = dbm ! nat mo + d
                    in if mo > 2 \<and> leap then doy_jan + 1 else doy_jan))
           else 0))"

definition rte_to_us :: "ttype \<Rightarrow> int \<Rightarrow> int" where
  "rte_to_us t raw =
    (if t = TDate then wrap_i64 (raw * USEC_PER_DAY)
     else if t = TTime then wrap_i64 (raw * 1000)
     else (let q = raw sdiv 1000; r = raw smod 1000 in if r < 0 then q - 1 else q))"

definition rte_us_to_ts_raw :: "int \<Rightarrow> int" where
  "rte_us_to_ts_raw us = us * 1000"

text \<open>
  Writing one result cell of a vector loop: a null source cell becomes the sentinel and sets the
  flag of the result, any other cell is the kernel's value.
\<close>

definition map_cells :: "tvec \<Rightarrow> (int \<Rightarrow> int) \<Rightarrow> bool \<times> int list" where
  "map_cells v f =
    (list_ex (ray_vec_is_null v) (tv_data v),
     map (\<lambda>c. if ray_vec_is_null v c then NULL_I64 else f c) (tv_data v))"

definition ray_temporal_extract_vec :: "tvec \<Rightarrow> nat \<Rightarrow> (bool \<times> int list) qres" where
  "ray_temporal_extract_vec v field =
    (if tv_type v = TOther then Inl QE_TYPE
     else Inr (map_cells v (\<lambda>c. rte_extract_one (rte_to_us (tv_type v) c) field)))"

definition ray_temporal_extract_atom :: "ttype \<Rightarrow> int \<Rightarrow> nat \<Rightarrow> int qres" where
  "ray_temporal_extract_atom t raw field =
    (if t = TOther then Inl QE_TYPE
     else if raw = sentinel_of t then Inr NULL_I64
     else Inr (rte_extract_one (rte_to_us t raw) field))"

definition truncate_us :: "int \<Rightarrow> nat \<Rightarrow> int" where
  "truncate_us us kind =
    (let bucket = (if kind = RAY_EXTRACT_DAY then USEC_PER_DAY else USEC_PER_SEC);
         r = us smod bucket
     in us - r - (if r < 0 then bucket else 0))"

definition ray_temporal_truncate_vec :: "tvec \<Rightarrow> nat \<Rightarrow> (bool \<times> int list) qres" where
  "ray_temporal_truncate_vec v kind =
    (if tv_type v = TOther then Inl QE_TYPE
     else Inr (map_cells v (\<lambda>c. rte_us_to_ts_raw (truncate_us (rte_to_us (tv_type v) c) kind))))"

definition ray_temporal_truncate_atom :: "ttype \<Rightarrow> int \<Rightarrow> nat \<Rightarrow> int qres" where
  "ray_temporal_truncate_atom t raw kind =
    (if t = TOther then Inl QE_TYPE
     else if raw = sentinel_of t then Inr NULL_I64
     else Inr (rte_us_to_ts_raw (truncate_us (rte_to_us t raw) kind)))"

definition rte_day_of_us :: "int \<Rightarrow> int" where
  "rte_day_of_us us =
    (let days = us sdiv USEC_PER_DAY
     in if us < 0 \<and> us smod USEC_PER_DAY \<noteq> 0 then days - 1 else days)"

definition rte_ms_of_us :: "int \<Rightarrow> int" where
  "rte_ms_of_us us =
    (let day_us = us smod USEC_PER_DAY;
         day_us' = (if day_us < 0 then day_us + USEC_PER_DAY else day_us)
     in day_us' sdiv 1000)"

section \<open>The column operators\<close>

text \<open>
  The kernels of \<open>exec_extract\<close> and \<open>exec_date_trunc\<close>, macros of the C file. Their scaling and their
  negation are plain signed arithmetic, which C leaves undefined where it overflows: \<open>cell_defined\<close> says for
  which cells it does not (a null cell is not scaled at all), and the other cells have the value the
  machine computes.
\<close>

definition exec_cell_us :: "ttype \<Rightarrow> int \<Rightarrow> int" where
  "exec_cell_us in_type raw =
    (if in_type = TDate \<or> in_type = TTime then
       (if in_type = TDate then wrap_i64 (raw * USEC_PER_DAY) else wrap_i64 (raw * 1000))
     else (if raw \<ge> 0 then raw sdiv 1000 else - (wrap_i64 (wrap_i64 (- raw) + 999) sdiv 1000)))"

definition cell_defined :: "tvec \<Rightarrow> int \<Rightarrow> bool" where
  "cell_defined v raw \<longleftrightarrow> ray_vec_is_null v raw \<or>
    (case tv_type v of
       TDate \<Rightarrow> in_i64 (raw * USEC_PER_DAY)
     | TTime \<Rightarrow> in_i64 (raw * 1000)
     | _ \<Rightarrow> in_i64 raw \<and> in_i64 (- raw + 999))"

definition exec_extract_us :: "int \<Rightarrow> nat \<Rightarrow> int" where
  "exec_extract_us us field =
    (if field = RAY_EXTRACT_EPOCH then us
     else if field = RAY_EXTRACT_HOUR then
       (let day_us = us smod USEC_PER_DAY;
            day_us' = (if day_us < 0 then day_us + USEC_PER_DAY else day_us)
        in day_us' sdiv USEC_PER_HOUR)
     else if field = RAY_EXTRACT_MINUTE then
       (let day_us = us smod USEC_PER_DAY;
            day_us' = (if day_us < 0 then day_us + USEC_PER_DAY else day_us)
        in (day_us' smod USEC_PER_HOUR) sdiv USEC_PER_MIN)
     else if field = RAY_EXTRACT_SECOND then
       (let day_us = us smod USEC_PER_DAY;
            day_us' = (if day_us < 0 then day_us + USEC_PER_DAY else day_us)
        in (day_us' smod USEC_PER_MIN) sdiv USEC_PER_SEC)
     else
       (let q = us sdiv USEC_PER_DAY;
            days_since_2000 = (if us < 0 \<and> us smod USEC_PER_DAY \<noteq> 0 then q - 1 else q);
            z = days_since_2000 + 10957 + 719468;
            era = (if z \<ge> 0 then z else z - 146096) sdiv 146097;
            doe = z - era * 146097;
            yoe = (doe - doe div 1460 + doe div 36524 - doe div 146096) div 365;
            y0 = yoe + era * 400;
            doy_mar = doe - (365 * yoe + yoe div 4 - yoe div 100);
            mp = (5 * doy_mar + 2) div 153;
            d_cal = doy_mar - (153 * mp + 2) div 5 + 1;
            mo = (if mp < 10 then mp + 3 else mp - 9);
            y = y0 + (if mo \<le> 2 then 1 else 0)
        in if field = RAY_EXTRACT_YEAR then y
           else if field = RAY_EXTRACT_MONTH then mo
           else if field = RAY_EXTRACT_DAY then d_cal
           else if field = RAY_EXTRACT_DOW then ((days_since_2000 smod 7) + 7 + 5) smod 7 + 1
           else if field = RAY_EXTRACT_DOY then
             (if mo < 1 \<or> mo > 12 then 0
              else (let leap = (y smod 4 = 0 \<and> (y smod 100 \<noteq> 0 \<or> y smod 400 = 0));
                        doy_jan = dbm ! nat mo + d_cal
                    in if mo > 2 \<and> leap then doy_jan + 1 else doy_jan))
           else 0))"

definition exec_extract :: "tvec \<Rightarrow> nat \<Rightarrow> bool \<times> int list" where
  "exec_extract v field = map_cells v (\<lambda>c. exec_extract_us (exec_cell_us (tv_type v) c) field)"

definition days_from_civil :: "int \<Rightarrow> int \<Rightarrow> int \<Rightarrow> int" where
  "days_from_civil y0 m d =
    (let y = y0 - (if m \<le> 2 then 1 else 0);
         era = (if y \<ge> 0 then y else y - 399) sdiv 400;
         yoe = y - era * 400;
         doy = (153 * (if m > 2 then m - 3 else m + 9) + 2) sdiv 5 + d - 1;
         doe = yoe * 365 + yoe sdiv 4 - yoe sdiv 100 + doy
     in era * 146097 + doe - 719468 - 10957)"

definition trunc_civil :: "int \<Rightarrow> int \<times> int" where
  "trunc_civil us =
    (let q = us sdiv USEC_PER_DAY;
         days2k = (if us < 0 \<and> us smod USEC_PER_DAY \<noteq> 0 then q - 1 else q);
         z = days2k + 10957 + 719468;
         era = (if z \<ge> 0 then z else z - 146096) sdiv 146097;
         doe = z - era * 146097;
         yoe = (doe - doe div 1460 + doe div 36524 - doe div 146096) div 365;
         y0 = yoe + era * 400;
         doy_mar = doe - (365 * yoe + yoe div 4 - yoe div 100);
         mp = (5 * doy_mar + 2) div 153;
         mo = (if mp < 10 then mp + 3 else mp - 9)
     in (y0 + (if mo \<le> 2 then 1 else 0), mo))"

definition trunc_bucket :: "int \<Rightarrow> int \<Rightarrow> int" where
  "trunc_bucket us bucket = (let r = us smod bucket in us - r - (if r < 0 then bucket else 0))"

definition date_trunc_us :: "int \<Rightarrow> nat \<Rightarrow> int" where
  "date_trunc_us us field =
    (if field = RAY_EXTRACT_SECOND then trunc_bucket us USEC_PER_SEC
     else if field = RAY_EXTRACT_MINUTE then trunc_bucket us USEC_PER_MIN
     else if field = RAY_EXTRACT_HOUR then trunc_bucket us USEC_PER_HOUR
     else if field = RAY_EXTRACT_DAY then trunc_bucket us USEC_PER_DAY
     else if field = RAY_EXTRACT_MONTH then
       (let (y, mo) = trunc_civil us in days_from_civil y mo 1 * USEC_PER_DAY)
     else if field = RAY_EXTRACT_YEAR then
       (let (y, mo) = trunc_civil us in days_from_civil y 1 1 * USEC_PER_DAY)
     else us)"

definition exec_date_trunc :: "tvec \<Rightarrow> nat \<Rightarrow> bool \<times> int list" where
  "exec_date_trunc v field =
    map_cells v (\<lambda>c. wrap_i64 (date_trunc_us (exec_cell_us (tv_type v) c) field * 1000))"

section \<open>Fields in closed form\<close>

lemmas day_adjust = sdiv_adjust_mod [of USEC_PER_DAY, OF zero_less_numeral]
lemmas tod_adjust = smod_adjust [of USEC_PER_DAY, OF zero_less_numeral]

lemma era_doe: "z - z div 146097 * 146097 = z mod 146097" for z :: int
  by (rule minus_div_mult_eq_mod)

lemma epoch_shift: "days + 10957 + 719468 = days + (730425::int)"
  by simp

lemma rte_extract_calendar:
  assumes "field \<notin> {3, 4, 5, 8}"
  shows "rte_extract_one us field =
    (case civil_from_days (us div USEC_PER_DAY) of (y, m, d) \<Rightarrow>
       if field = RAY_EXTRACT_YEAR then y
       else if field = RAY_EXTRACT_MONTH then m
       else if field = RAY_EXTRACT_DAY then d
       else if field = RAY_EXTRACT_DOW then (((us div USEC_PER_DAY) smod 7) + 7 + 5) smod 7 + 1
       else if field = RAY_EXTRACT_DOY then
         (if m < 1 \<or> m > 12 then 0
          else if m > 2 \<and> leap_rule y then dbm ! nat m + d + 1 else dbm ! nat m + d)
       else 0)"
proof -
  have f: "(field = 8) = False" "(field = 3) = False" "(field = 4) = False" "(field = 5) = False"
    using assms by auto
  show ?thesis
    unfolding rte_extract_one_def f if_False Let_def day_adjust epoch_shift era_day_floor era_doe
      civil_from_days_def civil_num_def month_offset_def prod.case leap_rule_def by (rule refl)
qed

lemma rte_extract_clock:
  "rte_extract_one us RAY_EXTRACT_HOUR = (us mod USEC_PER_DAY) div USEC_PER_HOUR"
  "rte_extract_one us RAY_EXTRACT_MINUTE = (us mod USEC_PER_DAY) mod USEC_PER_HOUR div USEC_PER_MIN"
  "rte_extract_one us RAY_EXTRACT_SECOND = (us mod USEC_PER_DAY) mod USEC_PER_MIN div USEC_PER_SEC"
  unfolding rte_extract_one_def Let_def tod_adjust by (simp_all add: sdiv_nonneg smod_nonneg)

lemma exec_extract_us_rte: "exec_extract_us us field = rte_extract_one us field"
  unfolding exec_extract_us_def rte_extract_one_def by (rule refl)

lemma trunc_civil_eq: "trunc_civil us = (case civil_from_days (us div USEC_PER_DAY) of (y, m, d) \<Rightarrow> (y, m))"
  unfolding trunc_civil_def Let_def day_adjust epoch_shift era_day_floor era_doe
    civil_from_days_def civil_num_def prod.case by (rule refl)

lemma days_from_civil_eq: "days_from_civil y m d = q_calendar_days_from_civil y m d"
proof -
  have "m + (if m > 2 then -3 else 9) = (if m > 2 then m - 3 else m + 9)" by simp
  then show ?thesis
    unfolding days_from_civil_def q_calendar_days_from_civil_def Let_def by (simp only:)
qed

lemma trunc_bucket_floor: "0 < b \<Longrightarrow> trunc_bucket us b = us - us mod b"
  unfolding trunc_bucket_def Let_def using smod_adjust [of b us] by (auto split: if_splits)

text \<open>Composing a day and a time of day.\<close>

lemma compose_split:
  assumes "0 \<le> tod" "tod < USEC_PER_DAY"
  shows "(days * USEC_PER_DAY + tod) div USEC_PER_DAY = days"
    "(days * USEC_PER_DAY + tod) mod USEC_PER_DAY = tod"
proof -
  show "(days * USEC_PER_DAY + tod) div USEC_PER_DAY = days"
    by (rule floor_div_eq [OF assms refl])
  show "(days * USEC_PER_DAY + tod) mod USEC_PER_DAY = tod"
    unfolding mod_mult_self3 using assms by (rule mod_pos_pos_trivial)
qed

lemma clock_digits:
  assumes "0 \<le> tod"
  shows "tod = (tod div USEC_PER_HOUR) * USEC_PER_HOUR + (tod mod USEC_PER_HOUR div USEC_PER_MIN) * USEC_PER_MIN
      + (tod mod USEC_PER_MIN div USEC_PER_SEC) * USEC_PER_SEC + tod mod USEC_PER_SEC"
proof -
  have a: "tod mod USEC_PER_HOUR mod USEC_PER_MIN = tod mod USEC_PER_MIN" for tod :: int
    by (rule mod_mod_cancel) simp
  have b: "tod mod USEC_PER_MIN mod USEC_PER_SEC = tod mod USEC_PER_SEC" for tod :: int
    by (rule mod_mod_cancel) simp
  show ?thesis
    using div_mult_mod_eq [of tod USEC_PER_HOUR] div_mult_mod_eq [of "tod mod USEC_PER_HOUR" USEC_PER_MIN]
      div_mult_mod_eq [of "tod mod USEC_PER_MIN" USEC_PER_SEC]
    unfolding a b by (simp only:)
qed

lemma exec_cell_us_rte:
  assumes "cell_defined v c" "\<not> ray_vec_is_null v c"
  shows "exec_cell_us (tv_type v) c = rte_to_us (tv_type v) c"
proof (cases "tv_type v = TDate \<or> tv_type v = TTime")
  case False
  then have r: "in_i64 c" "in_i64 (- c + 999)" using assms by (auto simp: cell_defined_def split: ttype.splits)
  have f: "(if c \<ge> 0 then c sdiv 1000 else - ((- c + 999) sdiv 1000)) = c div 1000"
  proof (cases "c \<ge> 0")
    case False
    then have "- ((- c + 999) sdiv 1000) = (c - 999) sdiv 1000" by (simp add: sdiv_nonneg sdiv_neg)
    with False sdiv_floor_shift [of 1000 c] show ?thesis by (simp split: if_splits)
  qed (simp add: sdiv_nonneg)
  have w: "c < 0 \<Longrightarrow> wrap_i64 (wrap_i64 (- c) + 999) = - c + 999"
    using r by (simp add: in_i64_def wrap_i64_id)
  have g: "(let q = c sdiv 1000; r = c smod 1000 in if r < 0 then q - 1 else q) = c div 1000"
    unfolding Let_def smod_sdiv_eq by (rule sdiv_floor_adjust) simp
  show ?thesis using False f w unfolding exec_cell_us_def rte_to_us_def g by (auto split: if_splits)
qed (auto simp: exec_cell_us_def rte_to_us_def)

lemma civil_of_composed:
  assumes "q_calendar_date_valid y m d" "0 \<le> tod" "tod < USEC_PER_DAY"
  shows "civil_from_days ((q_calendar_days_from_civil y m d * USEC_PER_DAY + tod) div USEC_PER_DAY) = (y, m, d)"
  unfolding compose_split(1) [OF assms(2,3)]
  by (rule civil_from_days_inverse [OF date_valid_civil_ok [OF assms(1)]])

lemma doy_from_day_count:
  assumes "civil_ok y m d"
  shows "(if m > 2 \<and> leap_rule y then dbm ! nat m + d + 1 else dbm ! nat m + d)
       = q_calendar_days_from_civil y m d - q_calendar_days_from_civil y 1 1 + 1"
proof -
  have m: "1 \<le> m" "m \<le> 12" using assms by (auto simp: civil_ok_def)
  show ?thesis using month_cases [OF m]
    unfolding leap_rule_floor days_from_civil_closed [OF m(1)] days_from_civil_closed [OF order.refl]
    by (auto simp: dbm_def month_eval march_days_pred)
qed

section \<open>Properties\<close>

text \<open>
  C3. Extraction inverts composition. For a timestamp (in microseconds) composed of a valid date
  and a time of day, the year, month and day fields are those of the date, and hour, minute and
  second are the clock digits of the time of day, each in its range.
\<close>

theorem extract_inverts_compose:
  assumes v: "q_calendar_date_valid y m d" and t: "0 \<le> tod" "tod < USEC_PER_DAY"
  defines "us \<equiv> q_calendar_days_from_civil y m d * USEC_PER_DAY + tod"
  shows "rte_extract_one us RAY_EXTRACT_YEAR = y \<and> rte_extract_one us RAY_EXTRACT_MONTH = m \<and>
    rte_extract_one us RAY_EXTRACT_DAY = d \<and>
    tod = rte_extract_one us RAY_EXTRACT_HOUR * USEC_PER_HOUR
        + rte_extract_one us RAY_EXTRACT_MINUTE * USEC_PER_MIN
        + rte_extract_one us RAY_EXTRACT_SECOND * USEC_PER_SEC + tod mod USEC_PER_SEC \<and>
    rte_extract_one us RAY_EXTRACT_HOUR < 24 \<and> rte_extract_one us RAY_EXTRACT_MINUTE < 60 \<and>
    rte_extract_one us RAY_EXTRACT_SECOND < 60"
proof -
  have civ: "civil_from_days (us div USEC_PER_DAY) = (y, m, d)"
    unfolding us_def by (rule civil_of_composed [OF v t])
  have tod: "us mod USEC_PER_DAY = tod" unfolding us_def by (rule compose_split(2) [OF t])
  have cal: "rte_extract_one us RAY_EXTRACT_YEAR = y" "rte_extract_one us RAY_EXTRACT_MONTH = m"
    "rte_extract_one us RAY_EXTRACT_DAY = d"
    by (subst rte_extract_calendar; simp add: civ)+
  have lt: "tod div USEC_PER_HOUR < 24" "tod mod USEC_PER_HOUR div USEC_PER_MIN < 60"
    "tod mod USEC_PER_MIN div USEC_PER_SEC < 60"
    using t by (simp_all add: div_less_iff_less_mult)
  show ?thesis
    using cal clock_digits [OF t(1)] lt unfolding rte_extract_clock tod by blast
qed

theorem extract_inverts_compose_witness:
  "q_calendar_date_valid 1999 12 31 \<and>
   rte_extract_one (q_calendar_days_from_civil 1999 12 31 * USEC_PER_DAY + 86399999999) RAY_EXTRACT_YEAR = 1999"
proof -
  have v: "q_calendar_date_valid 1999 12 31" by code_simp
  show ?thesis using extract_inverts_compose [OF v, of 86399999999] v by simp
qed

text \<open>
  day of year and day of week agree with the day count: the day of the year is the distance
  from the first of January plus one, and the day of the week runs Monday = 1 to Sunday = 7 with
  2000.01.01 a Saturday.
\<close>

theorem extract_dow_doy:
  assumes v: "q_calendar_date_valid y m d" and t: "0 \<le> tod" "tod < USEC_PER_DAY"
  defines "days \<equiv> q_calendar_days_from_civil y m d"
  shows "rte_extract_one (days * USEC_PER_DAY + tod) RAY_EXTRACT_DOY
           = days - q_calendar_days_from_civil y 1 1 + 1 \<and>
         rte_extract_one (days * USEC_PER_DAY + tod) RAY_EXTRACT_DOW = (days + 5) mod 7 + 1"
proof
  have ok: "civil_ok y m d" by (rule date_valid_civil_ok [OF v])
  have civ: "civil_from_days ((days * USEC_PER_DAY + tod) div USEC_PER_DAY) = (y, m, d)"
    unfolding days_def by (rule civil_of_composed [OF v t])
  have m: "\<not> (m < 1 \<or> 12 < m)" using ok by (auto simp: civil_ok_def)
  show "rte_extract_one (days * USEC_PER_DAY + tod) RAY_EXTRACT_DOY
      = days - q_calendar_days_from_civil y 1 1 + 1"
    using rte_extract_calendar [of RAY_EXTRACT_DOY "days * USEC_PER_DAY + tod", unfolded civ]
      doy_from_day_count [OF ok] m by (simp add: days_def)
  have "((days smod 7) + 7 + 5) smod 7 = (days + 5) mod 7"
  proof -
    have "0 \<le> (days smod 7) + 7" using smod_int_range [where a = days and b = 7] by simp
    then have "((days smod 7) + 7 + 5) smod 7 = ((days smod 7 + 7) mod 7 + 5) mod 7"
      unfolding mod_add_left_eq by (intro smod_nonneg) simp_all
    also have "(days smod 7 + 7) mod 7 = days mod 7"
      using smod_floor [of 7 days] \<open>0 \<le> days smod 7 + 7\<close> by (simp only: smod_nonneg zero_less_numeral)
    finally show ?thesis by (simp only: mod_add_left_eq)
  qed
  then show "rte_extract_one (days * USEC_PER_DAY + tod) RAY_EXTRACT_DOW = (days + 5) mod 7 + 1"
    using rte_extract_calendar [of RAY_EXTRACT_DOW "days * USEC_PER_DAY + tod",
        unfolded civ compose_split(1) [OF t]] by simp
qed

theorem extract_dow_doy_witness:
  "q_calendar_date_valid 2024 12 31 \<and>
   rte_extract_one (q_calendar_days_from_civil 2024 12 31 * USEC_PER_DAY + 0) RAY_EXTRACT_DOY = 366"
proof -
  have v: "q_calendar_date_valid 2024 12 31" by code_simp
  have e: "q_calendar_days_from_civil 2024 12 31 - q_calendar_days_from_civil 2024 1 1 + 1 = 366"
    by code_simp
  show ?thesis using extract_dow_doy [OF v, of 0] v e by simp
qed

text \<open>
  C4. The two extractors agree. On every vector of a temporal type, the standalone extractor and the column
  operator return the same cells and the same null flag, for every field code: null cells (the sentinel of
  the type, in a vector flagged to have nulls) are null in both, times agree for every 32-bit value, dates
  when their count of microseconds fits 64 bits, and timestamps unless they lie within 1000 ns of the least
  64-bit value, where the column operator's negation overflows.
\<close>

theorem extractors_agree:
  assumes ty: "tv_type v \<noteq> TOther"
    and rng: "\<forall>c \<in> set (tv_data v). ray_vec_is_null v c \<or>
      (case tv_type v of
         TDate \<Rightarrow> in_i64 (c * USEC_PER_DAY)
       | TTime \<Rightarrow> - 2147483648 \<le> c \<and> c \<le> INT32_MAX
       | _ \<Rightarrow> - 9223372036854774808 \<le> c \<and> c \<le> INT64_MAX)"
  shows "ray_temporal_extract_vec v field = Inr (exec_extract v field)"
proof -
  have "cell_defined v c" if "c \<in> set (tv_data v)" for c
    using bspec [OF rng that] ty by (auto simp: cell_defined_def in_i64_def split: ttype.splits)
  then have "exec_cell_us (tv_type v) c = rte_to_us (tv_type v) c"
    if "c \<in> set (tv_data v)" "\<not> ray_vec_is_null v c" for c
    using that by (intro exec_cell_us_rte)
  then show ?thesis using ty
    by (auto simp: ray_temporal_extract_vec_def exec_extract_def map_cells_def exec_extract_us_rte)
qed

theorem extractors_agree_witness:
  "ray_temporal_extract_vec \<lparr>tv_type = TDate, tv_has_nulls = True, tv_data = [0, NULL_I32, 8826]\<rparr> RAY_EXTRACT_YEAR
   = Inr (exec_extract \<lparr>tv_type = TDate, tv_has_nulls = True, tv_data = [0, NULL_I32, 8826]\<rparr> RAY_EXTRACT_YEAR)"
  by (rule extractors_agree) (simp_all add: in_i64_def ray_vec_is_null_def)

text \<open>
  C5. Truncation to month and year. A timestamp composed of a valid date and a time of day is
  truncated to the first day of its month or of its year, and every sub-day truncation is the
  largest multiple of its unit that does not exceed the value.
\<close>

theorem date_trunc_floor:
  assumes v: "q_calendar_date_valid y m d" and t: "0 \<le> tod" "tod < USEC_PER_DAY"
  defines "us \<equiv> q_calendar_days_from_civil y m d * USEC_PER_DAY + tod"
  shows "date_trunc_us us RAY_EXTRACT_MONTH = q_calendar_days_from_civil y m 1 * USEC_PER_DAY \<and>
    date_trunc_us us RAY_EXTRACT_YEAR = q_calendar_days_from_civil y 1 1 * USEC_PER_DAY \<and>
    date_trunc_us us RAY_EXTRACT_DAY = q_calendar_days_from_civil y m d * USEC_PER_DAY \<and>
    date_trunc_us us RAY_EXTRACT_HOUR = us - us mod USEC_PER_HOUR \<and>
    date_trunc_us us RAY_EXTRACT_MINUTE = us - us mod USEC_PER_MIN \<and>
    date_trunc_us us RAY_EXTRACT_SECOND = us - us mod USEC_PER_SEC"
proof -
  have civ: "trunc_civil us = (y, m)"
    unfolding trunc_civil_eq us_def civil_of_composed [OF v t] by simp
  have day: "us - us mod USEC_PER_DAY = q_calendar_days_from_civil y m d * USEC_PER_DAY"
    unfolding us_def compose_split(2) [OF t] by simp
  show ?thesis
    by (simp only: date_trunc_us_def civ days_from_civil_eq day trunc_bucket_floor zero_less_numeral
        Let_def prod.case if_True if_False) simp
qed

theorem date_trunc_floor_witness:
  "q_calendar_date_valid 2024 2 29 \<and>
   date_trunc_us (q_calendar_days_from_civil 2024 2 29 * USEC_PER_DAY + 5) RAY_EXTRACT_MONTH
     = q_calendar_days_from_civil 2024 2 1 * USEC_PER_DAY"
proof -
  have v: "q_calendar_date_valid 2024 2 29" by code_simp
  show ?thesis using date_trunc_floor [OF v, of 5] v by simp
qed

end
