(* ===== verification/Codec.thy ===== *)
theory Codec
  imports Prelude
begin

text \<open>
  The byte codecs of \<^verbatim>\<open>src/qlang/ops/q_codec.c\<close>: base64 (\<open>.Q.btoa\<close>, \<open>.Q.atob\<close>), MD5 and SHA-1. Bytes
  are 8-bit words, the C accumulators 32-bit words with their shifts and masks. A buffer that is
  allocated, filled and returned is a list; the argument \<open>mem\<close> of the verb bodies says whether the
  one allocation each of them makes succeeds.

  Shown: a text decodes to given bytes exactly when, whitespace dropped, it is their encoding, so
  the decoder inverts the encoder and accepts canonical text only; the two digest paddings fill
  whole 64-byte blocks and lose nothing of the message.
\<close>

section \<open>Base64\<close>

definition Q_B64_ALPHA :: bytes where
  "Q_B64_ALPHA = lit ''ABCDEFGHIJKLMNOPQRSTUVWXYZabcdefghijklmnopqrstuvwxyz0123456789+/''"

definition alpha :: "u32 \<Rightarrow> u8" where
  "alpha v = Q_B64_ALPHA ! unat (v AND 63)"

abbreviation EQ :: u8 where "EQ \<equiv> 61"

text \<open>The encoder: groups of three bytes, then the one or two left over.\<close>

fun codec_b64_encode :: "bytes \<Rightarrow> bytes" where
  "codec_b64_encode (a # b # c # rest) =
    (let v = push_bit 16 (ucast a) OR push_bit 8 (ucast b) OR (ucast c :: u32)
     in [alpha (drop_bit 18 v), alpha (drop_bit 12 v), alpha (drop_bit 6 v), alpha v]
        @ codec_b64_encode rest)"
| "codec_b64_encode [a] =
    (let v = push_bit 16 (ucast a) :: u32
     in [alpha (drop_bit 18 v), alpha (drop_bit 12 v), EQ, EQ])"
| "codec_b64_encode [a, b] =
    (let v = push_bit 16 (ucast a) OR push_bit 8 (ucast b) :: u32
     in [alpha (drop_bit 18 v), alpha (drop_bit 12 v), alpha (drop_bit 6 v), EQ])"
| "codec_b64_encode [] = []"

text \<open>The reverse table, filled from the alphabet; \<open>None\<close> is the entry -1.\<close>

definition rev_table :: "u8 \<Rightarrow> u32 option" where
  "rev_table = fold (\<lambda>i t. t(Q_B64_ALPHA ! i := Some (of_nat i))) [0..<64] (\<lambda>_. None)"

record b64_state =
  acc :: u32
  nbits :: nat
  pad :: nat
  ngroup :: nat
  dec_out :: bytes
  bad :: bool

definition b64_init :: b64_state where
  "b64_init = \<lparr>acc = 0, nbits = 0, pad = 0, ngroup = 0, dec_out = [], bad = False\<rparr>"

definition is_ws :: "u8 \<Rightarrow> bool" where
  "is_ws c \<longleftrightarrow> c = 32 \<or> c = 10 \<or> c = 13 \<or> c = 9"

text \<open>The part of the loop body for an alphabet character with value \<open>d\<close>.\<close>

definition b64_push :: "u32 \<Rightarrow> b64_state \<Rightarrow> b64_state" where
  "b64_push d st =
    (let a = push_bit 6 (acc st) OR d; n = nbits st + 6
     in if n \<ge> 8
        then st\<lparr>acc := a, nbits := n - 8, ngroup := ngroup st + 1,
                dec_out := dec_out st @ [ucast (drop_bit (n - 8) a AND 255)]\<rparr>
        else st\<lparr>acc := a, nbits := n, ngroup := ngroup st + 1\<rparr>)"

fun b64_loop :: "bytes \<Rightarrow> b64_state \<Rightarrow> b64_state" where
  "b64_loop [] st = st"
| "b64_loop (c # cs) st =
    (if is_ws c then b64_loop cs st
     else if c = EQ then b64_loop cs (st\<lparr>pad := pad st + 1, ngroup := ngroup st + 1\<rparr>)
     else if pad st \<noteq> 0 then st\<lparr>bad := True\<rparr>
     else (case rev_table c of
             None \<Rightarrow> st\<lparr>bad := True\<rparr>
           | Some d \<Rightarrow> b64_loop cs (b64_push d st)))"

definition b64_finish :: "b64_state \<Rightarrow> bytes option" where
  "b64_finish st =
    (if bad st \<or> ngroup st mod 4 \<noteq> 0 \<or> pad st > 2 \<or>
        (nbits st \<noteq> 0 \<and> acc st AND (push_bit (nbits st) 1 - 1) \<noteq> 0)
     then None else Some (dec_out st))"

definition codec_b64_decode :: "bytes \<Rightarrow> bytes option" where
  "codec_b64_decode src = b64_finish (b64_loop src b64_init)"

definition q_dotq_btoa_fn :: "bool \<Rightarrow> qtext \<Rightarrow> qtext qres" where
  "q_dotq_btoa_fn mem x =
    (case q_str_text_or_bytevec x of
       None \<Rightarrow> Inl QE_TYPE
     | Some p \<Rightarrow> if mem then Inr (QCharv (codec_b64_encode p)) else Inl QE_WSFULL)"

definition q_dotq_atob_fn :: "bool \<Rightarrow> qtext \<Rightarrow> qtext qres" where
  "q_dotq_atob_fn mem x =
    (case q_str_text_or_bytevec x of
       None \<Rightarrow> Inl QE_TYPE
     | Some p \<Rightarrow>
         if \<not> mem then Inl QE_WSFULL
         else (case codec_b64_decode p of None \<Rightarrow> Inl QE_DOMAIN | Some b \<Rightarrow> Inr (QByteVec b)))"

section \<open>MD5 and SHA-1\<close>

definition md5_K :: "u32 list" where
  "md5_K = [
    0xd76aa478,0xe8c7b756,0x242070db,0xc1bdceee,0xf57c0faf,0x4787c62a,0xa8304613,0xfd469501,
    0x698098d8,0x8b44f7af,0xffff5bb1,0x895cd7be,0x6b901122,0xfd987193,0xa679438e,0x49b40821,
    0xf61e2562,0xc040b340,0x265e5a51,0xe9b6c7aa,0xd62f105d,0x02441453,0xd8a1e681,0xe7d3fbc8,
    0x21e1cde6,0xc33707d6,0xf4d50d87,0x455a14ed,0xa9e3e905,0xfcefa3f8,0x676f02d9,0x8d2a4c8a,
    0xfffa3942,0x8771f681,0x6d9d6122,0xfde5380c,0xa4beea44,0x4bdecfa9,0xf6bb4b60,0xbebfbc70,
    0x289b7ec6,0xeaa127fa,0xd4ef3085,0x04881d05,0xd9d4d039,0xe6db99e5,0x1fa27cf8,0xc4ac5665,
    0xf4292244,0x432aff97,0xab9423a7,0xfc93a039,0x655b59c3,0x8f0ccc92,0xffeff47d,0x85845dd1,
    0x6fa87e4f,0xfe2ce6e0,0xa3014314,0x4e0811a1,0xf7537e82,0xbd3af235,0x2ad7d2bb,0xeb86d391]"

definition md5_S :: "nat list" where
  "md5_S = [
    7,12,17,22,7,12,17,22,7,12,17,22,7,12,17,22,
    5,9,14,20,5,9,14,20,5,9,14,20,5,9,14,20,
    4,11,16,23,4,11,16,23,4,11,16,23,4,11,16,23,
    6,10,15,21,6,10,15,21,6,10,15,21,6,10,15,21]"

text \<open>\<open>buf\<close> after \<open>calloc\<close>, the copy of the message, the marker byte and the bit length.\<close>

definition md5_pad :: "bytes \<Rightarrow> bytes" where
  "md5_pad msg =
    (let len = length msg;
         nblk = (len + 8) div 64 + 1;
         buf = replicate (nblk * 64) 0;
         buf = msg @ drop len buf;
         buf = buf[len := 0x80];
         bits = (of_nat len * 8 :: u64)
     in fold (\<lambda>i b. b[nblk * 64 - 8 + i := ucast (drop_bit (8 * i) bits)]) [0..<8] buf)"

definition le_word32 :: "bytes \<Rightarrow> nat \<Rightarrow> u32" where
  "le_word32 q i = ucast (q ! (i * 4)) OR push_bit 8 (ucast (q ! (i * 4 + 1)))
     OR push_bit 16 (ucast (q ! (i * 4 + 2))) OR push_bit 24 (ucast (q ! (i * 4 + 3)))"

type_synonym md5_regs = "u32 \<times> u32 \<times> u32 \<times> u32"

definition md5_round :: "bytes \<Rightarrow> nat \<Rightarrow> md5_regs \<Rightarrow> md5_regs" where
  "md5_round blk i = (\<lambda>(A, B, C, D).
    (let (F, g) =
           (if i < 16 then ((B AND C) OR (NOT B AND D), i)
            else if i < 32 then ((D AND B) OR (NOT D AND C), (5 * i + 1) mod 16)
            else if i < 48 then (B XOR C XOR D, (3 * i + 5) mod 16)
            else (C XOR (B OR NOT D), (7 * i) mod 16));
         F = F + A + md5_K ! i + le_word32 blk g
     in (D, B + (push_bit (md5_S ! i) F OR drop_bit (32 - md5_S ! i) F), B, C)))"

definition md5_block :: "md5_regs \<Rightarrow> bytes \<Rightarrow> md5_regs" where
  "md5_block r blk =
    (let (a0, b0, c0, d0) = r;
         (A, B, C, D) = fold (md5_round blk) [0..<64] r
     in (a0 + A, b0 + B, c0 + C, d0 + D))"

definition blocks :: "bytes \<Rightarrow> bytes list" where
  "blocks buf = map (\<lambda>k. take 64 (drop (k * 64) buf)) [0..<length buf div 64]"

definition md5_init :: md5_regs where
  "md5_init = (0x67452301, 0xefcdab89, 0x98badcfe, 0x10325476)"

definition codec_md5_compute :: "bytes \<Rightarrow> bytes" where
  "codec_md5_compute msg =
    (let (a0, b0, c0, d0) = foldl md5_block md5_init (blocks (md5_pad msg))
     in concat (map (\<lambda>w. map (\<lambda>j. ucast (drop_bit (8 * j) w)) [0..<4]) [a0, b0, c0, d0]))"

definition q_md5_fn :: "bool \<Rightarrow> qtext \<Rightarrow> qtext qres" where
  "q_md5_fn mem x =
    (case q_str_text_bytes x of
       None \<Rightarrow> Inl QE_TYPE
     | Some p \<Rightarrow> if mem then Inr (QByteVec (codec_md5_compute p)) else Inl QE_WSFULL)"

definition codec_sha1_rol :: "u32 \<Rightarrow> nat \<Rightarrow> u32" where
  "codec_sha1_rol v b = push_bit b v OR drop_bit (32 - b) v"

text \<open>The loop \<open>while (total % 64 != 56) total++\<close>.\<close>

function sha1_total :: "nat \<Rightarrow> nat" where
  "sha1_total tot = (if tot mod 64 \<noteq> 56 then sha1_total (tot + 1) else tot)"
  by pat_completeness auto
termination
proof (relation "measure (\<lambda>t. if t mod 64 \<le> 56 then 56 - t mod 64 else 120 - t mod 64)")
  fix t :: nat
  assume ne: "t mod 64 \<noteq> 56"
  obtain m where m: "t mod 64 = m" "m < 64" by simp
  have nxt: "(t + 1) mod 64 = (if m = 63 then 0 else m + 1)" by (simp add: mod_Suc m)
  from ne m show "(t + 1, t) \<in> measure (\<lambda>t. if t mod 64 \<le> 56 then 56 - t mod 64 else 120 - t mod 64)"
    unfolding in_measure nxt m(1) by (cases "m = 63"; cases "m \<le> 55"; simp)
qed simp

declare sha1_total.simps [simp del]

definition sha1_pad :: "bytes \<Rightarrow> bytes" where
  "sha1_pad msg =
    (let n = length msg;
         ml = (of_nat n * 8 :: u64);
         tot = sha1_total (n + 1) + 8;
         buf = msg @ drop n (replicate tot 0);
         buf = buf[n := 0x80]
     in fold (\<lambda>i b. b[tot - 1 - i := ucast (drop_bit (8 * i) ml)]) [0..<8] buf)"

definition be_word32 :: "bytes \<Rightarrow> nat \<Rightarrow> u32" where
  "be_word32 p i = push_bit 24 (ucast (p ! (i * 4))) OR push_bit 16 (ucast (p ! (i * 4 + 1)))
     OR push_bit 8 (ucast (p ! (i * 4 + 2))) OR ucast (p ! (i * 4 + 3))"

definition sha1_w :: "bytes \<Rightarrow> u32 list" where
  "sha1_w blk =
    fold (\<lambda>i w. w @ [codec_sha1_rol (w ! (i - 3) XOR w ! (i - 8) XOR w ! (i - 14) XOR w ! (i - 16)) 1])
      [16..<80] (map (be_word32 blk) [0..<16])"

type_synonym sha1_regs = "u32 \<times> u32 \<times> u32 \<times> u32 \<times> u32"

definition sha1_round :: "u32 list \<Rightarrow> nat \<Rightarrow> sha1_regs \<Rightarrow> sha1_regs" where
  "sha1_round w i = (\<lambda>(a, b, c, d, e).
    (let (f, k) =
           (if i < 20 then ((b AND c) OR (NOT b AND d), 0x5A827999)
            else if i < 40 then (b XOR c XOR d, 0x6ED9EBA1)
            else if i < 60 then ((b AND c) OR (b AND d) OR (c AND d), 0x8F1BBCDC)
            else (b XOR c XOR d, 0xCA62C1D6));
         tmp = codec_sha1_rol a 5 + f + e + k + w ! i
     in (tmp, a, codec_sha1_rol b 30, c, d)))"

definition sha1_block :: "sha1_regs \<Rightarrow> bytes \<Rightarrow> sha1_regs" where
  "sha1_block r blk =
    (let (h0, h1, h2, h3, h4) = r;
         (a, b, c, d, e) = fold (sha1_round (sha1_w blk)) [0..<80] r
     in (h0 + a, h1 + b, h2 + c, h3 + d, h4 + e))"

definition sha1_init :: sha1_regs where
  "sha1_init = (0x67452301, 0xEFCDAB89, 0x98BADCFE, 0x10325476, 0xC3D2E1F0)"

definition codec_sha1_compute :: "bytes \<Rightarrow> bytes" where
  "codec_sha1_compute msg =
    (let (h0, h1, h2, h3, h4) = foldl sha1_block sha1_init (blocks (sha1_pad msg))
     in concat (map (\<lambda>w. map (\<lambda>j. ucast (drop_bit (24 - 8 * j) w)) [0..<4]) [h0, h1, h2, h3, h4]))"

definition q_dotq_sha1_fn :: "bool \<Rightarrow> qtext \<Rightarrow> qtext qres" where
  "q_dotq_sha1_fn mem x =
    (case q_str_text_or_bytevec x of
       None \<Rightarrow> Inl QE_TYPE
     | Some p \<Rightarrow> if mem then Inr (QByteVec (codec_sha1_compute p)) else Inl QE_WSFULL)"

section \<open>Sextets and bytes\<close>

text \<open>The three bytes four sextets stand for, and the four sextets of three bytes.\<close>

definition quad0 :: "u32 \<Rightarrow> u32 \<Rightarrow> u8" where "quad0 d0 d1 = ucast (push_bit 2 d0 OR drop_bit 4 d1)"
definition quad1 :: "u32 \<Rightarrow> u32 \<Rightarrow> u8" where "quad1 d1 d2 = ucast (push_bit 4 d1 OR drop_bit 2 d2)"
definition quad2 :: "u32 \<Rightarrow> u32 \<Rightarrow> u8" where "quad2 d2 d3 = ucast (push_bit 6 d2 OR d3)"

definition sext0 :: "u8 \<Rightarrow> u32" where "sext0 a = take_bit 6 (drop_bit 2 (ucast a))"
definition sext1 :: "u8 \<Rightarrow> u8 \<Rightarrow> u32" where "sext1 a b = take_bit 6 (push_bit 4 (ucast a) OR drop_bit 4 (ucast b))"
definition sext2 :: "u8 \<Rightarrow> u8 \<Rightarrow> u32" where "sext2 b c = take_bit 6 (push_bit 2 (ucast b) OR drop_bit 6 (ucast c))"
definition sext3 :: "u8 \<Rightarrow> u32" where "sext3 c = take_bit 6 (ucast c)"

text \<open>The eight bytes of a 64-bit word, least significant first.\<close>

definition le64 :: "u64 \<Rightarrow> bytes" where
  "le64 v = map (\<lambda>i. ucast (drop_bit (8 * i) v)) [0..<8]"

text \<open>The loop state between two groups of four characters.\<close>

definition b64_fresh :: "b64_state \<Rightarrow> bool" where
  "b64_fresh st \<longleftrightarrow> nbits st = 0 \<and> pad st = 0 \<and> \<not> bad st \<and> ngroup st mod 4 = 0"

section \<open>The reverse table inverts the alphabet\<close>

lemma fold_upd_table:
  assumes "inj_on f {..<n}"
  shows "fold (\<lambda>i t. t(f i := Some (g i))) [0..<n] (\<lambda>_. None) c = Some d \<longleftrightarrow>
         (\<exists>i<n. c = f i \<and> d = g i)"
  using assms
proof (induction n)
  case (Suc n)
  have "inj_on f {..<n}" using Suc.prems by (rule inj_on_subset) auto
  moreover have "f n \<noteq> f i" if "i < n" for i
    using inj_onD [OF Suc.prems, of n i] that by auto
  ultimately show ?case using Suc.IH by (auto simp: less_Suc_eq)
qed simp

lemma alpha_distinct: "distinct Q_B64_ALPHA" and alpha_length: "length Q_B64_ALPHA = 64"
  by code_simp+

lemma alpha_chars: "list_all (\<lambda>c. c \<noteq> EQ \<and> \<not> is_ws c) Q_B64_ALPHA"
  by code_simp

lemma rev_table_iff: "rev_table c = Some d \<longleftrightarrow> d < 64 \<and> c = alpha d"
proof -
  have inj: "inj_on (\<lambda>i. Q_B64_ALPHA ! i) {..<64}"
    using alpha_distinct alpha_length by (auto simp: inj_on_def nth_eq_iff_index_eq)
  have idx: "unat (d AND 63) = unat d" if "d < 64"
  proof -
    have "unat (d AND 63) = take_bit 6 (unat d)"
      by (simp add: unsigned_and_eq take_bit_eq_mask mask_eq_exp_minus_1)
    also have "\<dots> = unat d" using that by (simp add: take_bit_nat_eq_self_iff word_less_nat_alt)
    finally show ?thesis .
  qed
  show ?thesis
  proof
    assume "rev_table c = Some d"
    then obtain i where i: "i < 64" "c = Q_B64_ALPHA ! i" "d = of_nat i"
      unfolding rev_table_def fold_upd_table [OF inj] by blast
    then have "unat d = i" by (simp add: unat_of_nat)
    moreover from this i have "d < 64" by (simp add: word_less_nat_alt)
    ultimately show "d < 64 \<and> c = alpha d" using i idx by (simp add: alpha_def)
  next
    assume *: "d < 64 \<and> c = alpha d"
    then have "unat d < 64" by (simp add: word_less_nat_alt)
    moreover have "d = of_nat (unat d)" by simp
    moreover have "c = Q_B64_ALPHA ! unat d" using * idx by (simp add: alpha_def)
    ultimately show "rev_table c = Some d"
      unfolding rev_table_def fold_upd_table [OF inj] by blast
  qed
qed

lemma alpha_not_EQ [simp]: "alpha d \<noteq> EQ" "EQ \<noteq> alpha d" and alpha_not_ws [simp]: "\<not> is_ws (alpha d)"
proof -
  have "unat (d AND 63) < 64"
  proof -
    have "d AND 63 \<le> 63" by (rule word_and_le1)
    then show ?thesis by (simp add: word_le_nat_alt)
  qed
  then have "alpha d \<in> set Q_B64_ALPHA" by (simp add: alpha_def alpha_length)
  then show "alpha d \<noteq> EQ" "EQ \<noteq> alpha d" "\<not> is_ws (alpha d)"
    using alpha_chars by (auto simp: list_all_iff)
qed

section \<open>Four characters carry three bytes\<close>

lemma bit_sextet: "d < 64 \<Longrightarrow> bit d n \<Longrightarrow> n < 6" for d :: u32
proof -
  assume "d < 64" "bit d n"
  have "unat d < 2 ^ 6" using \<open>d < 64\<close> by (simp add: word_less_nat_alt)
  then have "take_bit 6 (unat d) = unat d" by (simp add: take_bit_nat_eq_self_iff)
  moreover have "bit (unat d) n" using \<open>bit d n\<close> by (simp add: bit_unsigned_iff bit_imp_le_length)
  ultimately have "bit (take_bit 6 (unat d)) n" by simp
  then show "n < 6" by (simp add: bit_take_bit_iff)
qed

lemma bit_63: "bit (63 :: int) n \<longleftrightarrow> n < 6" "bit (63 :: nat) n \<longleftrightarrow> n < 6"
  using bit_mask_iff [of 6 n, where 'a = int] bit_mask_iff [of 6 n, where 'a = nat]
  by (simp_all add: mask_eq_exp_minus_1)

lemma bit_255: "bit (255 :: int) n \<longleftrightarrow> n < 8" "bit (255 :: nat) n \<longleftrightarrow> n < 8"
  using bit_mask_iff [of 8 n, where 'a = int] bit_mask_iff [of 8 n, where 'a = nat]
  by (simp_all add: mask_eq_exp_minus_1)

lemmas b64_bits = bit_simps bit_63 bit_255 possible_bit_def

lemma quad_bytes:
  assumes "d0 < 64" "d1 < 64" "d2 < 64" "d3 < 64"
  shows "ucast (drop_bit 4 (push_bit 6 (push_bit 6 a OR d0) OR d1) AND 255) = quad0 d0 d1"
    and "ucast (drop_bit 2 (push_bit 6 (push_bit 6 (push_bit 6 a OR d0) OR d1) OR d2) AND 255) = quad1 d1 d2"
    and "ucast ((push_bit 6 (push_bit 6 (push_bit 6 (push_bit 6 a OR d0) OR d1) OR d2) OR d3) AND 255) = quad2 d2 d3"
  using assms by (auto simp: quad0_def quad1_def quad2_def b64_bits intro!: bit_word_eqI dest: bit_sextet)

lemmas sext_defs = sext0_def sext1_def sext2_def sext3_def
lemmas quad_defs = quad0_def quad1_def quad2_def

lemma u8_high_bits: "8 \<le> n \<Longrightarrow> \<not> bit (a :: u8) n"
  by (auto dest: bit_imp_le_length)

lemma and_63: "v AND 63 = take_bit 6 v" for v :: u32
  by (simp add: take_bit_eq_mask mask_eq_exp_minus_1)

lemma take6_less: "take_bit 6 v < 64" for v :: u32
  using take_bit_nat_less_exp [of 6 "unat v"] by (simp add: word_less_nat_alt unsigned_take_bit_eq)

lemma take6_id: "d < 64 \<Longrightarrow> take_bit 6 d = d" for d :: u32
  by (auto simp: bit_take_bit_iff intro!: bit_word_eqI dest: bit_sextet)

lemma byte_eqI:
  fixes a b :: u8
  assumes "bit a 0 = bit b 0" "bit a 1 = bit b 1" "bit a 2 = bit b 2" "bit a 3 = bit b 3"
    "bit a 4 = bit b 4" "bit a 5 = bit b 5" "bit a 6 = bit b 6" "bit a 7 = bit b 7"
  shows "a = b"
proof (rule bit_word_eqI)
  fix n assume "n < LENGTH(8)"
  then have "n \<in> {0, 1, 2, 3, 4, 5, 6, 7}" by auto
  then show "bit a n = bit b n" using assms by auto
qed

lemma sextet_eqI:
  fixes v w :: u32
  assumes "bit v 0 = bit w 0" "bit v 1 = bit w 1" "bit v 2 = bit w 2" "bit v 3 = bit w 3"
    "bit v 4 = bit w 4" "bit v 5 = bit w 5"
  shows "take_bit 6 v = take_bit 6 w"
proof (rule bit_word_eqI)
  fix n assume "n < LENGTH(32)"
  have "n \<in> {0, 1, 2, 3, 4, 5}" if "n < 6" using that by auto
  with assms show "bit (take_bit 6 v) n = bit (take_bit 6 w) n"
    by (auto simp: bit_take_bit_iff)
qed

lemma alpha_take6: "alpha (take_bit 6 v) = alpha v"
  by (simp add: alpha_def and_63)

lemma alpha_cong: "take_bit 6 v = take_bit 6 w \<Longrightarrow> alpha v = alpha w"
  by (simp add: alpha_def and_63)

lemma encode_steps:
  "codec_b64_encode (a # b # c # rest) =
     alpha (sext0 a) # alpha (sext1 a b) # alpha (sext2 b c) # alpha (sext3 c) # codec_b64_encode rest"
  "codec_b64_encode [a, b] = [alpha (sext0 a), alpha (sext1 a b), alpha (sext2 b 0), EQ]"
  "codec_b64_encode [a] = [alpha (sext0 a), alpha (sext1 a 0), EQ, EQ]"
  by (auto simp: Let_def alpha_take6 sext_defs bit_simps u8_high_bits
      intro!: alpha_cong sextet_eqI)

lemma sext_bounds: "sext0 a < 64" "sext1 a b < 64" "sext2 b c < 64" "sext3 c < 64"
  unfolding sext_defs by (rule take6_less)+

lemma quad_sext: "quad0 (sext0 a) (sext1 a b) = a" "quad1 (sext1 a b) (sext2 b c) = b"
  "quad2 (sext2 b c) (sext3 c) = c"
  unfolding quad_defs sext_defs
  by (rule byte_eqI; simp add: bit_simps u8_high_bits del: add_2_eq_Suc add_2_eq_Suc')+

lemma sext_quad:
  assumes "d0 < 64" "d1 < 64" "d2 < 64" "d3 < 64"
  shows "sext0 (quad0 d0 d1) = d0" "sext1 (quad0 d0 d1) (quad1 d1 d2) = d1"
    "sext2 (quad1 d1 d2) (quad2 d2 d3) = d2" "sext3 (quad2 d2 d3) = d3"
proof -
  have hi: "\<not> bit d n" if "6 \<le> n" "d < 64" for d :: u32 and n using bit_sextet [of d n] that by fastforce
  have "sext0 (quad0 d0 d1) = take_bit 6 d0" "sext1 (quad0 d0 d1) (quad1 d1 d2) = take_bit 6 d1"
    "sext2 (quad1 d1 d2) (quad2 d2 d3) = take_bit 6 d2" "sext3 (quad2 d2 d3) = take_bit 6 d3"
    unfolding quad_defs sext_defs
    by (rule sextet_eqI; simp add: bit_simps hi assms del: add_2_eq_Suc add_2_eq_Suc')+
  then show "sext0 (quad0 d0 d1) = d0" "sext1 (quad0 d0 d1) (quad1 d1 d2) = d1"
    "sext2 (quad1 d1 d2) (quad2 d2 d3) = d2" "sext3 (quad2 d2 d3) = d3"
    using assms by (simp_all add: take6_id)
qed

lemma residual_bits:
  assumes "d < 64"
  shows "(push_bit 6 v OR d) AND 15 = 0 \<longleftrightarrow> sext1 (quad0 d0 d) 0 = d"
    and "(push_bit 6 v OR d) AND 3 = 0 \<longleftrightarrow> sext2 (quad1 d1 d) 0 = d"
proof -
  have hi: "\<not> bit d n" if "6 \<le> n" for n using bit_sextet [of d n] assms that by fastforce
  have m: "(push_bit 6 v OR d) AND 15 = take_bit 4 (push_bit 6 v OR d)"
    "(push_bit 6 v OR d) AND 3 = take_bit 2 (push_bit 6 v OR d)"
    by (simp_all add: take_bit_eq_mask mask_eq_exp_minus_1)
  have tail4: "take_bit 4 (push_bit 6 v OR d) = 0 \<longleftrightarrow> (\<forall>n<4. \<not> bit d n)"
    by (auto simp: bit_eq_iff bit_simps)
  have tail2: "take_bit 2 (push_bit 6 v OR d) = 0 \<longleftrightarrow> (\<forall>n<2. \<not> bit d n)"
    by (auto simp: bit_eq_iff bit_simps)
  have s1: "sext1 (quad0 d0 d) 0 = d" if "\<forall>n<4. \<not> bit d n"
  proof -
    have "sext1 (quad0 d0 d) 0 = take_bit 6 d"
      unfolding quad_defs sext_defs
      by (rule sextet_eqI) (simp_all add: bit_simps hi that del: add_2_eq_Suc add_2_eq_Suc')
    then show ?thesis by (simp add: take6_id assms)
  qed
  have s2: "sext2 (quad1 d1 d) 0 = d" if "\<forall>n<2. \<not> bit d n"
  proof -
    have "sext2 (quad1 d1 d) 0 = take_bit 6 d"
      unfolding quad_defs sext_defs
      by (rule sextet_eqI) (simp_all add: bit_simps hi that del: add_2_eq_Suc add_2_eq_Suc')
    then show ?thesis by (simp add: take6_id assms)
  qed
  have z: "\<not> bit (sext1 a 0) n" if "n < 4" for a n using that by (auto simp: sext1_def bit_simps)
  have z2: "\<not> bit (sext2 a 0) n" if "n < 2" for a n using that by (auto simp: sext2_def bit_simps)
  show "(push_bit 6 v OR d) AND 15 = 0 \<longleftrightarrow> sext1 (quad0 d0 d) 0 = d"
    unfolding m tail4 using s1 z by metis
  show "(push_bit 6 v OR d) AND 3 = 0 \<longleftrightarrow> sext2 (quad1 d1 d) 0 = d"
    unfolding m tail2 using s2 z2 by metis
qed

section \<open>The decoding loop\<close>

lemma loop_skips_ws: "b64_loop s st = b64_loop (filter (\<lambda>c. \<not> is_ws c) s) st"
  by (induction s st rule: b64_loop.induct) (auto split: option.splits)

lemma loop_pad_only:
  "b64_loop (replicate n EQ) st = st\<lparr>pad := pad st + n, ngroup := ngroup st + n\<rparr>"
  by (induction n arbitrary: st) (simp_all add: is_ws_def)

lemma loop_pad_then_data:
  "\<forall>c\<in>set s. \<not> is_ws c \<Longrightarrow> pad st > 0 \<Longrightarrow> \<exists>c\<in>set s. c \<noteq> EQ \<Longrightarrow> bad (b64_loop s st)"
  by (induction s arbitrary: st) auto

lemma loop_data:
  assumes "d < 64" "pad st = 0"
  shows "b64_loop (alpha d # s) st = b64_loop s (b64_push d st)"
  using assms rev_table_iff [of "alpha d" d] by simp

lemma loop_reject:
  assumes "\<not> is_ws c" "c \<noteq> EQ" "\<nexists>d. d < 64 \<and> c = alpha d"
  shows "b64_finish (b64_loop (c # s) st) = None"
proof -
  have "rev_table c = None" using assms(3) rev_table_iff by (metis option.exhaust)
  then show ?thesis using assms by (auto simp: b64_finish_def)
qed

lemma loop_pad_finish:
  assumes "\<forall>c\<in>set s. \<not> is_ws c"
  shows "b64_finish (b64_loop (EQ # s) st) =
    (if \<not> bad st \<and> s = replicate (length s) EQ \<and> (ngroup st + length s + 1) mod 4 = 0 \<and> pad st + length s \<le> 1
        \<and> (nbits st = 0 \<or> acc st AND (push_bit (nbits st) 1 - 1) = 0)
     then Some (dec_out st) else None)"
proof (cases "s = replicate (length s) EQ")
  case True
  have "b64_loop (EQ # s) st = b64_loop (replicate (Suc (length s)) EQ) st" using True by simp
  then have "b64_loop (EQ # s) st = st\<lparr>pad := pad st + Suc (length s), ngroup := ngroup st + Suc (length s)\<rparr>"
    by (simp only: loop_pad_only)
  then show ?thesis using True by (simp add: b64_finish_def)
next
  case False
  then have "\<exists>c\<in>set s. c \<noteq> EQ" using replicate_eqI [of s "length s" EQ] by blast
  then have "bad (b64_loop (EQ # s) st)"
    using loop_pad_then_data assms by (simp add: is_ws_def)
  then show ?thesis using False by (simp add: b64_finish_def)
qed

lemma loop_ngroup:
  "\<forall>c\<in>set s. \<not> is_ws c \<Longrightarrow> \<not> bad (b64_loop s st) \<Longrightarrow> ngroup (b64_loop s st) = ngroup st + length s"
proof (induction s st rule: b64_loop.induct)
  case (2 c cs st)
  then show ?case by (auto simp: b64_push_def Let_def split: option.splits if_splits)
qed simp

lemma push_steps:
  assumes "nbits st = 0" "d0 < 64" "d1 < 64" "d2 < 64" "d3 < 64"
  shows "b64_push d1 (b64_push d0 st) =
      st\<lparr>acc := push_bit 6 (push_bit 6 (acc st) OR d0) OR d1, nbits := 4, ngroup := ngroup st + 2,
         dec_out := dec_out st @ [quad0 d0 d1]\<rparr>"
    and "b64_push d2 (b64_push d1 (b64_push d0 st)) =
      st\<lparr>acc := push_bit 6 (push_bit 6 (push_bit 6 (acc st) OR d0) OR d1) OR d2, nbits := 2,
         ngroup := ngroup st + 3, dec_out := dec_out st @ [quad0 d0 d1, quad1 d1 d2]\<rparr>"
    and "b64_push d3 (b64_push d2 (b64_push d1 (b64_push d0 st))) =
      st\<lparr>acc := push_bit 6 (push_bit 6 (push_bit 6 (push_bit 6 (acc st) OR d0) OR d1) OR d2) OR d3,
         nbits := 0, ngroup := ngroup st + 4,
         dec_out := dec_out st @ [quad0 d0 d1, quad1 d1 d2, quad2 d2 d3]\<rparr>"
  unfolding quad_bytes [OF assms(2-5), of "acc st", symmetric]
  by (simp_all add: b64_push_def Let_def assms(1))

lemma encode_length: "length (codec_b64_encode bs) = (length bs + 2) div 3 * 4"
proof (induction bs rule: codec_b64_encode.induct)
  case (1 a b c rest)
  have "length (a # b # c # rest) + 2 = (length rest + 2) + 3" by simp
  then have "(length (a # b # c # rest) + 2) div 3 = (length rest + 2) div 3 + 1"
    by (simp only: div_add_self2)
  with 1 show ?case unfolding encode_steps by simp
qed (simp_all add: Let_def)

lemma alpha_value: "\<exists>d<64. alpha v = alpha d"
  using take6_less [of v] alpha_take6 [of v] by metis

lemma encode_chars: "c \<in> set (codec_b64_encode bs) \<Longrightarrow> c = EQ \<or> (\<exists>d<64. c = alpha d)"
  by (induction bs rule: codec_b64_encode.induct) (auto simp: Let_def alpha_value)

lemma encode_no_ws: "\<forall>c\<in>set (codec_b64_encode bs). \<not> is_ws c"
  by (induction bs rule: codec_b64_encode.induct) (auto simp: Let_def is_ws_def [of EQ])

lemma encode_cases:
  "codec_b64_encode bs = c0 # c1 # c2 # c3 # s \<longleftrightarrow>
    (\<exists>a b c rest. bs = a # b # c # rest \<and> c0 = alpha (sext0 a) \<and> c1 = alpha (sext1 a b) \<and>
       c2 = alpha (sext2 b c) \<and> c3 = alpha (sext3 c) \<and> s = codec_b64_encode rest) \<or>
    (\<exists>a b. bs = [a, b] \<and> c0 = alpha (sext0 a) \<and> c1 = alpha (sext1 a b) \<and>
       c2 = alpha (sext2 b 0) \<and> c3 = EQ \<and> s = []) \<or>
    (\<exists>a. bs = [a] \<and> c0 = alpha (sext0 a) \<and> c1 = alpha (sext1 a 0) \<and> c2 = EQ \<and> c3 = EQ \<and> s = [])"
  by (cases bs rule: codec_b64_encode.cases)
    (auto simp: encode_steps simp del: codec_b64_encode.simps(1-3))

lemma alpha_eq_iff: "d < 64 \<Longrightarrow> e < 64 \<Longrightarrow> alpha d = alpha e \<longleftrightarrow> d = e"
  using rev_table_iff by (metis option.inject)

lemma finish_group:
  assumes "\<forall>c\<in>set s. \<not> is_ws c" "b64_finish (b64_loop s st) = Some r"
  shows "(ngroup st + length s) mod 4 = 0"
  using assms loop_ngroup [OF assms(1), of st] by (auto simp: b64_finish_def split: if_splits)

lemma fresh_group: "b64_fresh st \<Longrightarrow> \<exists>k. ngroup st = 4 * k"
  by (auto simp: b64_fresh_def)

lemma decode_two_pads:
  assumes "b64_fresh st" "d0 < 64" "d1 < 64" "\<forall>c\<in>set s. \<not> is_ws c"
  shows "b64_finish (b64_loop (alpha d0 # alpha d1 # EQ # s) st) = Some r \<longleftrightarrow>
    s = [EQ] \<and> r = dec_out st @ [quad0 d0 d1] \<and> sext1 (quad0 d0 d1) 0 = d1"
proof -
  let ?st = "b64_push d1 (b64_push d0 st)"
  have st: "?st = st\<lparr>acc := push_bit 6 (push_bit 6 (acc st) OR d0) OR d1, nbits := 4, ngroup := ngroup st + 2,
         dec_out := dec_out st @ [quad0 d0 d1]\<rparr>"
    using push_steps(1) [of st d0 d1 0 0] assms by (simp add: b64_fresh_def)
  have "b64_loop (alpha d0 # alpha d1 # EQ # s) st = b64_loop (EQ # s) ?st"
    using assms by (simp add: b64_fresh_def loop_data b64_push_def Let_def del: b64_loop.simps)
  moreover obtain k where "ngroup st = 4 * k" using fresh_group assms(1) by blast
  then have "s = replicate (length s) EQ \<and> (ngroup st + 2 + length s + 1) mod 4 = 0 \<and> length s \<le> 1 \<longleftrightarrow> s = [EQ]"
    by (cases s) auto
  ultimately show ?thesis
    using loop_pad_finish [OF assms(4), of ?st] residual_bits(1) [OF assms(3), of "push_bit 6 (acc st) OR d0" d0]
      assms(1) unfolding st by (auto simp: b64_fresh_def)
qed

lemma decode_one_pad:
  assumes "b64_fresh st" "d0 < 64" "d1 < 64" "d2 < 64" "\<forall>c\<in>set s. \<not> is_ws c"
  shows "b64_finish (b64_loop (alpha d0 # alpha d1 # alpha d2 # EQ # s) st) = Some r \<longleftrightarrow>
    s = [] \<and> r = dec_out st @ [quad0 d0 d1, quad1 d1 d2] \<and> sext2 (quad1 d1 d2) 0 = d2"
proof -
  let ?st = "b64_push d2 (b64_push d1 (b64_push d0 st))"
  have st: "?st = st\<lparr>acc := push_bit 6 (push_bit 6 (push_bit 6 (acc st) OR d0) OR d1) OR d2, nbits := 2,
         ngroup := ngroup st + 3, dec_out := dec_out st @ [quad0 d0 d1, quad1 d1 d2]\<rparr>"
    using push_steps(2) [of st d0 d1 d2 0] assms by (simp add: b64_fresh_def)
  have "b64_loop (alpha d0 # alpha d1 # alpha d2 # EQ # s) st = b64_loop (EQ # s) ?st"
    using assms by (simp add: b64_fresh_def loop_data b64_push_def Let_def del: b64_loop.simps)
  moreover obtain k where "ngroup st = 4 * k" using fresh_group assms(1) by blast
  then have "s = replicate (length s) EQ \<and> (ngroup st + 3 + length s + 1) mod 4 = 0 \<and> length s \<le> 1 \<longleftrightarrow> s = []"
    by (cases s) (auto, presburger)
  ultimately show ?thesis
    using loop_pad_finish [OF assms(5), of ?st]
      residual_bits(2) [OF assms(4), of "push_bit 6 (push_bit 6 (acc st) OR d0) OR d1" d1]
      assms(1) unfolding st by (auto simp: b64_fresh_def)
qed

lemma decode_early_pad:
  assumes "b64_fresh st" "d0 < 64" "\<forall>c\<in>set s. \<not> is_ws c" "length s \<ge> 2"
  shows "b64_finish (b64_loop (EQ # s) st) = None"
    and "b64_finish (b64_loop (alpha d0 # EQ # s) st) = None"
proof -
  show "b64_finish (b64_loop (EQ # s) st) = None"
    using loop_pad_finish [OF assms(3), of st] assms(4) by simp
  have "b64_loop (alpha d0 # EQ # s) st = b64_loop (EQ # s) (b64_push d0 st)"
    using assms by (simp add: b64_fresh_def loop_data del: b64_loop.simps)
  then show "b64_finish (b64_loop (alpha d0 # EQ # s) st) = None"
    using loop_pad_finish [OF assms(3), of "b64_push d0 st"] assms(4) by simp
qed

lemma decode_full_group:
  assumes "b64_fresh st" "d0 < 64" "d1 < 64" "d2 < 64" "d3 < 64"
  shows "\<exists>st'. b64_fresh st' \<and> dec_out st' = dec_out st @ [quad0 d0 d1, quad1 d1 d2, quad2 d2 d3] \<and>
    b64_loop (alpha d0 # alpha d1 # alpha d2 # alpha d3 # s) st = b64_loop s st'"
proof -
  let ?st = "b64_push d3 (b64_push d2 (b64_push d1 (b64_push d0 st)))"
  have "b64_loop (alpha d0 # alpha d1 # alpha d2 # alpha d3 # s) st = b64_loop s ?st"
    using assms by (simp add: b64_fresh_def loop_data b64_push_def Let_def del: b64_loop.simps)
  moreover have "b64_fresh ?st" "dec_out ?st = dec_out st @ [quad0 d0 d1, quad1 d1 d2, quad2 d2 d3]"
    using push_steps(3) [of st d0 d1 d2 d3] assms by (simp_all add: b64_fresh_def)
  ultimately show ?thesis by blast
qed

lemma loop_reject_after:
  assumes "pad st = 0" "c \<noteq> EQ" "\<nexists>d. d < 64 \<and> c = alpha d" "\<not> is_ws c"
    "\<forall>p\<in>set ps. \<exists>d<64. p = alpha d"
  shows "b64_finish (b64_loop (ps @ c # s) st) = None"
  using assms(1,5)
proof (induction ps arbitrary: st)
  case Nil
  then show ?case using loop_reject [OF assms(4,2,3)] by simp
next
  case (Cons p ps)
  then obtain d where "d < 64" "p = alpha d" by auto
  with Cons show ?case
    using Cons.IH [of "b64_push d st"] loop_data [of d st] by (simp add: b64_push_def Let_def)
qed

text \<open>The first character of a group that is no alphabet character.\<close>

lemma group_cases:
  assumes "length s \<ge> 4" "\<forall>c\<in>set s. \<not> is_ws c"
  obtains (full) d0 d1 d2 d3 t where "s = alpha d0 # alpha d1 # alpha d2 # alpha d3 # t"
      "d0 < 64" "d1 < 64" "d2 < 64" "d3 < 64"
  | (pad1) d0 d1 d2 t where "s = alpha d0 # alpha d1 # alpha d2 # EQ # t" "d0 < 64" "d1 < 64" "d2 < 64"
  | (pad2) d0 d1 t where "s = alpha d0 # alpha d1 # EQ # t" "d0 < 64" "d1 < 64"
  | (pad3) d0 t where "s = alpha d0 # EQ # t" "d0 < 64" "length t \<ge> 2"
  | (pad4) t where "s = EQ # t" "length t \<ge> 2"
  | (other) ps c t where "s = ps @ c # t" "c \<noteq> EQ" "\<nexists>d. d < 64 \<and> c = alpha d" "\<not> is_ws c"
      "\<forall>p\<in>set ps. \<exists>d<64. p = alpha d"
proof -
  let ?A = "\<lambda>c. \<exists>d<64. c = alpha d"
  obtain c0 c1 c2 c3 t where s: "s = c0 # c1 # c2 # c3 # t"
    using assms(1) by (auto simp: Suc_le_length_iff eval_nat_numeral)
  have nws: "\<not> is_ws c0" "\<not> is_ws c1" "\<not> is_ws c2" "\<not> is_ws c3" using assms(2) s by auto
  consider "\<not> ?A c0" | "?A c0" "\<not> ?A c1" | "?A c0" "?A c1" "\<not> ?A c2"
    | "?A c0" "?A c1" "?A c2" "\<not> ?A c3" | "?A c0" "?A c1" "?A c2" "?A c3" by blast
  then show thesis
  proof cases
    case 1
    then show thesis using pad4 [of "c1 # c2 # c3 # t"] other [of "[]" c0 "c1 # c2 # c3 # t"] s nws
      by (cases "c0 = EQ") auto
  next
    case 2
    then show thesis using pad3 [of _ "c2 # c3 # t"] other [of "[c0]" c1 "c2 # c3 # t"] s nws
      by (cases "c1 = EQ") auto
  next
    case 3
    then show thesis using pad2 [of _ _ "c3 # t"] other [of "[c0, c1]" c2 "c3 # t"] s nws
      by (cases "c2 = EQ") auto
  next
    case 4
    then show thesis using pad1 [of _ _ _ t] other [of "[c0, c1, c2]" c3 t] s nws
      by (cases "c3 = EQ") auto
  next
    case 5
    then show thesis using full s by blast
  qed
qed

lemma encode_full:
  assumes "d0 < 64" "d1 < 64" "d2 < 64" "d3 < 64"
  shows "codec_b64_encode bs = alpha d0 # alpha d1 # alpha d2 # alpha d3 # t \<longleftrightarrow>
    (\<exists>rest. bs = quad0 d0 d1 # quad1 d1 d2 # quad2 d2 d3 # rest \<and> codec_b64_encode rest = t)"
proof
  assume "codec_b64_encode bs = alpha d0 # alpha d1 # alpha d2 # alpha d3 # t"
  then obtain a b c rest where "bs = a # b # c # rest" "codec_b64_encode rest = t"
    "d0 = sext0 a" "d1 = sext1 a b" "d2 = sext2 b c" "d3 = sext3 c"
    unfolding encode_cases by (auto simp: alpha_eq_iff sext_bounds assms)
  then show "\<exists>rest. bs = quad0 d0 d1 # quad1 d1 d2 # quad2 d2 d3 # rest \<and> codec_b64_encode rest = t"
    by (simp add: quad_sext)
next
  assume "\<exists>rest. bs = quad0 d0 d1 # quad1 d1 d2 # quad2 d2 d3 # rest \<and> codec_b64_encode rest = t"
  then show "codec_b64_encode bs = alpha d0 # alpha d1 # alpha d2 # alpha d3 # t"
    by (auto simp: encode_steps sext_quad [OF assms] simp del: codec_b64_encode.simps)
qed

lemma encode_pad1:
  assumes "d0 < 64" "d1 < 64" "d2 < 64"
  shows "codec_b64_encode bs = alpha d0 # alpha d1 # alpha d2 # EQ # t \<longleftrightarrow>
    t = [] \<and> bs = [quad0 d0 d1, quad1 d1 d2] \<and> sext2 (quad1 d1 d2) 0 = d2"
proof
  assume "codec_b64_encode bs = alpha d0 # alpha d1 # alpha d2 # EQ # t"
  then obtain a b where "bs = [a, b]" "t = []" "d0 = sext0 a" "d1 = sext1 a b" "d2 = sext2 b 0"
    unfolding encode_cases by (auto simp: alpha_eq_iff sext_bounds assms)
  then show "t = [] \<and> bs = [quad0 d0 d1, quad1 d1 d2] \<and> sext2 (quad1 d1 d2) 0 = d2"
    by (simp add: quad_sext)
next
  assume "t = [] \<and> bs = [quad0 d0 d1, quad1 d1 d2] \<and> sext2 (quad1 d1 d2) 0 = d2"
  then show "codec_b64_encode bs = alpha d0 # alpha d1 # alpha d2 # EQ # t"
    using sext_quad(1,2) [OF assms(1-3), of 0]
    by (auto simp: encode_steps simp del: codec_b64_encode.simps)
qed

lemma encode_pad2:
  assumes "d0 < 64" "d1 < 64"
  shows "codec_b64_encode bs = alpha d0 # alpha d1 # EQ # t \<longleftrightarrow>
    t = [EQ] \<and> bs = [quad0 d0 d1] \<and> sext1 (quad0 d0 d1) 0 = d1"
proof
  assume enc: "codec_b64_encode bs = alpha d0 # alpha d1 # EQ # t"
  then have "t \<noteq> []" using encode_length [of bs] by (auto, presburger)
  then obtain c u where "t = c # u" by (cases t) auto
  with enc obtain a where "bs = [a]" "t = [EQ]" "d0 = sext0 a" "d1 = sext1 a 0"
    using encode_cases [of bs "alpha d0" "alpha d1" EQ c u] by (auto simp: alpha_eq_iff sext_bounds assms)
  then show "t = [EQ] \<and> bs = [quad0 d0 d1] \<and> sext1 (quad0 d0 d1) 0 = d1"
    by (simp add: quad_sext)
next
  assume "t = [EQ] \<and> bs = [quad0 d0 d1] \<and> sext1 (quad0 d0 d1) 0 = d1"
  then show "codec_b64_encode bs = alpha d0 # alpha d1 # EQ # t"
    using sext_quad(1) [OF assms, of 0 0]
    by (auto simp: encode_steps simp del: codec_b64_encode.simps)
qed

lemma encode_starts: "codec_b64_encode bs \<noteq> EQ # t" "codec_b64_encode bs \<noteq> alpha d # EQ # t"
  by (cases bs rule: codec_b64_encode.cases; simp add: Let_def)+

lemma decode_fresh:
  assumes "b64_fresh st" "\<forall>c\<in>set s. \<not> is_ws c"
  shows "b64_finish (b64_loop s st) = Some r \<longleftrightarrow> (\<exists>bs. r = dec_out st @ bs \<and> codec_b64_encode bs = s)"
  using assms
proof (induction "length s" arbitrary: s st rule: less_induct)
  case less
  note nws = less.prems(2)
  have enc: "length s mod 4 = 0" if "codec_b64_encode bs = s" for bs
    using that encode_length [of bs] by simp
  consider "s = []" | "0 < length s" "length s < 4" | "length s \<ge> 4" by fastforce
  then show ?case
  proof cases
    case 1
    have "codec_b64_encode bs = [] \<longleftrightarrow> bs = []" for bs
      by (cases bs rule: codec_b64_encode.cases) (auto simp: Let_def)
    then show ?thesis using 1 less.prems(1)
      by (auto simp: b64_finish_def b64_fresh_def)
  next
    case 2
    obtain k where "ngroup st = 4 * k" using fresh_group less.prems(1) by blast
    with 2 have "b64_finish (b64_loop s st) \<noteq> Some r" using finish_group [OF nws, of st r] by auto
    moreover have "codec_b64_encode bs \<noteq> s" for bs using 2 enc [of bs] by auto
    ultimately show ?thesis by blast
  next
    case 3
    then show ?thesis using nws
    proof (cases s rule: group_cases)
      case (full d0 d1 d2 d3 t)
      obtain st' where st': "b64_fresh st'" "dec_out st' = dec_out st @ [quad0 d0 d1, quad1 d1 d2, quad2 d2 d3]"
        "b64_loop s st = b64_loop t st'" using decode_full_group [OF less.prems(1) full(2-5)] full(1) by blast
      have "b64_finish (b64_loop t st') = Some r \<longleftrightarrow> (\<exists>bs. r = dec_out st' @ bs \<and> codec_b64_encode bs = t)"
        using less.hyps [of t st'] st'(1) full(1) nws by simp
      then show ?thesis using st' full(1) encode_full [OF full(2-5)]
        by (auto)
    next
      case (pad1 d0 d1 d2 t)
      then show ?thesis using decode_one_pad [OF less.prems(1) pad1(2-4), of t r] nws
        by (auto simp: encode_pad1 [OF pad1(2-4)])
    next
      case (pad2 d0 d1 t)
      then show ?thesis using decode_two_pads [OF less.prems(1) pad2(2,3), of t r] nws 3
        by (auto simp: encode_pad2 [OF pad2(2,3)])
    next
      case (pad3 d0 t)
      then show ?thesis using decode_early_pad(2) [OF less.prems(1) pad3(2), of t] nws
        by (auto simp: encode_starts)
    next
      case (pad4 t)
      then show ?thesis using decode_early_pad(1) [OF less.prems(1), of 0 t] nws 3
        by (auto simp: encode_starts)
    next
      case (other ps c t)
      then have "c \<in> set s" by simp
      then have "codec_b64_encode bs \<noteq> s" for bs using encode_chars [of c bs] other by auto
      then show ?thesis using loop_reject_after [OF _ other(2-5), of st t] less.prems(1) other(1)
        by (simp add: b64_fresh_def)
    qed
  qed
qed

section \<open>Digest padding\<close>

lemma fold_store:
  "off + n \<le> length xs \<Longrightarrow>
    fold (\<lambda>i b. b[off + i := f i]) [0..<n] xs = take off xs @ map f [0..<n] @ drop (off + n) xs"
proof (induction n)
  case (Suc n)
  then have "drop (off + n) xs = xs ! (off + n) # drop (off + Suc n) xs"
    using Cons_nth_drop_Suc [of "off + n" xs] by simp
  with Suc show ?case by (simp add: list_update_append min_def)
qed simp

lemma fold_store_back:
  "n \<le> length xs \<Longrightarrow>
    fold (\<lambda>i b. b[length xs - 1 - i := f i]) [0..<n] xs = take (length xs - n) xs @ rev (map f [0..<n])"
proof (induction n)
  case (Suc n)
  then have "take (length xs - n) xs = take (length xs - Suc n) xs @ [xs ! (length xs - Suc n)]"
    using take_Suc_conv_app_nth [of "length xs - Suc n" xs] by (simp add: Suc_diff_Suc)
  with Suc show ?case by (simp add: list_update_append)
qed simp

lemma message_marker:
  assumes "length msg + 9 \<le> m"
  shows "take (m - 8) ((msg @ drop (length msg) (replicate m (0 :: u8)))[length msg := 0x80]) =
     msg @ 0x80 # replicate (m - 8 - (length msg + 1)) 0"
proof -
  have d: "drop (length msg) (replicate m (0 :: u8)) = 0 # replicate (m - (length msg + 1)) 0"
    using assms by (cases "m - length msg") (auto simp: Suc_diff_Suc)
  show ?thesis using assms unfolding d by (simp add: take_Cons' list_update_append)
qed

lemma md5_pad_form:
  fixes msg :: bytes
  defines "m \<equiv> ((length msg + 8) div 64 + 1) * 64"
  shows "md5_pad msg = msg @ 0x80 # replicate (m - 8 - (length msg + 1)) 0 @ le64 (of_nat (length msg) * 8)"
    and "length msg + 9 \<le> m" "m < length msg + 9 + 64"
proof -
  define q where "q = (length msg + 8) div 64"
  have "64 * q \<le> length msg + 8" "length msg + 8 < 64 * q + 64"
    using div_mult_mod_eq [of "length msg + 8" 64] by (auto simp: q_def)
  then show le: "length msg + 9 \<le> m" and "m < length msg + 9 + 64" unfolding m_def q_def [symmetric] by simp_all
  let ?b = "(msg @ drop (length msg) (replicate m (0 :: u8)))[length msg := 0x80]"
  have len: "length ?b = m" using le by simp
  have "md5_pad msg = fold (\<lambda>i b. b[m - 8 + i := ucast (drop_bit (8 * i) (of_nat (length msg) * 8 :: u64))]) [0..<8] ?b"
    by (simp add: md5_pad_def Let_def m_def)
  also have "\<dots> = take (m - 8) ?b @ le64 (of_nat (length msg) * 8) @ drop (m - 8 + 8) ?b"
    unfolding le64_def by (rule fold_store) (use le len in simp)
  also have "drop (m - 8 + 8) ?b = []" using le len by simp
  finally show "md5_pad msg = msg @ 0x80 # replicate (m - 8 - (length msg + 1)) 0 @ le64 (of_nat (length msg) * 8)"
    using message_marker [OF le] by simp
qed

lemma div_split_64: "\<exists>q m. n = 64 * q + m \<and> m < 64" for n :: nat
  by (intro exI [of _ "n div 64"] exI [of _ "n mod 64"]) simp

lemma sha1_total_least: "t \<le> sha1_total t \<and> sha1_total t mod 64 = 56 \<and> sha1_total t < t + 64"
proof -
  have "t \<le> sha1_total t \<and> sha1_total t mod 64 = 56 \<and> (\<forall>u. t \<le> u \<and> u < sha1_total t \<longrightarrow> u mod 64 \<noteq> 56)"
  proof (induction t rule: sha1_total.induct)
    case (1 t)
    show ?case
    proof (cases "t mod 64 = 56")
      case False
      then have "sha1_total t = sha1_total (t + 1)" by (simp add: sha1_total.simps [of t])
      with 1 [OF False] False show ?thesis by (metis Suc_eq_plus1 Suc_leD Suc_leI le_neq_implies_less)
    qed (simp add: sha1_total.simps [of t])
  qed
  moreover have "\<exists>u. t \<le> u \<and> u < t + 64 \<and> u mod 64 = 56"
  proof -
    obtain q m where t: "t = 64 * q + m" "m < 64" using div_split_64 by blast
    show ?thesis
    proof (cases "m \<le> 56")
      case True
      then show ?thesis using t by (intro exI [of _ "64 * q + 56"]) simp
    next
      case False
      then show ?thesis using t by (intro exI [of _ "64 * (q + 1) + 56"]) simp
    qed
  qed
  ultimately show ?thesis by (meson le_less_trans not_le)
qed

lemma sha1_pad_form:
  fixes msg :: bytes
  defines "m \<equiv> sha1_total (length msg + 1) + 8"
  shows "sha1_pad msg = msg @ 0x80 # replicate (m - 8 - (length msg + 1)) 0 @ rev (le64 (of_nat (length msg) * 8))"
proof -
  have le: "length msg + 9 \<le> m" using sha1_total_least [of "length msg + 1"] by (simp add: m_def)
  let ?b = "(msg @ drop (length msg) (replicate m (0 :: u8)))[length msg := 0x80]"
  have len: "length ?b = m" using le by simp
  have "sha1_pad msg = fold (\<lambda>i b. b[length ?b - 1 - i := ucast (drop_bit (8 * i) (of_nat (length msg) * 8 :: u64))]) [0..<8] ?b"
    unfolding len unfolding sha1_pad_def Let_def m_def by (rule refl)
  also have "\<dots> = take (length ?b - 8) ?b @ rev (le64 (of_nat (length msg) * 8))"
    unfolding le64_def by (rule fold_store_back) (use le len in simp)
  finally show ?thesis using message_marker [OF le] unfolding len by simp
qed

lemma sha1_total_eq: "sha1_total (n + 1) + 8 = ((n + 8) div 64 + 1) * 64"
proof -
  define t where "t = sha1_total (n + 1) + 8"
  have b: "n + 9 \<le> t" "t < n + 9 + 64" "t mod 64 = 0"
  proof -
    have "(sha1_total (n + 1) mod 64 + 8) mod 64 = 0"
      using sha1_total_least [of "n + 1"] by simp
    then show "t mod 64 = 0" by (simp only: t_def mod_add_left_eq)
  qed (use sha1_total_least [of "n + 1"] in \<open>simp_all add: t_def\<close>)
  then obtain k where k: "t = 64 * k" by blast
  moreover obtain q m where q: "n + 8 = 64 * q + m" "m < 64" using div_split_64 by blast
  moreover have "(n + 8) div 64 = q" using q by simp
  moreover have "k = q + 1" using b k q by linarith
  ultimately show ?thesis by (simp add: t_def)
qed

section \<open>Properties\<close>

lemma decode_iff_encode: "codec_b64_decode s = Some bs \<longleftrightarrow> filter (\<lambda>c. \<not> is_ws c) s = codec_b64_encode bs"
proof -
  have "b64_fresh b64_init" by (simp add: b64_fresh_def b64_init_def)
  then show ?thesis
    using decode_fresh [of b64_init "filter (\<lambda>c. \<not> is_ws c) s" bs]
    by (auto simp: codec_b64_decode_def loop_skips_ws [of s] b64_init_def)
qed

interpretation b64: canonical_codec codec_b64_encode codec_b64_decode "filter (\<lambda>c. \<not> is_ws c)"
proof
  fix bs
  have "filter (\<lambda>c. \<not> is_ws c) (codec_b64_encode bs) = codec_b64_encode bs"
    using encode_no_ws by (simp add: filter_id_conv)
  then show "codec_b64_decode (codec_b64_encode bs) = Some bs" by (simp add: decode_iff_encode)
next
  fix s
  show "codec_b64_decode (filter (\<lambda>c. \<not> is_ws c) s) = codec_b64_decode s"
    by (simp add: codec_b64_decode_def loop_skips_ws [of s])
qed (simp add: decode_iff_encode)

text \<open>
  C6. \<open>.Q.atob\<close> on text or bytes answers the byte vector \<open>bs\<close> exactly when the input, with blanks,
  tabs and line ends dropped, is the base64 encoding of \<open>bs\<close>; any other input is the error
  \<open>'domain\<close>, so non-canonical padding, stray residual bits, data after padding and foreign characters
  are all refused. In particular decoding the text \<open>.Q.btoa\<close> produced gives the input back.
\<close>

theorem base64_canonical:
  assumes "q_str_text_or_bytevec x = Some s"
  shows "(q_dotq_atob_fn True x = Inr (QByteVec bs) \<longleftrightarrow>
            filter (\<lambda>c. \<not> is_ws c) s = codec_b64_encode bs) \<and>
    (q_dotq_atob_fn True x = Inl QE_DOMAIN \<longleftrightarrow>
            filter (\<lambda>c. \<not> is_ws c) s \<notin> range codec_b64_encode) \<and>
    (\<exists>y. q_dotq_btoa_fn True x = Inr y \<and> q_dotq_atob_fn True y = Inr (QByteVec s))"
proof (intro conjI)
  show "q_dotq_atob_fn True x = Inr (QByteVec bs) \<longleftrightarrow> filter (\<lambda>c. \<not> is_ws c) s = codec_b64_encode bs"
    using b64.dec_iff [of s bs] assms by (auto simp: q_dotq_atob_fn_def split: option.splits)
  show "q_dotq_atob_fn True x = Inl QE_DOMAIN \<longleftrightarrow> filter (\<lambda>c. \<not> is_ws c) s \<notin> range codec_b64_encode"
    using b64.accepts_iff [of s] assms by (auto simp: q_dotq_atob_fn_def split: option.splits)
  show "\<exists>y. q_dotq_btoa_fn True x = Inr y \<and> q_dotq_atob_fn True y = Inr (QByteVec s)"
    using assms by (simp add: q_dotq_btoa_fn_def q_dotq_atob_fn_def q_str_text_or_bytevec_def b64.dec_enc)
qed

theorem base64_canonical_witness:
  "q_dotq_atob_fn True (QCharv (lit ''YWJj ZA=='')) = Inr (QByteVec (lit ''abcd''))"
proof -
  have 1: "q_str_text_or_bytevec (QCharv (lit ''YWJj ZA=='')) = Some (lit ''YWJj ZA=='')"
    by (simp add: q_str_text_or_bytevec_def)
  have 2: "filter (\<lambda>c. \<not> is_ws c) (lit ''YWJj ZA=='') = codec_b64_encode (lit ''abcd'')"
    by code_simp
  show ?thesis using base64_canonical [OF 1, of "lit ''abcd''"] 2 by blast
qed

text \<open>
  The buffers \<open>codec_md5_compute\<close> and \<open>codec_sha1_compute\<close> hash are the padded messages of RFC 1321
  and FIPS 180: the message, the byte \<open>0x80\<close>, the least number of zeros that fills whole 64-byte blocks,
  and the message's bit length in eight bytes, least significant first for MD5 and last for SHA-1. SHA-1's
  counting loop and MD5's division arrive at the same length.
\<close>

theorem digest_padding:
  "\<exists>k<64. md5_pad msg = msg @ 0x80 # replicate k 0 @ le64 (of_nat (length msg) * 8) \<and>
     sha1_pad msg = msg @ 0x80 # replicate k 0 @ rev (le64 (of_nat (length msg) * 8)) \<and>
     (length msg + 1 + k + 8) mod 64 = 0"
proof -
  define m where "m = ((length msg + 8) div 64 + 1) * 64"
  define k where "k = m - 8 - (length msg + 1)"
  note b = md5_pad_form(2,3) [of msg, folded m_def]
  have len: "length msg + 1 + k + 8 = m" using b by (simp add: k_def)
  show ?thesis
  proof (intro exI [of _ k] conjI)
    show "k < 64" using b unfolding k_def by linarith
    show "md5_pad msg = msg @ 0x80 # replicate k 0 @ le64 (of_nat (length msg) * 8)"
      by (rule md5_pad_form(1) [of msg, folded m_def, folded k_def])
    show "sha1_pad msg = msg @ 0x80 # replicate k 0 @ rev (le64 (of_nat (length msg) * 8))"
      by (rule sha1_pad_form [of msg, unfolded sha1_total_eq, folded m_def, folded k_def])
    show "(length msg + 1 + k + 8) mod 64 = 0" unfolding len m_def by (rule mod_mult_self2_is_0)
  qed
qed

end
