(* ===== verification/Timers.thy ===== *)
theory Timers
  imports Prelude "HOL-Library.Multiset" "HOL-Library.Product_Lexorder"
begin

text \<open>
  The timer heap of \<^verbatim>\<open>src/core/timer.c\<close>: a binary min-heap in an array, keyed on deadline and id. The used
  prefix \<open>heap[0..n)\<close> of the C array is a list, its capacity a number beside it. Allocation results, clock
  readings and what a callback does to the timers and to the rest of the world are arguments.

  Shown: the heap refines a priority queue (locale \<open>deadline_queue\<close>), every operation keeps the heap
  order, the capacity bound and the uniqueness of ids, \<open>ray_timers_fire_expired\<close> ends and leaves no expired
  timer behind when periods are positive, and a callback that adds a timer can make its re-insertion write
  one slot past the array.
\<close>

section \<open>State\<close>

record 'f ray_timer =
  timer_id :: int
  tic_ms :: int
  exp_ms :: int
  num :: int
  timer_fn :: 'f

record 'f ray_timers =
  heap :: "'f ray_timer list"
  heap_cap :: nat
  next_id :: int

section \<open>Heap operations\<close>

definition heap_less :: "'f ray_timer \<Rightarrow> 'f ray_timer \<Rightarrow> bool" where
  "heap_less a b = (if exp_ms a \<noteq> exp_ms b then exp_ms a < exp_ms b else timer_id a < timer_id b)"

definition heap_swap :: "'a list \<Rightarrow> nat \<Rightarrow> nat \<Rightarrow> 'a list" where
  "heap_swap h i j = h[i := h ! j, j := h ! i]"

function heap_up :: "'f ray_timer list \<Rightarrow> nat \<Rightarrow> 'f ray_timer list" where
  "heap_up h i =
    (if i > 0 \<and> heap_less (h ! i) (h ! ((i - 1) div 2))
     then heap_up (heap_swap h i ((i - 1) div 2)) ((i - 1) div 2)
     else h)"
  by pat_completeness auto
termination by (relation "measure snd") auto

definition best_child :: "'f ray_timer list \<Rightarrow> nat \<Rightarrow> nat \<Rightarrow> nat" where
  "best_child h n i =
    (let l = 2 * i + 1; r = 2 * i + 2;
         best = i;
         best = (if l < n \<and> heap_less (h ! l) (h ! best) then l else best);
         best = (if r < n \<and> heap_less (h ! r) (h ! best) then r else best)
     in best)"

lemma best_child_cases:
  "best_child h n i = i \<or> best_child h n i < n \<and> (best_child h n i = 2 * i + 1 \<or> best_child h n i = 2 * i + 2)"
  by (auto simp: best_child_def Let_def)

function heap_down :: "'f ray_timer list \<Rightarrow> nat \<Rightarrow> nat \<Rightarrow> 'f ray_timer list" where
  "heap_down h n i =
    (let best = best_child h n i
     in if best = i then h else heap_down (heap_swap h i best) n best)"
  by pat_completeness auto
termination
proof (relation "measure (\<lambda>(h, n, i). n - i)")
  fix h :: "'f ray_timer list" and n i x
  assume "x = best_child h n i" "x \<noteq> i"
  then show "((heap_swap h i x, n, x), h, n, i) \<in> measure (\<lambda>(h, n, i). n - i)"
    using best_child_cases [of h n i] by auto
qed simp

declare heap_up.simps [simp del] heap_down.simps [simp del]

text \<open>
  \<open>heap_grow\<close> copies the entries into an array of twice the capacity; \<open>ok\<close> is whether the allocation succeeds.
\<close>

definition heap_grow :: "bool \<Rightarrow> 'f ray_timers \<Rightarrow> 'f ray_timers option" where
  "heap_grow ok t = (if ok then Some (t\<lparr>heap_cap := heap_cap t * 2\<rparr>) else None)"

definition ray_timers_create :: "bool \<Rightarrow> int \<Rightarrow> 'f ray_timers option" where
  "ray_timers_create ok initial_cap =
    (if ok then Some \<lparr>heap = [], heap_cap = nat (if initial_cap < 1 then 1 else initial_cap), next_id = 0\<rparr>
     else None)"

text \<open>Storing an entry at \<open>heap[n]\<close>, sifting it up and counting it.\<close>

definition heap_push :: "'f ray_timer \<Rightarrow> 'f ray_timer list \<Rightarrow> 'f ray_timer list" where
  "heap_push tm h = heap_up (h @ [tm]) (length h)"

text \<open>\<open>ray_timers_add\<close>: \<open>grow_ok\<close> and \<open>alloc_ok\<close> are its two allocations, \<open>now\<close> the clock reading.\<close>

definition ray_timers_add ::
  "bool \<Rightarrow> bool \<Rightarrow> int \<Rightarrow> int \<Rightarrow> int \<Rightarrow> 'f option \<Rightarrow> 'f ray_timers \<Rightarrow> int \<times> 'f ray_timers" where
  "ray_timers_add grow_ok alloc_ok now tic n fn t =
    (case fn of
       None \<Rightarrow> (-1, t)
     | Some f \<Rightarrow>
         (case (if length (heap t) \<ge> heap_cap t then heap_grow grow_ok t else Some t) of
            None \<Rightarrow> (-1, t)
          | Some t \<Rightarrow>
              if \<not> alloc_ok then (-1, t)
              else
                (let tm = \<lparr>timer_id = next_id t, tic_ms = tic, exp_ms = wrap_i64 (now + tic), num = n, timer_fn = f\<rparr>
                 in (timer_id tm, t\<lparr>heap := heap_push tm (heap t), next_id := wrap_i64 (next_id t + 1)\<rparr>))))"

text \<open>The search loop of \<open>ray_timers_del\<close>: the first index whose entry has the id.\<close>

fun find_id :: "int \<Rightarrow> 'f ray_timer list \<Rightarrow> nat option" where
  "find_id i [] = None"
| "find_id i (t # ts) = (if timer_id t \<noteq> i then map_option Suc (find_id i ts) else Some 0)"

definition heap_remove :: "nat \<Rightarrow> 'f ray_timer list \<Rightarrow> 'f ray_timer list" where
  "heap_remove i h =
    (let n = length h - 1
     in if i < n
        then (let h' = take n (h[i := h ! n]) in heap_up (heap_down h' n i) i)
        else take n h)"

definition ray_timers_del :: "int \<Rightarrow> 'f ray_timers \<Rightarrow> bool \<times> 'f ray_timers" where
  "ray_timers_del i t =
    (case find_id i (heap t) of
       None \<Rightarrow> (False, t)
     | Some k \<Rightarrow> (True, t\<lparr>heap := heap_remove k (heap t)\<rparr>))"

definition ray_timers_next_deadline_ms :: "'f ray_timers \<Rightarrow> int" where
  "ray_timers_next_deadline_ms t = (if heap t = [] then INT64_MAX else exp_ms (heap t ! 0))"

section \<open>Firing\<close>

text \<open>Popping the head: the tail entry takes its place and is sifted down.\<close>

definition heap_pop :: "'f ray_timer list \<Rightarrow> 'f ray_timer list" where
  "heap_pop h =
    (let n = length h - 1
     in if n > 0 then heap_down (take n (h[0 := h ! n])) n 0 else [])"

text \<open>
  What follows the callback: a timer that runs for ever, or has fires left, gets its next deadline and is
  stored at \<open>heap[n]\<close>; the last fire drops it. \<open>None\<close> is a store outside the array.
\<close>

definition reinsert :: "'f ray_timer \<Rightarrow> 'f ray_timers \<Rightarrow> 'f ray_timers option" where
  "reinsert tm t =
    (if num tm = 0 \<or> num tm > 1
     then (if length (heap t) < heap_cap t
           then Some (t\<lparr>heap := heap_push
                  (tm\<lparr>num := (if num tm = 0 then 0 else num tm - 1), exp_ms := wrap_i64 (exp_ms tm + tic_ms tm)\<rparr>) (heap t)\<rparr>)
           else None)
     else Some t)"

datatype 'a fire_res = Fired 'a | Overrun | OutOfFuel

text \<open>
  The loop of \<open>ray_timers_fire_expired\<close>. \<open>call f now (t, w)\<close> is the effect of the callback \<open>f\<close> on the timers \<open>t\<close>
  (it may add and delete timers) and on the rest of the world \<open>w\<close>; \<open>clk k\<close> is the \<open>k\<close>-th clock reading. The
  loop has no bound of its own, so it carries fuel.
\<close>

fun fire_loop ::
  "nat \<Rightarrow> ('f \<Rightarrow> int \<Rightarrow> 'f ray_timers \<times> 'w \<Rightarrow> 'f ray_timers \<times> 'w) \<Rightarrow> (nat \<Rightarrow> int) \<Rightarrow> nat \<Rightarrow>
   'f ray_timers \<times> 'w \<Rightarrow> (nat \<times> 'f ray_timers \<times> 'w) fire_res" where
  "fire_loop 0 call clk k tw = OutOfFuel"
| "fire_loop (Suc fuel) call clk k (t, w) =
    (if heap t \<noteq> [] \<and> exp_ms (heap t ! 0) \<le> clk k
     then (let tm = heap t ! 0;
               (t1, w1) = call (timer_fn tm) (clk k) (t\<lparr>heap := heap_pop (heap t)\<rparr>, w)
           in case reinsert tm t1 of
                None \<Rightarrow> Overrun
              | Some t2 \<Rightarrow> fire_loop fuel call clk (k + 1) (t2, w1))
     else Fired (k, t, w))"

definition ray_timers_fire_expired ::
  "nat \<Rightarrow> ('f \<Rightarrow> int \<Rightarrow> 'f ray_timers \<times> 'w \<Rightarrow> 'f ray_timers \<times> 'w) \<Rightarrow> (nat \<Rightarrow> int) \<Rightarrow>
   'f ray_timers \<times> 'w \<Rightarrow> (nat \<times> 'f ray_timers \<times> 'w) fire_res" where
  "ray_timers_fire_expired fuel call clk tw =
    (if heap (fst tw) = [] then Fired (0, tw) else fire_loop fuel call clk 0 tw)"

section \<open>Heap order\<close>

definition tkey :: "'f ray_timer \<Rightarrow> int \<times> int" where
  "tkey t = (exp_ms t, timer_id t)"

definition parent :: "nat \<Rightarrow> nat" where
  "parent i = (i - 1) div 2"

definition is_heap :: "'f ray_timer list \<Rightarrow> bool" where
  "is_heap h \<longleftrightarrow> (\<forall>j<length h. 0 < j \<longrightarrow> tkey (h ! parent j) \<le> tkey (h ! j))"

text \<open>Heap order but for the edge above \<open>i\<close>, and but for all edges at \<open>i\<close>.\<close>

definition up_hole :: "'f ray_timer list \<Rightarrow> nat \<Rightarrow> bool" where
  "up_hole h i \<longleftrightarrow>
    (\<forall>j<length h. 0 < j \<longrightarrow> j \<noteq> i \<longrightarrow> tkey (h ! parent j) \<le> tkey (h ! j)) \<and>
    (\<forall>j<length h. 0 < j \<longrightarrow> parent j = i \<longrightarrow> 0 < i \<longrightarrow> tkey (h ! parent i) \<le> tkey (h ! j))"

definition hole :: "'f ray_timer list \<Rightarrow> nat \<Rightarrow> bool" where
  "hole h i \<longleftrightarrow>
    (\<forall>j<length h. 0 < j \<longrightarrow> j \<noteq> i \<longrightarrow> parent j \<noteq> i \<longrightarrow> tkey (h ! parent j) \<le> tkey (h ! j)) \<and>
    (\<forall>j<length h. 0 < j \<longrightarrow> parent j = i \<longrightarrow> 0 < i \<longrightarrow> tkey (h ! parent i) \<le> tkey (h ! j))"

definition timers_ok :: "'f ray_timers \<Rightarrow> bool" where
  "timers_ok t \<longleftrightarrow> is_heap (heap t) \<and> length (heap t) \<le> heap_cap t \<and> 0 < heap_cap t \<and> 0 \<le> next_id t \<and>
     distinct (map timer_id (heap t)) \<and> (\<forall>x\<in>set (heap t). timer_id x < next_id t)"

lemma heap_less_key: "heap_less a b \<longleftrightarrow> tkey a < tkey b"
  by (auto simp: heap_less_def tkey_def)

lemma parent_less: "0 < i \<Longrightarrow> parent i < i"
  by (simp add: parent_def)

lemma parent_iff: "0 < j \<Longrightarrow> parent j = i \<longleftrightarrow> j = 2 * i + 1 \<or> j = 2 * i + 2"
  by (auto simp: parent_def)

lemma swap_nth:
  "i < length h \<Longrightarrow> j < length h \<Longrightarrow> k < length h \<Longrightarrow>
    heap_swap h i j ! k = (if k = j then h ! i else if k = i then h ! j else h ! k)"
  by (simp add: heap_swap_def nth_list_update)

lemma swap_length [simp]: "length (heap_swap h i j) = length h"
  by (simp add: heap_swap_def)

lemma swap_mset [simp]: "i < length h \<Longrightarrow> j < length h \<Longrightarrow> mset (heap_swap h i j) = mset h"
  unfolding heap_swap_def by (rule mset_swap)

lemma heap_up_hole:
  assumes "up_hole h i" "i < length h"
  shows "is_heap (heap_up h i) \<and> mset (heap_up h i) = mset h"
  using assms
proof (induction h i rule: heap_up.induct)
  case (1 h i)
  show ?case
  proof (cases "i > 0 \<and> heap_less (h ! i) (h ! parent i)")
    case True
    let ?p = "parent i" and ?h = "heap_swap h i (parent i)"
    have i: "0 < i" "tkey (h ! i) < tkey (h ! ?p)" "?p < i" "?p < length h"
      using True parent_less [of i] 1(3) by (auto simp: heap_less_key)
    have edge: "tkey (h ! parent j) \<le> tkey (h ! j)" if "j < length h" "0 < j" "j \<noteq> i" for j
      using 1(2) that by (auto simp: up_hole_def)
    have grand: "tkey (h ! ?p) \<le> tkey (h ! j)" if "j < length h" "0 < j" "parent j = i" for j
      using 1(2) that i by (auto simp: up_hole_def)
    have nth: "?h ! k = (if k = ?p then h ! i else if k = i then h ! ?p else h ! k)" if "k < length h" for k
      using swap_nth [of i h ?p k] 1(3) i that by simp
    have "up_hole ?h ?p"
      unfolding up_hole_def
    proof (intro conjI allI impI)
      fix j assume j: "j < length ?h" "0 < j" "j \<noteq> ?p"
      then have pj: "parent j < length h" using parent_less [of j] by simp
      show "tkey (?h ! parent j) \<le> tkey (?h ! j)"
        using j pj i edge [of j] grand [of j] parent_less [of j] by (auto simp: nth)
    next
      fix j assume j: "j < length ?h" "0 < j" "parent j = ?p" "0 < ?p"
      have pp: "parent ?p < ?p" "parent ?p < length h" using parent_less [of ?p] j i by auto
      have "tkey (h ! parent ?p) \<le> tkey (h ! ?p)" using edge [of ?p] i j by auto
      moreover have "tkey (h ! ?p) \<le> tkey (h ! j)" if "j \<noteq> i" using edge [of j] j that by auto
      moreover have "j \<noteq> ?p" using j parent_less [of j] by auto
      ultimately show "tkey (?h ! parent ?p) \<le> tkey (?h ! j)"
        using j pp i by (auto simp: nth)
    qed
    then have "is_heap (heap_up ?h ?p) \<and> mset (heap_up ?h ?p) = mset ?h"
      using 1(1) True 1(3) i by (simp add: parent_def)
    then show ?thesis using True i 1(3) by (simp add: heap_up.simps [of h i] parent_def)
  next
    case False
    then have "heap_up h i = h" by (auto simp: heap_up.simps [of h i] parent_def)
    moreover have "is_heap h" using False 1(2) by (auto simp: is_heap_def up_hole_def heap_less_key not_less)
    ultimately show ?thesis by simp
  qed
qed

lemma best_child_min:
  assumes "n = length h" "i < n"
  shows "tkey (h ! best_child h n i) \<le> tkey (h ! i)"
    and "j < n \<Longrightarrow> 0 < j \<Longrightarrow> parent j = i \<Longrightarrow> tkey (h ! best_child h n i) \<le> tkey (h ! j)"
    and "best_child h n i \<noteq> i \<Longrightarrow> tkey (h ! best_child h n i) < tkey (h ! i)"
    and "best_child h n i \<noteq> i \<Longrightarrow> parent (best_child h n i) = i \<and> i < best_child h n i \<and> best_child h n i < n"
proof -
  define b where "b = (if 2 * i + 1 < n \<and> heap_less (h ! (2 * i + 1)) (h ! i) then 2 * i + 1 else i)"
  have best: "best_child h n i = (if 2 * i + 2 < n \<and> heap_less (h ! (2 * i + 2)) (h ! b) then 2 * i + 2 else b)"
    by (simp add: best_child_def b_def)
  have b: "tkey (h ! b) \<le> tkey (h ! i)" "2 * i + 1 < n \<Longrightarrow> tkey (h ! b) \<le> tkey (h ! (2 * i + 1))"
    "b \<noteq> i \<Longrightarrow> b = 2 * i + 1 \<and> b < n \<and> tkey (h ! b) < tkey (h ! i)"
    by (auto simp: b_def heap_less_key split: if_splits)
  have c: "tkey (h ! best_child h n i) \<le> tkey (h ! b)"
    "2 * i + 2 < n \<Longrightarrow> tkey (h ! best_child h n i) \<le> tkey (h ! (2 * i + 2))"
    "best_child h n i \<noteq> b \<Longrightarrow> best_child h n i = 2 * i + 2 \<and> best_child h n i < n \<and>
       tkey (h ! best_child h n i) < tkey (h ! b)"
    unfolding best by (auto simp: heap_less_key split: if_splits)
  show "tkey (h ! best_child h n i) \<le> tkey (h ! i)" using b(1) c(1) by (rule order_trans [rotated])
  show "tkey (h ! best_child h n i) \<le> tkey (h ! j)" if "j < n" "0 < j" "parent j = i"
  proof -
    have "j = 2 * i + 1 \<or> j = 2 * i + 2" using that parent_iff by blast
    then show ?thesis using b(2) c(1,2) that(1) by (metis order_trans)
  qed
  show "tkey (h ! best_child h n i) < tkey (h ! i)" if "best_child h n i \<noteq> i"
    using b(1,3) c(1,3) that by (metis le_less_trans less_le_trans)
  show "parent (best_child h n i) = i \<and> i < best_child h n i \<and> best_child h n i < n" if "best_child h n i \<noteq> i"
    using best_child_cases [of h n i] that by (auto simp: parent_def)
qed

lemma heap_down_length [simp]: "length (heap_down h n i) = length h"
  by (induction h n i rule: heap_down.induct) (auto simp: heap_down.simps Let_def)

text \<open>A hole whose edge above is in order is repaired completely; otherwise only that edge is left.\<close>

lemma hole_swap:
  fixes h :: "'f ray_timer list" and i :: nat
  defines "c \<equiv> best_child h (length h) i"
  assumes "hole h i" "i < length h" "c \<noteq> i"
  shows "hole (heap_swap h i c) c \<and> tkey (heap_swap h i c ! parent c) \<le> tkey (heap_swap h i c ! c)"
proof -
  let ?h = "heap_swap h i c"
  have c: "parent c = i" "i < c" "c < length h" "tkey (h ! c) < tkey (h ! i)"
    and sib: "\<And>j. j < length h \<Longrightarrow> 0 < j \<Longrightarrow> parent j = i \<Longrightarrow> tkey (h ! c) \<le> tkey (h ! j)"
    using best_child_min [of "length h" h i] assms by (auto simp: c_def)
  have edge: "tkey (h ! parent j) \<le> tkey (h ! j)" if "j < length h" "0 < j" "j \<noteq> i" "parent j \<noteq> i" for j
    using assms(2) that by (auto simp: hole_def)
  have grand: "tkey (h ! parent i) \<le> tkey (h ! j)" if "j < length h" "0 < j" "parent j = i" "0 < i" for j
    using assms(2) that by (auto simp: hole_def)
  have nth: "?h ! k = (if k = c then h ! i else if k = i then h ! c else h ! k)" if "k < length h" for k
    using swap_nth [of i h c k] assms(3) c that by simp
  have "hole ?h c"
    unfolding hole_def
  proof (intro conjI allI impI)
    fix j assume j: "j < length ?h" "0 < j" "j \<noteq> c" "parent j \<noteq> c"
    then have "parent j < length h" using parent_less [of j] by simp
    then show "tkey (?h ! parent j) \<le> tkey (?h ! j)"
      using j c sib [of j] grand [of c] edge [of j] parent_less [of j] by (auto simp: nth)
  next
    fix j assume j: "j < length ?h" "0 < j" "parent j = c" "0 < c"
    then have "c < j" "j \<noteq> i" using parent_less [of j] c by auto
    then show "tkey (?h ! parent c) \<le> tkey (?h ! j)"
      using j c edge [of j] assms(3) by (auto simp: nth)
  qed
  moreover have "tkey (?h ! parent c) \<le> tkey (?h ! c)" using c assms(3) by (auto simp: nth)
  ultimately show ?thesis by blast
qed

lemma heap_down_closed_hole:
  assumes "hole h i" "i < length h" "0 < i \<longrightarrow> tkey (h ! parent i) \<le> tkey (h ! i)" "n = length h"
  shows "is_heap (heap_down h n i) \<and> mset (heap_down h n i) = mset h"
  using assms
proof (induction h n i rule: heap_down.induct)
  case (1 h n i)
  let ?c = "best_child h n i"
  show ?case
  proof (cases "?c = i")
    case True
    then have "is_heap h" using 1(2,4) best_child_min(2) [OF 1(5), of i] 1(3,5)
      by (fastforce simp: is_heap_def hole_def)
    with True show ?thesis by (simp add: heap_down.simps [of h n i])
  next
    case False
    have "?c < n" using best_child_min(4) [OF 1(5)] 1(3,5) False by blast
    moreover have "hole (heap_swap h i ?c) ?c" "tkey (heap_swap h i ?c ! parent ?c) \<le> tkey (heap_swap h i ?c ! ?c)"
      using hole_swap [of h i] 1(2,3,5) False by auto
    ultimately show ?thesis using 1(1) [OF refl False] 1(3,5) False
      by (simp add: heap_down.simps [of h "length h" i] Let_def)
  qed
qed

lemma is_heap_up_hole: "is_heap h \<Longrightarrow> i < length h \<Longrightarrow> up_hole h i"
  unfolding up_hole_def is_heap_def by (metis order_trans)

lemma heap_down_hole:
  assumes "hole h i" "i < length h" "n = length h"
  shows "up_hole (heap_down h n i) i \<and> mset (heap_down h n i) = mset h"
proof (cases "best_child h n i = i")
  case True
  then have "up_hole h i" using assms(1) best_child_min(2) [OF assms(3), of i] assms(2,3)
    by (fastforce simp: up_hole_def hole_def)
  with True show ?thesis by (simp add: heap_down.simps [of h n i])
next
  case False
  let ?c = "best_child h n i" and ?h = "heap_swap h i (best_child h n i)"
  have c: "?c < n" using best_child_min(4) [OF assms(3)] assms(2,3) False by blast
  have "hole ?h ?c" "tkey (?h ! parent ?c) \<le> tkey (?h ! ?c)"
    using hole_swap [of h i] assms False by auto
  then have "is_heap (heap_down ?h n ?c)" "mset (heap_down ?h n ?c) = mset h"
    using heap_down_closed_hole [of ?h ?c n] c assms by auto
  moreover have "heap_down h n i = heap_down ?h n ?c"
    using False by (simp add: heap_down.simps [of h n i] Let_def)
  ultimately show ?thesis using is_heap_up_hole [of "heap_down ?h n ?c" i] assms(2) by simp
qed

lemma heap_push_ok:
  assumes "is_heap h"
  shows "is_heap (heap_push t h)" "mset (heap_push t h) = add_mset t (mset h)"
proof -
  have "up_hole (h @ [t]) (length h)"
    unfolding up_hole_def
  proof (intro conjI allI impI)
    fix j assume j: "j < length (h @ [t])" "0 < j" "j \<noteq> length h"
    then show "tkey ((h @ [t]) ! parent j) \<le> tkey ((h @ [t]) ! j)"
      using assms parent_less [of j] by (auto simp: is_heap_def nth_append)
  next
    fix j assume "j < length (h @ [t])" "0 < j" "parent j = length h"
    then show "tkey ((h @ [t]) ! parent (length h)) \<le> tkey ((h @ [t]) ! j)"
      using parent_less [of j] by auto
  qed
  from heap_up_hole [OF this] show "is_heap (heap_push t h)" "mset (heap_push t h) = add_mset t (mset h)"
    by (simp_all add: heap_push_def)
qed

lemma mset_replace_last:
  assumes "i < length h - 1"
  shows "mset (take (length h - 1) (h[i := h ! (length h - 1)])) = mset h - {#h ! i#}"
proof -
  have ne: "h \<noteq> []" using assms by auto
  let ?g = "butlast h"
  have h: "h = ?g @ [last h]" using ne by simp
  have "h ! (length h - 1) = last h" using ne by (simp add: last_conv_nth)
  then have "take (length h - 1) (h[i := h ! (length h - 1)]) = ?g[i := last h]"
    using assms by (simp add: take_update_swap butlast_conv_take)
  moreover have "mset (?g[i := last h]) = add_mset (last h) (mset ?g - {#?g ! i#})"
    using assms by (simp add: mset_update)
  moreover have "?g ! i = h ! i" using assms by (simp add: nth_butlast)
  moreover have "h ! i \<in># mset ?g" using assms by (metis length_butlast nth_butlast nth_mem_mset)
  moreover have "mset h = add_mset (last h) (mset ?g)" by (subst h) simp
  ultimately show ?thesis by simp
qed

lemma hole_replace_last:
  assumes "is_heap h" "i < length h - 1"
  shows "hole (take (length h - 1) (h[i := x])) i"
proof -
  let ?h = "take (length h - 1) (h[i := x])"
  have edge: "tkey (h ! parent j) \<le> tkey (h ! j)" if "j < length h" "0 < j" for j
    using assms(1) that by (auto simp: is_heap_def)
  show ?thesis
    unfolding hole_def
  proof (intro conjI allI impI)
    fix j assume j: "j < length ?h" "0 < j" "j \<noteq> i" "parent j \<noteq> i"
    then show "tkey (?h ! parent j) \<le> tkey (?h ! j)"
      using edge [of j] parent_less [of j] by simp
  next
    fix j assume j: "j < length ?h" "0 < j" "parent j = i" "0 < i"
    then have "j \<noteq> i" "parent i \<noteq> i" using parent_less [of j] parent_less [of i] by auto
    moreover have "tkey (h ! parent i) \<le> tkey (h ! j)"
      using order_trans [OF edge [of i] edge [of j, unfolded j(3)]] j assms(2) by simp
    ultimately show "tkey (?h ! parent i) \<le> tkey (?h ! j)"
      using j assms(2) parent_less [of i] by simp
  qed
qed

lemma heap_remove_ok:
  assumes "is_heap h" "i < length h"
  shows "is_heap (heap_remove i h) \<and> mset (heap_remove i h) = mset h - {#h ! i#}"
proof (cases "i < length h - 1")
  case True
  let ?n = "length h - 1"
  let ?h = "take ?n (h[i := h ! ?n])"
  have n: "?n = length ?h" using True by simp
  have "up_hole (heap_down ?h ?n i) i \<and> mset (heap_down ?h ?n i) = mset ?h"
    using heap_down_hole [OF hole_replace_last [OF assms(1) True] _ n] True by simp
  then show ?thesis
    using heap_up_hole [of "heap_down ?h ?n i" i] mset_replace_last [OF True] True
    by (simp add: heap_remove_def Let_def)
next
  case False
  then have i: "i = length h - 1" using assms(2) by simp
  have "is_heap (take i h)"
    unfolding is_heap_def
  proof (intro allI impI)
    fix j assume "j < length (take i h)" "0 < j"
    then show "tkey (take i h ! parent j) \<le> tkey (take i h ! j)"
      using assms(1) parent_less [of j] by (simp add: is_heap_def)
  qed
  moreover have "mset h = add_mset (h ! i) (mset (take i h))"
  proof -
    have "h = take i h @ [h ! i]"
      using take_Suc_conv_app_nth [OF assms(2)] assms(2) i by simp
    then have "mset h = mset (take i h @ [h ! i])" by simp
    then show ?thesis by simp
  qed
  ultimately show ?thesis using i by (simp add: heap_remove_def Let_def)
qed

lemma heap_pop_ok:
  assumes "is_heap h" "h \<noteq> []"
  shows "is_heap (heap_pop h) \<and> mset (heap_pop h) = mset h - {#h ! 0#}"
proof (cases "0 < length h - 1")
  case True
  let ?n = "length h - 1"
  let ?h = "take ?n (h[0 := h ! ?n])"
  have n: "?n = length ?h" using True by simp
  have "is_heap (heap_down ?h ?n 0) \<and> mset (heap_down ?h ?n 0) = mset ?h"
    using heap_down_closed_hole [OF hole_replace_last [OF assms(1) True] _ _ n] True by simp
  then show ?thesis using mset_replace_last [OF True] True by (simp add: heap_pop_def Let_def)
next
  case False
  then obtain t where "h = [t]" using assms(2) by (cases h) auto
  then show ?thesis by (simp add: heap_pop_def is_heap_def)
qed

lemma heap_root_min:
  assumes "is_heap h" "j < length h"
  shows "tkey (h ! 0) \<le> tkey (h ! j)"
  using assms(2)
proof (induction j rule: less_induct)
  case (less j)
  show ?case
  proof (cases "j = 0")
    case False
    then have "parent j < j" by (simp add: parent_less)
    with less have "tkey (h ! 0) \<le> tkey (h ! parent j)" by simp
    also have "\<dots> \<le> tkey (h ! j)" using assms(1) less.prems False by (auto simp: is_heap_def)
    finally show ?thesis .
  qed simp
qed

section \<open>The priority queue contract\<close>

locale deadline_queue =
  fixes invar :: "'q \<Rightarrow> bool" and items :: "'q \<Rightarrow> 't multiset" and key :: "'t \<Rightarrow> 'k :: linorder"
    and top :: "'q \<Rightarrow> 't" and push :: "'t \<Rightarrow> 'q \<Rightarrow> 'q" and pop :: "'q \<Rightarrow> 'q"
  assumes push_invar: "invar q \<Longrightarrow> invar (push x q)"
    and push_items: "invar q \<Longrightarrow> items (push x q) = add_mset x (items q)"
    and pop_invar: "invar q \<Longrightarrow> items q \<noteq> {#} \<Longrightarrow> invar (pop q)"
    and pop_items: "invar q \<Longrightarrow> items q \<noteq> {#} \<Longrightarrow> items (pop q) = items q - {#top q#}"
    and top_in: "invar q \<Longrightarrow> items q \<noteq> {#} \<Longrightarrow> top q \<in># items q"
    and top_min: "invar q \<Longrightarrow> x \<in># items q \<Longrightarrow> key (top q) \<le> key x"
begin

lemma due_iff:
  assumes "invar q"
  shows "(\<exists>x\<in>#items q. key x \<le> d) \<longleftrightarrow> items q \<noteq> {#} \<and> key (top q) \<le> d"
  using top_in [OF assms] top_min [OF assms] by (metis empty_iff order_trans set_mset_empty)

lemma pop_then_push:
  assumes "invar q" "items q \<noteq> {#}"
  shows "invar (push x (pop q))" "items (push x (pop q)) = add_mset x (items q - {#top q#})"
  using assms by (simp_all add: push_invar push_items pop_invar pop_items)

lemma pops_ascend:
  assumes "invar q" "items q \<noteq> {#}" "items (pop q) \<noteq> {#}"
  shows "key (top q) \<le> key (top (pop q))"
proof -
  have "top (pop q) \<in># items q - {#top q#}" using assms by (metis pop_invar pop_items top_in)
  then show ?thesis using top_min [OF assms(1)] by (meson in_diffD)
qed

end

interpretation heapq: deadline_queue is_heap mset tkey "\<lambda>h. h ! 0" heap_push heap_pop
proof
  fix q :: "'f ray_timer list" and x
  show "is_heap q \<Longrightarrow> x \<in># mset q \<Longrightarrow> tkey (q ! 0) \<le> tkey x"
    using heap_root_min by (metis in_set_conv_nth set_mset_mset)
qed (auto simp: heap_push_ok heap_pop_ok)

section \<open>Entries come and go as a multiset\<close>

lemma entries_perm:
  assumes "mset h' = mset h"
  shows "length h' = length h" "set h' = set h" "distinct (map timer_id h') = distinct (map timer_id h)"
  using mset_eq_length [OF assms] mset_eq_setD [OF assms] mset_eq_imp_distinct_iff [of "map timer_id h'" "map timer_id h"] assms
  by simp_all

lemma pop_entries: "is_heap h \<Longrightarrow> h \<noteq> [] \<Longrightarrow> mset (h ! 0 # heap_pop h) = mset h"
  using heap_pop_ok [of h] by simp

lemma push_entries: "is_heap h \<Longrightarrow> mset (heap_push t h) = mset (t # h)"
  by (simp add: heap_push_ok)

lemma timers_ok_push:
  assumes "timers_ok t" "length (heap t) < heap_cap t" "timer_id x \<notin> timer_id ` set (heap t)" "timer_id x < n" "next_id t \<le> n"
  shows "timers_ok (t\<lparr>heap := heap_push x (heap t), next_id := n\<rparr>)"
proof -
  have h: "is_heap (heap t)" using assms(1) by (simp add: timers_ok_def)
  show ?thesis
    using assms entries_perm [OF push_entries [OF h, of x]] heap_push_ok(1) [OF h, of x]
    by (auto simp: timers_ok_def)
qed

lemma timers_ok_pop:
  assumes "timers_ok t" "heap t \<noteq> []"
  shows "timers_ok (t\<lparr>heap := heap_pop (heap t)\<rparr>)" "length (heap_pop (heap t)) < heap_cap t"
    "timer_id (heap t ! 0) \<notin> timer_id ` set (heap_pop (heap t))" "timer_id (heap t ! 0) < next_id t"
proof -
  have h: "is_heap (heap t)" using assms(1) by (simp add: timers_ok_def)
  have e: "length (heap t) = Suc (length (heap_pop (heap t)))" "set (heap t) = insert (heap t ! 0) (set (heap_pop (heap t)))"
    "distinct (map timer_id (heap t)) = distinct (timer_id (heap t ! 0) # map timer_id (heap_pop (heap t)))"
    using entries_perm [OF pop_entries [OF h assms(2)]] by simp_all
  show "timers_ok (t\<lparr>heap := heap_pop (heap t)\<rparr>)" "length (heap_pop (heap t)) < heap_cap t"
    "timer_id (heap t ! 0) \<notin> timer_id ` set (heap_pop (heap t))" "timer_id (heap t ! 0) < next_id t"
    using assms heap_pop_ok [OF h assms(2)] unfolding timers_ok_def e by auto
qed

lemma find_id_Some: "find_id i h = Some k \<Longrightarrow> k < length h \<and> timer_id (h ! k) = i"
  by (induction h arbitrary: k) (auto split: if_splits)

lemma find_id_None: "find_id i h = None \<longleftrightarrow> i \<notin> timer_id ` set h"
  by (induction h) auto

lemma distinct_filter_id:
  assumes "distinct (map timer_id h)" "k < length h"
  shows "filter_mset (\<lambda>x. timer_id x \<noteq> timer_id (h ! k)) (mset h) = mset h - {#h ! k#}"
proof -
  obtain us vs where h: "h = us @ h ! k # vs" using id_take_nth_drop [OF assms(2)] by blast
  let ?x = "h ! k"
  have "distinct (map timer_id (us @ ?x # vs))" using assms(1) h by simp
  then have "filter (\<lambda>x. timer_id x \<noteq> timer_id ?x) us = us" "filter (\<lambda>x. timer_id x \<noteq> timer_id ?x) vs = vs"
    by (auto simp: filter_id_conv) (metis imageI)+
  then have "filter (\<lambda>x. timer_id x \<noteq> timer_id ?x) h = us @ vs" by (subst h) simp
  moreover have "mset h - {#?x#} = mset (us @ vs)" by (subst h) simp
  ultimately show ?thesis by (metis mset_filter)
qed

section \<open>Firing makes progress\<close>

definition backlog :: "int \<Rightarrow> 'f ray_timer multiset \<Rightarrow> nat" where
  "backlog T m = (\<Sum>x\<in>#m. nat (T + 1 - exp_ms x))"

text \<open>
  A timer whose deadlines stay 64-bit values while the clock stays below \<open>T\<close>: its period is positive, and one
  more period after \<open>T\<close> does not overflow.
\<close>

definition in_range :: "int \<Rightarrow> 'f ray_timer \<Rightarrow> bool" where
  "in_range T x \<longleftrightarrow> tic_ms x > 0 \<and> - 9223372036854775808 \<le> exp_ms x \<and> T + tic_ms x \<le> INT64_MAX"

text \<open>One pass through the loop with a callback that leaves the timers alone.\<close>

lemma fire_step:
  assumes ok: "timers_ok t" "heap t \<noteq> []" and due: "exp_ms (heap t ! 0) \<le> T" and pos: "\<forall>x\<in>set (heap t). in_range T x"
  shows "\<exists>t2. reinsert (heap t ! 0) (t\<lparr>heap := heap_pop (heap t)\<rparr>) = Some t2 \<and> timers_ok t2 \<and>
    (\<forall>x\<in>set (heap t2). in_range T x) \<and> timer_id ` set (heap t2) \<subseteq> timer_id ` set (heap t) \<and>
    backlog T (mset (heap t2)) < backlog T (mset (heap t))"
proof -
  let ?tm = "heap t ! 0" and ?t1 = "t\<lparr>heap := heap_pop (heap t)\<rparr>"
  note pop = timers_ok_pop [OF ok]
  have h: "is_heap (heap t)" "is_heap (heap_pop (heap t))" using ok(1) pop(1) by (simp_all add: timers_ok_def)
  have m: "mset (heap t) = add_mset ?tm (mset (heap_pop (heap t)))" using pop_entries [OF h(1) ok(2)] by simp
  then have s: "set (heap t) = insert ?tm (set (heap_pop (heap t)))" by (metis set_mset_add_mset_insert set_mset_mset)
  show ?thesis
  proof (cases "num ?tm = 0 \<or> num ?tm > 1")
    case True
    define tm' where "tm' = ?tm\<lparr>num := (if num ?tm = 0 then 0 else num ?tm - 1), exp_ms := wrap_i64 (exp_ms ?tm + tic_ms ?tm)\<rparr>"
    have rng: "in_range T ?tm" using pos s by simp
    then have "wrap_i64 (exp_ms ?tm + tic_ms ?tm) = exp_ms ?tm + tic_ms ?tm"
      using due by (intro wrap_i64_id) (auto simp: in_range_def in_i64_def)
    then have tm': "timer_id tm' = timer_id ?tm" "tic_ms tm' = tic_ms ?tm" "exp_ms tm' = exp_ms ?tm + tic_ms ?tm"
      by (simp_all add: tm'_def)
    have rng': "in_range T tm'" using rng tm' by (auto simp: in_range_def)
    let ?t2 = "?t1\<lparr>heap := heap_push tm' (heap ?t1)\<rparr>"
    have r: "reinsert ?tm ?t1 = Some ?t2" using True pop(2) by (simp add: reinsert_def tm'_def)
    have "timers_ok (?t1\<lparr>heap := heap_push tm' (heap ?t1), next_id := next_id t\<rparr>)"
      using timers_ok_push [OF pop(1), of tm' "next_id t"] pop tm' by simp
    then have okt: "timers_ok ?t2" by (simp add: timers_ok_def)
    have m2: "mset (heap ?t2) = add_mset tm' (mset (heap_pop (heap t)))" using heap_push_ok(2) [OF h(2)] by simp
    then have s2: "set (heap ?t2) = insert tm' (set (heap_pop (heap t)))" by (metis set_mset_add_mset_insert set_mset_mset)
    have "tic_ms ?tm > 0" using rng by (simp add: in_range_def)
    then have "backlog T (mset (heap ?t2)) < backlog T (mset (heap t))"
      unfolding m m2 using due tm' by (simp add: backlog_def)
    moreover have "\<forall>x\<in>set (heap ?t2). in_range T x" "timer_id ` set (heap ?t2) \<subseteq> timer_id ` set (heap t)"
      using pos tm' rng' unfolding s2 s by auto
    ultimately show ?thesis using r okt by blast
  next
    case False
    then have "reinsert ?tm ?t1 = Some ?t1" by (auto simp: reinsert_def)
    moreover have "backlog T (mset (heap ?t1)) < backlog T (mset (heap t))"
      unfolding m using due by (simp add: backlog_def)
    ultimately show ?thesis using pop(1) pos s by auto
  qed
qed

lemma fire_loop_ends:
  assumes quiet: "\<And>f now t w. fst (call f now (t, w)) = t" and clk: "\<And>k. clk k \<le> T"
  shows "timers_ok t \<Longrightarrow> \<forall>x\<in>set (heap t). in_range T x \<Longrightarrow> fuel > backlog T (mset (heap t)) \<Longrightarrow>
    \<exists>k' t' w'. fire_loop fuel call clk k (t, w) = Fired (k', t', w') \<and> timers_ok t' \<and>
      (\<forall>x\<in>set (heap t'). clk k' < exp_ms x) \<and> timer_id ` set (heap t') \<subseteq> timer_id ` set (heap t)"
proof (induction fuel arbitrary: k t w)
  case (Suc fuel)
  show ?case
  proof (cases "heap t \<noteq> [] \<and> exp_ms (heap t ! 0) \<le> clk k")
    case True
    then have "exp_ms (heap t ! 0) \<le> T" using clk [of k] by simp
    then obtain t2 where t2: "reinsert (heap t ! 0) (t\<lparr>heap := heap_pop (heap t)\<rparr>) = Some t2" "timers_ok t2"
      "\<forall>x\<in>set (heap t2). in_range T x" "timer_id ` set (heap t2) \<subseteq> timer_id ` set (heap t)"
      "backlog T (mset (heap t2)) < backlog T (mset (heap t))"
      using fire_step [OF Suc.prems(1) _ _ Suc.prems(2)] True by blast
    obtain w1 where w1: "call (timer_fn (heap t ! 0)) (clk k) (t\<lparr>heap := heap_pop (heap t)\<rparr>, w) = (t\<lparr>heap := heap_pop (heap t)\<rparr>, w1)"
      using quiet by (metis prod.collapse)
    have "fuel > backlog T (mset (heap t2))" using t2(5) Suc.prems(3) by simp
    from Suc.IH [OF t2(2,3) this, of "k + 1" w1] t2(4) show ?thesis
      using True t2(1) w1 by fastforce
  next
    case False
    have "is_heap (heap t)" using Suc.prems(1) by (simp add: timers_ok_def)
    then have "clk k < exp_ms x" if "x \<in> set (heap t)" for x
    proof -
      have "tkey (heap t ! 0) \<le> tkey x" using heapq.top_min [OF \<open>is_heap (heap t)\<close>, of x] that by simp
      then have "exp_ms (heap t ! 0) \<le> exp_ms x" by (auto simp: tkey_def)
      moreover have "heap t \<noteq> []" using that by auto
      ultimately show ?thesis using False by linarith
    qed
    moreover have "fire_loop (Suc fuel) call clk k (t, w) = Fired (k, t, w)" using False by auto
    ultimately show ?thesis using Suc.prems(1) by blast
  qed
qed simp

lemma in_i64_small: "in_i64 100" "in_i64 5"
  by (simp_all add: in_i64_def)

text \<open>A sum of two 64-bit values of which the second is not negative wraps below the first.\<close>

lemma add_wraps_past:
  assumes "in_i64 a" "in_i64 b" "\<not> in_i64 (a + b)" "0 \<le> b"
  shows "wrap_i64 (a + b) < a"
proof -
  have "(a + b + 9223372036854775808) mod 18446744073709551616 = a + b + 9223372036854775808 - 18446744073709551616"
    using assms by (subst mod_pos_geq) (auto simp: in_i64_def mod_pos_pos_trivial)
  then show ?thesis using assms by (simp add: wrap_i64_def in_i64_def)
qed

section \<open>Properties\<close>

text \<open>
  C7. \<open>ray_timers_add\<close> keeps the heap order, the capacity bound and the uniqueness of ids as long as the id
  counter has not reached the largest 64-bit value. When it answers -1 an allocation failed and the entries
  are as before; otherwise the answer is an id no entry had, and the entries are the old ones and the new
  timer. Its deadline is \<open>tic_ms\<close> after the clock reading when that is a 64-bit value. Otherwise (the callers
  admit any non-negative period) the addition overflows, which C leaves undefined; the wrapped sum the
  machine computes is a deadline in the past.
\<close>

theorem timers_add:
  assumes "timers_ok t" "next_id t < INT64_MAX" "in_i64 now" "in_i64 tic"
    and "ray_timers_add grow_ok alloc_ok now tic n (Some f) t = (i, t')"
  shows "timers_ok t' \<and>
    (if i = -1 then heap t' = heap t \<and> \<not> (grow_ok \<and> alloc_ok)
     else i \<notin> timer_id ` set (heap t) \<and>
       (\<exists>e. mset (heap t') = add_mset \<lparr>timer_id = i, tic_ms = tic, exp_ms = e, num = n, timer_fn = f\<rparr> (mset (heap t)) \<and>
         (if in_i64 (now + tic) then e = now + tic else 0 \<le> tic \<longrightarrow> e < now)))"
proof -
  define u where "u = (if length (heap t) \<ge> heap_cap t then heap_grow grow_ok t else Some t)"
  define e where "e = wrap_i64 (now + tic)"
  have due: "if in_i64 (now + tic) then e = now + tic else 0 \<le> tic \<longrightarrow> e < now"
    using add_wraps_past [OF assms(3,4)] wrap_i64_id by (auto simp: e_def)
  show ?thesis
  proof (cases u)
    case None
    then show ?thesis using assms by (auto simp: ray_timers_add_def u_def heap_grow_def split: if_splits)
  next
    case (Some v)
    then have v: "timers_ok v" "length (heap v) < heap_cap v" "heap v = heap t" "next_id v = next_id t"
      using assms(1) by (auto simp: u_def heap_grow_def timers_ok_def split: if_splits)
    have ids: "\<forall>x\<in>set (heap v). timer_id x < next_id v" "0 \<le> next_id v" "is_heap (heap v)"
      using v(1) by (simp_all add: timers_ok_def)
    let ?v = "v\<lparr>heap := heap_push \<lparr>timer_id = next_id v, tic_ms = tic, exp_ms = e, num = n, timer_fn = f\<rparr> (heap v),
                next_id := next_id v + 1\<rparr>"
    have "wrap_i64 (next_id v + 1) = next_id v + 1"
      using ids v(4) assms(2) by (intro wrap_i64_id) (simp add: in_i64_def)
    then have add: "ray_timers_add grow_ok alloc_ok now tic n (Some f) t =
        (if \<not> alloc_ok then (-1, v) else (next_id v, ?v))"
      using Some by (simp add: ray_timers_add_def u_def [symmetric] e_def Let_def)
    have "timers_ok ?v" by (rule timers_ok_push) (use v ids in auto)
    then show ?thesis using assms(5) v ids due unfolding add by (auto simp: heap_push_ok split: if_splits)
  qed
qed

theorem timers_add_witness:
  "timers_ok (snd (ray_timers_add True True 100 5 0 (Some ''f'') \<lparr>heap = [], heap_cap = 1, next_id = 0\<rparr>))"
proof -
  have "timers_ok \<lparr>heap = [] :: string ray_timer list, heap_cap = 1, next_id = 0\<rparr>"
    by (simp add: timers_ok_def is_heap_def)
  from timers_add [OF this, of 100 5 True True 0 "''f''"] show ?thesis
    by (metis surjective_pairing in_i64_small ray_timers.select_convs(3) zero_less_numeral)
qed

text \<open>
  C8. \<open>ray_timers_del\<close> answers true exactly when some timer has the id; it removes that timer and no other,
  and keeps the invariant, although the tail entry it moves into the gap may have to sift either way.
\<close>

theorem timers_del:
  assumes "timers_ok t" "ray_timers_del i t = (found, t')"
  shows "timers_ok t' \<and> (found \<longleftrightarrow> i \<in> timer_id ` set (heap t)) \<and>
    mset (heap t') = filter_mset (\<lambda>x. timer_id x \<noteq> i) (mset (heap t))"
proof (cases "find_id i (heap t)")
  case None
  then have "i \<notin> timer_id ` set (heap t)" by (simp add: find_id_None)
  moreover from this have "filter_mset (\<lambda>x. timer_id x \<noteq> i) (mset (heap t)) = mset (heap t)"
    by (auto simp: filter_mset_eq_conv)
  ultimately show ?thesis using assms None by (simp add: ray_timers_del_def)
next
  case (Some k)
  have k: "k < length (heap t)" "timer_id (heap t ! k) = i" using find_id_Some [OF Some] by auto
  have ok: "is_heap (heap t)" "distinct (map timer_id (heap t))" using assms(1) by (simp_all add: timers_ok_def)
  have t': "found" "t' = t\<lparr>heap := heap_remove k (heap t)\<rparr>" using assms(2) Some by (auto simp: ray_timers_del_def)
  have r: "is_heap (heap_remove k (heap t))" "mset (heap_remove k (heap t)) = mset (heap t) - {#heap t ! k#}"
    using heap_remove_ok [OF ok(1) k(1)] by auto
  then have "mset (heap t ! k # heap_remove k (heap t)) = mset (heap t)" using k(1) by simp
  from entries_perm [OF this] have "timers_ok t'" using assms(1) r(1) t'(2) by (auto simp: timers_ok_def)
  moreover have "i \<in> timer_id ` set (heap t)" using k by force
  ultimately show ?thesis using t' r(2) distinct_filter_id [OF ok(2) k(1)] k(2) by simp
qed

theorem timers_del_witness:
  "snd (ray_timers_del 7 \<lparr>heap = [\<lparr>timer_id = 7, tic_ms = 1, exp_ms = 3, num = 0, timer_fn = ''f''\<rparr>], heap_cap = 1, next_id = 8\<rparr>)
     = \<lparr>heap = [], heap_cap = 1, next_id = 8\<rparr>"
proof -
  let ?t = "\<lparr>heap = [\<lparr>timer_id = 7, tic_ms = 1, exp_ms = 3, num = 0, timer_fn = ''f''\<rparr>], heap_cap = 1, next_id = 8\<rparr>"
  have ok: "timers_ok ?t" by (simp add: timers_ok_def is_heap_def)
  have "mset (heap (snd (ray_timers_del 7 ?t))) = {#}"
    using timers_del [OF ok, of 7 "fst (ray_timers_del 7 ?t)" "snd (ray_timers_del 7 ?t)"] by simp
  then show ?thesis by (simp add: ray_timers_del_def)
qed

text \<open>
  \<open>ray_timers_next_deadline_ms\<close> is the earliest deadline of all timers, and the largest 64-bit value
  when there is none: a poll that sleeps until then misses no timer.
\<close>

theorem timers_next_deadline:
  assumes "timers_ok t"
  shows "ray_timers_next_deadline_ms t =
    (if heap t = [] then INT64_MAX else Min (exp_ms ` set (heap t)))"
proof (cases "heap t = []")
  case False
  have h: "is_heap (heap t)" using assms by (simp add: timers_ok_def)
  have "exp_ms (heap t ! 0) \<le> exp_ms x" if "x \<in> set (heap t)" for x
    using heapq.top_min [OF h, of x] that by (auto simp: tkey_def)
  then have "Min (exp_ms ` set (heap t)) = exp_ms (heap t ! 0)"
    using False by (intro Min_eqI) auto
  with False show ?thesis by (simp add: ray_timers_next_deadline_ms_def)
qed (simp add: ray_timers_next_deadline_ms_def)

theorem timers_next_deadline_witness:
  "ray_timers_next_deadline_ms \<lparr>heap = [\<lparr>timer_id = 7, tic_ms = 1, exp_ms = 3, num = 0, timer_fn = ''f''\<rparr>,
      \<lparr>timer_id = 2, tic_ms = 1, exp_ms = 9, num = 0, timer_fn = ''f''\<rparr>], heap_cap = 2, next_id = 8\<rparr> = 3"
proof -
  let ?h = "[\<lparr>timer_id = 7, tic_ms = 1, exp_ms = 3, num = 0, timer_fn = ''f''\<rparr>,
      \<lparr>timer_id = 2, tic_ms = 1, exp_ms = 9, num = 0, timer_fn = ''f''\<rparr>]"
  have "timers_ok \<lparr>heap = ?h, heap_cap = 2, next_id = 8\<rparr>"
    by (auto simp: timers_ok_def is_heap_def less_Suc_eq numeral_2_eq_2 parent_def tkey_def)
  from timers_next_deadline [OF this] show ?thesis by simp
qed

text \<open>
  C9. When every period is positive, the clock stays below some bound \<open>T\<close>, no timer's deadline leaves the 64-bit
  range one period after \<open>T\<close>, and callbacks leave the timers alone, \<open>ray_timers_fire_expired\<close> returns: with
  fuel above the backlog it ends in a state that keeps the invariant and in which every timer is due after
  the last clock reading, so none that expired was left behind.
\<close>

theorem fire_expired_ends:
  assumes "timers_ok t"
    and "\<forall>x\<in>set (heap t). tic_ms x > 0 \<and> - 9223372036854775808 \<le> exp_ms x \<and> T + tic_ms x \<le> INT64_MAX"
    and "\<And>k. clk k \<le> T" "\<And>f now t w. fst (call f now (t, w)) = t"
    and "fuel > backlog T (mset (heap t))"
  shows "\<exists>k t' w'. ray_timers_fire_expired fuel call clk (t, w) = Fired (k, t', w') \<and> timers_ok t' \<and>
    (\<forall>x\<in>set (heap t'). clk k < exp_ms x)"
proof (cases "heap t = []")
  case True
  then show ?thesis using assms(1) by (simp add: ray_timers_fire_expired_def)
next
  case False
  then show ?thesis
    using fire_loop_ends [of call clk T t fuel 0 w, OF assms(4,3,1) _ assms(5)] assms(2)
    by (auto simp: ray_timers_fire_expired_def in_range_def)
qed

theorem fire_expired_ends_witness:
  "\<exists>k t' w'. ray_timers_fire_expired 99 (\<lambda>f now (t, w). (t, f # w)) (\<lambda>k. 10)
      (\<lparr>heap = [\<lparr>timer_id = 0, tic_ms = 4, exp_ms = 3, num = 0, timer_fn = ''f''\<rparr>], heap_cap = 1, next_id = 1\<rparr>, [])
     = Fired (k, t', w') \<and> timers_ok t' \<and> (\<forall>x\<in>set (heap t'). 10 < exp_ms x)"
  by (rule fire_expired_ends [where T = 10])
    (auto simp: timers_ok_def is_heap_def backlog_def)

text \<open>
  C10. The re-insertion after a callback does not look at the capacity. A callback that adds a timer to a heap
  that was full takes the slot its own timer came from, and the re-insertion then stores one entry past
  the end of the array; \<open>ray_timers_add\<close> itself would have grown it.
\<close>

theorem fire_expired_overrun:
  fixes t :: "nat ray_timers"
  assumes "timers_ok t" "length (heap t) = heap_cap t" "exp_ms (heap t ! 0) \<le> clk 0" "num (heap t ! 0) = 0"
  shows "ray_timers_fire_expired (Suc fuel)
      (\<lambda>f now (t, w). (snd (ray_timers_add True True now tic 0 (Some f) t), w)) clk (t, w) = Overrun"
proof -
  have ne: "heap t \<noteq> []" using assms(1,2) by (auto simp: timers_ok_def)
  let ?t1 = "t\<lparr>heap := heap_pop (heap t)\<rparr>"
  note pop = timers_ok_pop [OF assms(1) ne]
  have h: "is_heap (heap t)" "is_heap (heap_pop (heap t))" using assms(1) pop(1) by (simp_all add: timers_ok_def)
  have len: "Suc (length (heap_pop (heap t))) = heap_cap t"
    using mset_eq_length [OF pop_entries [OF h(1) ne]] assms(2) by simp
  define t2 where "t2 = snd (ray_timers_add True True (clk 0) tic 0 (Some (timer_fn (heap t ! 0))) ?t1)"
  have "length (heap t2) = Suc (length (heap_pop (heap t)))" "heap_cap t2 = heap_cap t"
    using len mset_eq_length [OF push_entries [OF h(2)]]
    by (auto simp: t2_def ray_timers_add_def Let_def)
  then have "reinsert (heap t ! 0) t2 = None" using len assms(4) by (simp add: reinsert_def)
  then show ?thesis using ne assms(3) by (simp add: ray_timers_fire_expired_def t2_def)
qed

theorem fire_expired_overrun_witness:
  "ray_timers_fire_expired 1 (\<lambda>f now (t, w). (snd (ray_timers_add True True now 5 0 (Some f) t), w)) (\<lambda>k. 10)
     (\<lparr>heap = [\<lparr>timer_id = 0, tic_ms = 4, exp_ms = 3, num = 0, timer_fn = (0 :: nat)\<rparr>], heap_cap = 1, next_id = 1\<rparr>, ())
   = Overrun"
  unfolding One_nat_def by (rule fire_expired_overrun) (auto simp: timers_ok_def is_heap_def)

text \<open>
  A timer is out of the heap while its callback runs, so a callback that deletes its own timer (as
  \<open>.z.ts\<close> does when it runs \<open>\t 0\<close>) deletes nothing, and the timer is re-inserted and goes on firing.
\<close>

theorem fire_self_delete_ignored:
  assumes "heap t = [tm]" "num tm = 0" "exp_ms tm \<le> clk 0" "clk 1 < exp_ms tm + tic_ms tm" "1 \<le> heap_cap t"
    and "in_i64 (exp_ms tm + tic_ms tm)"
  shows "ray_timers_fire_expired (Suc (Suc fuel)) (\<lambda>f now (t, w). (snd (ray_timers_del (timer_id tm) t), w)) clk (t, w) =
    Fired (1, t\<lparr>heap := [tm\<lparr>exp_ms := exp_ms tm + tic_ms tm\<rparr>]\<rparr>, w)"
  using assms
  by (simp add: ray_timers_fire_expired_def heap_pop_def ray_timers_del_def reinsert_def heap_push_def heap_up.simps
      wrap_i64_id)

theorem fire_self_delete_ignored_witness:
  "ray_timers_fire_expired 2 (\<lambda>f now (t, w). (snd (ray_timers_del 4 t), w)) (\<lambda>k. 10)
     (\<lparr>heap = [\<lparr>timer_id = 4, tic_ms = 8, exp_ms = 3, num = 0, timer_fn = ''f''\<rparr>], heap_cap = 1, next_id = 5\<rparr>, ()) =
   Fired (1, \<lparr>heap = [\<lparr>timer_id = 4, tic_ms = 8, exp_ms = 11, num = 0, timer_fn = ''f''\<rparr>], heap_cap = 1, next_id = 5\<rparr>, ())"
  using fire_self_delete_ignored [of "\<lparr>heap = [\<lparr>timer_id = 4, tic_ms = 8, exp_ms = 3, num = 0, timer_fn = ''f''\<rparr>], heap_cap = 1, next_id = 5\<rparr>"
      "\<lparr>timer_id = 4, tic_ms = 8, exp_ms = 3, num = 0, timer_fn = ''f''\<rparr>" "\<lambda>k. 10" 0 "()"]
  by (simp add: numeral_2_eq_2 in_i64_def)

text \<open>
  A timer with period zero that runs for ever, which \<open>.time.timer.set\<close> admits, keeps
  \<open>ray_timers_fire_expired\<close> from returning: however much fuel it has, it runs out.
\<close>

theorem fire_zero_period_diverges:
  assumes "heap t = [tm]" "num tm = 0" "tic_ms tm = 0" "\<And>k. exp_ms tm \<le> clk k" "1 \<le> heap_cap t"
    and "in_i64 (exp_ms tm)"
    and "\<And>f now t w. fst (call f now (t, w)) = t"
  shows "ray_timers_fire_expired fuel call clk (t, w) = OutOfFuel"
proof -
  have "fire_loop fuel call clk k (t, w) = OutOfFuel" for k
  proof (induction fuel arbitrary: k w)
    case (Suc fuel)
    obtain w1 where w1: "call (timer_fn tm) (clk k) (t\<lparr>heap := []\<rparr>, w) = (t\<lparr>heap := []\<rparr>, w1)"
      using assms(7) by (metis prod.collapse)
    have "tm\<lparr>num := 0, exp_ms := exp_ms tm\<rparr> = tm" using assms(2) by simp
    then have "reinsert tm (t\<lparr>heap := []\<rparr>) = Some t"
      using assms(1,2,3,5,6) by (simp add: reinsert_def heap_push_def heap_up.simps wrap_i64_id)
    then show ?case using Suc.IH [of "k + 1" w1] assms(1) assms(4) [of k] w1 by (simp add: heap_pop_def)
  qed simp
  then show ?thesis using assms(1) by (simp add: ray_timers_fire_expired_def)
qed

theorem fire_zero_period_diverges_witness:
  "ray_timers_fire_expired 1000 (\<lambda>f now (t, w). (t, w)) (\<lambda>k. int k)
     (\<lparr>heap = [\<lparr>timer_id = 0, tic_ms = 0, exp_ms = 0, num = 0, timer_fn = ''f''\<rparr>], heap_cap = 16, next_id = 1\<rparr>, ()) = OutOfFuel"
  by (rule fire_zero_period_diverges) (auto simp: in_i64_def)

end
