(* ===== verification/Glob.thy ===== *)
theory Glob
  imports Prelude
begin

text \<open>
  The pattern matcher behind \<open>like\<close>, \<^verbatim>\<open>src/ops/glob.c\<close>. A position in the subject or in the pattern is the
  suffix that starts there; \<open>star\<close> is the remembered pair of the pattern after the last \<open>*\<close> and the subject
  position it is tried at. The backtracking loop of \<open>glob_impl\<close> is a partial function, so that returning is
  part of what is proved.

  Shown: the loop returns, and its answer is the declarative meaning of the pattern (\<open>gmatch\<close> over its
  tokens); the pre-compiled shapes answer what the general matcher answers.
\<close>

section \<open>The matcher\<close>

definition to_lower :: "u8 \<Rightarrow> u8" where
  "to_lower c = (if 65 \<le> c \<and> c \<le> 90 then c + 32 else c)"

abbreviation glob_fold :: "bool \<Rightarrow> u8 \<Rightarrow> u8" where
  "glob_fold ci c \<equiv> if ci then to_lower c else c"

text \<open>C's \<open>char\<close> is signed on the supported targets, so a range compares signed values.\<close>

definition in_range :: "u8 \<Rightarrow> u8 \<Rightarrow> u8 \<Rightarrow> bool" where
  "in_range lo hi ch \<longleftrightarrow> sint lo \<le> sint ch \<and> sint ch \<le> sint hi"

text \<open>The loop of \<open>match_class\<close> and the closing bracket after it.\<close>

fun class_loop :: "bool \<Rightarrow> u8 \<Rightarrow> bytes \<Rightarrow> bool \<Rightarrow> bool \<Rightarrow> bool \<times> bytes" where
  "class_loop ci ch [] first matched = (matched, [])"
| "class_loop ci ch (a # d # h # r) first matched =
    (if \<not> first \<and> a = 93 then (matched, d # h # r)
     else if d = 45 \<and> h \<noteq> 93
     then class_loop ci ch r False (matched \<or> in_range (glob_fold ci a) (glob_fold ci h) ch)
     else class_loop ci ch (d # h # r) False (matched \<or> ch = glob_fold ci a))"
| "class_loop ci ch (a # r) first matched =
    (if \<not> first \<and> a = 93 then (matched, r)
     else class_loop ci ch r False (matched \<or> ch = glob_fold ci a))"

definition match_class :: "bool \<Rightarrow> bytes \<Rightarrow> u8 \<Rightarrow> bool \<times> bytes" where
  "match_class ci p c =
    (let (neg, q) = (case p of b # r \<Rightarrow> if b = 33 then (True, r) else (False, p) | [] \<Rightarrow> (False, p));
         (matched, rest) = class_loop ci (glob_fold ci c) q True False
     in (if neg then \<not> matched else matched, rest))"

fun skip_stars :: "bytes \<Rightarrow> bytes" where
  "skip_stars (b # p) = (if b = 42 then skip_stars p else b # p)"
| "skip_stars [] = []"

partial_function (option) glob_loop ::
  "bool \<Rightarrow> bytes \<Rightarrow> bytes \<Rightarrow> (bytes \<times> bytes) option \<Rightarrow> bool option" where
  "glob_loop ci s p star =
    (case s of
       [] \<Rightarrow> Some (skip_stars p = [])
     | c # s' \<Rightarrow>
         (case p of
            [] \<Rightarrow> (case star of None \<Rightarrow> Some False
                   | Some (sp, ss) \<Rightarrow> glob_loop ci (tl ss) sp (Some (sp, tl ss)))
          | b # p' \<Rightarrow>
              if b = 42 then glob_loop ci s p' (Some (p', s))
              else if b = 63 then glob_loop ci s' p' star
              else if b = 91 then
                (if fst (match_class ci p' c) then glob_loop ci s' (snd (match_class ci p' c)) star
                 else (case star of None \<Rightarrow> Some False
                       | Some (sp, ss) \<Rightarrow> glob_loop ci (tl ss) sp (Some (sp, tl ss))))
              else if glob_fold ci c = glob_fold ci b then glob_loop ci s' p' star
              else (case star of None \<Rightarrow> Some False
                    | Some (sp, ss) \<Rightarrow> glob_loop ci (tl ss) sp (Some (sp, tl ss)))))"

declare glob_loop.simps [code]

definition glob_impl :: "bytes \<Rightarrow> bytes \<Rightarrow> bool \<Rightarrow> bool option" where
  "glob_impl s p ci = glob_loop ci s p None"

definition ray_glob_match :: "bytes \<Rightarrow> bytes \<Rightarrow> bool option" where
  "ray_glob_match s p = glob_impl s p False"

definition ray_glob_match_ci :: "bytes \<Rightarrow> bytes \<Rightarrow> bool option" where
  "ray_glob_match_ci s p = glob_impl s p True"

section \<open>Compiled shapes\<close>

datatype ray_glob_compiled =
    SHAPE_NONE | SHAPE_EXACT bytes | SHAPE_PREFIX bytes | SHAPE_SUFFIX bytes | SHAPE_CONTAINS bytes | SHAPE_ANY

definition is_meta :: "u8 \<Rightarrow> bool" where
  "is_meta ch \<longleftrightarrow> ch = 42 \<or> ch = 63 \<or> ch = 91"

definition ray_glob_compile :: "bytes \<Rightarrow> ray_glob_compiled" where
  "ray_glob_compile p =
    (let pn = length p
     in if pn = 0 then SHAPE_EXACT []
        else
          (let leading_star = (p ! 0 = 42);
               trailing_star = (p ! (pn - 1) = 42 \<and> (pn > 1 \<or> \<not> leading_star));
               lo = (if leading_star then 1 else 0);
               hi = (if trailing_star then pn - 1 else pn);
               l = take (hi - lo) (drop lo p)
           in if list_ex is_meta l then SHAPE_NONE
              else if leading_star \<and> trailing_star then (if l = [] then SHAPE_ANY else SHAPE_CONTAINS l)
              else if leading_star then SHAPE_SUFFIX l
              else if trailing_star then SHAPE_PREFIX l
              else SHAPE_EXACT l))"

text \<open>\<open>memmem\<close>: some occurrence of the needle.\<close>

definition memmem :: "bytes \<Rightarrow> bytes \<Rightarrow> bool" where
  "memmem s l = list_ex (\<lambda>k. take (length l) (drop k s) = l) [0..<length s + 1 - length l]"

fun ray_glob_match_compiled :: "ray_glob_compiled \<Rightarrow> bytes \<Rightarrow> bool" where
  "ray_glob_match_compiled SHAPE_ANY s = True"
| "ray_glob_match_compiled (SHAPE_EXACT l) s = (length s = length l \<and> (length l = 0 \<or> s = l))"
| "ray_glob_match_compiled (SHAPE_PREFIX l) s = (length s \<ge> length l \<and> (length l = 0 \<or> take (length l) s = l))"
| "ray_glob_match_compiled (SHAPE_SUFFIX l) s =
    (length s \<ge> length l \<and> (length l = 0 \<or> drop (length s - length l) s = l))"
| "ray_glob_match_compiled (SHAPE_CONTAINS l) s =
    (if length l = 0 then True else if length s < length l then False else memmem s l)"
| "ray_glob_match_compiled SHAPE_NONE s = False"

section \<open>The meaning of a pattern\<close>

datatype gtok = Star | Any | Lit u8 | Class bool "(u8 \<times> u8) list"

text \<open>The members of a class up to its closing bracket (or the end), and what follows it.\<close>

fun class_items :: "bytes \<Rightarrow> bool \<Rightarrow> (u8 \<times> u8) list \<times> bytes" where
  "class_items [] first = ([], [])"
| "class_items (a # d # h # r) first =
    (if \<not> first \<and> a = 93 then ([], d # h # r)
     else if d = 45 \<and> h \<noteq> 93 then apfst ((#) (a, h)) (class_items r False)
     else apfst ((#) (a, a)) (class_items (d # h # r) False))"
| "class_items (a # r) first =
    (if \<not> first \<and> a = 93 then ([], r) else apfst ((#) (a, a)) (class_items r False))"

definition class_parse :: "bytes \<Rightarrow> bool \<times> (u8 \<times> u8) list \<times> bytes" where
  "class_parse p = (case p of b # r \<Rightarrow> if b = 33 then (True, class_items r True) else (False, class_items p True)
                    | [] \<Rightarrow> (False, class_items p True))"

lemma class_items_length: "length (snd (class_items p first)) \<le> length p"
  by (induction p first rule: class_items.induct) (auto simp: le_Suc_eq)

lemma class_parse_length: "length (snd (snd (class_parse p))) \<le> length p"
  using class_items_length [of p True] class_items_length [of "tl p" True]
  by (cases p) (auto simp: class_parse_def simp del: class_items.simps)

function glob_tokens :: "bytes \<Rightarrow> gtok list" where
  "glob_tokens [] = []"
| "glob_tokens (b # p) =
    (if b = 42 then Star # glob_tokens p
     else if b = 63 then Any # glob_tokens p
     else if b = 91 then
       Class (fst (class_parse p)) (fst (snd (class_parse p))) # glob_tokens (snd (snd (class_parse p)))
     else Lit b # glob_tokens p)"
  by pat_completeness auto
termination
  by (relation "measure length") (auto simp: class_parse_length le_imp_less_Suc)

text \<open>Which characters a token other than a star stands for, with or without case.\<close>

fun tok_ok :: "bool \<Rightarrow> gtok \<Rightarrow> u8 \<Rightarrow> bool" where
  "tok_ok ci Any c = True"
| "tok_ok ci (Lit b) c = (glob_fold ci c = glob_fold ci b)"
| "tok_ok ci (Class neg items) c =
    (neg \<noteq> (\<exists>(lo, hi)\<in>set items. in_range (glob_fold ci lo) (glob_fold ci hi) (glob_fold ci c)))"
| "tok_ok ci Star c = False"

fun gmatch :: "bool \<Rightarrow> gtok list \<Rightarrow> bytes \<Rightarrow> bool" where
  "gmatch ci [] s = (s = [])"
| "gmatch ci (t # ts) s =
    (if t = Star then \<exists>k\<le>length s. gmatch ci ts (drop k s)
     else (case s of [] \<Rightarrow> False | c # s' \<Rightarrow> tok_ok ci t c \<and> gmatch ci ts s'))"

section \<open>Classes\<close>

lemma in_range_single: "in_range lo lo ch \<longleftrightarrow> ch = lo"
  by (auto simp: in_range_def intro: signed_word_eqI [symmetric])

lemma class_loop_items:
  "class_loop ci ch p first matched =
    (matched \<or> (\<exists>(lo, hi)\<in>set (fst (class_items p first)). in_range (glob_fold ci lo) (glob_fold ci hi) ch),
     snd (class_items p first))"
proof (induction ci ch p first matched rule: class_loop.induct)
  case (2 ci ch a d h r first matched)
  then show ?case by (cases "\<not> first \<and> a = 93"; cases "d = 45 \<and> h \<noteq> 93") (auto simp: in_range_single)
qed (auto simp: in_range_single)

lemma match_class_parse:
  "match_class ci p c =
    (tok_ok ci (Class (fst (class_parse p)) (fst (snd (class_parse p)))) c, snd (snd (class_parse p)))"
  by (cases p) (auto simp: match_class_def class_parse_def class_loop_items simp del: class_items.simps)

section \<open>The loop computes the meaning\<close>

definition alt :: "bool \<Rightarrow> (bytes \<times> bytes) option \<Rightarrow> bool" where
  "alt ci star = (case star of None \<Rightarrow> False
     | Some (sp, ss) \<Rightarrow> \<exists>k\<ge>1. k \<le> length ss \<and> gmatch ci (glob_tokens sp) (drop k ss))"

text \<open>The pattern and subject since the last star: a run of single-character tokens.\<close>

definition since :: "bytes \<Rightarrow> bytes \<Rightarrow> (bytes \<times> bytes) option \<Rightarrow> bool" where
  "since s p star = (case star of None \<Rightarrow> True
     | Some (sp, ss) \<Rightarrow> \<exists>seg. Star \<notin> set seg \<and> glob_tokens sp = seg @ glob_tokens p \<and>
         s = drop (length seg) ss \<and> length seg \<le> length ss)"

lemma gmatch_seg:
  "Star \<notin> set seg \<Longrightarrow> gmatch ci (seg @ ts) s \<Longrightarrow> length seg \<le> length s \<and> gmatch ci ts (drop (length seg) s)"
  by (induction seg arbitrary: s) (auto split: list.splits)

lemma gmatch_star_mono:
  assumes "gmatch ci (Star # ts) (drop k s)"
  shows "gmatch ci (Star # ts) s"
proof -
  obtain j where "j \<le> length (drop k s)" "gmatch ci ts (drop (j + k) s)" using assms by (auto simp: add.commute)
  then show ?thesis by (cases "k \<le> length s") (auto intro: exI [of _ "j + k"] exI [of _ "length s"])
qed

lemma gmatch_end: "gmatch ci (glob_tokens p) [] \<longleftrightarrow> skip_stars p = []"
  by (induction p rule: glob_tokens.induct) auto

lemma alt_retry: "ss \<noteq> [] \<Longrightarrow> alt ci (Some (sp, ss)) \<longleftrightarrow> gmatch ci (glob_tokens sp) (tl ss) \<or> alt ci (Some (sp, tl ss))"
proof -
  assume "ss \<noteq> []"
  then have "(\<exists>k\<ge>1. k \<le> length ss \<and> P (drop k ss)) \<longleftrightarrow> P (tl ss) \<or> (\<exists>k\<ge>1. k \<le> length (tl ss) \<and> P (drop k (tl ss)))" for P
  proof (cases ss)
    case (Cons a t)
    have "(\<exists>k\<ge>1. k \<le> length ss \<and> P (drop k ss)) \<longleftrightarrow> (\<exists>j. j \<le> length t \<and> P (drop j t))"
      unfolding Cons by (metis One_nat_def Suc_le_D Suc_le_mono drop_Suc_Cons le_add1 length_Cons plus_1_eq_Suc)
    also have "\<dots> \<longleftrightarrow> P t \<or> (\<exists>k\<ge>1. k \<le> length t \<and> P (drop k t))"
      by (metis One_nat_def drop_0 le0 not_less_eq_eq bot_nat_0.extremum_uniqueI)
    finally show ?thesis using Cons by simp
  qed simp
  then show ?thesis by (simp add: alt_def)
qed

lemma since_retry: "since (tl ss) sp (Some (sp, tl ss))"
  by (auto simp: since_def intro: exI [of _ "[]"])

lemma since_star: "since s p (Some (p, s))"
  by (auto simp: since_def intro: exI [of _ "[]"])

lemma since_nonempty: "since (c # s) p (Some (sp, ss)) \<Longrightarrow> ss \<noteq> []"
  by (auto simp: since_def)

lemma since_advance:
  assumes "since (c # s) p star" "glob_tokens p = t # glob_tokens q" "t \<noteq> Star"
  shows "since s q star"
proof (cases star)
  case (Some a)
  obtain sp ss where a: "a = (sp, ss)" by (cases a)
  with assms(1) Some obtain seg where seg: "Star \<notin> set seg" "glob_tokens sp = seg @ glob_tokens p"
    "c # s = drop (length seg) ss" "length seg \<le> length ss" by (auto simp: since_def)
  have "s = drop (length (seg @ [t])) ss" using seg(3) by (metis drop_Suc length_append_singleton list.sel(3) tl_drop)
  moreover have "length (seg @ [t]) \<le> length ss"
    using seg(3,4) by (metis Suc_leI drop_eq_Nil2 le_less_linear length_append_singleton list.distinct(1))
  ultimately show ?thesis using seg assms(2,3) Some a by (auto simp: since_def intro!: exI [of _ "seg @ [t]"])
qed (simp add: since_def)

lemma since_end: "since [] p star \<Longrightarrow> \<not> alt ci star"
proof
  assume s: "since [] p star" and "alt ci star"
  then obtain sp ss seg k where "star = Some (sp, ss)" "Star \<notin> set seg" "glob_tokens sp = seg @ glob_tokens p"
    "length ss \<le> length seg" "1 \<le> k" "k \<le> length ss" "gmatch ci (glob_tokens sp) (drop k ss)"
    by (auto simp: since_def alt_def split: option.splits)
  then show False using gmatch_seg [of seg ci "glob_tokens p" "drop k ss"] by auto
qed

text \<open>Whatever an earlier star could still match, the later star can match from here.\<close>

lemma alt_absorbed:
  assumes "since s p star" "glob_tokens p = Star # ts" "alt ci star"
  shows "gmatch ci (Star # ts) s"
proof -
  from assms(1,3) obtain sp ss seg k where *: "Star \<notin> set seg" "glob_tokens sp = seg @ glob_tokens p"
    "s = drop (length seg) ss" "gmatch ci (glob_tokens sp) (drop k ss)"
    by (auto simp: since_def alt_def split: option.splits)
  then have "gmatch ci (Star # ts) (drop (length seg) (drop k ss))"
    using gmatch_seg [of seg ci "Star # ts" "drop k ss"] assms(2) by simp
  then have "gmatch ci (Star # ts) (drop k s)" using *(3) by (simp add: add.commute)
  then show ?thesis by (rule gmatch_star_mono)
qed

lemma gmatch_star_split: "gmatch ci (Star # ts) s \<longleftrightarrow> gmatch ci ts s \<or> (\<exists>k\<ge>1. k \<le> length s \<and> gmatch ci ts (drop k s))"
  by (auto, metis One_nat_def drop_0 not_less_eq_eq bot_nat_0.extremum_uniqueI)

lemma glob_loop_correct:
  assumes "since s p star"
  shows "glob_loop ci s p star = Some (gmatch ci (glob_tokens p) s \<or> alt ci star)"
  using assms
proof (induction "(case star of None \<Rightarrow> Suc (length s) | Some (sp, ss) \<Rightarrow> length ss, length p)" arbitrary: s p star
    rule: wf_induct_rule [OF wf_lex_prod [OF wf_less_than wf_less_than]])
  case (1 s p star)
  let ?m = "\<lambda>s p star. (case star of None \<Rightarrow> Suc (length s) | Some (sp :: bytes, ss :: bytes) \<Rightarrow> length ss, length (p :: bytes))"
  have IH: "\<forall>u q st. (?m u q st, ?m s p star) \<in> less_than <*lex*> less_than \<longrightarrow> since u q st \<longrightarrow>
      glob_loop ci u q st = Some (gmatch ci (glob_tokens q) u \<or> alt ci st)"
    using 1(1) by blast
  show ?case
  proof (cases s)
    case Nil
    then show ?thesis using since_end 1(2) by (simp add: glob_loop.simps [of ci "[]" p star] gmatch_end)
  next
    case (Cons c s')
    define retry where "retry = (case star of None \<Rightarrow> Some False
       | Some (sp, ss) \<Rightarrow> glob_loop ci (tl ss) sp (Some (sp, tl ss)))"
    have retry: "retry = Some (alt ci star)"
    proof (cases star)
      case (Some a)
      obtain sp ss where a: "a = (sp, ss)" by (cases a)
      have "ss \<noteq> []" using since_nonempty 1(2) Some a Cons by blast
      then show ?thesis using IH [rule_format, of "tl ss" "Some (sp, tl ss)" sp] since_retry [of ss sp] alt_retry Some a
        by (simp add: retry_def)
    qed (simp add: retry_def alt_def)
    have go: "glob_loop ci s' q star = Some (gmatch ci (glob_tokens q) s' \<or> alt ci star)"
      if "glob_tokens p = t # glob_tokens q" "t \<noteq> Star" "length q < length p" for t q
      using IH [rule_format, of s' star q] since_advance [of c s' p star t q] 1(2) that Cons by (auto split: option.splits)
    note un = glob_loop.simps [of ci "c # s'" "_ # _" star] Cons retry_def [symmetric]
    show ?thesis
    proof (cases p)
      case Nil
      then show ?thesis
        using retry by (simp add: glob_loop.simps [of ci "c # s'" "[]" star] Cons retry_def [symmetric])
    next
      case p: (Cons b p')
      consider "b = 42" | "b = 63" | "b = 91" | "b \<noteq> 42" "b \<noteq> 63" "b \<noteq> 91" by blast
      then show ?thesis
      proof cases
        case 1
        have toks: "glob_tokens p = Star # glob_tokens p'" using 1 p by simp
        have "(?m s p' (Some (p', s)), ?m s p star) \<in> less_than <*lex*> less_than"
          using \<open>since s p star\<close> p by (cases star) (auto simp: since_def)
        then have "glob_loop ci s p' (Some (p', s)) = Some (gmatch ci (glob_tokens p') s \<or> alt ci (Some (p', s)))"
          using IH since_star by blast
        moreover have "gmatch ci (glob_tokens p') s \<or> alt ci (Some (p', s)) \<longleftrightarrow> gmatch ci (glob_tokens p) s"
          unfolding toks gmatch_star_split by (simp add: alt_def)
        moreover have "alt ci star \<Longrightarrow> gmatch ci (glob_tokens p) s"
          using alt_absorbed [OF \<open>since s p star\<close> toks] toks by simp
        moreover have "glob_loop ci s p star = glob_loop ci s p' (Some (p', s))"
          using 1 p Cons by (simp add: un)
        ultimately show ?thesis by auto
      next
        case 2
        then show ?thesis using go [of Any p'] p by (simp add: un)
      next
        case 3
        then show ?thesis
          using go [of "Class (fst (class_parse p')) (fst (snd (class_parse p')))" "snd (snd (class_parse p'))"]
            p retry class_parse_length [of p'] by (simp add: un match_class_parse del: tok_ok.simps)
      next
        case 4
        then show ?thesis using go [of "Lit b" p'] p retry by (simp add: un)
      qed
    qed
  qed
qed

section \<open>Shapes\<close>

lemma tokens_lit: "\<not> list_ex is_meta l \<Longrightarrow> glob_tokens (l @ p) = map Lit l @ glob_tokens p"
  by (induction l) (auto simp: is_meta_def)

lemma gmatch_lit: "gmatch False (map Lit l @ ts) s \<longleftrightarrow> take (length l) s = l \<and> gmatch False ts (drop (length l) s)"
  by (induction l arbitrary: s) (auto split: list.splits)

lemma gmatch_just_star: "gmatch ci [Star] s"
  by (auto intro: exI [of _ "length s"])

lemma memmem_iff: "length l \<le> length s \<Longrightarrow> memmem s l \<longleftrightarrow> (\<exists>k. k + length l \<le> length s \<and> take (length l) (drop k s) = l)"
proof -
  assume "length l \<le> length s"
  then have "k < length s + 1 - length l \<longleftrightarrow> k + length l \<le> length s" for k by arith
  then show ?thesis unfolding memmem_def list_ex_iff set_upt by (metis atLeastLessThan_iff le0)
qed

lemma pattern_split:
  assumes "p \<noteq> []"
  obtains (one) "p = [42]"
  | (both) l where "p = 42 # l @ [42]" | (lead) l where "p = 42 # l" "l \<noteq> []" "last l \<noteq> 42"
  | (trail) l where "p = l @ [42]" "l \<noteq> []" "hd l \<noteq> 42" | (none) "hd p \<noteq> 42" "last p \<noteq> 42"
proof (cases "hd p = 42")
  case True
  then obtain q where q: "p = 42 # q" using assms by (cases p) auto
  show thesis
  proof (cases q rule: rev_cases)
    case (snoc l x)
    then show thesis using both lead q by (cases "x = 42") auto
  qed (use one q in simp)
next
  case False
  then show thesis using none trail assms by (cases p rule: rev_cases) (auto simp: hd_append split: if_splits)
qed

lemma gmatch_suffix:
  "gmatch False (Star # map Lit l) s \<longleftrightarrow> length l \<le> length s \<and> drop (length s - length l) s = l"
proof -
  have "gmatch False (map Lit l) t \<longleftrightarrow> t = l" for t
    using gmatch_lit [of l "[]" t] by auto
  then have "gmatch False (Star # map Lit l) s \<longleftrightarrow> (\<exists>k\<le>length s. drop k s = l)" by simp
  also have "\<dots> \<longleftrightarrow> length l \<le> length s \<and> drop (length s - length l) s = l"
    by (metis diff_diff_cancel diff_le_self length_drop)
  finally show ?thesis .
qed

lemma gmatch_contains:
  assumes "length l \<le> length s"
  shows "gmatch False (Star # map Lit l @ [Star]) s \<longleftrightarrow> memmem s l"
proof -
  have "gmatch False (Star # map Lit l @ [Star]) s \<longleftrightarrow> (\<exists>k\<le>length s. take (length l) (drop k s) = l)"
  proof -
    have "gmatch False (map Lit l @ [Star]) t \<longleftrightarrow> take (length l) t = l" for t
      unfolding gmatch_lit using gmatch_just_star by blast
    then show ?thesis by (simp del: gmatch.simps add: gmatch.simps(2) [of _ Star])
  qed
  also have "\<dots> \<longleftrightarrow> (\<exists>k. k + length l \<le> length s \<and> take (length l) (drop k s) = l)"
  proof -
    have "k + length l \<le> length s" if "k \<le> length s" "take (length l) (drop k s) = l" for k
      using arg_cong [OF that(2), of length] that(1) by simp
    then show ?thesis by (auto intro: add_leD1)
  qed
  finally show ?thesis using memmem_iff [OF assms] by simp
qed

lemma compile_split:
  "ray_glob_compile [42] = SHAPE_SUFFIX []"
  "ray_glob_compile (42 # l @ [42]) =
     (if list_ex is_meta l then SHAPE_NONE else if l = [] then SHAPE_ANY else SHAPE_CONTAINS l)"
  "l \<noteq> [] \<Longrightarrow> last l \<noteq> 42 \<Longrightarrow> ray_glob_compile (42 # l) = (if list_ex is_meta l then SHAPE_NONE else SHAPE_SUFFIX l)"
  "l \<noteq> [] \<Longrightarrow> hd l \<noteq> 42 \<Longrightarrow> ray_glob_compile (l @ [42]) = (if list_ex is_meta l then SHAPE_NONE else SHAPE_PREFIX l)"
  "p \<noteq> [] \<Longrightarrow> hd p \<noteq> 42 \<Longrightarrow> last p \<noteq> 42 \<Longrightarrow> ray_glob_compile p = (if list_ex is_meta p then SHAPE_NONE else SHAPE_EXACT p)"
  by (auto simp: ray_glob_compile_def Let_def nth_append last_conv_nth hd_conv_nth nth_Cons')

lemma shape_meaning:
  assumes "ray_glob_compile p \<noteq> SHAPE_NONE"
  shows "ray_glob_match_compiled (ray_glob_compile p) s = gmatch False (glob_tokens p) s"
proof (cases "p = []")
  case True
  then show ?thesis by (auto simp: ray_glob_compile_def)
next
  case False
  then show ?thesis
  proof (cases p rule: pattern_split)
    case one
    then show ?thesis using gmatch_just_star by (simp add: compile_split(1) del: gmatch.simps)
  next
    case (both l)
    then have l: "\<not> list_ex is_meta l" using assms compile_split(2) by metis
    have t: "glob_tokens p = Star # map Lit l @ [Star]" using both tokens_lit [OF l, of "[42]"] by simp
    have "length l \<le> length s" if "gmatch False (Star # map Lit l @ [Star]) s"
      using that gmatch_lit [of l "[Star]"] by (auto simp del: gmatch.simps(1)) (metis length_drop length_take min.cobounded1 diff_le_self le_trans)
    then show ?thesis using both l gmatch_contains [of l s] gmatch_just_star [of False s] unfolding t
      by (auto simp: compile_split(2) simp del: gmatch.simps) (simp_all add: gmatch_star_split gmatch_just_star del: gmatch.simps)
  next
    case (lead l)
    then have l: "\<not> list_ex is_meta l" using assms compile_split(3) by metis
    have "glob_tokens p = Star # map Lit l" using lead tokens_lit [OF l, of "[]"] by simp
    then show ?thesis using lead l gmatch_suffix by (auto simp: compile_split(3) simp del: gmatch.simps)
  next
    case (trail l)
    then have l: "\<not> list_ex is_meta l" using assms compile_split(4) by metis
    have "glob_tokens p = map Lit l @ [Star]" using trail tokens_lit [OF l, of "[42]"] by simp
    then have "gmatch False (glob_tokens p) s \<longleftrightarrow> take (length l) s = l"
      unfolding gmatch_lit using gmatch_just_star gmatch_lit by metis
    moreover have "length l \<le> length s" if "take (length l) s = l" using arg_cong [OF that, of length] by simp
    ultimately show ?thesis using trail l by (auto simp: compile_split(4))
  next
    case none
    then have l: "\<not> list_ex is_meta p" using assms compile_split(5) False by metis
    have "glob_tokens p = map Lit p @ []" using tokens_lit [OF l, of "[]"] by simp
    then have "gmatch False (glob_tokens p) s \<longleftrightarrow> take (length p) s = p \<and> drop (length p) s = []"
      using gmatch_lit [of p "[]" s] by simp
    moreover have "\<dots> \<longleftrightarrow> s = p" by auto
    ultimately show ?thesis using none l False by (auto simp: compile_split(5))
  qed
qed

section \<open>Properties\<close>

text \<open>
  C11. \<open>glob_impl\<close> returns for every subject and pattern, with or without case, and its answer is the
  declarative meaning of the pattern: some way of letting each \<open>*\<close> stand for a run of characters makes every
  other token match one character. Remembering the last star only loses nothing.
\<close>

theorem glob_matches_meaning:
  "glob_impl s p ci = Some (gmatch ci (glob_tokens p) s)"
  using glob_loop_correct [of s p None ci] by (simp add: glob_impl_def since_def alt_def)

text \<open>
  C12. Whenever \<open>ray_glob_compile\<close> finds a simple shape, \<open>ray_glob_match_compiled\<close> on it answers what
  \<open>ray_glob_match\<close> answers on the pattern, for every subject.
\<close>

theorem glob_shapes_agree:
  assumes "ray_glob_compile p \<noteq> SHAPE_NONE"
  shows "ray_glob_match s p = Some (ray_glob_match_compiled (ray_glob_compile p) s)"
  using shape_meaning [OF assms, of s] glob_loop_correct [of s p None False]
  by (simp add: ray_glob_match_def glob_impl_def since_def alt_def)

theorem glob_shapes_agree_witness:
  "ray_glob_match (lit ''www.google.com'') (lit ''*google*'') =
     Some (ray_glob_match_compiled (ray_glob_compile (lit ''*google*'')) (lit ''www.google.com''))"
proof (rule glob_shapes_agree)
  show "ray_glob_compile (lit ''*google*'') \<noteq> SHAPE_NONE" by code_simp
qed

end
