(* ===== verification/Rowsel.thy ===== *)
theory Rowsel
  imports Prelude
begin

text \<open>
  Row selections, \<^verbatim>\<open>src/ops/rowsel.c\<close>: the surviving rows of a filter as per-morsel flags, a prefix sum and
  morsel-local indices. The block is a record of its arrays. A parallel pass is a list of segment ranges, in
  the order the workers finish them; any list of ranges that covers the segments is admitted. Arrays that
  the allocator leaves uninitialised start with the value \<open>junk\<close>. The segment count, the offsets and the
  running counters are 32-bit in the code and are reduced to 32 bits here.

  Shown: for every schedule \<open>ray_rowsel_from_pred\<close> and the streaming builder produce the same canonical block,
  flattening it gives exactly the passing rows in ascending order, and refining is conjunction, for vectors
  of fewer than \<open>2\<^sup>3\<^sup>2\<close> rows (\<open>2\<^sup>3\<^sup>1\<close> for the builder, whose capacity doubling wraps beyond).
\<close>

section \<open>Blocks\<close>

definition MORSEL :: nat where
  "MORSEL = 1024"

datatype selflag = SEL_NONE | SEL_ALL | SEL_MIX

record rowsel =
  total_pass :: nat
  nrows :: nat
  n_segs :: nat
  seg_flags :: "selflag list"
  seg_offsets :: "nat list"
  idx :: "nat list"

definition seg_count :: "nat \<Rightarrow> nat" where
  "seg_count n = (if n = 0 then 0 else to_u32 ((n + MORSEL - 1) div MORSEL))"

text \<open>\<open>ray_rowsel_new\<close>: refused on inconsistent counts or when the allocation fails.\<close>

definition ray_rowsel_new :: "bool \<Rightarrow> nat \<Rightarrow> nat \<Rightarrow> nat \<Rightarrow> nat \<Rightarrow> rowsel option" where
  "ray_rowsel_new mem junk rows tot idx_count =
    (if tot > rows \<or> idx_count > tot \<or> \<not> mem then None
     else Some \<lparr>total_pass = tot, nrows = rows, n_segs = seg_count rows,
                seg_flags = replicate (seg_count rows) SEL_NONE,
                seg_offsets = replicate (seg_count rows + 1) junk, idx = replicate idx_count junk\<rparr>)"

text \<open>The rows \<open>[base, end)\<close> of a segment.\<close>

definition seg_rows :: "nat \<Rightarrow> nat \<Rightarrow> nat list" where
  "seg_rows rows seg =
    (let base = seg * MORSEL; end = (if base + MORSEL > rows then rows else base + MORSEL) in [base..<end])"

definition write_at :: "'a list \<Rightarrow> nat \<Rightarrow> 'a list \<Rightarrow> 'a list" where
  "write_at out off xs = take off out @ xs @ drop (off + length xs) out"

section \<open>Building from a predicate vector\<close>

definition rowsel_pass1_fn :: "bytes \<Rightarrow> nat list \<Rightarrow> nat \<times> nat \<Rightarrow> nat list" where
  "rowsel_pass1_fn pred popcount = (\<lambda>(start_seg, end_seg).
    fold (\<lambda>seg pc. pc[seg := length (filter (\<lambda>r. pred ! r \<noteq> 0) (seg_rows (length pred) seg))])
      [start_seg..<end_seg] popcount)"

definition rowsel_pass2_fn ::
  "bytes \<Rightarrow> selflag list \<Rightarrow> nat list \<Rightarrow> nat list \<Rightarrow> nat \<times> nat \<Rightarrow> nat list" where
  "rowsel_pass2_fn pred flags offsets out = (\<lambda>(start_seg, end_seg).
    fold (\<lambda>seg out.
        if flags ! seg \<noteq> SEL_MIX then out
        else write_at out (offsets ! seg)
               (map (\<lambda>r. r - seg * MORSEL) (filter (\<lambda>r. pred ! r \<noteq> 0) (seg_rows (length pred) seg))))
      [start_seg..<end_seg] out)"

definition sum_counts :: "nat \<Rightarrow> nat list \<Rightarrow> nat \<times> nat" where
  "sum_counts rows popcount =
    fold (\<lambda>s (tot, idx_count).
        let pc = popcount ! s
        in (tot + pc, if pc \<noteq> 0 \<and> pc \<noteq> length (seg_rows rows s) then idx_count + pc else idx_count))
      [0..<seg_count rows] (0, 0)"

definition classify :: "nat \<Rightarrow> nat \<Rightarrow> selflag" where
  "classify pc len = (if pc = 0 then SEL_NONE else if pc = len then SEL_ALL else SEL_MIX)"

text \<open>The sweep that fills \<open>seg_flags\<close> and \<open>seg_offsets\<close>; \<open>cum\<close> counts the indices of mixed segments.\<close>

definition sweep :: "nat \<Rightarrow> nat list \<Rightarrow> rowsel \<Rightarrow> rowsel \<times> nat" where
  "sweep rows popcount b =
    (let (b, cum) =
       fold (\<lambda>s (b, cum).
           let b = b\<lparr>seg_offsets := (seg_offsets b)[s := cum],
                     seg_flags := (seg_flags b)[s := classify (popcount ! s) (length (seg_rows rows s))]\<rparr>
           in (b, if seg_flags b ! s = SEL_MIX then to_u32 (cum + popcount ! s) else cum))
         [0..<seg_count rows] (b, 0)
     in (b\<lparr>seg_offsets := (seg_offsets b)[seg_count rows := cum]\<rparr>, cum))"

text \<open>
  \<open>ray_rowsel_from_pred\<close> on a boolean vector; \<open>mem\<close> tells which of its two allocations succeed, \<open>w1\<close> and \<open>w2\<close> are
  the schedules of its two passes. \<open>None\<close> is the null pointer.
\<close>

definition ray_rowsel_from_pred ::
  "bool \<times> bool \<Rightarrow> nat \<Rightarrow> (nat \<times> nat) list \<Rightarrow> (nat \<times> nat) list \<Rightarrow> bytes \<Rightarrow> rowsel option" where
  "ray_rowsel_from_pred mem junk w1 w2 pred =
    (let rows = length pred; segs = seg_count rows
     in if rows = 0 then ray_rowsel_new (snd mem) junk 0 0 0
        else if \<not> fst mem then None
        else
          (let popcount = foldl (rowsel_pass1_fn pred) (replicate segs junk) w1;
               (tot, idx_count) = sum_counts rows popcount
           in if tot = rows then None
              else (case ray_rowsel_new (snd mem) junk rows tot idx_count of
                      None \<Rightarrow> None
                    | Some b \<Rightarrow>
                        (let (b, cum) = sweep rows popcount b
                         in Some (if cum > 0
                                  then b\<lparr>idx := foldl (rowsel_pass2_fn pred (seg_flags b) (seg_offsets b)) (idx b) w2\<rparr>
                                  else b)))))"

section \<open>The streaming builder\<close>

record builder =
  b_flags :: "selflag list"
  b_off :: "nat list"
  b_idx :: "nat list"
  b_segs :: nat
  b_cap :: nat
  b_total :: nat

definition rowsel_builder_init :: "nat \<Rightarrow> builder" where
  "rowsel_builder_init n = \<lparr>b_flags = replicate n SEL_NONE, b_off = replicate (n + 1) 0, b_idx = [], b_segs = n,
     b_cap = (if n \<noteq> 0 then to_u32 (n * 8) else 8), b_total = 0\<rparr>"

text \<open>
  The growth loop of \<open>rowsel_emit_segment\<close>: the capacity doubles in 32 bits, so from a capacity that wraps to
  zero the loop never ends (\<open>None\<close>).
\<close>

partial_function (option) grow_u32 :: "nat \<Rightarrow> nat \<Rightarrow> nat option" where
  "grow_u32 cap need = (if cap < need then grow_u32 (to_u32 (cap * 2)) need else Some cap)"

text \<open>
  One segment of bools: \<open>idx_len\<close> is the length of \<open>b_idx\<close>. \<open>None\<close> is a growth loop that does not end, or a
  store beyond the capacity, which a wrapped \<open>idx_len + pc\<close> leads to.
\<close>

definition rowsel_emit_segment :: "builder \<Rightarrow> nat \<Rightarrow> bytes \<Rightarrow> builder option" where
  "rowsel_emit_segment b seg morsel =
    (let n = length morsel;
         b = b\<lparr>b_off := (b_off b)[seg := length (b_idx b)]\<rparr>;
         pc = length (filter (\<lambda>i. morsel ! i \<noteq> 0) [0..<n]);
         b = b\<lparr>b_total := b_total b + pc\<rparr>;
         b = (if pc = 0 then Some (b\<lparr>b_flags := (b_flags b)[seg := SEL_NONE]\<rparr>)
              else if pc = n then Some (b\<lparr>b_flags := (b_flags b)[seg := SEL_ALL]\<rparr>)
              else
                (let b = b\<lparr>b_flags := (b_flags b)[seg := SEL_MIX]\<rparr>;
                     need = to_u32 (length (b_idx b) + pc)
                 in case (if need > b_cap b then grow_u32 (if b_cap b \<noteq> 0 then b_cap b else 8) need else Some (b_cap b)) of
                      None \<Rightarrow> None
                    | Some cap \<Rightarrow>
                        if length (b_idx b) + pc > cap then None
                        else Some (b\<lparr>b_cap := cap, b_idx := b_idx b @ filter (\<lambda>i. morsel ! i \<noteq> 0) [0..<n]\<rparr>)))
     in map_option (\<lambda>b. b\<lparr>b_off := (b_off b)[seg + 1 := length (b_idx b)]\<rparr>) b)"

text \<open>\<open>rowsel_builder_finish\<close>: the segments of every builder in turn, numbered through.\<close>

definition finish_segment :: "builder \<Rightarrow> nat \<Rightarrow> rowsel \<times> nat \<times> nat \<Rightarrow> rowsel \<times> nat \<times> nat" where
  "finish_segment b s = (\<lambda>(blk, gseg, cum).
    let blk = blk\<lparr>seg_flags := (seg_flags blk)[gseg := b_flags b ! s], seg_offsets := (seg_offsets blk)[gseg := cum]\<rparr>
    in if b_flags b ! s = SEL_MIX
       then (let cnt = sub_u32 (b_off b ! (s + 1)) (b_off b ! s)
             in (blk\<lparr>idx := write_at (idx blk) cum (take cnt (drop (b_off b ! s) (b_idx b)))\<rparr>,
                 to_u32 (gseg + 1), to_u32 (cum + cnt)))
       else (blk, to_u32 (gseg + 1), cum))"

definition rowsel_builder_finish :: "bool \<Rightarrow> nat \<Rightarrow> builder list \<Rightarrow> nat \<Rightarrow> rowsel option" where
  "rowsel_builder_finish mem junk builders rows =
    (case ray_rowsel_new mem junk rows (sum_list (map b_total builders)) (sum_list (map (\<lambda>b. length (b_idx b)) builders)) of
       None \<Rightarrow> None
     | Some blk \<Rightarrow>
         (let (blk, gseg, cum) =
            fold (\<lambda>b st. fold (finish_segment b) [0..<b_segs b] st) builders (blk, 0, 0)
          in Some (blk\<lparr>seg_flags := take gseg (seg_flags blk) @ replicate (n_segs blk - gseg) SEL_NONE,
                        seg_offsets := (take gseg (seg_offsets blk) @ replicate (n_segs blk - gseg) cum)
                                        @ [cum]\<rparr>)))"

text \<open>
  \<open>pred_sel_builders_finish\<close> of \<^verbatim>\<open>src/ops/expr.c\<close> drops a block that keeps every row and sets \<open>all_pass\<close>
  instead; the second component is that flag.
\<close>

definition pred_sel_builders_finish :: "bool \<Rightarrow> nat \<Rightarrow> builder list \<Rightarrow> nat \<Rightarrow> rowsel option \<times> bool" where
  "pred_sel_builders_finish mem junk builders rows =
    (case rowsel_builder_finish mem junk builders rows of
       None \<Rightarrow> (None, False)
     | Some block \<Rightarrow> if total_pass block = rows then (None, True) else (Some block, False))"

section \<open>Flattening and refining\<close>

definition flat_offsets :: "rowsel \<Rightarrow> nat list" where
  "flat_offsets sel =
    fst (fold (\<lambda>s (fo, cum).
        (fo @ [cum],
         (case seg_flags sel ! s of
            SEL_NONE \<Rightarrow> cum
          | SEL_ALL \<Rightarrow> to_u32 (cum + length (seg_rows (nrows sel) s))
          | SEL_MIX \<Rightarrow> to_u32 (cum + sub_u32 (seg_offsets sel ! (s + 1)) (seg_offsets sel ! s)))))
      [0..<n_segs sel] ([], 0))"

definition rowsel_to_idx_fn :: "rowsel \<Rightarrow> nat list \<Rightarrow> nat list \<Rightarrow> nat \<times> nat \<Rightarrow> nat list" where
  "rowsel_to_idx_fn sel fo out = (\<lambda>(start_seg, end_seg).
    fold (\<lambda>seg out.
        (case seg_flags sel ! seg of
           SEL_NONE \<Rightarrow> out
         | SEL_ALL \<Rightarrow> write_at out (fo ! seg) (seg_rows (nrows sel) seg)
         | SEL_MIX \<Rightarrow>
             write_at out (fo ! seg)
               (map ((+) (seg * MORSEL))
                  (take (sub_u32 (seg_offsets sel ! (seg + 1)) (seg_offsets sel ! seg)) (drop (seg_offsets sel ! seg) (idx sel))))))
      [start_seg..<end_seg] out)"

definition ray_rowsel_to_indices :: "bool \<times> bool \<Rightarrow> nat \<Rightarrow> (nat \<times> nat) list \<Rightarrow> rowsel \<Rightarrow> nat list option" where
  "ray_rowsel_to_indices mem junk w sel =
    (if \<not> fst mem then None
     else if total_pass sel = 0 \<or> n_segs sel = 0 then Some (replicate (total_pass sel) junk)
     else if \<not> snd mem then None
     else Some (foldl (rowsel_to_idx_fn sel (flat_offsets sel)) (replicate (total_pass sel) junk) w))"

text \<open>The rows of a segment an existing selection keeps, and the count of those the predicate keeps too.\<close>

definition kept_rows :: "rowsel \<Rightarrow> nat \<Rightarrow> nat list" where
  "kept_rows sel s =
    (case seg_flags sel ! s of
       SEL_NONE \<Rightarrow> []
     | SEL_ALL \<Rightarrow> seg_rows (nrows sel) s
     | SEL_MIX \<Rightarrow> map ((+) (s * MORSEL))
          (take (sub_u32 (seg_offsets sel ! (s + 1)) (seg_offsets sel ! s)) (drop (seg_offsets sel ! s) (idx sel))))"

definition refine_counts :: "rowsel \<Rightarrow> bytes \<Rightarrow> nat list" where
  "refine_counts e pred =
    fold (\<lambda>s pc. if seg_flags e ! s = SEL_NONE then pc else pc[s := length (filter (\<lambda>r. pred ! r \<noteq> 0) (kept_rows e s))])
      [0..<n_segs e] (replicate (n_segs e) 0)"

definition refine_segment :: "rowsel \<Rightarrow> bytes \<Rightarrow> nat list \<Rightarrow> nat \<Rightarrow> rowsel \<times> nat \<Rightarrow> rowsel \<times> nat" where
  "refine_segment e pred popcount s = (\<lambda>(b, cum).
    let b = b\<lparr>seg_offsets := (seg_offsets b)[s := cum]\<rparr>;
        pc = popcount ! s
    in if pc = 0 then (b\<lparr>seg_flags := (seg_flags b)[s := SEL_NONE]\<rparr>, cum)
       else if pc = length (seg_rows (nrows e) s) then (b\<lparr>seg_flags := (seg_flags b)[s := SEL_ALL]\<rparr>, cum)
       else (b\<lparr>seg_flags := (seg_flags b)[s := SEL_MIX],
               idx := write_at (idx b) cum
                        (map (\<lambda>r. r - s * MORSEL) (filter (\<lambda>r. pred ! r \<noteq> 0) (kept_rows e s)))\<rparr>,
             to_u32 (cum + pc)))"

definition ray_rowsel_refine ::
  "bool \<times> bool \<Rightarrow> nat \<Rightarrow> (nat \<times> nat) list \<Rightarrow> (nat \<times> nat) list \<Rightarrow> rowsel option \<Rightarrow> bytes \<Rightarrow> rowsel option" where
  "ray_rowsel_refine mem junk w1 w2 existing pred =
    (case existing of
       None \<Rightarrow> ray_rowsel_from_pred mem junk w1 w2 pred
     | Some e \<Rightarrow>
         if length pred \<noteq> nrows e then None
         else if \<not> fst mem then None
         else
           (let popcount = refine_counts e pred;
                (tot, idx_count) = sum_counts (nrows e) popcount
            in if tot = nrows e then None
               else (case ray_rowsel_new (snd mem) junk (nrows e) tot idx_count of
                       None \<Rightarrow> None
                     | Some b \<Rightarrow>
                         (let (b, cum) = fold (refine_segment e pred popcount) [0..<n_segs e] (b, 0)
                          in Some (b\<lparr>seg_offsets := (seg_offsets b)[n_segs e := cum]\<rparr>)))))"

section \<open>The canonical block of a set of rows\<close>

definition local_rows :: "nat \<Rightarrow> (nat \<Rightarrow> bool) \<Rightarrow> nat \<Rightarrow> nat list" where
  "local_rows n P s = map (\<lambda>r. r - s * MORSEL) (filter P (seg_rows n s))"

definition flag_of :: "nat \<Rightarrow> (nat \<Rightarrow> bool) \<Rightarrow> nat \<Rightarrow> selflag" where
  "flag_of n P s = classify (length (filter P (seg_rows n s))) (length (seg_rows n s))"

definition slice :: "nat \<Rightarrow> (nat \<Rightarrow> bool) \<Rightarrow> nat \<Rightarrow> nat list" where
  "slice n P s = (if flag_of n P s = SEL_MIX then local_rows n P s else [])"

definition offset_of :: "(nat \<Rightarrow> 'a list) \<Rightarrow> nat \<Rightarrow> nat" where
  "offset_of sl s = length (concat (map sl [0..<s]))"

definition sel_of :: "nat \<Rightarrow> (nat \<Rightarrow> bool) \<Rightarrow> rowsel" where
  "sel_of n P = \<lparr>total_pass = length (filter P [0..<n]), nrows = n, n_segs = seg_count n,
     seg_flags = map (flag_of n P) [0..<seg_count n],
     seg_offsets = map (offset_of (slice n P)) [0..<seg_count n + 1],
     idx = concat (map (slice n P) [0..<seg_count n])\<rparr>"

text \<open>A schedule: ranges of segments that together cover all of them.\<close>

definition covers :: "nat \<Rightarrow> (nat \<times> nat) list \<Rightarrow> bool" where
  "covers n w \<longleftrightarrow> set (concat (map (\<lambda>(a, b). [a..<b]) w)) = {..<n}"

section \<open>Segments and slices\<close>

lemma seg_rows_eq: "seg_rows n s = [s * MORSEL..<min (Suc s * MORSEL) n]"
  by (simp add: seg_rows_def Let_def min_def add.commute)

lemma rows_concat: "concat (map (seg_rows n) [0..<k]) = [0..<min (k * MORSEL) n]"
proof (induction k)
  case (Suc k)
  show ?case
  proof (cases "k * MORSEL \<le> n")
    case True
    then have "[0..<min (k * MORSEL) n] @ [k * MORSEL..<min (Suc k * MORSEL) n] = [0..<min (Suc k * MORSEL) n]"
      by (metis le0 le_add2 min.absorb1 min.bounded_iff mult_Suc upt_add_eq_append le_iff_add)
    then show ?thesis using Suc by (simp add: seg_rows_eq)
  qed (use Suc in \<open>simp add: seg_rows_eq\<close>)
qed simp

lemma seg_count_small: "n < 4294967296 \<Longrightarrow> seg_count n = (if n = 0 then 0 else (n + MORSEL - 1) div MORSEL)"
  by (simp add: seg_count_def to_u32_def MORSEL_def)

lemma seg_count_less: "seg_count n < 4294967296"
  by (simp add: seg_count_def to_u32_def)

lemma seg_count_bound: "n < 4294967296 \<Longrightarrow> n \<le> seg_count n * MORSEL"
proof -
  assume n: "n < 4294967296"
  have M: "0 < MORSEL" by (simp add: MORSEL_def)
  define q where "q = (n + MORSEL - 1) div MORSEL"
  have "n + MORSEL - 1 < q * MORSEL + MORSEL"
    using mod_less_divisor [OF M, of "n + MORSEL - 1"] div_mult_mod_eq [of "n + MORSEL - 1" MORSEL] unfolding q_def by linarith
  then have "n \<le> q * MORSEL" using M by linarith
  then show ?thesis using n by (simp add: seg_count_small q_def)
qed

lemma rows_all: "n < 4294967296 \<Longrightarrow> concat (map (seg_rows n) [0..<seg_count n]) = [0..<n]"
  using rows_concat [of n "seg_count n"] seg_count_bound [of n] by (simp add: min_def)

lemma filter_rows_all: "n < 4294967296 \<Longrightarrow> concat (map (\<lambda>s. filter P (seg_rows n s)) [0..<seg_count n]) = filter P [0..<n]"
  using arg_cong [OF rows_all [of n], of "filter P"] by (simp add: filter_concat comp_def)

lemma offset_0 [simp]: "offset_of sl 0 = 0"
  by (simp add: offset_of_def)

lemma offset_Suc [simp]: "offset_of sl (Suc s) = offset_of sl s + length (sl s)"
  by (simp add: offset_of_def)

lemma offset_zero: "offset_of sl k = 0 \<Longrightarrow> concat (map sl [0..<k]) = []"
  by (simp only: offset_of_def length_0_conv)

lemma offset_mono: "s \<le> t \<Longrightarrow> offset_of sl s \<le> offset_of sl t"
  by (induction t) (auto simp: le_Suc_eq)

lemma offset_find: "j < offset_of sl n \<Longrightarrow> \<exists>s<n. offset_of sl s \<le> j \<and> j < offset_of sl (Suc s)"
proof (induction n)
  case (Suc n)
  then show ?case by (cases "j < offset_of sl n") (auto simp: less_Suc_eq not_less)
qed simp

lemma concat_slice:
  assumes "s < n"
  shows "take (length (sl s)) (drop (offset_of sl s) (concat (map sl [0..<n]))) = sl s"
proof -
  have "[0..<n] = [0..<s] @ s # [Suc s..<n]" using assms by (metis le0 less_imp_le upt_add_eq_append upt_conv_Cons le_add_diff_inverse)
  then show ?thesis by (simp add: offset_of_def)
qed

lemma concat_slice_nth:
  assumes "s < n" "offset_of sl s \<le> j" "j < offset_of sl (Suc s)"
  shows "concat (map sl [0..<n]) ! j = sl s ! (j - offset_of sl s)"
proof -
  let ?c = "concat (map sl [0..<n])"
  have "offset_of sl (Suc s) \<le> length ?c" using offset_mono [of "Suc s" n sl] assms(1) by (simp add: offset_of_def)
  then have "?c ! j = take (length (sl s)) (drop (offset_of sl s) ?c) ! (j - offset_of sl s)"
    using assms by (simp add: less_diff_conv)
  then show ?thesis using concat_slice [OF assms(1), of sl] by simp
qed

lemma write_at_nil [simp]: "write_at out off [] = out"
  by (simp add: write_at_def)

lemma write_at_length: "off + length xs \<le> length out \<Longrightarrow> length (write_at out off xs) = length out"
  by (simp add: write_at_def)

lemma write_at_nth:
  "off + length xs \<le> length out \<Longrightarrow> j < length out \<Longrightarrow>
    write_at out off xs ! j = (if off \<le> j \<and> j < off + length xs then xs ! (j - off) else out ! j)"
  by (auto simp: write_at_def nth_append min_def)

text \<open>Writing disjoint slices in any order, each at least once, fills the array with their concatenation.\<close>

lemma write_slices:
  assumes "set segs \<subseteq> {..<n}" "length out = offset_of sl n"
  shows "length (fold (\<lambda>s ys. write_at ys (offset_of sl s) (sl s)) segs out) = offset_of sl n \<and>
    (\<forall>j<offset_of sl n. fold (\<lambda>s ys. write_at ys (offset_of sl s) (sl s)) segs out ! j =
       (if \<exists>s\<in>set segs. offset_of sl s \<le> j \<and> j < offset_of sl (Suc s) then concat (map sl [0..<n]) ! j else out ! j))"
  using assms(1)
proof (induction segs rule: rev_induct)
  case (snoc s segs)
  have b: "offset_of sl s + length (sl s) \<le> offset_of sl n" "s < n"
    using offset_mono [of "Suc s" n sl] snoc.prems by auto
  show ?case using snoc.IH snoc.prems b
    by (auto simp: write_at_length write_at_nth concat_slice_nth)
qed (use assms(2) in simp)

lemma write_slices_all:
  assumes "set segs = {..<n}" "length out = offset_of sl n"
  shows "fold (\<lambda>s ys. write_at ys (offset_of sl s) (sl s)) segs out = concat (map sl [0..<n])"
proof (rule nth_equalityI)
  show "length (fold (\<lambda>s ys. write_at ys (offset_of sl s) (sl s)) segs out) = length (concat (map sl [0..<n]))"
    using write_slices [of segs n out sl] assms by (simp add: offset_of_def)
next
  fix j assume "j < length (fold (\<lambda>s ys. write_at ys (offset_of sl s) (sl s)) segs out)"
  then have "j < offset_of sl n" using write_slices [of segs n out sl] assms by simp
  then show "fold (\<lambda>s ys. write_at ys (offset_of sl s) (sl s)) segs out ! j = concat (map sl [0..<n]) ! j"
    using write_slices [of segs n out sl] assms offset_find [of j sl n] by auto
qed

lemma foldl_ranges:
  "foldl (\<lambda>acc (a, b). fold g [a..<b] acc) acc w = fold g (concat (map (\<lambda>(a, b). [a..<b]) w)) acc"
  by (induction w arbitrary: acc) auto

lemma fold_updates:
  "length (fold (\<lambda>s xs. xs[s := f s]) segs xs) = length xs \<and>
    (\<forall>j<length xs. fold (\<lambda>s xs. xs[s := f s]) segs xs ! j = (if j \<in> set segs then f j else xs ! j))"
proof (induction segs rule: rev_induct)
  case (snoc s segs)
  then show ?case by (cases "s < length xs") (auto simp: nth_list_update)
qed simp

lemma fold_updates_all: "set segs = {..<n} \<Longrightarrow> length xs = n \<Longrightarrow> fold (\<lambda>s xs. xs[s := f s]) segs xs = map f [0..<n]"
  using fold_updates [of f segs xs] by (intro nth_equalityI) auto

section \<open>The producer\<close>

abbreviation count_of :: "nat \<Rightarrow> (nat \<Rightarrow> bool) \<Rightarrow> nat \<Rightarrow> nat" where
  "count_of n P s \<equiv> length (filter P (seg_rows n s))"

lemma slice_length:
  "length (slice n P s) = (if count_of n P s \<noteq> 0 \<and> count_of n P s \<noteq> length (seg_rows n s) then count_of n P s else 0)"
  by (simp add: slice_def flag_of_def classify_def local_rows_def)

lemma filter_offset_le: "offset_of (\<lambda>s. filter P (seg_rows n s)) k \<le> n"
proof -
  have "concat (map (\<lambda>s. filter P (seg_rows n s)) [0..<k]) = filter P (concat (map (seg_rows n) [0..<k]))"
    by (simp add: filter_concat comp_def)
  also have "\<dots> = filter P [0..<min (k * MORSEL) n]" unfolding rows_concat ..
  finally show ?thesis
    using length_filter_le [of P "[0..<min (k * MORSEL) n]"] by (simp add: offset_of_def)
qed

lemma slice_offset_filter: "offset_of (slice n P) k \<le> offset_of (\<lambda>s. filter P (seg_rows n s)) k"
  by (induction k) (auto simp: slice_length)

lemma slice_offset_le: "offset_of (slice n P) k \<le> n"
  using slice_offset_filter filter_offset_le by (rule order_trans)

text \<open>So no 32-bit counter wraps while there are fewer than \<open>2\<^sup>3\<^sup>2\<close> rows.\<close>

lemma offset_u32:
  assumes "n < 4294967296"
  shows "to_u32 (offset_of (slice n P) k + length (slice n P k)) = offset_of (slice n P) (Suc k)"
    "to_u32 (offset_of (\<lambda>s. filter P (seg_rows n s)) k + count_of n P k) = offset_of (\<lambda>s. filter P (seg_rows n s)) (Suc k)"
    "sub_u32 (offset_of (slice n P) (Suc k)) (offset_of (slice n P) k) = length (slice n P k)"
  using assms slice_offset_le [of n P "Suc k"] filter_offset_le [of P n "Suc k"]
  by (simp_all add: to_u32_id sub_u32_id)

lemma flag_mix: "flag_of n P s = SEL_MIX \<Longrightarrow> length (slice n P s) = count_of n P s"
  by (simp add: slice_def local_rows_def)

lemma mix_u32:
  "n < 4294967296 \<Longrightarrow> filter P (seg_rows n k) \<noteq> [] \<Longrightarrow> count_of n P k \<noteq> length (seg_rows n k) \<Longrightarrow>
    to_u32 (offset_of (slice n P) k + count_of n P k) = offset_of (slice n P) k + count_of n P k"
  using offset_u32(1) [of n P k] by (simp add: slice_length)

lemma sum_counts_map:
  assumes "n < 4294967296" "popcount = map (count_of n P) [0..<seg_count n]"
  shows "sum_counts n popcount = (length (filter P [0..<n]), offset_of (slice n P) (seg_count n))"
proof -
  have "fold (\<lambda>s (tot, idx_count).
        let pc = popcount ! s
        in (tot + pc, if pc \<noteq> 0 \<and> pc \<noteq> length (seg_rows n s) then idx_count + pc else idx_count))
      [0..<k] (0, 0) = (length (concat (map (\<lambda>s. filter P (seg_rows n s)) [0..<k])), offset_of (slice n P) k)"
    if "k \<le> seg_count n" for k
    using that
  proof (induction k)
    case (Suc k)
    then have "popcount ! k = count_of n P k" using assms(2) by simp
    with Suc show ?case by (simp add: Let_def slice_length)
  qed simp
  from this [OF order_refl] show ?thesis using assms(1) by (simp add: sum_counts_def filter_rows_all)
qed

text \<open>Filling one entry after the other.\<close>

lemma fill_prefix: "k < length xs \<Longrightarrow> (map f [0..<k] @ drop k xs)[k := v] = map f [0..<k] @ v # drop (Suc k) xs"
  by (simp add: list_update_append Cons_nth_drop_Suc [symmetric])

lemma sweep_sel:
  assumes n: "n < 4294967296" and pc: "popcount = map (count_of n P) [0..<seg_count n]"
    and len: "length (seg_flags b) = seg_count n" "length (seg_offsets b) = seg_count n + 1"
  shows "sweep n popcount b =
    (b\<lparr>seg_offsets := seg_offsets (sel_of n P), seg_flags := seg_flags (sel_of n P)\<rparr>, offset_of (slice n P) (seg_count n))"
proof -
  let ?f = "\<lambda>s (b, cum).
           let b = b\<lparr>seg_offsets := (seg_offsets b)[s := cum],
                     seg_flags := (seg_flags b)[s := classify (popcount ! s) (length (seg_rows n s))]\<rparr>
           in (b, if seg_flags b ! s = SEL_MIX then to_u32 (cum + popcount ! s) else cum)"
  have "fold ?f [0..<k] (b, 0) =
     (b\<lparr>seg_offsets := map (offset_of (slice n P)) [0..<k] @ drop k (seg_offsets b),
        seg_flags := map (flag_of n P) [0..<k] @ drop k (seg_flags b)\<rparr>, offset_of (slice n P) k)"
    if "k \<le> seg_count n" for k
    using that
  proof (induction k)
    case (Suc k)
    have k: "popcount ! k = count_of n P k" using pc Suc.prems by simp
    have fl: "classify (count_of n P k) (length (seg_rows n k)) = flag_of n P k" by (simp add: flag_of_def)
    have cum: "(if flag_of n P k = SEL_MIX then to_u32 (offset_of (slice n P) k + count_of n P k) else offset_of (slice n P) k) =
        offset_of (slice n P) (Suc k)"
      using offset_u32(1) [OF n, of P k]
      by (cases "flag_of n P k = SEL_MIX") (simp_all add: flag_mix, simp_all add: slice_def)
    show ?case using Suc len cum by (simp add: Let_def fl nth_append k fill_prefix split: if_splits)
  qed simp
  from this [OF order_refl] show ?thesis
    using len by (simp add: sweep_def sel_of_def fill_prefix)
qed

lemma pass1_count:
  assumes "covers (seg_count (length pred)) w"
  shows "foldl (rowsel_pass1_fn pred) (replicate (seg_count (length pred)) junk) w =
    map (count_of (length pred) (\<lambda>r. pred ! r \<noteq> 0)) [0..<seg_count (length pred)]"
proof -
  have "rowsel_pass1_fn pred = (\<lambda>acc (a, b). fold (\<lambda>s xs. xs[s := count_of (length pred) (\<lambda>r. pred ! r \<noteq> 0) s]) [a..<b] acc)"
    by (intro ext) (simp add: rowsel_pass1_fn_def)
  then show ?thesis
    using assms by (simp add: foldl_ranges fold_updates_all covers_def)
qed

lemma pass2_slices:
  fixes pred
  defines "n \<equiv> length pred" and "P \<equiv> \<lambda>r. pred ! r \<noteq> 0"
  assumes w: "covers (seg_count n) w" and out: "length out = offset_of (slice n P) (seg_count n)"
  shows "foldl (rowsel_pass2_fn pred (seg_flags (sel_of n P)) (seg_offsets (sel_of n P))) out w = idx (sel_of n P)"
proof -
  let ?segs = "concat (map (\<lambda>(a, b). [a..<b]) w)"
  let ?g = "\<lambda>seg out. if seg_flags (sel_of n P) ! seg \<noteq> SEL_MIX then out
        else write_at out (seg_offsets (sel_of n P) ! seg) (map (\<lambda>r. r - seg * MORSEL) (filter P (seg_rows n seg)))"
  have "rowsel_pass2_fn pred (seg_flags (sel_of n P)) (seg_offsets (sel_of n P)) = (\<lambda>acc (a, b). fold ?g [a..<b] acc)"
    unfolding rowsel_pass2_fn_def n_def P_def by (rule refl)
  then have "foldl (rowsel_pass2_fn pred (seg_flags (sel_of n P)) (seg_offsets (sel_of n P))) out w = fold ?g ?segs out"
    by (simp add: foldl_ranges)
  also have "\<dots> = fold (\<lambda>s ys. write_at ys (offset_of (slice n P) s) (slice n P s)) ?segs out"
  proof (rule fold_cong)
    fix seg assume "seg \<in> set ?segs"
    then have "seg < seg_count n" using w by (auto simp: covers_def)
    then show "?g seg = (\<lambda>ys. write_at ys (offset_of (slice n P) seg) (slice n P seg))"
      by (auto simp: sel_of_def nth_append slice_def local_rows_def)
  qed simp_all
  also have "\<dots> = idx (sel_of n P)"
    using write_slices_all [of ?segs "seg_count n" out "slice n P"] w out by (simp add: covers_def sel_of_def)
  finally show ?thesis .
qed

lemma slices_le_total: "n < 4294967296 \<Longrightarrow> offset_of (slice n P) (seg_count n) \<le> length (filter P [0..<n])"
  using slice_offset_filter [of n P "seg_count n"] filter_rows_all [of n P] by (simp add: offset_of_def)

lemma from_pred_sel:
  fixes pred
  defines "n \<equiv> length pred" and "P \<equiv> \<lambda>r. pred ! r \<noteq> 0"
  assumes "covers (seg_count n) w1" "covers (seg_count n) w2" "pred \<noteq> []" and small: "n < 4294967296"
  shows "ray_rowsel_from_pred (True, True) junk w1 w2 pred = (if (\<forall>r<n. P r) then None else Some (sel_of n P))"
proof -
  have n: "0 < n" using assms(5) by (simp add: n_def)
  let ?pc = "map (count_of n P) [0..<seg_count n]"
  define b where "b = \<lparr>total_pass = length (filter P [0..<n]), nrows = n, n_segs = seg_count n,
     seg_flags = replicate (seg_count n) SEL_NONE, seg_offsets = replicate (seg_count n + 1) junk,
     idx = replicate (offset_of (slice n P) (seg_count n)) junk\<rparr>"
  have pass1: "foldl (rowsel_pass1_fn pred) (replicate (seg_count n) junk) w1 = ?pc"
    using pass1_count assms(3) by (simp add: n_def P_def)
  have tot: "length (filter P [0..<n]) = n \<longleftrightarrow> (\<forall>r<n. P r)"
    using sum_length_filter_compl [of P "[0..<n]"] by (auto simp: filter_empty_conv)
  have new: "ray_rowsel_new True junk n (length (filter P [0..<n])) (offset_of (slice n P) (seg_count n)) = Some b"
    using slices_le_total [OF small, of P] length_filter_le [of P "[0..<n]"] by (simp add: ray_rowsel_new_def b_def)
  have sw: "sweep n ?pc b = (b\<lparr>seg_offsets := seg_offsets (sel_of n P), seg_flags := seg_flags (sel_of n P)\<rparr>,
      offset_of (slice n P) (seg_count n))"
    by (rule sweep_sel) (simp_all add: b_def small)
  have p2: "foldl (rowsel_pass2_fn pred (seg_flags (sel_of n P)) (seg_offsets (sel_of n P)))
      (replicate (offset_of (slice n P) (seg_count n)) junk) w2 = idx (sel_of n P)"
    using pass2_slices [of pred w2] assms(4) by (simp add: n_def P_def)
  have "offset_of (slice n P) (seg_count n) = 0 \<Longrightarrow>
      b\<lparr>seg_offsets := seg_offsets (sel_of n P), seg_flags := seg_flags (sel_of n P)\<rparr> = sel_of n P"
    using offset_zero [of "slice n P" "seg_count n"] by (simp add: sel_of_def b_def)
  moreover have "b\<lparr>seg_offsets := seg_offsets (sel_of n P), seg_flags := seg_flags (sel_of n P), idx := idx (sel_of n P)\<rparr> = sel_of n P"
    by (simp add: sel_of_def b_def)
  moreover have "idx b = replicate (offset_of (slice n P) (seg_count n)) junk" by (simp add: b_def)
  ultimately show ?thesis
    unfolding ray_rowsel_from_pred_def Let_def n_def [symmetric] using n
    by (simp add: pass1 sum_counts_map [OF small refl] tot new sw p2)
qed

section \<open>Flattening\<close>

lemma sel_of_fields [simp]:
  "total_pass (sel_of n P) = length (filter P [0..<n])" "nrows (sel_of n P) = n" "n_segs (sel_of n P) = seg_count n"
  "s < seg_count n \<Longrightarrow> seg_flags (sel_of n P) ! s = flag_of n P s"
  "s \<le> seg_count n \<Longrightarrow> seg_offsets (sel_of n P) ! s = offset_of (slice n P) s"
  "idx (sel_of n P) = concat (map (slice n P) [0..<seg_count n])"
  by (simp_all add: sel_of_def del: upt_Suc)

lemma seg_rows_base: "r \<in> set (seg_rows n s) \<Longrightarrow> s * MORSEL \<le> r"
  by (simp add: seg_rows_eq)

lemma local_rows_back: "map ((+) (s * MORSEL)) (local_rows n P s) = filter P (seg_rows n s)"
  by (auto simp: local_rows_def seg_rows_base intro!: map_idI)

lemma filter_full: "length (filter P xs) = length xs \<Longrightarrow> filter P xs = xs"
  by (metis filter_id_conv length_filter_less nat_neq_iff)

lemma flag_cases:
  "flag_of n P s = SEL_NONE \<Longrightarrow> filter P (seg_rows n s) = []"
  "flag_of n P s = SEL_ALL \<Longrightarrow> filter P (seg_rows n s) = seg_rows n s"
  by (simp_all add: flag_of_def classify_def filter_full split: if_splits)

lemma kept_rows_sel:
  assumes "s < seg_count n" "n < 4294967296"
  shows "kept_rows (sel_of n P) s = filter P (seg_rows n s)"
proof (cases "flag_of n P s")
  case SEL_MIX
  have "take (sub_u32 (offset_of (slice n P) (Suc s)) (offset_of (slice n P) s))
      (drop (offset_of (slice n P) s) (concat (map (slice n P) [0..<seg_count n]))) = local_rows n P s"
    using concat_slice [OF assms(1), of "slice n P"] SEL_MIX
    unfolding offset_u32(3) [OF assms(2)] by (simp add: slice_def)
  with SEL_MIX assms show ?thesis by (simp add: kept_rows_def local_rows_back del: offset_Suc)
qed (use assms in \<open>simp_all add: kept_rows_def flag_cases\<close>)

lemma flat_offsets_sel:
  assumes "n < 4294967296"
  shows "flat_offsets (sel_of n P) = map (offset_of (\<lambda>s. filter P (seg_rows n s))) [0..<seg_count n]"
proof -
  let ?f = "\<lambda>s (fo, cum). (fo @ [cum],
         (case seg_flags (sel_of n P) ! s of SEL_NONE \<Rightarrow> cum | SEL_ALL \<Rightarrow> to_u32 (cum + length (seg_rows n s))
          | SEL_MIX \<Rightarrow> to_u32 (cum + sub_u32 (seg_offsets (sel_of n P) ! (s + 1)) (seg_offsets (sel_of n P) ! s))))"
  have "fold ?f [0..<k] ([], 0) = (map (offset_of (\<lambda>s. filter P (seg_rows n s))) [0..<k], offset_of (\<lambda>s. filter P (seg_rows n s)) k)"
    if "k \<le> seg_count n" for k
    using that
  proof (induction k)
    case (Suc k)
    note u = offset_u32(2,3) [OF assms, of P k]
    show ?case
      using Suc u by (cases "flag_of n P k") (simp_all add: flag_cases flag_mix del: offset_Suc, simp_all add: flag_cases)
  qed simp
  from this [OF order_refl] show ?thesis unfolding flat_offsets_def sel_of_fields(2,3) by simp
qed

lemma to_indices_sel:
  assumes "covers (seg_count n) w" and small: "n < 4294967296"
  shows "ray_rowsel_to_indices (True, True) junk w (sel_of n P) = Some (filter P [0..<n])"
proof -
  let ?segs = "concat (map (\<lambda>(a, b). [a..<b]) w)" and ?sl = "\<lambda>s. filter P (seg_rows n s)"
  define fo where "fo = flat_offsets (sel_of n P)"
  define g where "g = (\<lambda>seg out.
        (case seg_flags (sel_of n P) ! seg of SEL_NONE \<Rightarrow> out
         | SEL_ALL \<Rightarrow> write_at out (fo ! seg) (seg_rows (nrows (sel_of n P)) seg)
         | SEL_MIX \<Rightarrow> write_at out (fo ! seg) (map ((+) (seg * MORSEL))
                  (take (sub_u32 (seg_offsets (sel_of n P) ! (seg + 1)) (seg_offsets (sel_of n P) ! seg))
                     (drop (seg_offsets (sel_of n P) ! seg) (idx (sel_of n P)))))))"
  let ?out = "replicate (length (filter P [0..<n])) junk"
  have "rowsel_to_idx_fn (sel_of n P) fo = (\<lambda>acc (a, b). fold g [a..<b] acc)"
    unfolding rowsel_to_idx_fn_def g_def by (rule refl)
  then have "foldl (rowsel_to_idx_fn (sel_of n P) fo) ?out w = fold g ?segs ?out"
    by (simp add: foldl_ranges)
  also have "\<dots> = fold (\<lambda>s ys. write_at ys (offset_of ?sl s) (?sl s)) ?segs ?out"
  proof (rule fold_cong)
    fix seg assume "seg \<in> set ?segs"
    then have s: "seg < seg_count n" using assms(1) by (auto simp: covers_def)
    have "g seg = (\<lambda>ys. write_at ys (fo ! seg) (kept_rows (sel_of n P) seg))"
      unfolding g_def kept_rows_def by (cases "seg_flags (sel_of n P) ! seg") simp_all
    then show "g seg = (\<lambda>ys. write_at ys (offset_of ?sl seg) (?sl seg))"
      using s by (simp add: kept_rows_sel fo_def flat_offsets_sel small)
  qed simp_all
  also have "\<dots> = filter P [0..<n]"
    using write_slices_all [of ?segs "seg_count n" ?out ?sl] assms filter_rows_all [of n P]
    by (simp add: covers_def offset_of_def)
  finally show ?thesis
    using filter_rows_all [OF small, of P] by (auto simp: ray_rowsel_to_indices_def fo_def)
qed

lemma sel_of_cong:
  assumes "\<And>r. r < n \<Longrightarrow> P r \<longleftrightarrow> Q r"
  shows "sel_of n P = sel_of n Q"
proof -
  have f: "filter P (seg_rows n s) = filter Q (seg_rows n s)" for s
    by (rule filter_cong) (use assms in \<open>auto simp: seg_rows_eq\<close>)
  then have "slice n P = slice n Q" "flag_of n P = flag_of n Q"
    by (auto simp: slice_def flag_of_def local_rows_def fun_eq_iff)
  moreover have "filter P [0..<n] = filter Q [0..<n]" by (rule filter_cong) (use assms in auto)
  ultimately show ?thesis by (simp add: sel_of_def)
qed

section \<open>Refining\<close>

text \<open>A block whose first \<open>k\<close> segments hold the canonical content.\<close>

definition filled :: "nat \<Rightarrow> (nat \<Rightarrow> bool) \<Rightarrow> nat \<Rightarrow> rowsel \<Rightarrow> rowsel" where
  "filled n P k b = \<lparr>total_pass = total_pass b, nrows = nrows b, n_segs = n_segs b,
     seg_flags = map (flag_of n P) [0..<k] @ drop k (seg_flags b),
     seg_offsets = map (offset_of (slice n P)) [0..<k] @ drop k (seg_offsets b),
     idx = concat (map (slice n P) [0..<k]) @ drop (offset_of (slice n P) k) (idx b)\<rparr>"

lemma filled_0: "filled n P 0 b = b"
  by (simp add: filled_def)

lemma write_next:
  "length pre = off \<Longrightarrow> write_at (pre @ drop off out) off xs = (pre @ xs) @ drop (off + length xs) out"
  by (simp add: write_at_def add.commute)

text \<open>Storing one more segment.\<close>

lemma filled_Suc:
  assumes "k < length (seg_flags b)" "k < length (seg_offsets b)"
  shows "filled n P (Suc k) b =
    (filled n P k b)\<lparr>seg_flags := (seg_flags (filled n P k b))[k := flag_of n P k],
       seg_offsets := (seg_offsets (filled n P k b))[k := offset_of (slice n P) k],
       idx := write_at (idx (filled n P k b)) (offset_of (slice n P) k) (slice n P k)\<rparr>"
  using assms fill_prefix [of k "seg_flags b" "flag_of n P"] fill_prefix [of k "seg_offsets b" "offset_of (slice n P)"]
    write_next [of "concat (map (slice n P) [0..<k])" "offset_of (slice n P) k" "idx b" "slice n P k"]
  by (simp add: filled_def offset_of_def)

lemma filled_all:
  assumes "total_pass b = length (filter P [0..<n])" "nrows b = n" "n_segs b = seg_count n"
    "length (seg_flags b) = seg_count n" "length (seg_offsets b) = seg_count n + 1"
    "length (idx b) = offset_of (slice n P) (seg_count n)"
  shows "(filled n P (seg_count n) b)\<lparr>seg_offsets :=
      (seg_offsets (filled n P (seg_count n) b))[seg_count n := offset_of (slice n P) (seg_count n)]\<rparr> = sel_of n P"
  using assms fill_prefix [of "seg_count n" "seg_offsets b" "offset_of (slice n P)"]
  by (simp add: filled_def sel_of_def)

lemma refine_counts_sel:
  assumes "n < 4294967296"
  shows "refine_counts (sel_of n P) pred = map (count_of n (\<lambda>r. P r \<and> pred ! r \<noteq> 0)) [0..<seg_count n]"
proof -
  let ?Q = "\<lambda>r. P r \<and> pred ! r \<noteq> 0"
  let ?f = "\<lambda>s pc. if seg_flags (sel_of n P) ! s = SEL_NONE then pc
      else pc[s := length (filter (\<lambda>r. pred ! r \<noteq> 0) (kept_rows (sel_of n P) s))]"
  have cnt: "length (filter (\<lambda>r. pred ! r \<noteq> 0) (kept_rows (sel_of n P) s)) = count_of n ?Q s" if "s < seg_count n" for s
    using that assms by (simp add: kept_rows_sel filter_filter conj_commute)
  have none: "count_of n ?Q s = 0" if "flag_of n P s = SEL_NONE" for s
    using flag_cases(1) [OF that] by (auto simp: filter_empty_conv)
  have "fold ?f [0..<k] (replicate (seg_count n) 0) = map (count_of n ?Q) [0..<k] @ drop k (replicate (seg_count n) 0)"
    if "k \<le> seg_count n" for k
    using that
  proof (induction k)
    case (Suc k)
    have z: "drop k (replicate (seg_count n) (0::nat)) = 0 # drop (Suc k) (replicate (seg_count n) 0)"
      using Suc.prems by (metis Cons_nth_drop_Suc Suc_le_lessD length_replicate nth_replicate)
    show ?case
    proof (cases "flag_of n P k = SEL_NONE")
      case True
      then show ?thesis using Suc none z by simp
    next
      case False
      have "fold ?f [0..<Suc k] (replicate (seg_count n) 0) =
          (map (count_of n ?Q) [0..<k] @ drop k (replicate (seg_count n) 0))[k := count_of n ?Q k]"
        using Suc False cnt [of k] by simp
      also have "\<dots> = map (count_of n ?Q) [0..<k] @ count_of n ?Q k # drop (Suc k) (replicate (seg_count n) 0)"
        by (rule fill_prefix) (use Suc.prems in simp)
      finally show ?thesis by simp
    qed
  qed simp
  from this [OF order_refl] show ?thesis by (simp add: refine_counts_def)
qed

lemma refine_fold:
  fixes pred n P
  defines "Q \<equiv> \<lambda>r. P r \<and> pred ! r \<noteq> 0"
  assumes n: "n < 4294967296"
    and len: "length (seg_flags b) = seg_count n" "length (seg_offsets b) = seg_count n + 1"
  shows "k \<le> seg_count n \<Longrightarrow>
    fold (refine_segment (sel_of n P) pred (map (count_of n Q) [0..<seg_count n])) [0..<k] (b, 0) =
      (filled n Q k b, offset_of (slice n Q) k)"
proof (induction k)
  case (Suc k)
  have kept: "filter (\<lambda>r. pred ! r \<noteq> 0) (kept_rows (sel_of n P) k) = filter Q (seg_rows n k)"
    using Suc.prems n by (simp add: kept_rows_sel filter_filter Q_def conj_commute)
  have "refine_segment (sel_of n P) pred (map (count_of n Q) [0..<seg_count n]) k (filled n Q k b, offset_of (slice n Q) k) =
      (filled n Q (Suc k) b, offset_of (slice n Q) (Suc k))"
    using Suc.prems len mix_u32 [OF n, of Q k]
    by (simp add: refine_segment_def Let_def filled_Suc kept flag_of_def classify_def slice_def local_rows_def)
  then show ?case using Suc by simp
qed (simp add: filled_0)

lemma new_sel:
  assumes "n < 4294967296" "tot = length (filter P [0..<n])" "ic = offset_of (slice n P) (seg_count n)"
  shows "\<exists>b. ray_rowsel_new True junk n tot ic = Some b \<and> total_pass b = tot \<and> nrows b = n \<and> n_segs b = seg_count n \<and>
    length (seg_flags b) = seg_count n \<and> length (seg_offsets b) = seg_count n + 1 \<and> length (idx b) = ic"
  using slices_le_total [OF assms(1), of P] length_filter_le [of P "[0..<n]"] assms by (simp add: ray_rowsel_new_def)

lemma refine_sel:
  fixes pred n P
  defines "Q \<equiv> \<lambda>r. P r \<and> pred ! r \<noteq> 0"
  assumes "length pred = n" and small: "n < 4294967296"
  shows "ray_rowsel_refine (True, True) junk w1 w2 (Some (sel_of n P)) pred =
    (if \<forall>r<n. Q r then None else Some (sel_of n Q))"
proof -
  have tot: "length (filter Q [0..<n]) = n \<longleftrightarrow> (\<forall>r<n. Q r)"
    using sum_length_filter_compl [of Q "[0..<n]"] by (auto simp: filter_empty_conv)
  have cnt: "refine_counts (sel_of n P) pred = map (count_of n Q) [0..<seg_count n]"
    by (simp add: refine_counts_sel Q_def small)
  obtain b where b: "ray_rowsel_new True junk n (length (filter Q [0..<n])) (offset_of (slice n Q) (seg_count n)) = Some b"
    "total_pass b = length (filter Q [0..<n])" "nrows b = n" "n_segs b = seg_count n" "length (seg_flags b) = seg_count n"
    "length (seg_offsets b) = seg_count n + 1" "length (idx b) = offset_of (slice n Q) (seg_count n)"
    using new_sel [OF small refl refl, where P = Q and junk = junk] by blast
  have f: "fold (refine_segment (sel_of n P) pred (map (count_of n Q) [0..<seg_count n])) [0..<seg_count n] (b, 0) =
      (filled n Q (seg_count n) b, offset_of (slice n Q) (seg_count n))"
    unfolding Q_def by (rule refine_fold [OF small]) (use b in simp_all)
  show ?thesis
    using assms(2) b(1) filled_all [OF b(2-7)] by (simp add: ray_rowsel_refine_def cnt sum_counts_map [OF small refl] tot f)
qed

section \<open>The builder\<close>

lemma grow_u32_enough:
  "0 < cap \<Longrightarrow> cap < 4294967296 \<Longrightarrow> need \<le> 2147483648 \<Longrightarrow>
    \<exists>c. grow_u32 cap need = Some c \<and> need \<le> c \<and> c < 4294967296"
proof (induction "need - cap" arbitrary: cap rule: less_induct)
  case less
  show ?case
  proof (cases "cap < need")
    case True
    then have c: "to_u32 (cap * 2) = cap * 2" "need - cap * 2 < need - cap" "cap * 2 < 4294967296"
      using less.prems by (simp_all add: to_u32_id)
    from less.hyps [OF c(2)] less.prems c show ?thesis by (subst grow_u32.simps) (simp add: True)
  qed (use less.prems in \<open>simp add: grow_u32.simps\<close>)
qed

text \<open>A worker that owns the segments \<open>[a, a + m)\<close> and streams their bools.\<close>

definition stream :: "bytes \<Rightarrow> nat \<times> nat \<Rightarrow> builder option" where
  "stream pred = (\<lambda>(a, m). fold (\<lambda>s ob. Option.bind ob
       (\<lambda>b. rowsel_emit_segment b s (map ((!) pred) (seg_rows (length pred) (a + s)))))
     [0..<m] (Some (rowsel_builder_init m)))"

lemma morsel_local:
  fixes pred :: bytes
  shows "filter (\<lambda>i. map ((!) pred) (seg_rows n s) ! i \<noteq> 0) [0..<length (seg_rows n s)] = local_rows n (\<lambda>r. pred ! r \<noteq> 0) s"
proof -
  have *: "filter (\<lambda>i. map f [a..<c] ! i \<noteq> 0) [0..<c - a] = map (\<lambda>r. r - a) (filter (\<lambda>r. f r \<noteq> 0) [a..<c])"
    for f :: "nat \<Rightarrow> u8" and a c
  proof -
    have "[a..<c] = map ((+) a) [0..<c - a]" by (rule nth_equalityI) auto
    then have "filter (\<lambda>r. f r \<noteq> 0) [a..<c] = map ((+) a) (filter (\<lambda>i. f (a + i) \<noteq> 0) [0..<c - a])"
      by (simp add: filter_map comp_def)
    moreover have "filter (\<lambda>i. map f [a..<c] ! i \<noteq> 0) [0..<c - a] = filter (\<lambda>i. f (a + i) \<noteq> 0) [0..<c - a]"
      by (rule filter_cong) auto
    ultimately show ?thesis by (simp add: comp_def)
  qed
  show ?thesis using * [of "(!) pred" "s * MORSEL" "min (Suc s * MORSEL) n"] by (simp add: local_rows_def seg_rows_eq)
qed

lemma emit_fields:
  fixes pred n s b k
  defines "P \<equiv> \<lambda>r. pred ! r \<noteq> 0"
  assumes small: "length (b_idx b) + count_of n P s \<le> 2147483648" "b_cap b < 4294967296"
  shows "\<exists>b'. rowsel_emit_segment b k (map ((!) pred) (seg_rows n s)) = Some b' \<and>
    b_idx b' = b_idx b @ slice n P s \<and> b_flags b' = (b_flags b)[k := flag_of n P s] \<and>
    b_off b' = ((b_off b)[k := length (b_idx b)])[k + 1 := length (b_idx b @ slice n P s)] \<and>
    b_total b' = b_total b + count_of n P s \<and> b_segs b' = b_segs b \<and> b_cap b' < 4294967296"
proof -
  have len: "length (local_rows n Q s) = count_of n Q s" for Q by (simp add: local_rows_def)
  let ?need = "length (b_idx b) + count_of n P s"
  obtain cap where cap: "(if ?need > b_cap b then grow_u32 (if b_cap b \<noteq> 0 then b_cap b else 8) ?need else Some (b_cap b)) = Some cap"
    "?need \<le> cap" "cap < 4294967296"
  proof (cases "?need > b_cap b")
    case True
    have "0 < (if b_cap b \<noteq> 0 then b_cap b else 8)" "(if b_cap b \<noteq> 0 then b_cap b else 8) < 4294967296"
      using small(2) by simp_all
    from grow_u32_enough [OF this small(1)] True that show thesis by auto
  qed (use small(2) that in auto)
  have u: "to_u32 ?need = ?need" using small by (simp add: to_u32_id)
  show ?thesis
    using cap small(2)
    unfolding rowsel_emit_segment_def Let_def length_map morsel_local len
    by (auto simp: flag_of_def classify_def slice_def P_def [symmetric] u)
qed

text \<open>After \<open>k\<close> segments of the range that starts at segment \<open>a\<close>.\<close>

definition streamed :: "nat \<Rightarrow> (nat \<Rightarrow> bool) \<Rightarrow> nat \<Rightarrow> nat \<Rightarrow> nat \<Rightarrow> builder \<Rightarrow> bool" where
  "streamed n P a m k b \<longleftrightarrow>
    b_idx b = concat (map (\<lambda>s. slice n P (a + s)) [0..<k]) \<and>
    b_flags b = map (\<lambda>s. flag_of n P (a + s)) [0..<k] @ drop k (replicate m SEL_NONE) \<and>
    b_off b = map (offset_of (\<lambda>s. slice n P (a + s))) [0..<Suc k] @ drop (Suc k) (replicate (m + 1) 0) \<and>
    b_total b = offset_of (\<lambda>s. filter P (seg_rows n (a + s))) k \<and> b_segs b = m \<and> b_cap b < 4294967296"

lemma offset_shift: "offset_of f (a + m) = offset_of f a + offset_of (\<lambda>s. f (a + s)) m"
  by (induction m) simp_all

lemma streamed_step:
  fixes pred
  defines "P \<equiv> \<lambda>r. pred ! r \<noteq> 0"
  assumes st: "streamed n P a m k b" and k: "k < m" and small: "n \<le> 2147483648"
  shows "\<exists>b'. rowsel_emit_segment b k (map ((!) pred) (seg_rows n (a + k))) = Some b' \<and> streamed n P a m (Suc k) b'"
proof -
  let ?sl = "\<lambda>s. slice n P (a + s)"
  note IH = st [unfolded streamed_def]
  have off: "length (b_idx b) = offset_of ?sl k" "length (b_idx b @ ?sl k) = offset_of ?sl (Suc k)"
    using IH by (simp_all add: offset_of_def)
  have "offset_of ?sl k + count_of n P (a + k) \<le> offset_of (\<lambda>s. filter P (seg_rows n s)) (Suc (a + k))"
    using offset_shift [of "slice n P" a k] slice_offset_filter [of n P "a + k"] by simp
  then have "length (b_idx b) + count_of n P (a + k) \<le> 2147483648" "b_cap b < 4294967296"
    using filter_offset_le [of P n "Suc (a + k)"] small off(1) IH by linarith+
  from emit_fields [OF this [unfolded P_def], of k, folded P_def]
  obtain b' where b': "rowsel_emit_segment b k (map ((!) pred) (seg_rows n (a + k))) = Some b'"
    "b_idx b' = b_idx b @ ?sl k" "b_flags b' = (b_flags b)[k := flag_of n P (a + k)]"
    "b_off b' = ((b_off b)[k := length (b_idx b)])[k + 1 := length (b_idx b @ ?sl k)]"
    "b_total b' = b_total b + count_of n P (a + k)" "b_segs b' = b_segs b" "b_cap b' < 4294967296" by blast
  have same: "(map (offset_of ?sl) [0..<Suc k] @ xs)[k := offset_of ?sl k] = map (offset_of ?sl) [0..<Suc k] @ xs" for xs
    by (simp add: list_update_append)
  have "b_off b' = (map (offset_of ?sl) [0..<Suc k] @ drop (Suc k) (replicate (m + 1) 0))[Suc k := offset_of ?sl (Suc k)]"
    using b'(4) IH same unfolding off by (simp del: upt_Suc replicate_Suc offset_Suc)
  also have "\<dots> = map (offset_of ?sl) [0..<Suc k] @ offset_of ?sl (Suc k) # drop (Suc (Suc k)) (replicate (m + 1) 0)"
    by (rule fill_prefix) (use k in simp)
  finally have o: "b_off b' = map (offset_of ?sl) [0..<Suc (Suc k)] @ drop (Suc (Suc k)) (replicate (m + 1) 0)" by simp
  have f: "(map (\<lambda>s. flag_of n P (a + s)) [0..<k] @ drop k (replicate m SEL_NONE))[k := flag_of n P (a + k)] =
      map (\<lambda>s. flag_of n P (a + s)) [0..<k] @ flag_of n P (a + k) # drop (Suc k) (replicate m SEL_NONE)"
    by (rule fill_prefix) (use k in simp)
  have "streamed n P a m (Suc k) b'"
    using b' o f IH unfolding streamed_def by simp
  with b'(1) show ?thesis by blast
qed

lemma stream_fields:
  fixes pred
  defines "P \<equiv> \<lambda>r. pred ! r \<noteq> 0" and "n \<equiv> length pred"
  assumes small: "n \<le> 2147483648" and m: "m < 4294967296"
  shows "\<exists>b. stream pred (a, m) = Some b \<and> streamed n P a m m b"
proof -
  let ?f = "\<lambda>s ob. Option.bind ob (\<lambda>b. rowsel_emit_segment b s (map ((!) pred) (seg_rows n (a + s))))"
  have "\<exists>b. fold ?f [0..<k] (Some (rowsel_builder_init m)) = Some b \<and> streamed n P a m k b" if "k \<le> m" for k
    using that
  proof (induction k)
    case 0
    then show ?case by (simp add: rowsel_builder_init_def streamed_def to_u32_def)
  next
    case (Suc k)
    then obtain b where "fold ?f [0..<k] (Some (rowsel_builder_init m)) = Some b" "streamed n P a m k b" by auto
    with streamed_step [of n pred a m k b] small Suc.prems show ?case by (simp add: P_def)
  qed
  from this [OF order_refl] show ?thesis by (simp add: stream_def n_def)
qed

text \<open>What a finished worker holds.\<close>

lemma streamed_fields:
  assumes "streamed n P a m m b"
  shows "b_idx b = concat (map (\<lambda>s. slice n P (a + s)) [0..<m])" "b_flags b = map (\<lambda>s. flag_of n P (a + s)) [0..<m]"
    "b_off b = map (offset_of (\<lambda>s. slice n P (a + s))) [0..<Suc m]"
    "b_total b = offset_of (\<lambda>s. filter P (seg_rows n (a + s))) m" "b_segs b = m"
  using assms by (simp_all add: streamed_def)

fun parts :: "nat \<Rightarrow> nat list \<Rightarrow> (nat \<times> nat) list" where
  "parts a [] = []"
| "parts a (m # ms) = (a, m) # parts (a + m) ms"

text \<open>The workers' builders, one for each part of the segments.\<close>

fun workers :: "nat \<Rightarrow> (nat \<Rightarrow> bool) \<Rightarrow> nat \<Rightarrow> nat list \<Rightarrow> builder list \<Rightarrow> bool" where
  "workers n P a [] bs \<longleftrightarrow> bs = []"
| "workers n P a (m # ms) bs \<longleftrightarrow> (\<exists>b bs'. bs = b # bs' \<and> streamed n P a m m b \<and> workers n P (a + m) ms bs')"

lemma stream_workers:
  fixes pred
  assumes "length pred \<le> 2147483648" "\<forall>m\<in>set ms. m < 4294967296"
  shows "\<exists>bs. those (map (stream pred) (parts a ms)) = Some bs \<and>
    workers (length pred) (\<lambda>r. pred ! r \<noteq> 0) a ms bs"
  using assms(2)
proof (induction ms arbitrary: a)
  case (Cons m ms)
  obtain b where "stream pred (a, m) = Some b" "streamed (length pred) (\<lambda>r. pred ! r \<noteq> 0) a m m b"
    using stream_fields [OF assms(1), of m a] Cons.prems by auto
  moreover obtain bs where "those (map (stream pred) (parts (a + m) ms)) = Some bs"
    "workers (length pred) (\<lambda>r. pred ! r \<noteq> 0) (a + m) ms bs"
    using Cons.IH [of "a + m"] Cons.prems by auto
  ultimately show ?case by auto
qed simp

lemma worker_totals:
  "workers n P a ms bs \<Longrightarrow> sum_list (map b_total bs) + offset_of (\<lambda>s. filter P (seg_rows n s)) a =
      offset_of (\<lambda>s. filter P (seg_rows n s)) (a + sum_list ms) \<and>
    sum_list (map (\<lambda>b. length (b_idx b)) bs) + offset_of (slice n P) a = offset_of (slice n P) (a + sum_list ms)"
proof (induction ms arbitrary: a bs)
  case (Cons m ms)
  then obtain b bs' where b: "bs = b # bs'" "streamed n P a m m b" "workers n P (a + m) ms bs'" by auto
  have "length (b_idx b) = offset_of (\<lambda>s. slice n P (a + s)) m"
    by (simp add: streamed_fields(1) [OF b(2)] offset_of_def)
  then show ?case
    using Cons.IH [OF b(3)] offset_shift [of "\<lambda>s. filter P (seg_rows n s)" a m] offset_shift [of "slice n P" a m]
    by (simp add: b(1) streamed_fields(4) [OF b(2)] add.assoc)
qed simp

lemma finish_worker:
  assumes "length (seg_flags b) = seg_count n" "length (seg_offsets b) = seg_count n + 1" "a + m \<le> seg_count n" "k \<le> m"
    and small: "n < 4294967296" and B: "streamed n P a m m B"
  shows "fold (finish_segment B) [0..<k] (filled n P a b, a, offset_of (slice n P) a) =
    (filled n P (a + k) b, a + k, offset_of (slice n P) (a + k))"
  using assms(4)
proof (induction k)
  case (Suc k)
  let ?sl = "\<lambda>s. slice n P (a + s)"
  note st = streamed_fields [OF B]
  have fl: "b_flags B ! k = flag_of n P (a + k)" using Suc.prems by (simp add: st)
  have o: "b_off B ! (k + 1) = offset_of ?sl (Suc k)" "b_off B ! k = offset_of ?sl k"
    using Suc.prems by (simp_all add: st del: upt_Suc)
  have "offset_of ?sl (Suc k) < 4294967296"
    using offset_shift [of "slice n P" a "Suc k"] slice_offset_le [of n P "a + Suc k"] small by simp
  then have cnt: "sub_u32 (b_off B ! (k + 1)) (b_off B ! k) = length (slice n P (a + k))"
    unfolding o by (subst sub_u32_id) simp_all
  have cut: "take (length (slice n P (a + k))) (drop (b_off B ! k) (b_idx B)) = slice n P (a + k)"
    using concat_slice [of k m ?sl] Suc.prems unfolding o(2) by (simp add: st)
  have nonmix: "flag_of n P (a + k) \<noteq> SEL_MIX \<Longrightarrow> slice n P (a + k) = []" by (simp add: slice_def)
  have g: "to_u32 (a + k + 1) = Suc (a + k)"
    using assms(3) Suc.prems seg_count_less [of n] by (simp add: to_u32_id)
  have "finish_segment B k (filled n P (a + k) b, a + k, offset_of (slice n P) (a + k)) =
      (filled n P (Suc (a + k)) b, Suc (a + k), offset_of (slice n P) (Suc (a + k)))"
    unfolding finish_segment_def Let_def fl prod.case cnt cut g offset_u32(1) [OF small]
    using Suc.prems assms(1-3) nonmix by (simp add: filled_Suc)
  then show ?case using Suc by simp
qed simp

lemma finish_workers:
  assumes "length (seg_flags b) = seg_count n" "length (seg_offsets b) = seg_count n + 1" "a + sum_list ms \<le> seg_count n"
    and small: "n < 4294967296" and Bs: "workers n P a ms Bs"
  shows "fold (\<lambda>B st. fold (finish_segment B) [0..<b_segs B] st) Bs (filled n P a b, a, offset_of (slice n P) a) =
    (filled n P (a + sum_list ms) b, a + sum_list ms, offset_of (slice n P) (a + sum_list ms))"
  using assms(3) Bs
proof (induction ms arbitrary: a Bs)
  case (Cons m ms)
  then obtain B Bs' where B: "Bs = B # Bs'" "streamed n P a m m B" "workers n P (a + m) ms Bs'" by auto
  have "fold (finish_segment B) [0..<m] (filled n P a b, a, offset_of (slice n P) a) =
    (filled n P (a + m) b, a + m, offset_of (slice n P) (a + m))"
    by (rule finish_worker [OF _ _ _ _ small B(2)]) (use assms(1,2) Cons.prems in simp_all)
  with Cons.IH [OF _ B(3)] Cons.prems show ?case by (simp add: B(1) streamed_fields(5) [OF B(2)] add.assoc)
qed simp

lemma finish_sel:
  assumes small: "n < 4294967296" and Bs: "workers n P 0 ms Bs" and ms: "sum_list ms = seg_count n"
  shows "rowsel_builder_finish True junk Bs n = Some (sel_of n P)"
proof -
  have tot: "sum_list (map b_total Bs) = length (filter P [0..<n])"
    using worker_totals [OF Bs] ms filter_rows_all [OF small, of P] by (simp add: offset_of_def)
  have ic: "sum_list (map (\<lambda>b. length (b_idx b)) Bs) = offset_of (slice n P) (seg_count n)"
    using worker_totals [OF Bs] ms by simp
  obtain b where b: "ray_rowsel_new True junk n (length (filter P [0..<n])) (offset_of (slice n P) (seg_count n)) = Some b"
    "total_pass b = length (filter P [0..<n])" "nrows b = n" "n_segs b = seg_count n" "length (seg_flags b) = seg_count n"
    "length (seg_offsets b) = seg_count n + 1" "length (idx b) = offset_of (slice n P) (seg_count n)"
    using new_sel [OF small refl refl, where P = P and junk = junk] by blast
  have "fold (\<lambda>B st. fold (finish_segment B) [0..<b_segs B] st) Bs (b, 0, 0) =
      (filled n P (seg_count n) b, seg_count n, offset_of (slice n P) (seg_count n))"
    using finish_workers [OF b(5,6) _ small Bs] ms by (simp add: filled_0)
  then show ?thesis
    using b unfolding rowsel_builder_finish_def tot ic b(1) option.case Let_def
    by (simp add: filled_def sel_of_def)
qed

section \<open>Properties\<close>

text \<open>
  C13. For a boolean vector of fewer than \<open>2\<^sup>3\<^sup>2\<close> rows (the offsets are 32-bit) and every schedule of its
  parallel passes, \<open>ray_rowsel_from_pred\<close> answers the null pointer exactly when all rows pass, and otherwise a
  block that flattens, again for every schedule, to the passing rows in ascending order.
\<close>

theorem rowsel_from_pred_rows:
  assumes "pred \<noteq> []" "length pred < 2 ^ 32"
    "covers (seg_count (length pred)) w1" "covers (seg_count (length pred)) w2" "covers (seg_count (length pred)) w3"
  shows "(case ray_rowsel_from_pred (True, True) junk w1 w2 pred of
            None \<Rightarrow> \<forall>r<length pred. pred ! r \<noteq> 0
          | Some sel \<Rightarrow> (\<exists>r<length pred. pred ! r = 0) \<and>
              ray_rowsel_to_indices (True, True) junk w3 sel = Some (filter (\<lambda>r. pred ! r \<noteq> 0) [0..<length pred]))"
  using from_pred_sel [OF assms(3,4,1), of junk] to_indices_sel [OF assms(5), of junk "\<lambda>r. pred ! r \<noteq> 0"] assms(2)
  by auto

theorem rowsel_from_pred_rows_witness:
  "case ray_rowsel_from_pred (True, True) 7 [(0, 1)] [(0, 1)] [1, 0, 1] of
     None \<Rightarrow> \<forall>r<length [1, 0, 1 :: u8]. [1, 0, 1 :: u8] ! r \<noteq> 0
   | Some sel \<Rightarrow> (\<exists>r<length [1, 0, 1 :: u8]. [1, 0, 1 :: u8] ! r = 0) \<and>
       ray_rowsel_to_indices (True, True) 7 [(0, 1)] sel = Some (filter (\<lambda>r. [1, 0, 1 :: u8] ! r \<noteq> 0) [0..<length [1, 0, 1 :: u8]])"
proof (rule rowsel_from_pred_rows)
  have c: "seg_count (length [1, 0, 1 :: u8]) = 1" by (simp add: seg_count_def MORSEL_def to_u32_def)
  show "covers (seg_count (length [1, 0, 1 :: u8])) [(0, 1)]" "covers (seg_count (length [1, 0, 1 :: u8])) [(0, 1)]"
    "covers (seg_count (length [1, 0, 1 :: u8])) [(0, 1)]"
    unfolding c by (auto simp: covers_def)
qed simp_all

text \<open>
  C14. Streaming the segments of a predicate vector of at most \<open>2\<^sup>3\<^sup>1\<close> rows through builders, however the
  segments are divided among the workers, succeeds, and finishing the builders as \<open>pred_sel_builders_finish\<close>
  does gives the very block \<open>ray_rowsel_from_pred\<close> builds for the same vector, flag for flag, offset for offset
  and index for index; when every row passes both answer no selection, and the flag \<open>all_pass\<close> is set.
\<close>

theorem rowsel_builder_equals_from_pred:
  assumes "pred \<noteq> []" "length pred \<le> 2 ^ 31" "sum_list ms = seg_count (length pred)"
    "covers (seg_count (length pred)) w1" "covers (seg_count (length pred)) w2"
  shows "\<exists>bs. those (map (stream pred) (parts 0 ms)) = Some bs \<and>
    pred_sel_builders_finish True junk' bs (length pred) =
      (ray_rowsel_from_pred (True, True) junk w1 w2 pred, \<forall>r<length pred. pred ! r \<noteq> 0)"
proof -
  let ?n = "length pred" and ?P = "\<lambda>r. pred ! r \<noteq> 0"
  have m: "\<forall>m\<in>set ms. m < 4294967296"
    using member_le_sum_list [of _ ms] seg_count_less [of ?n] assms(3) by fastforce
  obtain bs where bs: "those (map (stream pred) (parts 0 ms)) = Some bs" "workers ?n ?P 0 ms bs"
    using stream_workers [of pred ms 0] assms(2) m by auto
  have n: "?n < 4294967296" using assms(2) by simp
  have "length (filter ?P [0..<?n]) = ?n \<longleftrightarrow> (\<forall>r<?n. ?P r)"
    using sum_length_filter_compl [of ?P "[0..<?n]"] by (auto simp: filter_empty_conv)
  then have "pred_sel_builders_finish True junk' bs ?n =
      (ray_rowsel_from_pred (True, True) junk w1 w2 pred, \<forall>r<?n. ?P r)"
    using finish_sel [OF n bs(2) assms(3), of junk'] from_pred_sel [OF assms(4,5,1) n, of junk]
    by (auto simp: pred_sel_builders_finish_def)
  with bs(1) show ?thesis by blast
qed

theorem rowsel_builder_equals_from_pred_witness:
  "\<exists>bs. those (map (stream [1, 0]) (parts 0 [0, 1])) = Some bs \<and>
    pred_sel_builders_finish True 3 bs (length [1, 0 :: u8]) =
      (ray_rowsel_from_pred (True, True) 7 [(0, 1)] [(0, 1)] [1, 0], \<forall>r<length [1, 0 :: u8]. [1, 0 :: u8] ! r \<noteq> 0)"
proof (rule rowsel_builder_equals_from_pred)
  have c: "seg_count (length [1, 0 :: u8]) = 1" by (simp add: seg_count_def MORSEL_def to_u32_def)
  show "sum_list [0, 1] = seg_count (length [1, 0 :: u8])" using c by simp
  show "covers (seg_count (length [1, 0 :: u8])) [(0, 1)]" "covers (seg_count (length [1, 0 :: u8])) [(0, 1)]"
    unfolding c by (auto simp: covers_def)
qed simp_all

text \<open>
  C15. \<open>ray_rowsel_refine\<close> is conjunction: refining the selection of one predicate with another, on vectors of
  fewer than \<open>2\<^sup>3\<^sup>2\<close> rows, gives the block of the rows that pass both, the very block
  \<open>ray_rowsel_from_pred\<close> would build for the conjunction, also where one of the predicates keeps every row.
\<close>

theorem rowsel_refine_conjunction:
  assumes "p \<noteq> []" "length q = length p" "length p < 2 ^ 32"
    "covers (seg_count (length p)) w1" "covers (seg_count (length p)) w2"
  shows "ray_rowsel_refine (True, True) junk w1 w2 (ray_rowsel_from_pred (True, True) junk w1 w2 p) q =
    ray_rowsel_from_pred (True, True) junk w1 w2 (map2 (\<lambda>a b. if a \<noteq> 0 \<and> b \<noteq> 0 then 1 else 0) p q)"
proof -
  let ?pq = "map2 (\<lambda>a b. if a \<noteq> 0 \<and> b \<noteq> 0 then 1 else (0 :: u8)) p q" and ?n = "length p"
  let ?P = "\<lambda>r. p ! r \<noteq> 0" and ?Q = "\<lambda>r. p ! r \<noteq> 0 \<and> q ! r \<noteq> 0"
  have n: "?n < 4294967296" "length ?pq = ?n" "?pq \<noteq> []" "q \<noteq> []" using assms(1-3) by auto
  have nz: "?pq ! r \<noteq> 0 \<longleftrightarrow> ?Q r" if "r < ?n" for r using that assms(2) by simp
  have eq: "sel_of ?n (\<lambda>r. ?pq ! r \<noteq> 0) = sel_of ?n ?Q" by (rule sel_of_cong) (use nz in blast)
  have pq: "ray_rowsel_from_pred (True, True) junk w1 w2 ?pq = (if \<forall>r<?n. ?Q r then None else Some (sel_of ?n ?Q))"
    using from_pred_sel [of ?pq w1 w2 junk] assms(4,5) n nz eq by auto
  have p: "ray_rowsel_from_pred (True, True) junk w1 w2 p = (if \<forall>r<?n. ?P r then None else Some (sel_of ?n ?P))"
    using from_pred_sel [OF assms(4,5,1) n(1), of junk] by simp
  show ?thesis
  proof (cases "\<forall>r<?n. ?P r")
    case True
    have "sel_of ?n (\<lambda>r. q ! r \<noteq> 0) = sel_of ?n ?Q" by (rule sel_of_cong) (use True in blast)
    then have "ray_rowsel_from_pred (True, True) junk w1 w2 q = (if \<forall>r<?n. ?Q r then None else Some (sel_of ?n ?Q))"
      using from_pred_sel [of q w1 w2 junk] assms(2,4,5) n True by auto
    then show ?thesis using True p pq by (simp add: ray_rowsel_refine_def)
  next
    case False
    then show ?thesis using p pq refine_sel [OF assms(2) n(1), of junk w1 w2 ?P] by auto
  qed
qed

theorem rowsel_refine_conjunction_witness:
  "ray_rowsel_refine (True, True) 7 [(0, 1)] [(0, 1)] (ray_rowsel_from_pred (True, True) 7 [(0, 1)] [(0, 1)] [1, 0]) [1, 1] =
    ray_rowsel_from_pred (True, True) 7 [(0, 1)] [(0, 1)] (map2 (\<lambda>a b. if a \<noteq> 0 \<and> b \<noteq> 0 then 1 else 0) [1, 0 :: u8] [1, 1 :: u8])"
proof (rule rowsel_refine_conjunction)
  have c: "seg_count (length [1, 0 :: u8]) = 1" by (simp add: seg_count_def MORSEL_def to_u32_def)
  show "covers (seg_count (length [1, 0 :: u8])) [(0, 1)]" "covers (seg_count (length [1, 0 :: u8])) [(0, 1)]"
    unfolding c by (auto simp: covers_def)
qed simp_all

end
