(* ===== verification/WireLz.thy ===== *)
theory WireLz
  imports Prelude
begin

text \<open>
  The LZ compression of IPC frames, \<^verbatim>\<open>q_wire_compress\<close> and \<^verbatim>\<open>q_wire_uncompress_payload\<close> of
  \<^verbatim>\<open>src/qlang/net/q_wire.c\<close>. An output buffer is the list of the bytes written so far, so that \<open>z[d++] = x\<close>
  appends and the back-patched flag byte is a list update; the hash tables are functions from bytes to
  positions, 0 for an empty entry.

  Shown: what the compressor produces the decompressor turns back into the frame's data, for either byte
  order; the compressor stays inside its buffer of half the frame; the decompressor never reads outside what
  it has written, whatever the input, and always answers.
\<close>

section \<open>Compressing\<close>

abbreviation Q_WIRE_MSG_MAX :: nat where "Q_WIRE_MSG_MAX \<equiv> 2147483647"

record lzc =
  c_i :: u8
  c_f :: u8
  c_c :: nat
  c_z :: bytes
  c_a :: "u8 \<Rightarrow> nat"
  c_h0 :: u8
  c_h :: u8
  c_s0 :: nat
  c_s :: nat

definition le32 :: "nat \<Rightarrow> bytes" where
  "le32 v = map (\<lambda>k. of_nat (v div 256 ^ k)) [0..<4]"

definition put32 :: "bool \<Rightarrow> nat \<Rightarrow> bytes" where
  "put32 be v = (if be then rev (le32 v) else le32 v)"

text \<open>The start of a group of eight tokens: the finished flag byte is stored and a new one reserved.\<close>

definition lz_flag :: "lzc \<Rightarrow> lzc" where
  "lz_flag st = st\<lparr>c_i := 1, c_z := (c_z st)[c_c st := c_f st] @ [0], c_c := length (c_z st), c_f := 0\<rparr>"

text \<open>The loop \<open>while (y[p] == y[s] && ++s < q) ++p\<close>: where the match ends.\<close>

function match_end :: "bytes \<Rightarrow> nat \<Rightarrow> nat \<Rightarrow> nat \<Rightarrow> nat" where
  "match_end y p s q =
    (if y ! p = y ! s then (if s + 1 < q then match_end y (p + 1) (s + 1) q else s + 1) else s)"
  by pat_completeness auto
termination by (relation "measure (\<lambda>(y, p, s, q). q - s)") auto

declare match_end.simps [simp del]

definition lz_step :: "bytes \<Rightarrow> lzc \<Rightarrow> lzc" where
  "lz_step y st =
    (let t = length y;
         s = c_s st;
         tail = (s > t - 3);
         h = (if tail then c_h st else y ! s XOR y ! (s + 1));
         p = c_a st h;
         g = (tail \<or> p = 0 \<or> y ! s XOR y ! p \<noteq> 0);
         a = (if 0 < c_s0 st then (c_a st)(c_h0 st := c_s0 st) else c_a st)
     in (if g
         then st\<lparr>c_h := h, c_a := a, c_h0 := h, c_s0 := s, c_z := c_z st @ [y ! s], c_s := s + 1\<rparr>
         else
           (let r = s + 2;
                q = (if r + 255 < t then r + 255 else t);
                s' = match_end y (p + 2) r q
            in st\<lparr>c_h := h, c_a := a(h := s), c_s0 := 0, c_f := c_f st OR c_i st,
                  c_z := c_z st @ [h, of_nat (s' - r)], c_s := s'\<rparr>))
        \<lparr>c_i := c_i st * 2\<rparr>)"

lemma match_end_ge: "s \<le> match_end y p s q"
proof (induction y p s q rule: match_end.induct)
  case (1 y p s q)
  then show ?case by (subst match_end.simps) auto
qed

lemma lz_step_advances: "c_s st < c_s (lz_step y st)"
proof -
  have "c_s st < match_end y p (c_s st + 2) q" for p q using match_end_ge [of "c_s st + 2" y p q] by linarith
  then show ?thesis by (simp add: lz_step_def Let_def)
qed

text \<open>The main loop; \<open>None\<close> is giving up because the output is not under half the frame.\<close>

function lz_loop :: "bytes \<Rightarrow> nat \<Rightarrow> lzc \<Rightarrow> lzc option" where
  "lz_loop y e st =
    (if c_s st < length y
     then (if c_i st = 0
           then (if length (c_z st) > e - 17 then None else lz_loop y e (lz_step y (lz_flag st)))
           else lz_loop y e (lz_step y st))
     else Some st)"
  by pat_completeness auto
termination
proof (relation "measure (\<lambda>(y, e, st). length y - c_s st)")
  fix y :: bytes and e :: nat and st :: lzc
  assume "c_s st < length y"
  then show "((y, e, lz_step y st), y, e, st) \<in> measure (\<lambda>(y, e, st). length y - c_s st)"
    using lz_step_advances [of st y] by auto
  show "((y, e, lz_step y (lz_flag st)), y, e, st) \<in> measure (\<lambda>(y, e, st). length y - c_s st)"
    using lz_step_advances [of "lz_flag st" y] \<open>c_s st < length y\<close> by (auto simp: lz_flag_def)
qed simp

declare lz_loop.simps [simp del]

definition lz_init :: "bytes \<Rightarrow> lzc" where
  "lz_init y = \<lparr>c_i = 0, c_f = 0, c_c = 12,
     c_z = [y ! 0, y ! 1, 1, y ! 3, 0, 0, 0, 0] @ put32 (y ! 0 = 0) (length y),
     c_a = (\<lambda>_. 0), c_h0 = 0, c_h = 0, c_s0 = 0, c_s = 8\<rparr>"

definition q_wire_compress :: "bool \<Rightarrow> qtext \<Rightarrow> bytes qres" where
  "q_wire_compress mem frame =
    (case frame of
       QByteVec y \<Rightarrow>
         if length y \<le> 8 + 2000 then Inr y
         else if \<not> mem then Inl QE_WSFULL
         else (case lz_loop y (length y div 2) (lz_init y) of
                 None \<Rightarrow> Inr y
               | Some st \<Rightarrow>
                   (let z = (c_z st)[c_c st := c_f st]
                    in Inr (take 4 z @ put32 (y ! 0 = 0) (length z) @ drop 8 z)))
     | _ \<Rightarrow> Inl QE_TYPE)"

section \<open>Decompressing\<close>

record lzd =
  d_d :: nat
  d_f :: u8
  d_i :: u32
  d_dst :: bytes
  d_p :: nat
  d_aa :: "u8 \<Rightarrow> nat"

text \<open>The result of a stretch of decoding: corrupt input, a read outside the written bytes, or a value.\<close>

datatype 'a lzres = LzCorrupt | LzOob | LzOk 'a

text \<open>\<open>dst[s + m] = dst[r + m]\<close> for \<open>m < n\<close>, one byte at a time.\<close>

fun copy_run :: "bytes \<Rightarrow> nat \<Rightarrow> nat \<Rightarrow> bytes lzres" where
  "copy_run dst r 0 = LzOk dst"
| "copy_run dst r (Suc n) = (if r < length dst then copy_run (dst @ [dst ! r]) (r + 1) n else LzOob)"

text \<open>\<open>while (p < s - 1) { aa[dst[p] ^ dst[p + 1]] = p; p++; }\<close> with \<open>s\<close> bytes written.\<close>

definition enter :: "bytes \<Rightarrow> nat \<Rightarrow> (u8 \<Rightarrow> nat) \<Rightarrow> u8 \<Rightarrow> nat" where
  "enter dst p aa = fold (\<lambda>p aa. aa(dst ! p XOR dst ! (p + 1) := p)) [p..<length dst - 1] aa"

definition un_step :: "bytes \<Rightarrow> nat \<Rightarrow> lzd \<Rightarrow> lzd lzres" where
  "un_step pl usz st =
    (let next = (\<lambda>st. LzOk (st\<lparr>d_i := (if d_i st * 2 = 256 then 0 else d_i st * 2)\<rparr>));
         d = d_d st
     in if ucast (d_f st) AND d_i st \<noteq> 0
        then (if d \<ge> length pl \<or> length (d_dst st) + 2 > usz then LzCorrupt
              else (let r = d_aa st (pl ! d)
                    in case copy_run (d_dst st) r 2 of
                         LzOk dst \<Rightarrow>
                           if d + 1 \<ge> length pl then LzCorrupt
                           else (let n = unat (pl ! (d + 1))
                                 in if length dst + n > usz then LzCorrupt
                                    else (case copy_run dst (r + 2) n of
                                            LzOk dst' \<Rightarrow>
                                              next (st\<lparr>d_d := d + 2, d_dst := dst', d_p := length dst',
                                                       d_aa := enter dst (d_p st) (d_aa st)\<rparr>)
                                          | LzCorrupt \<Rightarrow> LzCorrupt | LzOob \<Rightarrow> LzOob))
                       | LzCorrupt \<Rightarrow> LzCorrupt | LzOob \<Rightarrow> LzOob))
        else (if d \<ge> length pl then LzCorrupt
              else (let dst = d_dst st @ [pl ! d]
                    in next (st\<lparr>d_d := d + 1, d_dst := dst, d_p := max (d_p st) (length dst - 1),
                                d_aa := enter dst (d_p st) (d_aa st)\<rparr>))))"

lemma copy_run_length: "copy_run dst r n = LzOk dst' \<Longrightarrow> length dst' = length dst + n"
  by (induction dst r n rule: copy_run.induct) (auto split: if_splits)

lemma un_step_advances: "un_step pl usz st = LzOk st' \<Longrightarrow> length (d_dst st) < length (d_dst st')"
  by (auto simp: un_step_def Let_def split: if_splits lzres.splits dest!: copy_run_length)

text \<open>The main loop: a flag byte whenever \<open>i\<close> is 0, then one token.\<close>

function un_loop :: "bytes \<Rightarrow> nat \<Rightarrow> lzd \<Rightarrow> lzd lzres" where
  "un_loop pl usz st =
    (if length (d_dst st) < usz
     then (if d_i st = 0 \<and> d_d st \<ge> length pl then LzCorrupt
           else (let st = (if d_i st = 0 then st\<lparr>d_f := pl ! d_d st, d_d := d_d st + 1, d_i := 1\<rparr> else st)
                 in case un_step pl usz st of LzOk st' \<Rightarrow> un_loop pl usz st' | LzCorrupt \<Rightarrow> LzCorrupt | LzOob \<Rightarrow> LzOob))
     else LzOk st)"
  by pat_completeness auto
termination
proof (relation "measure (\<lambda>(pl, usz, st). usz - length (d_dst st))")
  fix pl :: bytes and usz :: nat and st v st' :: lzd
  assume "length (d_dst st) < usz" "v = (if d_i st = 0 then st\<lparr>d_f := pl ! d_d st, d_d := d_d st + 1, d_i := 1\<rparr> else st)"
    "un_step pl usz v = LzOk st'"
  then show "((pl, usz, st'), pl, usz, st) \<in> measure (\<lambda>(pl, usz, st). usz - length (d_dst st))"
    using un_step_advances [of pl usz v st'] by (auto split: if_splits)
qed simp

declare un_loop.simps [simp del]

definition get32 :: "bool \<Rightarrow> bytes \<Rightarrow> nat" where
  "get32 be b =
    (let w = (\<lambda>k. unat (b ! k))
     in if be then w 0 * 2 ^ 24 + w 1 * 2 ^ 16 + w 2 * 2 ^ 8 + w 3
        else w 3 * 2 ^ 24 + w 2 * 2 ^ 16 + w 1 * 2 ^ 8 + w 0)"

definition un_init :: lzd where
  "un_init = \<lparr>d_d = 4, d_f = 0, d_i = 0, d_dst = replicate 8 0, d_p = 8, d_aa = (\<lambda>_. 0)\<rparr>"

text \<open>\<open>None\<close> inside \<open>Inr\<close> cannot happen; it stands for a read outside the buffer.\<close>

definition q_wire_uncompress_payload :: "bool \<Rightarrow> bytes \<Rightarrow> bool \<Rightarrow> bytes option qres" where
  "q_wire_uncompress_payload mem pl frame_be =
    (let plen = length pl
     in if plen < 6 then Inl QE_DOMAIN
        else (let usz = get32 frame_be pl
              in if usz < 9 \<or> usz > Q_WIRE_MSG_MAX then Inl QE_DOMAIN
                 else if usz - 8 > ((plen - 4) div 2) * 257 then Inl QE_DOMAIN
                 else if \<not> mem then Inl QE_WSFULL
                 else (case un_loop pl usz un_init of
                         LzCorrupt \<Rightarrow> Inl QE_DOMAIN
                       | LzOob \<Rightarrow> Inr None
                       | LzOk st \<Rightarrow> if d_d st \<noteq> plen then Inl QE_DOMAIN else Inr (Some (drop 8 (d_dst st))))))"

section \<open>Token streams\<close>

text \<open>What the compressor emits, seen as tokens: a literal, or a hash and a run length.\<close>

datatype tok = LzLit u8 | LzMatch u8 u8

fun tok_bytes :: "tok \<Rightarrow> bytes" where
  "tok_bytes (LzLit x) = [x]"
| "tok_bytes (LzMatch h n) = [h, n]"

fun is_match :: "tok \<Rightarrow> bool" where
  "is_match (LzLit x) = False"
| "is_match (LzMatch h n) = True"

fun flags_from :: "nat \<Rightarrow> tok list \<Rightarrow> u8" where
  "flags_from k [] = 0"
| "flags_from k (t # ts) = (if is_match t then push_bit k 1 else 0) OR flags_from (Suc k) ts"

abbreviation body :: "tok list \<Rightarrow> bytes" where
  "body ts \<equiv> concat (map tok_bytes ts)"

function stream_of :: "tok list \<Rightarrow> bytes" where
  "stream_of ts = (if ts = [] then [] else flags_from 0 (take 8 ts) # body (take 8 ts) @ stream_of (drop 8 ts))"
  by pat_completeness auto
termination by (relation "measure length") auto

declare stream_of.simps [simp del]

text \<open>Decoding tokens, without the framing.\<close>

fun copied :: "bytes \<Rightarrow> nat \<Rightarrow> nat \<Rightarrow> bytes" where
  "copied dst r 0 = dst"
| "copied dst r (Suc n) = copied (dst @ [dst ! r]) (r + 1) n"

type_synonym adec = "bytes \<times> nat \<times> (u8 \<Rightarrow> nat)"

fun astep :: "tok \<Rightarrow> adec \<Rightarrow> adec" where
  "astep (LzLit x) (dst, p, aa) =
    (let d = dst @ [x] in (d, max p (length d - 1), enter d p aa))"
| "astep (LzMatch h n) (dst, p, aa) =
    (let d = copied dst (aa h) 2; d' = copied d (aa h + 2) (unat n) in (d', length d', enter d p aa))"

lemma stream_of_nil [simp]: "stream_of [] = []"
  by (simp add: stream_of.simps)

lemma stream_of_append:
  "length F mod 8 = 0 \<Longrightarrow> stream_of (F @ P) = stream_of F @ stream_of P"
proof (induction F rule: stream_of.induct)
  case (1 F)
  show ?case
  proof (cases "F = []")
    case False
    then have "8 \<le> length F" using 1(2) by (metis length_greater_0_conv mod_less not_le neq0_conv)
    moreover have "length (drop 8 F) mod 8 = 0" using 1(2) \<open>8 \<le> length F\<close> by (simp add: le_mod_geq)
    ultimately show ?thesis using 1(1) False stream_of.simps [of "F @ P"] stream_of.simps [of F] by simp
  qed simp
qed

lemma stream_of_group: "P \<noteq> [] \<Longrightarrow> length P \<le> 8 \<Longrightarrow> stream_of P = flags_from 0 P # body P"
  by (simp add: stream_of.simps [of P])

lemma flags_snoc:
  "flags_from k (ts @ [t]) = flags_from k ts OR (if is_match t then push_bit (k + length ts) 1 else 0)"
  by (induction ts arbitrary: k) (auto simp: or.assoc)

lemma bit_flags:
  "bit (flags_from k ts) j \<longleftrightarrow> k \<le> j \<and> j < k + length ts \<and> j < 8 \<and> is_match (ts ! (j - k))"
proof (induction ts arbitrary: k)
  case (Cons t ts)
  show ?case
  proof (cases "j = k")
    case True
    then show ?thesis using Cons [of "Suc k"] by (auto simp: bit_or_iff bit_exp_iff)
  next
    case False
    then have "ts ! (j - Suc k) = (t # ts) ! (j - k)" if "Suc k \<le> j" using that by (simp add: nth_Cons' diff_Suc split: nat.splits)
    then show ?thesis using Cons [of "Suc k"] False
      by (auto simp: bit_or_iff bit_exp_iff)
  qed
qed simp

lemma copied_length [simp]: "length (copied dst r n) = length dst + n"
  by (induction dst r n rule: copied.induct) auto

lemma copy_run_copied: "r < length dst \<Longrightarrow> copy_run dst r n = LzOk (copied dst r n)"
  by (induction dst r n rule: copied.induct) auto

text \<open>Copying from a buffer that agrees with \<open>y\<close> extends the agreement as far as \<open>y\<close> repeats itself.\<close>

lemma copied_agree:
  assumes "\<forall>j<length dst. 8 \<le> j \<longrightarrow> dst ! j = y ! j" "8 \<le> r" "r < length dst"
    and "\<forall>m<n. y ! (r + m) = y ! (length dst + m)"
  shows "\<forall>j<length dst + n. 8 \<le> j \<longrightarrow> copied dst r n ! j = y ! j"
  using assms
proof (induction dst r n rule: copied.induct)
  case (2 dst r n)
  have "dst ! r = y ! length dst" using 2(2-5) by (metis add.right_neutral zero_less_Suc)
  then have "\<forall>j<length (dst @ [dst ! r]). 8 \<le> j \<longrightarrow> (dst @ [dst ! r]) ! j = y ! j"
    using 2(2) by (auto simp: nth_append less_Suc_eq)
  moreover have "\<forall>m<n. y ! (r + 1 + m) = y ! (length (dst @ [dst ! r]) + m)"
    using 2(5) by (metis Suc_less_eq add_Suc_right add_Suc length_append_singleton Suc_eq_plus1)
  ultimately show ?case using 2(1) 2(3,4) by simp
qed simp

lemma match_end_agree:
  "s < q \<Longrightarrow> match_end y p s q \<le> q \<and> (\<forall>m<match_end y p s q - s. y ! (p + m) = y ! (s + m))"
proof (induction y p s q rule: match_end.induct)
  case (1 y p s q)
  show ?case
  proof (cases "y ! p = y ! s \<and> s + 1 < q")
    case True
    then have e: "match_end y p s q = match_end y (p + 1) (s + 1) q" by (subst match_end.simps) simp
    have IH: "match_end y (p + 1) (s + 1) q \<le> q"
      "\<forall>m<match_end y (p + 1) (s + 1) q - (s + 1). y ! (p + 1 + m) = y ! (s + 1 + m)" using 1 True by auto
    have "y ! (p + m) = y ! (s + m)" if "m < match_end y p s q - s" for m
      using that IH(2) True unfolding e by (cases m) auto
    then show ?thesis using IH(1) e by simp
  next
    case False
    then show ?thesis using 1(2) by (subst (1 2) match_end.simps) auto
  qed
qed

section \<open>The two tables stay in step\<close>

abbreviation hash_at :: "bytes \<Rightarrow> nat \<Rightarrow> u8" where
  "hash_at y s \<equiv> y ! s XOR y ! (s + 1)"

definition tok_of :: "bytes \<Rightarrow> lzc \<Rightarrow> tok" where
  "tok_of y st =
    (let t = length y; s = c_s st; h = hash_at y s; p = c_a st h
     in if s > t - 3 \<or> p = 0 \<or> y ! s \<noteq> y ! p then LzLit (y ! s)
        else LzMatch h (of_nat (match_end y (p + 2) (s + 2) (if s + 2 + 255 < t then s + 2 + 255 else t) - (s + 2))))"

text \<open>A table entry: empty, or a position behind \<open>s\<close> with the right hash.\<close>

definition entry_ok :: "bytes \<Rightarrow> nat \<Rightarrow> u8 \<Rightarrow> nat \<Rightarrow> bool" where
  "entry_ok y s h v \<longleftrightarrow> v = 0 \<or> 8 \<le> v \<and> v + 1 < s \<and> hash_at y v = h"

definition tables_ok :: "bytes \<Rightarrow> lzc \<Rightarrow> bool" where
  "tables_ok y st \<longleftrightarrow>
     (\<forall>h. entry_ok y (c_s st) h (c_a st h)) \<and>
     (c_s0 st = 0 \<or> 8 \<le> c_s0 st \<and> c_s0 st = c_s st - 1 \<and> c_h0 st = hash_at y (c_s0 st))"

text \<open>
  The decoder's buffer agrees with the frame from position 8 on, and, while a match is still possible, its
  table is the compressor's, the position still to be entered included.
\<close>

definition in_step :: "bytes \<Rightarrow> lzc \<Rightarrow> adec \<Rightarrow> bool" where
  "in_step y st A \<longleftrightarrow> (case A of (dst, p, aa) \<Rightarrow>
     length dst = c_s st \<and> 8 \<le> c_s st \<and> c_s st \<le> length y \<and> (\<forall>j<c_s st. 8 \<le> j \<longrightarrow> dst ! j = y ! j) \<and>
     (c_s st \<le> length y - 3 \<longrightarrow>
        tables_ok y st \<and> aa = c_a st \<and> p = (if c_s0 st = 0 then c_s st else c_s0 st)))"

lemma entry_mono: "entry_ok y s h v \<Longrightarrow> s \<le> s' \<Longrightarrow> entry_ok y s' h v"
  by (auto simp: entry_ok_def)

lemma entries_upd:
  "\<forall>h. entry_ok y s h (a h) \<Longrightarrow> s \<le> s' \<Longrightarrow> entry_ok y s' k v \<Longrightarrow> \<forall>h. entry_ok y s' h ((a(k := v)) h)"
  by (auto intro: entry_mono)

lemma enter_one: "length d = s + 1 \<Longrightarrow> p = s \<Longrightarrow> enter d p aa = aa"
  by (simp add: enter_def)

lemma enter_pending: "length d = s + 1 \<Longrightarrow> 0 < s \<Longrightarrow> enter d (s - 1) aa = aa(d ! (s - 1) XOR d ! s := s - 1)"
  by (cases s) (simp_all add: enter_def)

lemma enter_pair: "length d = s + 2 \<Longrightarrow> enter d s aa = aa(d ! s XOR d ! (s + 1) := s)"
  by (simp add: enter_def)

lemma enter_pair_pending:
  "length d = s + 2 \<Longrightarrow> 0 < s \<Longrightarrow>
    enter d (s - 1) aa = (aa(d ! (s - 1) XOR d ! s := s - 1))(d ! s XOR d ! (s + 1) := s)"
  by (cases s) (simp_all add: enter_def upt_rec)

lemma lz_step_lit:
  assumes "tok_of y st = LzLit x"
  shows "x = y ! c_s st" "c_s (lz_step y st) = c_s st + 1" "c_s0 (lz_step y st) = c_s st"
    "c_a (lz_step y st) = (if 0 < c_s0 st then (c_a st)(c_h0 st := c_s0 st) else c_a st)"
    "c_s st \<le> length y - 3 \<Longrightarrow> c_h0 (lz_step y st) = hash_at y (c_s st)"
    "c_z (lz_step y st) = c_z st @ [y ! c_s st]" "c_f (lz_step y st) = c_f st"
  using assms by (auto simp: tok_of_def lz_step_def Let_def xor_zero_iff split: if_splits)

lemma lz_step_match:
  fixes y st
  defines "s \<equiv> c_s st" and "t \<equiv> length y"
  defines "p \<equiv> c_a st (hash_at y s)"
  defines "s' \<equiv> match_end y (p + 2) (s + 2) (if s + 2 + 255 < t then s + 2 + 255 else t)"
  assumes "tok_of y st = LzMatch h n"
  shows "h = hash_at y s" "n = of_nat (s' - (s + 2))" "s \<le> t - 3" "p \<noteq> 0" "y ! s = y ! p"
    "c_s (lz_step y st) = s'" "c_s0 (lz_step y st) = 0"
    "c_a (lz_step y st) = (if 0 < c_s0 st then (c_a st)(c_h0 st := c_s0 st) else c_a st)(h := s)"
    "c_z (lz_step y st) = c_z st @ [h, n]" "c_f (lz_step y st) = c_f st OR c_i st"
  using assms(5) unfolding s_def t_def p_def s'_def
  by (auto simp: tok_of_def lz_step_def Let_def xor_zero_iff split: if_splits)

lemma lz_step_i [simp]: "c_i (lz_step y st) = c_i st * 2" "c_c (lz_step y st) = c_c st"
  by (simp_all add: lz_step_def Let_def)

lemma step_lit_in_step:
  assumes st: "in_step y st (dst, p, aa)" and tok: "tok_of y st = LzLit x" and lt: "c_s st < length y"
  shows "in_step y (lz_step y st) (astep (LzLit x) (dst, p, aa))"
proof -
  note l = lz_step_lit [OF tok]
  let ?s = "c_s st" and ?d = "dst @ [x]"
  have len: "length dst = ?s" "8 \<le> ?s" and agree: "\<forall>j<?s. 8 \<le> j \<longrightarrow> dst ! j = y ! j" using st by (auto simp: in_step_def)
  have agree': "\<forall>j<Suc ?s. 8 \<le> j \<longrightarrow> ?d ! j = y ! j" using len agree l(1) by (auto simp: nth_append less_Suc_eq)
  have rest: "tables_ok y (lz_step y st) \<and> enter ?d p aa = c_a (lz_step y st) \<and>
      max p (length ?d - 1) = (if c_s0 (lz_step y st) = 0 then c_s (lz_step y st) else c_s0 (lz_step y st))"
    if "?s + 1 \<le> length y - 3"
  proof -
    have T: "tables_ok y st" "aa = c_a st" "p = (if c_s0 st = 0 then ?s else c_s0 st)" using st that by (auto simp: in_step_def)
    have h0: "c_h0 (lz_step y st) = hash_at y ?s" using l(5) that by simp
    show ?thesis
    proof (cases "c_s0 st = 0")
      case True
      then show ?thesis using T len h0 by (auto simp: tables_ok_def l enter_one intro: entry_mono)
    next
      case False
      then have s0: "c_s0 st = ?s - 1" "8 \<le> c_s0 st" "c_h0 st = hash_at y (?s - 1)" using T(1) by (auto simp: tables_ok_def)
      have "?d ! (?s - 1) XOR ?d ! ?s = hash_at y (?s - 1)" using agree' s0 by auto
      then have "enter ?d p aa = (c_a st)(c_h0 st := c_s0 st)"
        using enter_pending [of ?d ?s aa] T(2,3) False s0 len by simp
      moreover have "entry_ok y (?s + 1) (c_h0 st) (c_s0 st)" using s0 by (auto simp: entry_ok_def)
      then have "tables_ok y (lz_step y st)"
        using entries_upd [of y ?s "c_a st" "?s + 1"] T(1) False h0 len by (auto simp: tables_ok_def l)
      ultimately show ?thesis using False s0 len T(3) by (simp add: l)
    qed
  qed
  then show ?thesis using len lt agree' by (simp add: in_step_def l Let_def)
qed

lemma step_match_in_step:
  assumes st: "in_step y st (dst, p, aa)" and tok: "tok_of y st = LzMatch h n" and lt: "c_s st < length y" "3 \<le> length y"
  shows "in_step y (lz_step y st) (astep (LzMatch h n) (dst, p, aa))"
proof -
  note m = lz_step_match [OF tok]
  let ?s = "c_s st" and ?t = "length y"
  define q where "q = (if ?s + 2 + 255 < ?t then ?s + 2 + 255 else ?t)"
  define r where "r = c_a st (hash_at y ?s)"
  define s' where "s' = match_end y (r + 2) (?s + 2) q"
  have len: "length dst = ?s" "8 \<le> ?s" and agree: "\<forall>j<length dst. 8 \<le> j \<longrightarrow> dst ! j = y ! j"
    and T: "tables_ok y st" "aa = c_a st" "p = (if c_s0 st = 0 then ?s else c_s0 st)"
    using st m(3) by (auto simp: in_step_def)
  have "entry_ok y ?s (hash_at y ?s) r" using T(1) by (simp only: tables_ok_def r_def)
  moreover have "aa h = r" using T(2) m(1) by (simp only: r_def)
  ultimately have r: "aa h = r" "8 \<le> r" "r + 1 < ?s" "hash_at y r = h" "y ! r = y ! ?s"
    using m(1) m(4,5) [folded r_def] by (auto simp: entry_ok_def)
  then have r1: "y ! (r + 1) = y ! (?s + 1)" using m(1) by (simp add: xor_cancel_left)
  have q: "?s + 2 < q" "q \<le> ?t" "q \<le> ?s + 2 + 255" using m(3) lt by (auto simp: q_def)
  have s': "?s + 2 \<le> s'" "s' \<le> q" "\<forall>k < s' - (?s + 2). y ! (r + 2 + k) = y ! (?s + 2 + k)"
    using match_end_ge [of "?s + 2" y "r + 2" q] match_end_agree [OF q(1), of y "r + 2"] by (simp_all add: s'_def)
  have n: "unat n = s' - (?s + 2)"
    using m(2) s'(2) q(3) by (simp add: s'_def q_def r_def unat_of_nat)
  define d where "d = copied dst r 2"
  have "\<forall>k<2. y ! (r + k) = y ! (length dst + k)"
    using r(5) r1 len by (auto simp: less_2_cases_iff)
  then have d: "\<forall>j<length d. 8 \<le> j \<longrightarrow> d ! j = y ! j" "length d = ?s + 2"
    using copied_agree [OF agree r(2)] r(3) len by (simp_all add: d_def)
  define d' where "d' = copied d (r + 2) (unat n)"
  have d': "\<forall>j<length d'. 8 \<le> j \<longrightarrow> d' ! j = y ! j" "length d' = s'"
    using copied_agree [OF d(1), of "r + 2" "unat n"] r(2,3) d(2) s' n by (simp_all add: d'_def)
  have aa': "enter d p aa = c_a (lz_step y st)"
  proof (cases "c_s0 st = 0")
    case True
    then show ?thesis using enter_pair [OF d(2), of aa] d len T(2,3) m(1,8) by simp
  next
    case False
    then have s0: "c_s0 st = ?s - 1" "8 \<le> c_s0 st" "c_h0 st = hash_at y (?s - 1)" using T(1) by (auto simp: tables_ok_def)
    have "d ! (?s - 1) XOR d ! ?s = hash_at y (?s - 1)" "d ! ?s XOR d ! (?s + 1) = hash_at y ?s"
      using d s0 len by auto
    then show ?thesis using enter_pair_pending [OF d(2), of aa] False s0 len T(2,3) m(1,8) by simp
  qed
  have A': "astep (LzMatch h n) (dst, p, aa) = (d', length d', enter d p aa)"
    unfolding astep.simps Let_def r(1) d_def [symmetric] d'_def [symmetric] by (rule refl)
  have cs: "c_s (lz_step y st) = s'" using m(6) by (simp add: s'_def q_def r_def)
  have "tables_ok y (lz_step y st)"
  proof -
    have e: "entry_ok y s' h ?s" using s'(1) m(1) len by (auto simp: entry_ok_def)
    have E: "\<forall>h. entry_ok y ?s h (c_a st h)" using T(1) by (simp add: tables_ok_def)
    have "\<forall>k. entry_ok y s' k ((if 0 < c_s0 st then (c_a st)(c_h0 st := c_s0 st) else c_a st) k)"
    proof (cases "0 < c_s0 st")
      case True
      then have "entry_ok y s' (c_h0 st) (c_s0 st)" using T(1) s'(1) by (auto simp: tables_ok_def entry_ok_def)
      then show ?thesis using entries_upd [OF E, of s'] s'(1) True by simp
    next
      case False
      then show ?thesis using E s'(1) by (auto intro: entry_mono)
    qed
    from entries_upd [OF this order_refl e] show ?thesis using m(7,8) by (simp add: tables_ok_def cs)
  qed
  then show ?thesis
    using aa' d' s' q cs m(7) len unfolding A' by (simp add: in_step_def)
qed

lemma step_in_step:
  assumes "in_step y st A" "c_s st < length y" "3 \<le> length y"
  shows "in_step y (lz_step y st) (astep (tok_of y st) A)"
  using step_lit_in_step step_match_in_step assms by (cases A; cases "tok_of y st") auto

section \<open>The compressor writes the token stream\<close>

text \<open>Full groups \<open>F\<close> are on the buffer, then the reserved flag byte and the tokens \<open>P\<close> of the open group.\<close>

definition written :: "bytes \<Rightarrow> tok list \<Rightarrow> tok list \<Rightarrow> lzc \<Rightarrow> bool" where
  "written hdr F P st \<longleftrightarrow> length F mod 8 = 0 \<and> length P \<le> 8 \<and>
     c_z st = hdr @ stream_of F @ 0 # body P \<and> c_c st = length (hdr @ stream_of F) \<and>
     c_f st = flags_from 0 P \<and> c_i st = push_bit (length P) 1"

lemma written_close: "written hdr F P st \<Longrightarrow> P \<noteq> [] \<Longrightarrow> (c_z st)[c_c st := c_f st] = hdr @ stream_of (F @ P)"
  by (simp add: written_def stream_of_append stream_of_group list_update_append)

lemma written_i0: "written hdr F P st \<Longrightarrow> c_i st = 0 \<longleftrightarrow> length P = 8"
proof -
  assume "written hdr F P st"
  then have "c_i st = push_bit (length P) 1" "length P \<le> 8" by (auto simp: written_def)
  moreover have "push_bit k (1 :: u8) = 0 \<longleftrightarrow> \<not> k < 8" for k by (simp add: push_bit_eq_0_iff not_less)
  ultimately show ?thesis by auto
qed

lemma written_flag:
  assumes "written hdr F P st" "length P = 8"
  shows "written hdr (F @ P) [] (lz_flag st)"
proof -
  have "P \<noteq> []" using assms(2) by auto
  then have z: "(c_z st)[c_c st := c_f st] = hdr @ stream_of (F @ P)" by (rule written_close [OF assms(1)])
  then have "length (c_z st) = length (hdr @ stream_of (F @ P))" by (metis length_list_update)
  with z show ?thesis using assms by (simp add: written_def lz_flag_def mod_add_eq)
qed

lemma written_step:
  assumes "written hdr F P st" "length P < 8"
  shows "written hdr F (P @ [tok_of y st]) (lz_step y st)"
proof (cases "tok_of y st")
  case (LzLit x)
  then show ?thesis using assms lz_step_lit [OF LzLit] by (simp add: written_def flags_snoc)
next
  case (LzMatch h n)
  then show ?thesis using assms lz_step_match [OF LzMatch] by (simp add: written_def flags_snoc)
qed

lemma flag_in_step: "in_step y (lz_flag st) A = in_step y st A" "c_s (lz_flag st) = c_s st"
  by (simp_all add: in_step_def lz_flag_def tables_ok_def)

lemma astep_length: "length (fst A) < length (fst (astep t A))"
  by (cases A; cases t) (auto simp: Let_def)

lemma lz_loop_tokens:
  assumes "lz_loop y e st = Some st'" "written hdr F P st" "in_step y st A" "3 \<le> length y"
  shows "\<exists>ts F' P'. written hdr F' P' st' \<and> F' @ P' = F @ P @ ts \<and> in_step y st' (fold astep ts A) \<and>
    c_s st' = length y \<and> (c_s st < length y \<longrightarrow> P' \<noteq> []) \<and> (c_s st = length y \<longrightarrow> P' = P)"
  using assms
proof (induction y e st arbitrary: F P A rule: lz_loop.induct)
  case (1 y e st)
  show ?case
  proof (cases "c_s st < length y")
    case False
    then have "st' = st" using 1(3) by (simp add: lz_loop.simps [of y e st])
    then show ?thesis using False 1(4,5) by (intro exI [of _ "[]"] exI [of _ F] exI [of _ P]) (auto simp: in_step_def)
  next
    case lt: True
    define v where "v = (if c_i st = 0 then lz_flag st else st)"
    define F1 where "F1 = (if c_i st = 0 then F @ P else F)"
    define P1 where "P1 = (if c_i st = 0 then [] else P)"
    have w: "written hdr F1 P1 v" "length P1 < 8" "F1 @ P1 = F @ P"
      using written_i0 [OF 1(4)] written_flag [OF 1(4)] 1(4) by (auto simp: v_def F1_def P1_def written_def)
    have s: "in_step y v A" "c_s v = c_s st" using 1(5) by (simp_all add: v_def flag_in_step)
    have loop: "lz_loop y e (lz_step y v) = Some st'"
      using 1(3) lt by (simp add: lz_loop.simps [of y e st] v_def split: if_splits)
    let ?t = "tok_of y v"
    have st1: "written hdr F1 (P1 @ [?t]) (lz_step y v)" using written_step [OF w(1,2)] .
    have A1: "in_step y (lz_step y v) (astep ?t A)" using step_in_step [OF s(1)] s(2) lt 1(6) by simp
    have "\<exists>ts F' P'. written hdr F' P' st' \<and> F' @ P' = F1 @ (P1 @ [?t]) @ ts \<and> in_step y st' (fold astep ts (astep ?t A)) \<and>
        c_s st' = length y \<and> (c_s (lz_step y v) < length y \<longrightarrow> P' \<noteq> []) \<and> (c_s (lz_step y v) = length y \<longrightarrow> P' = P1 @ [?t])"
    proof (cases "c_i st = 0")
      case True
      then have "\<not> length (c_z st) > e - 17" using 1(3) lt by (auto simp: lz_loop.simps [of y e st])
      moreover have v: "v = lz_flag st" using True by (simp add: v_def)
      ultimately show ?thesis using 1(1) [OF lt True _ loop [unfolded v] st1 [unfolded v] A1 [unfolded v] 1(6)] by simp
    next
      case False
      then have v: "v = st" by (simp add: v_def)
      show ?thesis using 1(2) [OF lt False loop [unfolded v] st1 [unfolded v] A1 [unfolded v] 1(6)] v by simp
    qed
    then obtain ts F' P' where r: "written hdr F' P' st'" "F' @ P' = F1 @ (P1 @ [?t]) @ ts"
      "in_step y st' (fold astep ts (astep ?t A))" "c_s st' = length y"
      "c_s (lz_step y v) < length y \<longrightarrow> P' \<noteq> []" "c_s (lz_step y v) = length y \<longrightarrow> P' = P1 @ [?t]" by blast
    have "c_s (lz_step y v) \<le> length y" using A1 by (auto simp: in_step_def split: prod.splits)
    then have "P' \<noteq> []" using r(5,6) by (cases "c_s (lz_step y v) = length y") auto
    then show ?thesis using r w(3) lt
      by (intro exI [of _ "?t # ts"] exI [of _ F'] exI [of _ P']) (auto simp: append_assoc [symmetric] simp del: append_assoc)
  qed
qed

section \<open>The decompressor reads the token stream\<close>

abbreviation adec_of :: "lzd \<Rightarrow> adec" where
  "adec_of st \<equiv> (d_dst st, d_p st, d_aa st)"

definition safe :: "lzd \<Rightarrow> bool" where
  "safe st \<longleftrightarrow> (\<forall>h. d_aa st h < length (d_dst st))"

lemma enter_bound: "\<forall>h. aa h < length dst \<Longrightarrow> enter dst p aa h < length dst"
proof -
  assume *: "\<forall>h. aa h < length dst"
  have "set ps \<subseteq> {..<length dst} \<Longrightarrow> \<forall>h. fold (\<lambda>p aa. aa(dst ! p XOR dst ! (p + 1) := p)) ps aa h < length dst" for ps
    using * by (induction ps rule: rev_induct) auto
  moreover have "set [p..<length dst - 1] \<subseteq> {..<length dst}" by auto
  ultimately show ?thesis unfolding enter_def by blast
qed

lemma mask_next:
  assumes "k < 8"
  shows "(if (2 :: u32) ^ k * 2 = 256 then 0 else (2 :: u32) ^ k * 2) = (if k = 7 then 0 else 2 ^ Suc k)" "(2 :: u32) ^ k \<noteq> 0"
proof -
  have "list_all (\<lambda>k. (if (2 :: u32) ^ k * 2 = 256 then 0 else (2 :: u32) ^ k * 2) = (if k = 7 then 0 else 2 ^ Suc k) \<and> (2 :: u32) ^ k \<noteq> 0) [0..<8]"
    by code_simp
  then show "(if (2 :: u32) ^ k * 2 = 256 then 0 else (2 :: u32) ^ k * 2) = (if k = 7 then 0 else 2 ^ Suc k)" "(2 :: u32) ^ k \<noteq> 0"
    using assms unfolding list_all_iff by (metis atLeastLessThan_iff le0 set_upt)+
qed

lemma mask_bit: "k < 8 \<Longrightarrow> (ucast f AND (2 :: u32) ^ k \<noteq> 0) = bit f k" for f :: u8
  by (simp add: and_exp_eq_0_iff_not_bit bit_unsigned_iff)

text \<open>One step of the loop in terms of the tokens it reads, and the end of the stream.\<close>

lemma un_step_match:
  fixes pl usz st
  defines "A \<equiv> astep (LzMatch (pl ! d_d st) (pl ! (d_d st + 1))) (adec_of st)"
  assumes "safe st" "ucast (d_f st) AND d_i st \<noteq> 0"
  shows "un_step pl usz st =
    (if d_d st \<ge> length pl \<or> length (d_dst st) + 2 > usz \<or> d_d st + 1 \<ge> length pl \<or> length (fst A) > usz then LzCorrupt
     else LzOk (st\<lparr>d_d := d_d st + 2, d_dst := fst A, d_p := fst (snd A), d_aa := snd (snd A),
                   d_i := (if d_i st * 2 = 256 then 0 else d_i st * 2)\<rparr>))"
proof -
  have r: "d_aa st h < length (d_dst st)" for h using assms(2) by (simp add: safe_def)
  have c1: "copy_run (d_dst st) (d_aa st h) 2 = LzOk (copied (d_dst st) (d_aa st h) 2)" for h
    using r by (rule copy_run_copied)
  have c2: "copy_run (copied (d_dst st) (d_aa st h) 2) (d_aa st h + 2) n =
      LzOk (copied (copied (d_dst st) (d_aa st h) 2) (d_aa st h + 2) n)" for h n
    by (rule copy_run_copied) (use r [of h] in simp)
  show ?thesis
    unfolding un_step_def Let_def c1 lzres.case c2 A_def astep.simps fst_conv snd_conv
    using assms(3) by simp
qed

lemma un_step_lit:
  fixes pl usz st
  defines "A \<equiv> astep (LzLit (pl ! d_d st)) (adec_of st)"
  assumes "\<not> ucast (d_f st) AND d_i st \<noteq> 0"
  shows "un_step pl usz st =
    (if d_d st \<ge> length pl then LzCorrupt
     else LzOk (st\<lparr>d_d := d_d st + 1, d_dst := fst A, d_p := fst (snd A), d_aa := snd (snd A),
                   d_i := (if d_i st * 2 = 256 then 0 else d_i st * 2)\<rparr>))"
  using assms(2) by (simp add: un_step_def Let_def A_def)

lemma astep_safe: "\<forall>h. aa h < length dst \<Longrightarrow> \<forall>h. snd (snd (astep t (dst, p, aa))) h < length (fst (astep t (dst, p, aa)))"
proof (cases t)
  case (LzLit x)
  assume "\<forall>h. aa h < length dst"
  then show ?thesis using enter_bound [of aa "dst @ [x]" p] LzLit by (auto simp: Let_def less_Suc_eq)
next
  case (LzMatch k n)
  assume *: "\<forall>h. aa h < length dst"
  let ?d = "copied dst (aa k) 2"
  have "\<forall>h. aa h < length ?d" using * by (auto intro: less_le_trans)
  then have "enter ?d p aa h < length ?d" for h by (rule enter_bound)
  then have "enter ?d p aa h < length ?d + unat n" for h by (rule trans_less_add1)
  then show ?thesis using LzMatch by (simp add: Let_def)
qed

text \<open>Every step keeps the table inside the written bytes and never reads outside them.\<close>

lemma un_step_safe:
  assumes "safe st"
  shows "un_step pl usz st \<noteq> LzOob" "un_step pl usz st = LzOk st' \<Longrightarrow> safe st'"
proof -
  have *: "\<forall>h. d_aa st h < length (d_dst st)" using assms by (simp add: safe_def)
  note A = astep_safe [OF *, of _ "d_p st"]
  show "un_step pl usz st \<noteq> LzOob"
    using un_step_match [OF assms, of pl usz] un_step_lit [of st pl usz]
    by (cases "ucast (d_f st) AND d_i st \<noteq> 0") auto
  show "safe st'" if "un_step pl usz st = LzOk st'"
    using that un_step_match [OF assms, of pl usz] un_step_lit [of st pl usz] A
    by (cases "ucast (d_f st) AND d_i st \<noteq> 0") (auto simp: safe_def simp del: astep.simps split: if_splits)
qed

lemma drop_two: "drop d pl = a # b # rest \<Longrightarrow> d + 1 < length pl \<and> pl ! d = a \<and> pl ! (d + 1) = b \<and> drop (d + 2) pl = rest"
  by (metis Cons_nth_drop_Suc Suc_eq_plus1 add_2_eq_Suc' drop_all list.distinct(1) list.inject not_le_imp_less)

lemma drop_one: "drop d pl = a # rest \<Longrightarrow> d < length pl \<and> pl ! d = a \<and> drop (d + 1) pl = rest"
  by (metis Cons_nth_drop_Suc Suc_eq_plus1 drop_all list.distinct(1) list.inject not_le_imp_less)

lemma un_step_tok:
  assumes safe: "safe st" and k: "k < 8" "d_i st = 2 ^ k" and f: "bit (d_f st) k \<longleftrightarrow> is_match t"
    and d: "drop (d_d st) pl = tok_bytes t @ rest" and usz: "length (fst (astep t (adec_of st))) \<le> usz"
  shows "\<exists>st'. un_step pl usz st = LzOk st' \<and> adec_of st' = astep t (adec_of st) \<and> d_f st' = d_f st \<and>
    d_i st' = (if k = 7 then 0 else 2 ^ Suc k) \<and> drop (d_d st') pl = rest"
proof -
  have i: "(if d_i st * 2 = 256 then 0 else d_i st * 2) = (if k = 7 then 0 else 2 ^ Suc k)"
    unfolding k(2) by (rule mask_next(1) [OF k(1)])
  show ?thesis
  proof (cases t)
    case (LzLit x)
    have "\<not> ucast (d_f st) AND d_i st \<noteq> 0" using mask_bit [OF k(1), of "d_f st"] f k(2) LzLit by simp
    from un_step_lit [OF this, of pl usz, unfolded i] show ?thesis
      using drop_one [of "d_d st" pl x rest] d LzLit by (simp del: astep.simps)
  next
    case (LzMatch h n)
    have "ucast (d_f st) AND d_i st \<noteq> 0" using mask_bit [OF k(1), of "d_f st"] f k(2) LzMatch by simp
    note m = un_step_match [OF safe this, of pl usz, unfolded i]
    have "length (d_dst st) + 2 \<le> usz" using usz LzMatch by (simp add: Let_def)
    then show ?thesis
      using m drop_two [of "d_d st" pl h n rest] d usz LzMatch by (simp del: astep.simps)
  qed
qed

lemma fold_astep_length: "length (fst A) \<le> length (fst (fold astep ts A))"
proof (induction ts arbitrary: A)
  case (Cons t ts)
  have "length (fst A) \<le> length (fst (astep t A))" by (rule less_imp_le [OF astep_length])
  also have "\<dots> \<le> length (fst (fold astep ts (astep t A)))" by (rule Cons)
  finally show ?case by simp
qed simp

text \<open>Where the decompressor stands: \<open>k\<close> tokens of the group done, \<open>g\<close> left of it, then \<open>ts\<close>.\<close>

definition reading :: "bytes \<Rightarrow> nat \<Rightarrow> tok list \<Rightarrow> tok list \<Rightarrow> lzd \<Rightarrow> bool" where
  "reading pl k g ts st \<longleftrightarrow> safe st \<and> k \<le> 8 \<and> k + length g \<le> 8 \<and> (ts \<noteq> [] \<longrightarrow> k + length g = 8) \<and>
     d_i st = (if k = 8 then 0 else 2 ^ k) \<and> (\<forall>j<length g. bit (d_f st) (k + j) \<longleftrightarrow> is_match (g ! j)) \<and>
     drop (d_d st) pl = body g @ stream_of ts \<and> d_d st \<le> length pl"

lemma reading_step:
  assumes "reading pl k (t # g) ts st" "length (fst (astep t (adec_of st))) \<le> usz"
  shows "\<exists>st'. un_step pl usz st = LzOk st' \<and> adec_of st' = astep t (adec_of st) \<and> reading pl (Suc k) g ts st'"
proof -
  have k: "k < 8" "d_i st = 2 ^ k" "safe st" using assms(1) by (auto simp: reading_def)
  have b: "\<forall>j<length (t # g). bit (d_f st) (k + j) \<longleftrightarrow> is_match ((t # g) ! j)" using assms(1) by (simp add: reading_def)
  then have "bit (d_f st) k \<longleftrightarrow> is_match t" by (metis add.right_neutral length_Cons nth_Cons_0 zero_less_Suc)
  moreover have "drop (d_d st) pl = tok_bytes t @ body g @ stream_of ts" using assms(1) by (simp add: reading_def)
  ultimately obtain st' where st': "un_step pl usz st = LzOk st'" "adec_of st' = astep t (adec_of st)" "d_f st' = d_f st"
      "d_i st' = (if k = 7 then 0 else 2 ^ Suc k)" "drop (d_d st') pl = body g @ stream_of ts"
    using un_step_tok [OF k(3,1,2)] assms(2) by metis
  have "\<forall>j<length g. bit (d_f st') (Suc k + j) \<longleftrightarrow> is_match (g ! j)"
    using b st'(3) by (metis Suc_less_eq add_Suc add_Suc_right length_Cons nth_Cons_Suc)
  moreover have "safe st'" using un_step_safe(2) [OF k(3) st'(1)] .
  moreover have "d_d st' \<le> length pl"
  proof -
    have "d_d st' = d_d st + 1 \<or> d_d st' = d_d st + 2" "d_d st' \<le> length pl"
      using st'(1) un_step_match [OF k(3), of pl usz] un_step_lit [of st pl usz]
      by (cases "ucast (d_f st) AND d_i st \<noteq> 0"; auto simp del: astep.simps split: if_splits)+
    then show ?thesis by simp
  qed
  ultimately show ?thesis using st' assms(1) k(1) by (auto simp: reading_def)
qed

lemma reading_group:
  assumes "reading pl k [] ts st" "ts \<noteq> []"
  shows "d_i st = 0" "d_d st < length pl"
    "reading pl 0 (take 8 ts) (drop 8 ts) (st\<lparr>d_f := pl ! d_d st, d_d := d_d st + 1, d_i := 1\<rparr>)"
proof -
  have k: "k = 8" using assms by (simp add: reading_def)
  then show "d_i st = 0" using assms by (simp add: reading_def)
  have d: "drop (d_d st) pl = flags_from 0 (take 8 ts) # body (take 8 ts) @ stream_of (drop 8 ts)"
    using assms stream_of.simps [of ts] by (simp add: reading_def)
  note o = drop_one [OF d]
  then show "d_d st < length pl" by simp
  show "reading pl 0 (take 8 ts) (drop 8 ts) (st\<lparr>d_f := pl ! d_d st, d_d := d_d st + 1, d_i := 1\<rparr>)"
    using o assms(1) by (auto simp: reading_def safe_def bit_flags)
qed

lemma un_loop_tokens:
  assumes "reading pl k g ts st" "length (fst (fold astep (g @ ts) (adec_of st))) = usz"
  shows "\<exists>st'. un_loop pl usz st = LzOk st' \<and> d_dst st' = fst (fold astep (g @ ts) (adec_of st)) \<and> d_d st' = length pl"
  using assms
proof (induction "length (g @ ts)" arbitrary: k g ts st rule: less_induct)
  case less
  show ?case
  proof (cases "g @ ts")
    case Nil
    then have "length (d_dst st) = usz" "drop (d_d st) pl = []" "d_d st \<le> length pl"
      using less.prems by (auto simp: reading_def)
    then show ?thesis using Nil by (auto simp: un_loop.simps [of pl usz st])
  next
    case (Cons t rest)
    obtain k' g' ts' v where v: "reading pl k' (t # g') ts' v" "g' @ ts' = rest" "adec_of v = adec_of st"
      "v = (if d_i st = 0 then st\<lparr>d_f := pl ! d_d st, d_d := d_d st + 1, d_i := 1\<rparr> else st)"
      "d_i st = 0 \<longrightarrow> d_d st < length pl"
    proof (cases g)
      case Nil
      then have ts: "ts \<noteq> []" "take 8 ts = t # take 7 rest" "drop 8 ts = drop 7 rest" using Cons by auto
      show thesis
        using that [of 0 "take 7 rest" "drop 7 rest" "st\<lparr>d_f := pl ! d_d st, d_d := d_d st + 1, d_i := 1\<rparr>"]
          reading_group [OF less.prems(1) [unfolded Nil] ts(1)] ts by simp
    next
      case (Cons t' g')
      then have g: "g = t # g'" "rest = g' @ ts" using \<open>g @ ts = t # rest\<close> by auto
      have "d_i st \<noteq> 0" using less.prems(1) g mask_next(2) by (auto simp: reading_def)
      then show thesis using that [of k g' ts st] less.prems(1) g by simp
    qed
    have tot: "fold astep (g @ ts) (adec_of st) = fold astep (g' @ ts') (astep t (adec_of v))"
      using Cons v(2,3) by (simp del: fold_append)
    have le: "length (fst (astep t (adec_of v))) \<le> usz"
      using fold_astep_length [of "astep t (adec_of v)" "g' @ ts'"] less.prems(2) tot by simp
    obtain st' where st': "un_step pl usz v = LzOk st'" "adec_of st' = astep t (adec_of v)" "reading pl (Suc k') g' ts' st'"
      using reading_step [OF v(1) le] by blast
    have lt: "length (d_dst st) < usz" using astep_length [of "adec_of v" t] le v(3) by simp
    have "un_loop pl usz st = un_loop pl usz st'"
      using lt st'(1) v(4,5) by (cases "d_i st = 0") (simp_all add: un_loop.simps [of pl usz st] not_le)
    moreover have "\<exists>st''. un_loop pl usz st' = LzOk st'' \<and> d_dst st'' = fst (fold astep (g' @ ts') (adec_of st')) \<and> d_d st'' = length pl"
      using less.hyps [OF _ st'(3)] less.prems(2) tot st'(2) v(2) Cons by simp
    ultimately show ?thesis using tot st'(2) by simp
  qed
qed

section \<open>Whole frames\<close>

lemma put32_length [simp]: "length (put32 be v) = 4"
  by (simp add: put32_def le32_def)

lemma le32_list: "le32 v = [of_nat v, of_nat (v div 256), of_nat (v div 65536), of_nat (v div 16777216)]"
  by (simp add: le32_def upt_rec)

lemma unat_byte: "unat (of_nat n :: u8) = n mod 256"
  by (simp add: unat_of_nat)

lemma four_digits:
  "v = a * 256 + d0 \<Longrightarrow> a = b * 256 + d1 \<Longrightarrow> b = c * 256 + d2 \<Longrightarrow> c * 2 ^ 24 + d2 * 2 ^ 16 + d1 * 2 ^ 8 + d0 = v"
  for v :: nat
  by simp

lemma bytes32: "v < 2 ^ 32 \<Longrightarrow>
    v div 16777216 mod 256 * 2 ^ 24 + v div 65536 mod 256 * 2 ^ 16 + v div 256 mod 256 * 2 ^ 8 + v mod 256 = v"
  for v :: nat
proof -
  assume "v < 2 ^ 32"
  then have "v div 16777216 < 256" by (simp add: div_less_iff_less_mult)
  then have c: "v div 16777216 mod 256 = v div 16777216" by (rule mod_less)
  have d: "v div 256 div 256 = v div 65536" "v div 65536 div 256 = v div 16777216"
    by (simp_all add: div_mult2_eq [symmetric])
  have "v div 256 = v div 65536 * 256 + v div 256 mod 256" "v div 65536 = v div 16777216 * 256 + v div 65536 mod 256"
    using div_mult_mod_eq [of "v div 256" 256] div_mult_mod_eq [of "v div 65536" 256] unfolding d by (simp_all only:)
  then show ?thesis unfolding c by (intro four_digits [OF div_mult_mod_eq [symmetric]])
qed

lemma get32_put32: "v < 2 ^ 32 \<Longrightarrow> get32 be (put32 be v @ rest) = v"
  using bytes32 [of v] by (simp add: get32_def put32_def le32_list unat_byte Let_def)

lemma lz_init_loop:
  assumes "2008 < length y"
  shows "lz_loop y (length y div 2) (lz_init y) = lz_loop y (length y div 2) (lz_flag (lz_init y))"
proof -
  have "\<not> 12 > length y div 2 - 17" using assms by simp
  then show ?thesis
    using assms by (simp add: lz_loop.simps [of _ _ "lz_init y"] lz_loop.simps [of _ _ "lz_flag (lz_init y)"])
      (simp add: lz_init_def lz_flag_def)
qed

lemma lz_init_written: "written (c_z (lz_init y)) [] [] (lz_flag (lz_init y))"
  by (simp add: written_def lz_flag_def lz_init_def list_update_beyond)

lemma lz_init_in_step: "8 \<le> length y \<Longrightarrow> in_step y (lz_flag (lz_init y)) (adec_of un_init)"
  by (simp add: flag_in_step) (simp add: in_step_def tables_ok_def entry_ok_def lz_init_def un_init_def)

text \<open>A compressed frame: the patched header and a token stream that decodes to the frame's data.\<close>

lemma compress_tokens:
  assumes "2008 < length y" "lz_loop y (length y div 2) (lz_init y) = Some st"
  shows "\<exists>ts. ts \<noteq> [] \<and> (c_z st)[c_c st := c_f st] = c_z (lz_init y) @ stream_of ts \<and>
    length (fst (fold astep ts (adec_of un_init))) = length y \<and>
    (\<forall>j<length y. 8 \<le> j \<longrightarrow> fst (fold astep ts (adec_of un_init)) ! j = y ! j)"
proof -
  have loop: "lz_loop y (length y div 2) (lz_flag (lz_init y)) = Some st" using assms lz_init_loop by simp
  obtain ts F P where *: "written (c_z (lz_init y)) F P st" "F @ P = ts" "in_step y st (fold astep ts (adec_of un_init))"
      "c_s st = length y" "c_s (lz_flag (lz_init y)) < length y \<longrightarrow> P \<noteq> []"
    using lz_loop_tokens [OF loop lz_init_written lz_init_in_step] assms(1) by auto
  have "P \<noteq> []" using *(5) assms(1) by (simp add: lz_flag_def lz_init_def)
  then show ?thesis using written_close [OF *(1)] *(2-4)
    by (intro exI [of _ ts]) (auto simp: in_step_def split: prod.splits)
qed

lemma out_bound: "length (fst (fold astep ts A)) \<le> length (fst A) + 257 * (length (body ts) - length ts) + (2 * length ts - length (body ts)) \<and>
    length ts \<le> length (body ts) \<and> length (body ts) \<le> 2 * length ts"
proof (induction ts arbitrary: A)
  case (Cons t ts)
  obtain dst p aa where A: "A = (dst, p, aa)" by (cases A)
  show ?case
  proof (cases t)
    case (LzLit x)
    then show ?thesis using Cons [of "astep t A"] by (auto simp: A Let_def)
  next
    case (LzMatch h n)
    have "unat n \<le> 255" using unsigned_less [of n, where ?'a = nat] by simp
    then have "length (fst (astep t A)) \<le> length (fst A) + 257" using LzMatch by (simp add: A Let_def)
    moreover have "length (body (t # ts)) - length (t # ts) = Suc (length (body ts) - length ts)"
      "2 * length (t # ts) - length (body (t # ts)) = 2 * length ts - length (body ts)"
      using LzMatch Cons [of A] by auto
    ultimately show ?thesis using Cons [of "astep t A"] LzMatch by auto
  qed
qed simp

lemma stream_body: "ts \<noteq> [] \<Longrightarrow> length (body ts) < length (stream_of ts)"
proof (induction ts rule: stream_of.induct)
  case (1 ts)
  have "body ts = body (take 8 ts) @ body (drop 8 ts)" by (metis append_take_drop_id concat_append map_append)
  then have "length (body ts) = length (body (take 8 ts)) + length (body (drop 8 ts))" by simp
  then show ?case using 1 stream_of.simps [of ts] by (cases "drop 8 ts = []") (simp_all del: drop_eq_Nil)
qed

lemma bomb_ok: "ts \<noteq> [] \<Longrightarrow> length (fst (fold astep ts A)) - length (fst A) \<le> length (stream_of ts) div 2 * 257"
proof -
  assume ts: "ts \<noteq> []"
  define m where "m = length (body ts) - length ts"
  define l where "l = 2 * length ts - length (body ts)"
  have "2 * m + l + 1 \<le> length (stream_of ts)"
    using stream_body [OF ts] out_bound [of ts A] unfolding m_def l_def by linarith
  then have "(2 * m + (l + 1)) div 2 \<le> length (stream_of ts) div 2" by (intro div_le_mono) simp
  then have "m + (l + 1) div 2 \<le> length (stream_of ts) div 2" by simp
  then have "(m + (l + 1) div 2) * 257 \<le> length (stream_of ts) div 2 * 257" by (rule mult_right_mono) simp
  moreover have "l \<le> (l + 1) div 2 * 257" by linarith
  moreover have "length (fst (fold astep ts A)) \<le> length (fst A) + 257 * m + l"
    using out_bound [of ts A] unfolding m_def l_def by (rule conjunct1)
  ultimately show ?thesis by (simp add: algebra_simps)
qed

lemma uncompress_stream:
  assumes "ts \<noteq> []" "length (fst (fold astep ts (adec_of un_init))) = usz" "usz \<le> Q_WIRE_MSG_MAX"
  shows "q_wire_uncompress_payload True (put32 be usz @ stream_of ts) be = Inr (Some (drop 8 (fst (fold astep ts (adec_of un_init)))))"
proof -
  let ?pl = "put32 be usz @ stream_of ts"
  have un: "length (fst (adec_of un_init)) = 8" by (simp add: un_init_def)
  obtain t ts' where t: "ts = t # ts'" using assms(1) by (cases ts) auto
  have "8 < usz" using assms(2) astep_length [of "adec_of un_init" t] fold_astep_length [of "astep t (adec_of un_init)" ts'] un
    by (simp add: t)
  moreover have "2 \<le> length (stream_of ts)"
    using stream_body [OF assms(1)] out_bound [of ts "adec_of un_init"] assms(1) by (cases ts) auto
  moreover have "usz - 8 \<le> (length ?pl - 4) div 2 * 257" using bomb_ok [OF assms(1), of "adec_of un_init"] assms(2) un by simp
  moreover have "get32 be ?pl = usz" using assms(3) by (intro get32_put32) simp
  moreover have "reading ?pl 8 [] ts un_init" by (simp add: reading_def safe_def un_init_def)
  then obtain st where "un_loop ?pl usz un_init = LzOk st" "d_dst st = fst (fold astep ts (adec_of un_init))" "d_d st = length ?pl"
    using un_loop_tokens [of ?pl 8 "[]" ts un_init usz] assms(2) by auto
  ultimately show ?thesis using assms(3) by (simp add: q_wire_uncompress_payload_def Let_def)
qed

text \<open>How far the output can have grown when the loop is at a given bit of the flag byte.\<close>

inductive lz_visited :: "bytes \<Rightarrow> nat \<Rightarrow> lzc \<Rightarrow> bool" for y :: bytes and e :: nat where
  start: "lz_visited y e (lz_init y)"
| group: "lz_visited y e st \<Longrightarrow> c_s st < length y \<Longrightarrow> c_i st = 0 \<Longrightarrow> length (c_z st) \<le> e - 17 \<Longrightarrow>
    lz_visited y e (lz_step y (lz_flag st))"
| token: "lz_visited y e st \<Longrightarrow> c_s st < length y \<Longrightarrow> c_i st \<noteq> 0 \<Longrightarrow> lz_visited y e (lz_step y st)"

definition room :: "nat \<Rightarrow> lzc \<Rightarrow> bool" where
  "room e st \<longleftrightarrow> (\<exists>k\<le>8. c_i st = push_bit k 1 \<and> length (c_z st) + 16 \<le> e + 2 * k)"

lemma lz_step_grows: "length (c_z (lz_step y st)) \<le> length (c_z st) + 2"
  by (simp add: lz_step_def Let_def)

lemma room_step: "room e st \<Longrightarrow> c_i st \<noteq> 0 \<Longrightarrow> room e (lz_step y st)"
proof -
  assume "room e st" "c_i st \<noteq> 0"
  then obtain k where k: "k \<le> 8" "c_i st = push_bit k 1" "length (c_z st) + 16 \<le> e + 2 * k" by (auto simp: room_def)
  have "k < 8" using k \<open>c_i st \<noteq> 0\<close> by (auto simp: push_bit_eq_0_iff le_less)
  moreover have "c_i (lz_step y st) = push_bit (Suc k) 1" using k(2) by simp
  ultimately show ?thesis using k(3) lz_step_grows [of y st]
    unfolding room_def by (intro exI [of _ "Suc k"]) auto
qed

lemma room_flag: "length (c_z st) \<le> e - 17 \<Longrightarrow> 17 \<le> e \<Longrightarrow> room e (lz_flag st)"
  unfolding room_def by (intro exI [of _ 0]) (auto simp: lz_flag_def)

lemma visited_room: "lz_visited y e st \<Longrightarrow> 1004 \<le> e \<Longrightarrow> room e st"
proof (induction rule: lz_visited.induct)
  case start
  then show ?case unfolding room_def by (intro exI [of _ 8]) (auto simp: lz_init_def)
next
  case (group st)
  then show ?case by (intro room_step room_flag) (auto simp: lz_flag_def)
next
  case (token st)
  then show ?case by (intro room_step) auto
qed

lemma loop_visited: "lz_loop y e st = Some st' \<Longrightarrow> lz_visited y e st \<Longrightarrow> lz_visited y e st'"
proof (induction y e st rule: lz_loop.induct)
  case (1 y e st)
  then show ?case
    using lz_loop.simps [of y e st] by (auto simp: not_less split: if_splits intro: lz_visited.intros)
qed

lemma room_length: "room e st \<Longrightarrow> length (c_z st) \<le> e"
  by (auto simp: room_def)

lemma compress_fits:
  assumes "2008 < length y" "lz_loop y (length y div 2) (lz_init y) = Some st"
  shows "length (c_z st) \<le> length y div 2"
  using loop_visited [OF assms(2) start] visited_room room_length assms(1) by auto

text \<open>The decompressor fills its buffer exactly, or rejects.\<close>

lemma un_step_fits: "un_step pl usz st = LzOk st' \<Longrightarrow> safe st \<Longrightarrow> length (d_dst st) < usz \<Longrightarrow> length (d_dst st') \<le> usz"
  using un_step_match [of st pl usz] un_step_lit [of st pl usz]
  by (cases "ucast (d_f st) AND d_i st \<noteq> 0") (auto simp: Let_def split: if_splits)

lemma un_loop_total:
  "safe st \<Longrightarrow> length (d_dst st) \<le> usz \<Longrightarrow>
    (case un_loop pl usz st of LzCorrupt \<Rightarrow> True | LzOob \<Rightarrow> False | LzOk st' \<Rightarrow> length (d_dst st') = usz)"
proof (induction pl usz st rule: un_loop.induct)
  case (1 pl usz st)
  show ?case
  proof (cases "length (d_dst st) < usz \<and> \<not> (d_i st = 0 \<and> d_d st \<ge> length pl)")
    case True
    define v where "v = (if d_i st = 0 then st\<lparr>d_f := pl ! d_d st, d_d := d_d st + 1, d_i := 1\<rparr> else st)"
    have v: "safe v" "d_dst v = d_dst st" using 1(2) by (auto simp: v_def safe_def)
    have loop: "un_loop pl usz st = (case un_step pl usz v of LzOk st' \<Rightarrow> un_loop pl usz st' | LzCorrupt \<Rightarrow> LzCorrupt | LzOob \<Rightarrow> LzOob)"
      using True by (subst un_loop.simps) (auto simp: v_def Let_def)
    show ?thesis
    proof (cases "un_step pl usz v")
      case (LzOk st')
      have "safe st'" "length (d_dst st') \<le> usz"
        using un_step_safe(2) [OF v(1) LzOk] un_step_fits [OF LzOk v(1)] v(2) True by auto
      then show ?thesis using 1(1) [OF _ _ v_def LzOk] True LzOk by (simp add: loop)
    qed (use un_step_safe(1) [OF v(1)] loop in auto)
  next
    case False
    then show ?thesis using 1(3) by (subst un_loop.simps) auto
  qed
qed

text \<open>A frame of zeros compresses: two literals, then matches of 257 bytes.\<close>

lemma match_end_const: "s < q \<Longrightarrow> p \<le> s \<Longrightarrow> q \<le> n \<Longrightarrow> match_end (replicate n x) p s q = q"
proof (induction "replicate n x" p s q rule: match_end.induct)
  case (1 p s q)
  then show ?case by (subst match_end.simps) auto
qed

lemma zeros_compress: "lz_loop (replicate 2009 0) 1004 (lz_init (replicate 2009 0)) \<noteq> None"
  by (simp add: lz_loop.simps lz_init_def lz_step_def lz_flag_def match_end_const Let_def)

lemma compressed_frame:
  assumes "2008 < length y" "length y \<le> Q_WIRE_MSG_MAX"
    and "q_wire_compress True (QByteVec y) = Inr z" "z \<noteq> y"
  shows "q_wire_uncompress_payload True (drop 8 z) (y ! 0 = 0) = Inr (Some (drop 8 y)) \<and>
    take 4 z = [y ! 0, y ! 1, 1, y ! 3] \<and> get32 (y ! 0 = 0) (drop 4 z) = length z \<and>
    get32 (y ! 0 = 0) (drop 8 z) = length y"
proof -
  let ?be = "y ! 0 = 0"
  obtain st where st: "lz_loop y (length y div 2) (lz_init y) = Some st"
    using assms by (auto simp: q_wire_compress_def split: option.splits)
  obtain ts where ts: "ts \<noteq> []" "(c_z st)[c_c st := c_f st] = c_z (lz_init y) @ stream_of ts"
      "length (fst (fold astep ts (adec_of un_init))) = length y"
      "\<forall>j<length y. 8 \<le> j \<longrightarrow> fst (fold astep ts (adec_of un_init)) ! j = y ! j"
    using compress_tokens [OF assms(1) st] by blast
  define n where "n = length (c_z st)"
  have "length (c_z (lz_init y) @ stream_of ts) = n" by (metis n_def ts(2) length_list_update)
  then have z: "z = [y ! 0, y ! 1, 1, y ! 3] @ put32 ?be n @ put32 ?be (length y) @ stream_of ts" "length z = n"
    using assms(1,3) st by (auto simp: q_wire_compress_def ts(2) Let_def lz_init_def)
  have "n < 2 ^ 32" using compress_fits [OF assms(1) st] assms(2) by (simp add: n_def)
  moreover have "drop 8 (fst (fold astep ts (adec_of un_init))) = drop 8 y"
    using ts(3,4) by (intro nth_equalityI) (auto simp: add.commute)
  ultimately show ?thesis
    using uncompress_stream [OF ts(1,3) assms(2), of ?be] z get32_put32 [of "length y" ?be] get32_put32 [of n ?be] assms(2)
    by simp
qed

section \<open>Properties\<close>

text \<open>
  C16. Compression is undone by decompression. Whenever a frame of more than 2008 bytes (and at most the wire
  limit) is not shipped unchanged, the result is a frame with the compression bit set, the first, second and
  fourth header bytes kept, its own total length at offset 4 and the frame's at offset 8, in the frame's byte
  order, and its payload decompresses to exactly the frame's data.
\<close>

theorem compress_roundtrip:
  assumes "2008 < length y" "length y \<le> Q_WIRE_MSG_MAX"
    and "q_wire_compress True (QByteVec y) = Inr z" "z \<noteq> y"
  shows "q_wire_uncompress_payload True (drop 8 z) (y ! 0 = 0) = Inr (Some (drop 8 y)) \<and>
    take 4 z = [y ! 0, y ! 1, 1, y ! 3] \<and> get32 (y ! 0 = 0) (drop 4 z) = length z \<and>
    get32 (y ! 0 = 0) (drop 8 z) = length y"
  using assms by (rule compressed_frame)

theorem compress_roundtrip_witness:
  "\<exists>z. q_wire_compress True (QByteVec (replicate 2009 0)) = Inr z \<and> length z \<le> 1004 \<and>
     q_wire_uncompress_payload True (drop 8 z) True = Inr (Some (replicate 2001 0))"
proof -
  let ?y = "replicate 2009 (0 :: u8)"
  obtain st where st: "lz_loop ?y (length ?y div 2) (lz_init ?y) = Some st" using zeros_compress by auto
  define z where "z = (let z = (c_z st)[c_c st := c_f st] in take 4 z @ put32 (?y ! 0 = 0) (length z) @ drop 8 z)"
  have eq: "q_wire_compress True (QByteVec ?y) = Inr z" using st by (simp add: q_wire_compress_def z_def Let_def)
  have "lz_visited ?y (length ?y div 2) st" using loop_visited [OF st start] .
  then have "length (c_z st) \<le> 1004" using compress_fits [OF _ st] by simp
  moreover have "12 \<le> length (c_z st)"
    using compress_tokens [OF _ st] by (auto simp: lz_init_def dest: arg_cong [where f = length])
  ultimately have "length z \<le> 1004" by (simp add: z_def Let_def)
  moreover then have "z \<noteq> ?y" by auto
  ultimately show ?thesis using compress_roundtrip [of ?y z] eq by auto
qed

text \<open>
  C17. The compressor never writes outside its buffer of half the frame: in every state the loop passes
  through, given up or not, at most \<open>e = t / 2\<close> bytes have been written.
\<close>

theorem compress_buffer_bound:
  assumes "2008 < length y" "lz_visited y (length y div 2) st"
  shows "length (c_z st) \<le> length y div 2"
  using visited_room [OF assms(2)] room_length assms(1) by auto

theorem compress_buffer_bound_witness:
  "lz_visited (replicate 2009 0) 1004 (lz_init (replicate 2009 0)) \<and> length (c_z (lz_init (replicate 2009 0))) \<le> 1004"
  using compress_buffer_bound [of "replicate 2009 0" "lz_init (replicate 2009 0)"] lz_visited.start by simp

text \<open>
  C18. The decompressor answers every input, however corrupt: it rejects it with a domain error (or for want
  of memory), or returns exactly the number of bytes the frame claims, which is at most 257 for every two
  bytes of the token stream; it never reads a byte it has not written.
\<close>

theorem uncompress_total:
  "case q_wire_uncompress_payload mem pl be of
     Inl e \<Rightarrow> e = QE_DOMAIN \<or> e = QE_WSFULL
   | Inr None \<Rightarrow> False
   | Inr (Some out) \<Rightarrow> length out + 8 = get32 be pl \<and> out \<noteq> [] \<and> length out \<le> (length pl - 4) div 2 * 257"
proof -
  define usz where "usz = get32 be pl"
  have "safe un_init" "length (d_dst un_init) = 8" by (simp_all add: safe_def un_init_def)
  then have "case un_loop pl usz un_init of LzCorrupt \<Rightarrow> True | LzOob \<Rightarrow> False | LzOk st' \<Rightarrow> length (d_dst st') = usz" if "9 \<le> usz"
    using un_loop_total [of un_init usz pl] that by simp
  then show ?thesis
    unfolding q_wire_uncompress_payload_def Let_def usz_def [symmetric]
    by (auto split: lzres.splits)
qed

end
