(* ===== verification/WireValue.thy ===== *)
theory WireValue
  imports Prelude
begin

text \<open>
  The values the IPC codec carries. A heap object is a constructor application: an atom is its type, the
  64 bits of its payload union and the null bit of its header; a vector of fixed-width elements is its type,
  its attribute byte, the letter of an attached index and the bytes of its data area on a little-endian
  host; a symbol is its text, interning being injective. Builtin functions, views and foreign values are
  opaque (type parameter), the function values built from them are not.

  Also here: C's conversions between \<open>float\<close> and \<open>double\<close> on their bit patterns, and the attribute letters of
  \<^verbatim>\<open>qlang/ops/q_attr.c\<close>.
\<close>

section \<open>Bytes of words\<close>

definition le_bytes :: "nat \<Rightarrow> 'a :: len word \<Rightarrow> bytes" where
  "le_bytes n w = map (\<lambda>i. ucast (drop_bit (8 * i) w)) [0..<n]"

primrec le_word :: "bytes \<Rightarrow> 'a :: len word" where
  "le_word [] = 0"
| "le_word (b # bs) = ucast b OR push_bit 8 (le_word bs)"

lemma le_bytes_length [simp]: "length (le_bytes n w) = n"
  by (simp add: le_bytes_def)

lemma bit_le_word: "bit (le_word bs :: 'a :: len word) k \<longleftrightarrow> k < LENGTH('a) \<and> k div 8 < length bs \<and> bit (bs ! (k div 8)) (k mod 8)"
proof (induction bs arbitrary: k)
  case (Cons b bs)
  show ?case
  proof (cases "k < 8")
    case True
    then show ?thesis by (auto simp: bit_or_iff bit_unsigned_iff bit_push_bit_iff)
  next
    case False
    then obtain j where k: "k = j + 8" by (metis add.commute le_add_diff_inverse not_less)
    have "\<not> bit b k" using False bit_imp_le_length [of b k] by auto
    moreover have "k div 8 = Suc (j div 8)" by (simp add: k)
    ultimately show ?thesis using Cons [of j] by (auto simp: k bit_or_iff bit_unsigned_iff bit_push_bit_iff)
  qed
qed simp

lemma le_word_bytes: "8 * n = LENGTH('a) \<Longrightarrow> le_word (le_bytes n w) = w" for w :: "'a :: len word"
proof (rule bit_word_eqI)
  fix k assume *: "8 * n = LENGTH('a)" "k < LENGTH('a)"
  then have d: "k div 8 < n" by (simp add: less_mult_imp_div_less mult.commute)
  have "8 * (k div 8) + k mod 8 = k" by simp
  then have "bit (le_word (le_bytes n w) :: 'a word) k \<longleftrightarrow> k div 8 < n \<and> bit w k"
    using * by (simp add: bit_le_word le_bytes_def bit_unsigned_iff bit_drop_bit_eq)
  with d show "bit (le_word (le_bytes n w) :: 'a word) k = bit w k" by blast
qed

section \<open>Floats\<close>

fun hibit :: "nat \<Rightarrow> nat" where
  "hibit m = (if m \<le> 1 then 0 else Suc (hibit (m div 2)))"

declare hibit.simps [simp del]

text \<open>\<open>(double)f\<close> on the bit patterns; a signalling NaN comes out quiet.\<close>

definition widen :: "u32 \<Rightarrow> u64" where
  "widen w =
    (let n = unat w; s = n div 2 ^ 31; e = n div 2 ^ 23 mod 256; m = n mod 2 ^ 23
     in of_nat (s * 2 ^ 63 +
          (if e = 255 then 2047 * 2 ^ 52 + (if m = 0 then 0 else 2 ^ 51 + m mod 2 ^ 22 * 2 ^ 29)
           else if e = 0 then (if m = 0 then 0 else (874 + hibit m) * 2 ^ 52 + (m - 2 ^ hibit m) * 2 ^ (52 - hibit m))
           else (e + 896) * 2 ^ 52 + m * 2 ^ 29)))"

text \<open>\<open>(float)d\<close>, to the nearest, ties to even, overflow to infinity.\<close>

definition rne :: "nat \<Rightarrow> nat \<Rightarrow> nat" where
  "rne s k = (let q = s div 2 ^ k; r = s mod 2 ^ k; h = 2 ^ (k - 1)
              in if r > h \<or> (r = h \<and> odd q) then q + 1 else q)"

definition narrow :: "u64 \<Rightarrow> u32" where
  "narrow d =
    (let n = unat d; s = n div 2 ^ 63; e = n div 2 ^ 52 mod 2048; m = n mod 2 ^ 52
     in of_nat (s * 2 ^ 31 +
          (if e = 2047 then 255 * 2 ^ 23 + (if m = 0 then 0 else 2 ^ 22 + m div 2 ^ 29 mod 2 ^ 22)
           else (let k = (if e \<ge> 897 then 29 else 926 - max e 1)
                 in min (255 * 2 ^ 23) ((e - 897) * 2 ^ 23 + rne (if e = 0 then m else 2 ^ 52 + m) k)))))"

definition is_nan32 :: "u32 \<Rightarrow> bool" where
  "is_nan32 w \<longleftrightarrow> unat w div 2 ^ 23 mod 256 = 255 \<and> unat w mod 2 ^ 23 \<noteq> 0"

definition is_nan64 :: "u64 \<Rightarrow> bool" where
  "is_nan64 w \<longleftrightarrow> unat w div 2 ^ 52 mod 2048 = 2047 \<and> unat w mod 2 ^ 52 \<noteq> 0"

abbreviation NULL_F32 :: u32 where "NULL_F32 \<equiv> 4290772992"
abbreviation NULL_F64 :: u64 where "NULL_F64 \<equiv> 18444492273895866368"

text \<open>Quiet NaNs, zeros, subnormals, normals and infinities all survive the way to \<open>double\<close> and back.\<close>

definition quiet32 :: "u32 \<Rightarrow> bool" where
  "quiet32 w \<longleftrightarrow> \<not> is_nan32 w \<or> 2 ^ 22 \<le> unat w mod 2 ^ 23"

lemma pack_fields:
  fixes b c s e m :: nat
  assumes "m < b" "e < c"
  shows "(s * (c * b) + e * b + m) mod b = m" "(s * (c * b) + e * b + m) div b mod c = e" "(s * (c * b) + e * b + m) div (c * b) = s"
proof -
  have v: "s * (c * b) + e * b + m = (s * c + e) * b + m" by (simp add: algebra_simps)
  have d: "(s * (c * b) + e * b + m) div b = s * c + e" unfolding v using assms(1) by simp
  show "(s * (c * b) + e * b + m) mod b = m" unfolding v using assms(1) by simp
  show "(s * (c * b) + e * b + m) div b mod c = e" unfolding d using assms(2) by simp
  have "(s * (c * b) + e * b + m) div (c * b) = (s * (c * b) + e * b + m) div b div c" by (simp add: div_mult2_eq mult.commute)
  then show "(s * (c * b) + e * b + m) div (c * b) = s" unfolding d using assms(2) by simp
qed

lemma rne_exact: "0 < k \<Longrightarrow> rne (q * 2 ^ k) k = q"
  by (simp add: rne_def Let_def)

lemma rne_zero: "rne 0 k = 0"
  by (simp add: rne_def Let_def)

lemma hibit_bounds: "0 < m \<Longrightarrow> 2 ^ hibit m \<le> m \<and> m < 2 ^ Suc (hibit m)"
proof (induction m rule: hibit.induct)
  case (1 m)
  show ?case
  proof (cases "m \<le> 1")
    case False
    then have IH: "2 ^ hibit (m div 2) \<le> m div 2" "m div 2 < 2 ^ Suc (hibit (m div 2))" using 1 by auto
    have "2 * (m div 2) \<le> m" "m < 2 * (m div 2) + 2" by auto
    then show ?thesis using False IH by (simp add: hibit.simps [of m])
  qed (use 1 in \<open>simp add: hibit.simps [of m]\<close>)
qed

text \<open>What the conversions do to sign, exponent and mantissa.\<close>

definition narrow_parts :: "nat \<Rightarrow> nat \<Rightarrow> nat" where
  "narrow_parts e m =
    (if e = 2047 then 255 * 2 ^ 23 + (if m = 0 then 0 else 2 ^ 22 + m div 2 ^ 29 mod 2 ^ 22)
     else (let k = (if e \<ge> 897 then 29 else 926 - max e 1)
           in min (255 * 2 ^ 23) ((e - 897) * 2 ^ 23 + rne (if e = 0 then m else 2 ^ 52 + m) k)))"

lemma narrow_fields:
  assumes "s < 2" "e < 2048" "m < 2 ^ 52"
  shows "narrow (of_nat (s * 2 ^ 63 + e * 2 ^ 52 + m)) = of_nat (s * 2 ^ 31 + narrow_parts e m)"
proof -
  let ?v = "s * 2 ^ 63 + e * 2 ^ 52 + m"
  have p: "s * 2 ^ 63 + e * 2 ^ 52 + m = s * (2048 * 2 ^ 52) + e * 2 ^ 52 + m" by simp
  have "e * 2 ^ 52 \<le> 2047 * 2 ^ 52" using assms(2) by simp
  moreover have "s * 2 ^ 63 \<le> 1 * 2 ^ 63" using assms(1) by simp
  ultimately have "?v < 2 ^ 64" using assms(3) by simp
  then have u: "unat (of_nat ?v :: u64) = ?v" unfolding unat_of_nat by (intro mod_less) simp
  note f = pack_fields [OF assms(3,2), of s, folded p]
  have "(2 :: nat) ^ 63 = 2048 * 2 ^ 52" by simp
  then show ?thesis
    using f unfolding narrow_def narrow_parts_def Let_def u by (simp only:)
qed

lemma widen_fields:
  fixes s e m :: nat
  assumes "s < 2" "e < 256" "m < 2 ^ 23"
  shows "widen (of_nat (s * 2 ^ 31 + e * 2 ^ 23 + m)) =
    of_nat (s * 2 ^ 63 +
      (if e = 255 then 2047 * 2 ^ 52 + (if m = 0 then 0 else 2 ^ 51 + m mod 2 ^ 22 * 2 ^ 29)
       else if e = 0 then (if m = 0 then 0 else (874 + hibit m) * 2 ^ 52 + (m - 2 ^ hibit m) * 2 ^ (52 - hibit m))
       else (e + 896) * 2 ^ 52 + m * 2 ^ 29))"
proof -
  let ?v = "s * 2 ^ 31 + e * 2 ^ 23 + m"
  have p: "s * 2 ^ 31 + e * 2 ^ 23 + m = s * (256 * 2 ^ 23) + e * 2 ^ 23 + m" by simp
  have "e * 2 ^ 23 \<le> 255 * 2 ^ 23" using assms(2) by simp
  moreover have "s * 2 ^ 31 \<le> 1 * 2 ^ 31" using assms(1) by simp
  ultimately have "?v < 2 ^ 32" using assms(3) by simp
  then have u: "unat (of_nat ?v :: u32) = ?v" unfolding unat_of_nat by (intro mod_less) simp
  note f = pack_fields [OF assms(3,2), of s, folded p]
  have "(2 :: nat) ^ 31 = 256 * 2 ^ 23" by simp
  then show ?thesis
    using f unfolding widen_def Let_def u by (simp only:)
qed

lemma subnormal_split:
  fixes m :: nat
  assumes "0 < m" "m < 2 ^ 23"
  shows "hibit m \<le> 22" "(m - 2 ^ hibit m) * 2 ^ (52 - hibit m) < 2 ^ 52"
    "2 ^ 52 + (m - 2 ^ hibit m) * 2 ^ (52 - hibit m) = m * 2 ^ (52 - hibit m)"
proof -
  let ?h = "hibit m"
  have b: "2 ^ ?h \<le> m" "m < 2 ^ Suc ?h" using hibit_bounds [OF assms(1)] by auto
  have "(2 :: nat) ^ ?h < 2 ^ 23" using b(1) assms(2) by linarith
  then have "?h < 23" by (rule power_less_imp_less_exp [rotated]) simp
  then show h: "?h \<le> 22" by simp
  have p: "(2 :: nat) ^ ?h * 2 ^ (52 - ?h) = 2 ^ 52" using h by (simp flip: power_add)
  have "m - 2 ^ ?h < 2 ^ ?h" using b by simp
  then have "(m - 2 ^ ?h) * 2 ^ (52 - ?h) < 2 ^ ?h * 2 ^ (52 - ?h)" by (intro mult_strict_right_mono) auto
  then show "(m - 2 ^ ?h) * 2 ^ (52 - ?h) < 2 ^ 52" unfolding p .
  have "m * 2 ^ (52 - ?h) = (2 ^ ?h + (m - 2 ^ ?h)) * 2 ^ (52 - ?h)" using b(1) by simp
  also have "\<dots> = 2 ^ 52 + (m - 2 ^ ?h) * 2 ^ (52 - ?h)" unfolding add_mult_distrib p ..
  finally show "2 ^ 52 + (m - 2 ^ ?h) * 2 ^ (52 - ?h) = m * 2 ^ (52 - ?h)" ..
qed

lemma narrow_widen_parts:
  fixes s e m :: nat
  assumes s: "s < 2" and e: "e < 256" and m: "m < 2 ^ 23" and q: "e = 255 \<and> m \<noteq> 0 \<longrightarrow> 2 ^ 22 \<le> m"
  shows "narrow (widen (of_nat (s * 2 ^ 31 + e * 2 ^ 23 + m))) = of_nat (s * 2 ^ 31 + e * 2 ^ 23 + m)"
proof -
  have "\<exists>E M. E < 2048 \<and> M < 2 ^ 52 \<and> widen (of_nat (s * 2 ^ 31 + e * 2 ^ 23 + m)) = of_nat (s * 2 ^ 63 + E * 2 ^ 52 + M) \<and>
      narrow_parts E M = e * 2 ^ 23 + m"
  proof (cases "e = 255")
    case True
    show ?thesis
    proof (cases "m = 0")
      case m0: True
      then show ?thesis using widen_fields [OF s e m] True
        by (intro exI [of _ 2047] exI [of _ 0]) (simp add: narrow_parts_def)
    next
      case False
      have m22: "m = 2 ^ 22 + m mod 2 ^ 22"
        using q False True m by (simp add: le_mod_geq)
      define r where "r = m mod 2 ^ 22"
      have r: "r < 2 ^ 22" by (simp add: r_def)
      have "(2 ^ 51 + r * 2 ^ 29) div 2 ^ 29 = 2 ^ 22 + r" by simp
      then have "narrow_parts 2047 (2 ^ 51 + r * 2 ^ 29) = 255 * 2 ^ 23 + (2 ^ 22 + r)"
        using r by (simp add: narrow_parts_def)
      moreover have "2 ^ 51 + r * 2 ^ 29 < 2 ^ 52" using r by simp
      ultimately show ?thesis using widen_fields [OF s e m] True False m22 [folded r_def]
        by (intro exI [of _ 2047] exI [of _ "2 ^ 51 + r * 2 ^ 29"]) (simp add: r_def [symmetric])
    qed
  next
    case e255: False
    show ?thesis
    proof (cases "e = 0")
      case True
      show ?thesis
      proof (cases "m = 0")
        case m0: True
        then show ?thesis using widen_fields [OF s e m] True
          by (intro exI [of _ 0] exI [of _ 0]) (simp add: narrow_parts_def rne_zero)
      next
        case False
        define h where "h = hibit m"
        define M where "M = (m - 2 ^ h) * 2 ^ (52 - h)"
        have h: "h \<le> 22" "M < 2 ^ 52" "2 ^ 52 + M = m * 2 ^ (52 - h)"
          using subnormal_split [of m] False m by (simp_all add: h_def M_def)
        have "narrow_parts (874 + h) M = min (255 * 2 ^ 23) (rne (2 ^ 52 + M) (52 - h))"
          using h(1) by (simp add: narrow_parts_def Let_def)
        also have "rne (2 ^ 52 + M) (52 - h) = m" unfolding h(3) using h(1) by (intro rne_exact) simp
        finally have "narrow_parts (874 + h) M = m" using m by simp
        then show ?thesis using widen_fields [OF s e m] True False h
          by (intro exI [of _ "874 + h"] exI [of _ M]) (simp add: h_def [symmetric] M_def [symmetric])
      qed
    next
      case False
      define M where "M = m * 2 ^ 29"
      have "2 ^ 52 + M = (2 ^ 23 + m) * 2 ^ 29" by (simp add: M_def)
      then have "rne (2 ^ 52 + M) 29 = 2 ^ 23 + m" using rne_exact [of 29 "2 ^ 23 + m"] by simp
      moreover have "narrow_parts (e + 896) M = min (255 * 2 ^ 23) ((e - 1) * 2 ^ 23 + rne (2 ^ 52 + M) 29)"
        using False e e255 by (simp add: narrow_parts_def Let_def)
      moreover have "(e - 1) * 2 ^ 23 + (2 ^ 23 + m) = e * 2 ^ 23 + m" using False by (cases e) auto
      moreover have "e * 2 ^ 23 + m \<le> 255 * 2 ^ 23"
        using e e255 m mult_right_mono [of e 254 "2 ^ 23 :: nat"] by simp
      ultimately have "narrow_parts (e + 896) M = e * 2 ^ 23 + m" by simp
      moreover have "M < 2 ^ 52" using m by (simp add: M_def)
      ultimately show ?thesis using widen_fields [OF s e m] False e e255
        by (intro exI [of _ "e + 896"] exI [of _ M]) (simp add: M_def)
    qed
  qed
  then show ?thesis using narrow_fields [OF s] by (metis add.assoc)
qed

lemma narrow_widen: "quiet32 w \<Longrightarrow> narrow (widen w) = w"
proof -
  assume q: "quiet32 w"
  define n where "n = unat w"
  define s where "s = n div 2 ^ 31"
  define e where "e = n div 2 ^ 23 mod 256"
  define m where "m = n mod 2 ^ 23"
  have "n < 2 ^ 32" unfolding n_def using unsigned_less [of w, where ?'a = nat] by simp
  then have s: "s < 2" unfolding s_def by (simp add: div_less_iff_less_mult)
  have "n div 2 ^ 23 div 256 = s" unfolding s_def by (simp add: div_mult2_eq [symmetric])
  then have "n div 2 ^ 23 = s * 256 + e" unfolding e_def using div_mult_mod_eq [of "n div 2 ^ 23" 256] by simp
  moreover have "n = n div 2 ^ 23 * 2 ^ 23 + m" unfolding m_def using div_mult_mod_eq [of n "2 ^ 23"] by simp
  ultimately have n: "n = s * 2 ^ 31 + e * 2 ^ 23 + m" by simp
  have "e = 255 \<and> m \<noteq> 0 \<longrightarrow> 2 ^ 22 \<le> m"
    using q unfolding quiet32_def is_nan32_def e_def m_def n_def by auto
  moreover have "e < 256" "m < 2 ^ 23" by (simp_all add: e_def m_def)
  ultimately have "narrow (widen (of_nat n)) = of_nat n" unfolding n by (intro narrow_widen_parts s)
  then show ?thesis by (simp add: n_def)
qed

section \<open>Types and tags\<close>

text \<open>The types with fixed-width elements; \<open>RAY_SYM\<close>, \<open>RAY_STR\<close> and \<open>RAY_LIST\<close> have constructors of their own below.\<close>

datatype ftype =
    BOOL | GUID | BYTE_ONLY | I16 | I32 | I64 | F32 | F64 | CHARV | TIMESTAMP | MONTH | DATE | DATETIME
  | TIMESPAN | MINUTE | SECOND | TIME

fun ftag :: "ftype \<Rightarrow> u8" where
  "ftag BOOL = 1" | "ftag GUID = 2" | "ftag BYTE_ONLY = 4" | "ftag I16 = 5" | "ftag I32 = 6" | "ftag I64 = 7"
| "ftag F32 = 8" | "ftag F64 = 9" | "ftag CHARV = 10" | "ftag TIMESTAMP = 12" | "ftag MONTH = 13" | "ftag DATE = 14"
| "ftag DATETIME = 15" | "ftag TIMESPAN = 16" | "ftag MINUTE = 17" | "ftag SECOND = 18" | "ftag TIME = 19"

definition all_ftypes :: "ftype list" where
  "all_ftypes = [BOOL, GUID, BYTE_ONLY, I16, I32, I64, F32, F64, CHARV, TIMESTAMP, MONTH, DATE, DATETIME,
     TIMESPAN, MINUTE, SECOND, TIME]"

definition ftype_of :: "u8 \<Rightarrow> ftype option" where
  "ftype_of k = find (\<lambda>t. ftag t = k) all_ftypes"

abbreviation RAY_SYM :: u8 where "RAY_SYM \<equiv> 11"

fun ray_type_sizes :: "ftype \<Rightarrow> nat" where
  "ray_type_sizes BOOL = 1" | "ray_type_sizes GUID = 16" | "ray_type_sizes BYTE_ONLY = 1" | "ray_type_sizes I16 = 2"
| "ray_type_sizes I32 = 4" | "ray_type_sizes I64 = 8" | "ray_type_sizes F32 = 4" | "ray_type_sizes F64 = 8"
| "ray_type_sizes TIMESTAMP = 8" | "ray_type_sizes MONTH = 4" | "ray_type_sizes DATE = 4" | "ray_type_sizes DATETIME = 8"
| "ray_type_sizes TIMESPAN = 8" | "ray_type_sizes MINUTE = 4" | "ray_type_sizes SECOND = 4" | "ray_type_sizes TIME = 4"
| "ray_type_sizes CHARV = 1"

lemma ftype_of_ftag [simp]: "ftype_of (ftag t) = Some t"
  by (cases t) (simp_all add: ftype_of_def all_ftypes_def)

lemma ftype_of_range: "ftype_of k = Some t \<Longrightarrow> k = ftag t"
  by (auto simp: ftype_of_def find_Some_iff)

lemma ray_type_sizes_pos [simp]: "0 < ray_type_sizes t"
  by (cases t) simp_all

section \<open>Values\<close>

datatype letter = AttrS | AttrU | AttrP | AttrG

datatype valence = UNARY | BINARY | VARY

datatype 'f ray =
    RNil
  | RNull
  | RHole
  | RErr bytes
  | RAtom ftype u64 bool
  | RGuid bytes
  | RStr bytes
  | RSym bytes bool
  | RVec ftype u8 "letter option" bytes
  | RStrVec u8 "bytes list"
  | RSymVec u8 "letter option" "bytes list"
  | RList u8 "'f ray list"
  | RDict u8 bool "'f ray" "'f ray"
  | RTable u8 "bytes list" "'f ray list" "bytes option"
  | RFn valence 'f
  | REngineLambda u8 "'f ray" "'f ray"
  | RIter u8
  | RLambda bytes bytes
  | RProj "'f ray" "'f ray option list"
  | RComp "'f ray list"
  | RDeriv u8 "'f ray"
  | RKfn bytes bytes int
  | RCarrier 'f
  | ROther

text \<open>
  In order: a null C pointer, \<open>(::)\<close>, the projection hole, an error with its text, an atom (type, payload union,
  null bit of the header), a guid atom, an internal string atom, a symbol atom (text, quoted), a fixed-width
  vector (type, attribute byte, letter of its index, data bytes), a string column, a symbol vector, a general
  list, a dictionary (attribute byte, provider mark, keys, values), a table (attribute byte, column names,
  columns, directory of a mapped splay), a builtin function, an engine lambda, the carriers of function values
  (iterator, lambda by namespace and source, projection, composition, derived function, C function by library,
  name and rank; views and foreign values), and the blocks that are no q values.
\<close>

abbreviation SORTED :: u8 where "SORTED \<equiv> 32"
abbreviation HAS_NULLS :: u8 where "HAS_NULLS \<equiv> 64"
abbreviation SLICE :: u8 where "SLICE \<equiv> 16"
abbreviation ARENA :: u8 where "ARENA \<equiv> 128"

section \<open>Attributes\<close>

definition vec_letter :: "u8 \<Rightarrow> letter option \<Rightarrow> letter option" where
  "vec_letter a ix = (case ix of Some l \<Rightarrow> Some l | None \<Rightarrow> if a AND SORTED \<noteq> 0 then Some AttrS else None)"

fun q_attr_letter :: "'f ray \<Rightarrow> letter option" where
  "q_attr_letter (RTable a _ _ _) = vec_letter a None"
| "q_attr_letter (RDict a _ _ _) = vec_letter a None"
| "q_attr_letter (RList a _) = vec_letter a None"
| "q_attr_letter (RVec _ a ix _) = vec_letter a ix"
| "q_attr_letter (RSymVec a ix _) = vec_letter a ix"
| "q_attr_letter (RStrVec a _) = vec_letter a None"
| "q_attr_letter _ = None"

definition letter_byte :: "letter option \<Rightarrow> u8" where
  "letter_byte l = (case l of None \<Rightarrow> 0 | Some AttrS \<Rightarrow> 1 | Some AttrU \<Rightarrow> 2 | Some AttrP \<Rightarrow> 3 | Some AttrG \<Rightarrow> 4)"

definition q_attr_byte :: "'f ray \<Rightarrow> u8" where
  "q_attr_byte v = letter_byte (q_attr_letter v)"

definition stamp :: "u8 \<Rightarrow> u8" where
  "stamp a = (if a AND (SLICE OR ARENA) = 0 then a OR SORTED else a)"

text \<open>The vouched sorted mark; any other letter is dropped, and so is the mark on what cannot carry it.\<close>

fun q_attr_stamp_trusted :: "'f ray \<Rightarrow> letter \<Rightarrow> 'f ray" where
  "q_attr_stamp_trusted (RVec t a ix p) AttrS = RVec t (stamp a) ix p"
| "q_attr_stamp_trusted (RSymVec a ix s) AttrS = RSymVec (stamp a) ix s"
| "q_attr_stamp_trusted (RStrVec a s) AttrS = RStrVec (stamp a) s"
| "q_attr_stamp_trusted (RList a xs) AttrS = RList (stamp a) xs"
| "q_attr_stamp_trusted (RTable a n c d) AttrS = RTable (stamp a) n c d"
| "q_attr_stamp_trusted (RDict a m k v) AttrS = RDict (stamp a) m k v"
| "q_attr_stamp_trusted v _ = v"

text \<open>
  \<open>q_attr_rebuild\<close> and \<open>q_attr_stamp_byte\<close>; building the index of \<open>u\<close>, \<open>p\<close> and \<open>g\<close> (\<open>attr_build\<close>) is the
  parameter \<open>build\<close>: the indexed vector, or the error class it fails with. A letter the data contradicts is
  dropped.
\<close>

definition q_attr_rebuild :: "('f ray \<Rightarrow> letter \<Rightarrow> 'f ray qres) \<Rightarrow> 'f ray \<Rightarrow> letter \<Rightarrow> 'f ray qres" where
  "q_attr_rebuild build v l =
    (if l = AttrS then Inr (q_attr_stamp_trusted v AttrS)
     else (case build v l of
             Inr v' \<Rightarrow> Inr v'
           | Inl e \<Rightarrow> if e = QE_TYPE \<or> e = QE_DOMAIN then Inr v else Inl e))"

definition q_attr_stamp_byte :: "('f ray \<Rightarrow> letter \<Rightarrow> 'f ray qres) \<Rightarrow> 'f ray \<Rightarrow> u8 \<Rightarrow> 'f ray qres" where
  "q_attr_stamp_byte build v byte =
    (if byte = 1 then q_attr_rebuild build v AttrS
     else if byte = 2 then q_attr_rebuild build v AttrU
     else if byte = 3 then q_attr_rebuild build v AttrP
     else if byte = 4 then q_attr_rebuild build v AttrG
     else Inr v)"

section \<open>Nulls and collapsing\<close>

abbreviation NULL_I16 :: u16 where "NULL_I16 \<equiv> 32768"
abbreviation NULL_I32 :: u32 where "NULL_I32 \<equiv> 2147483648"
abbreviation NULL_I64 :: u64 where "NULL_I64 \<equiv> 9223372036854775808"

abbreviation temporal32 :: "ftype \<Rightarrow> bool" where
  "temporal32 t \<equiv> t \<in> {MONTH, DATE, MINUTE, SECOND, TIME}"

abbreviation temporal64 :: "ftype \<Rightarrow> bool" where
  "temporal64 t \<equiv> t \<in> {TIMESTAMP, TIMESPAN}"

text \<open>\<open>ray_atom_is_null_fn\<close> on the payload and the null bit of an atom (guid atoms apart).\<close>

definition atom_is_null :: "ftype \<Rightarrow> u64 \<Rightarrow> bool \<Rightarrow> bool" where
  "atom_is_null t w aux =
    (if t = F64 \<or> t = DATETIME then is_nan64 w
     else if t = F32 then is_nan32 (narrow w)
     else if t = I64 \<or> temporal64 t then w = NULL_I64
     else if t = I32 \<or> temporal32 t then (ucast w :: u32) = NULL_I32
     else if t = I16 then (ucast w :: u16) = NULL_I16
     else if t = CHARV then (ucast w :: u8) = 32
     else aux)"

text \<open>The element a vector stores for an atom, and the sentinel \<open>ray_vec_set_null\<close> writes, if the type has one.\<close>

definition elem_bytes :: "ftype \<Rightarrow> u64 \<Rightarrow> bytes" where
  "elem_bytes t w = (if t = F32 then le_bytes 4 (narrow w) else le_bytes (ray_type_sizes t) w)"

definition null_bytes :: "ftype \<Rightarrow> bytes option" where
  "null_bytes t =
    (if t = F64 \<or> t = DATETIME then Some (le_bytes 8 NULL_F64)
     else if t = F32 then Some (le_bytes 4 NULL_F32)
     else if t = I64 \<or> temporal64 t then Some (le_bytes 8 NULL_I64)
     else if t = I32 \<or> temporal32 t then Some (le_bytes 4 NULL_I32)
     else if t = I16 then Some (le_bytes 2 NULL_I16)
     else if t = GUID then Some (replicate 16 0)
     else None)"

fun atom_type :: "'f ray \<Rightarrow> u8 option" where
  "atom_type (RAtom t _ _) = Some (ftag t)"
| "atom_type (RGuid _) = Some (ftag GUID)"
| "atom_type (RSym _ _) = Some RAY_SYM"
| "atom_type _ = None"

text \<open>What one atom appends to the vector: the bytes of the element and whether it marks the vector nullable.\<close>

fun collapse_cell :: "'f ray \<Rightarrow> bytes \<times> bool" where
  "collapse_cell (RAtom t w aux) =
    (if atom_is_null t w aux
     then (case null_bytes t of Some b \<Rightarrow> (b, True) | None \<Rightarrow> (elem_bytes t w, False))
     else (elem_bytes t w, False))"
| "collapse_cell (RGuid g) = (g, list_all (\<lambda>b. b = 0) g)"
| "collapse_cell _ = ([], False)"

fun sym_text :: "'f ray \<Rightarrow> bytes" where
  "sym_text (RSym s _) = s"
| "sym_text _ = []"

definition atom_run_collapse :: "'f ray \<Rightarrow> 'f ray" where
  "atom_run_collapse l =
    (case l of
       RList a (x # xs) \<Rightarrow>
         (case atom_type x of
            None \<Rightarrow> l
          | Some k \<Rightarrow>
              if list_all (\<lambda>y. atom_type y = Some k) xs
              then (case ftype_of k of
                      None \<Rightarrow> RSymVec 0 None (map sym_text (x # xs))
                    | Some t \<Rightarrow>
                        RVec t (if list_ex (\<lambda>y. snd (collapse_cell y)) (x # xs) then HAS_NULLS else 0) None
                          (concat (map (\<lambda>y. fst (collapse_cell y)) (x # xs))))
              else l)
     | _ \<Rightarrow> l)"

text \<open>
  \<open>q_list_collapse\<close>; turning a run of like dictionaries into the table they spell (\<open>dict_rows_table\<close>) is the
  parameter \<open>rows\<close>, \<open>None\<close> when they are not such a run.
\<close>

definition q_list_collapse :: "('f ray list \<Rightarrow> 'f ray qres option) \<Rightarrow> 'f ray \<Rightarrow> 'f ray qres" where
  "q_list_collapse rows l =
    (case l of
       RList a (RDict b m k v # xs) \<Rightarrow>
         (case rows (RDict b m k v # xs) of Some r \<Rightarrow> r | None \<Rightarrow> Inr (atom_run_collapse l))
     | _ \<Rightarrow> Inr (atom_run_collapse l))"

fun is_list :: "'f ray \<Rightarrow> bool" where
  "is_list (RList _ _) = True"
| "is_list _ = False"

section \<open>Counting\<close>

text \<open>\<open>ray_table_nrows\<close> and the counts \<open>rd_obj\<close> compares, \<open>None\<close> for what is neither vector, list nor table; the first
  column of a table is one of these.\<close>

fun vec_len :: "'f ray \<Rightarrow> nat option" where
  "vec_len (RVec t a ix p) = Some (length p div ray_type_sizes t)"
| "vec_len (RStrVec a s) = Some (length s)"
| "vec_len (RSymVec a ix s) = Some (length s)"
| "vec_len (RList a xs) = Some (length xs)"
| "vec_len (RTable a n c d) = (case c of [] \<Rightarrow> Some 0 | x # _ \<Rightarrow> vec_len x)"
| "vec_len _ = None"

end
