(* ===== verification/WireWrite.thy ===== *)
theory WireWrite
  imports WireValue WireLz
begin

text \<open>
  The writer of the IPC codec: \<^verbatim>\<open>src/qlang/net/q_wire.c\<close> from the buffer primitives to \<open>q_wire_serialize\<close> and
  \<open>q_wire_serialize_len\<close>. An emitter maps the buffer to a success flag and the new buffer; the \<open>||\<close> chains of
  the code are sequences of emitters that stop at the first failure. The recursion of \<open>q_wire_write_obj\<close> is on the
  nesting depth still allowed. Enumerations (type 20), which the code turns into plain values first, are not
  among the values; allocations succeed.

  Shown: the writer is append-only, so that measuring a value (\<open>-22!\<close>) gives exactly the length of its frame,
  and the buffer is never filled beyond its capacity.
\<close>

section \<open>The environment\<close>

text \<open>Errors are their texts, as \<open>q_err_text\<close> gives them and the wire carries them.\<close>

type_synonym 'a wres = "bytes + 'a"

fun q_err :: "q_err_e \<Rightarrow> bytes" where
  "q_err QE_TYPE = lit ''type''" | "q_err QE_LENGTH = lit ''length''" | "q_err QE_RANK = lit ''rank''"
| "q_err QE_DOMAIN = lit ''domain''" | "q_err QE_LIMIT = lit ''limit''" | "q_err QE_NYI = lit ''nyi''"
| "q_err QE_WSFULL = lit ''wsfull''" | "q_err QE_OOM = lit ''oom''" | "q_err QE_NAME = lit ''name''"
| "q_err QE_BADFUNC = lit ''badfunc''"

fun as_text :: "'a qres \<Rightarrow> 'a wres" where
  "as_text (Inl e) = Inl (q_err e)"
| "as_text (Inr v) = Inr v"

text \<open>
  What the codec asks of the rest of the system: whether a q runtime is installed; the table of a run of
  dictionaries; index building; the registry (kdb code of a builtin and back, iterators, names); the native
  table; loaded C functions; parsing and evaluating a lambda literal in a namespace (\<open>None\<close>: it does not parse or
  is no lambda literal); application, projection and composition; the mapped and provider tables.
\<close>

record 'f wenv =
  e_q :: bool
  e_rows :: "'f ray list \<Rightarrow> 'f ray qres option"
  e_build :: "'f ray \<Rightarrow> letter \<Rightarrow> 'f ray qres"
  e_op_of :: "'f \<Rightarrow> (bool \<times> u8) option"
  e_native_name :: "'f \<Rightarrow> (bytes \<times> int) option"
  e_writer_hook :: "'f \<Rightarrow> bytes option"
  e_fn_name :: "'f \<Rightarrow> bytes option"
  e_op_value :: "u8 \<Rightarrow> bool \<Rightarrow> 'f ray option"
  e_iter_value :: "u8 \<Rightarrow> 'f ray option"
  e_native_get :: "bytes \<Rightarrow> int \<Rightarrow> 'f ray option"
  e_dl_loaded :: "bytes \<Rightarrow> bytes \<Rightarrow> int \<Rightarrow> 'f ray option"
  e_reader_hook :: "bytes \<Rightarrow> 'f ray option"
  e_lookup :: "bytes \<Rightarrow> bool \<Rightarrow> (valence \<times> 'f ray) option"
  e_resolve :: "bytes \<Rightarrow> 'f ray option"
  e_ctx_ok :: "bytes \<Rightarrow> bool"
  e_lambda :: "bytes \<Rightarrow> bytes \<Rightarrow> 'f ray wres option"
  e_apply :: "'f ray \<Rightarrow> 'f ray list \<Rightarrow> 'f ray wres"
  e_compose :: "'f ray list \<Rightarrow> 'f ray wres"
  e_proj :: "'f ray \<Rightarrow> 'f ray option list \<Rightarrow> 'f ray wres"
  e_flip :: "bytes list \<Rightarrow> bytes \<Rightarrow> 'f ray option"
  e_provider_flip :: "bytes list \<Rightarrow> bytes \<Rightarrow> 'f ray option"

section \<open>The buffer\<close>

record wbuf =
  wb_p :: bytes
  wb_len :: nat
  wb_cap :: nat
  wb_err :: "bytes option"
  wb_serde :: bool
  wb_measure :: bool

type_synonym emit = "wbuf \<Rightarrow> bool \<times> wbuf"

definition wbuf_fail :: "q_err_e \<Rightarrow> emit" where
  "wbuf_fail e b = (False, if wb_err b = None then b\<lparr>wb_err := Some (q_err e)\<rparr> else b)"

definition wbuf_reserve :: "nat \<Rightarrow> wbuf \<Rightarrow> wbuf" where
  "wbuf_reserve need b =
    (if wb_len b + need \<le> wb_cap b then b
     else b\<lparr>wb_cap := grow_cap (if wb_cap b \<noteq> 0 then wb_cap b else 64) (wb_len b + need)\<rparr>)"

definition w_raw :: "bytes \<Rightarrow> emit" where
  "w_raw src b =
    (if wb_measure b then (True, b\<lparr>wb_len := wb_len b + length src\<rparr>)
     else (let b = wbuf_reserve (length src) b
           in (True, b\<lparr>wb_p := wb_p b @ src, wb_len := wb_len b + length src\<rparr>)))"

text \<open>\<open>f || g || ...\<close>, and the loops that stop at the first failure.\<close>

fun w_seq :: "emit list \<Rightarrow> emit" where
  "w_seq [] b = (True, b)"
| "w_seq (f # fs) b = (let (ok, b') = f b in if ok then w_seq fs b' else (False, b'))"

text \<open>An emitter that looks at the mode, and one behind the check \<open>if (b->err) return -1\<close>.\<close>

definition w_mode :: "(bool \<Rightarrow> emit) \<Rightarrow> emit" where
  "w_mode f b = f (wb_serde b) b"

definition w_guard :: "emit \<Rightarrow> emit" where
  "w_guard f b = (if wb_err b \<noteq> None then (False, b) else f b)"

definition w_u8 :: "u8 \<Rightarrow> emit" where
  "w_u8 v = w_raw [v]"

definition w_i16 :: "u16 \<Rightarrow> emit" where
  "w_i16 v = w_raw [ucast v, ucast (drop_bit 8 v)]"

definition w_i32 :: "u32 \<Rightarrow> emit" where
  "w_i32 u = w_raw [ucast u, ucast (drop_bit 8 u), ucast (drop_bit 16 u), ucast (drop_bit 24 u)]"

definition w_i64 :: "u64 \<Rightarrow> emit" where
  "w_i64 u = w_raw (map (\<lambda>i. ucast (drop_bit (8 * i) u)) [0..<8])"

definition w_f64 :: "u64 \<Rightarrow> emit" where
  "w_f64 bits = w_i64 bits"

definition w_f32 :: "u32 \<Rightarrow> emit" where
  "w_f32 bits = w_i32 bits"

definition w_cstr :: "bytes \<Rightarrow> emit" where
  "w_cstr s = w_seq [w_raw s, w_u8 0]"

definition w_count :: "nat \<Rightarrow> emit" where
  "w_count n = (if n > 2147483647 then wbuf_fail QE_LIMIT else w_i32 (of_nat n))"

definition w_charvec :: "bytes \<Rightarrow> u8 \<Rightarrow> emit" where
  "w_charvec s attrs = w_seq [w_u8 10, w_u8 attrs, w_count (length s), w_raw s]"

definition w_prim :: "u8 \<Rightarrow> u8 \<Rightarrow> emit" where
  "w_prim cls code = w_seq [w_u8 cls, w_u8 code]"

definition w_lambda_ctx :: "bytes \<Rightarrow> emit" where
  "w_lambda_ctx ctx = w_cstr (case ctx of c # r \<Rightarrow> if c = 46 then r else ctx | [] \<Rightarrow> [])"

section \<open>C functions as lambdas\<close>

definition DL_PARAMS :: bytes where
  "DL_PARAMS = lit ''xyzabcde''"

definition dl_char :: "bool \<Rightarrow> u8 \<Rightarrow> bool" where
  "dl_char lib c \<longleftrightarrow>
    (97 \<le> c \<and> c \<le> 122) \<or> (65 \<le> c \<and> c \<le> 90) \<or> (48 \<le> c \<and> c \<le> 57) \<or> c = 95 \<or> c = 46 \<or>
    (lib \<and> (c = 58 \<or> c = 47))"

definition dl_name_len :: "bool \<Rightarrow> bytes \<Rightarrow> nat" where
  "dl_name_len lib p = length (takeWhile (dl_char lib) p)"

definition dl_library_native :: "bytes \<Rightarrow> bool" where
  "dl_library_native p \<longleftrightarrow> length p > 1 \<and> p ! 0 = 46"

fun dl_params_text :: "bytes \<Rightarrow> bytes" where
  "dl_params_text [] = []"
| "dl_params_text [c] = [c]"
| "dl_params_text (c # cs) = c # 59 # dl_params_text cs"

text \<open>The text \<^verbatim>\<open>{[x;y] (`LIB 2:(`FN;2))[x;y]}\<close>.\<close>

definition dl_call_text :: "bytes \<Rightarrow> bytes \<Rightarrow> nat \<Rightarrow> bytes" where
  "dl_call_text lib fn rank =
    (let ps = dl_params_text (take rank DL_PARAMS)
     in lit ''{['' @ ps @ lit ''] (`'' @ lib @ lit '' 2:(`'' @ fn @ lit '';'' @ [48 + of_nat rank] @ lit ''))['' @ ps @ lit '']}'')"

definition w_dl_call :: "bytes \<Rightarrow> bytes \<Rightarrow> int \<Rightarrow> emit" where
  "w_dl_call lib fn rank =
    (if rank < 1 \<or> rank > int (length DL_PARAMS) \<or> lib = [] \<or> fn = [] \<or>
        dl_name_len True lib \<noteq> length lib \<or> dl_name_len False fn \<noteq> length fn
     then wbuf_fail QE_NYI
     else w_seq [w_u8 100, w_u8 0, w_charvec (dl_call_text lib fn (nat rank)) 0])"

section \<open>Objects\<close>

text \<open>A carrier's object, in wire mode; \<open>obj\<close> writes a nested object.\<close>

fun write_carrier :: "('f ray \<Rightarrow> emit) \<Rightarrow> 'f ray \<Rightarrow> emit" where
  "write_carrier obj (RIter adv) = w_prim 103 adv"
| "write_carrier obj (RLambda ctx src) = w_seq [w_u8 100, w_lambda_ctx ctx, w_charvec src 0]"
| "write_carrier obj (RProj f args) =
    (let args = rev (dropWhile Option.is_none (rev args))
     in w_seq ([w_u8 104, w_i32 (of_nat (length args + 1)), obj f] @
               map (\<lambda>a. obj (case a of None \<Rightarrow> RNil | Some x \<Rightarrow> x)) args))"
| "write_carrier obj (RComp parts) = w_seq ([w_u8 105, w_i32 (of_nat (length parts))] @ map obj parts)"
| "write_carrier obj (RDeriv adv f) = w_seq [w_u8 (106 + adv), obj f]"
| "write_carrier obj (RKfn lib fn rank) = w_dl_call lib fn rank"
| "write_carrier obj _ = wbuf_fail QE_NYI"

text \<open>A builtin in wire mode: its kdb code, else a library native by its \<open>2:\<close> call.\<close>

definition write_fn :: "'f wenv \<Rightarrow> 'f \<Rightarrow> emit" where
  "write_fn env f =
    (case e_op_of env f of
       Some (monadic, code) \<Rightarrow> w_prim (if monadic then 101 else 102) code
     | None \<Rightarrow>
         (case e_native_name env f of
            Some (name, rank) \<Rightarrow> if dl_library_native name then w_dl_call (lit ''pq'') name rank else wbuf_fail QE_NYI
          | None \<Rightarrow> wbuf_fail QE_NYI))"

fun valence_tag :: "valence \<Rightarrow> u8" where
  "valence_tag UNARY = 101"
| "valence_tag BINARY = 102"
| "valence_tag VARY = 103"

text \<open>The extension records of serde mode; \<open>None\<close> when the value has none.\<close>

fun write_ext :: "'f wenv \<Rightarrow> ('f ray \<Rightarrow> emit) \<Rightarrow> 'f ray \<Rightarrow> emit option" where
  "write_ext env obj (RFn v f) =
    Some (w_seq [w_u8 200, w_u8 (valence_tag v),
      w_cstr (case e_writer_hook env f of
                Some n \<Rightarrow> n
              | None \<Rightarrow> (case e_native_name env f of
                           Some (n, _) \<Rightarrow> n
                         | None \<Rightarrow> (case e_fn_name env f of Some n \<Rightarrow> n | None \<Rightarrow> [])))])"
| "write_ext env obj (REngineLambda a ps bd) = Some (w_seq [w_u8 201, w_u8 a, obj ps, obj bd])"
| "write_ext env obj (RSym s quoted) = (if quoted then Some (w_seq [w_u8 203, w_cstr s]) else None)"
| "write_ext env obj (RAtom t w aux) =
    (if (t = BOOL \<or> t = BYTE_ONLY) \<and> atom_is_null t w aux then Some (w_seq [w_u8 204, w_u8 (- ftag t)]) else None)"
| "write_ext env obj (RStrVec a cells) =
    Some (w_seq ([w_u8 202, w_u8 (a AND HAS_NULLS), w_count (length cells)] @
      map (\<lambda>c. if length c > 2147483647 then wbuf_fail QE_LIMIT else w_seq [w_i32 (of_nat (length c)), w_raw c]) cells))"
| "write_ext env obj _ = None"

text \<open>The payload of an atom, read off the union at the width of its type.\<close>

definition write_payload :: "ftype \<Rightarrow> u64 \<Rightarrow> emit" where
  "write_payload t w =
    (if t = BOOL then w_u8 (if (ucast w :: u8) \<noteq> 0 then 1 else 0)
     else if t = BYTE_ONLY \<or> t = CHARV then w_u8 (ucast w)
     else if t = I16 then w_i16 (ucast w)
     else if t = I32 \<or> temporal32 t then w_i32 (ucast w)
     else if t = I64 \<or> temporal64 t then w_i64 w
     else if t = F32 then w_f32 (narrow w)
     else if t = F64 \<or> t = DATETIME then w_f64 w
     else wbuf_fail QE_NYI)"

definition write_str_atom :: "bytes \<Rightarrow> emit" where
  "write_str_atom p = w_mode (\<lambda>serde.
    if serde
    then (if length p > 2147483647 then wbuf_fail QE_LIMIT
          else w_seq [w_u8 205, w_i32 (of_nat (length p)), w_raw p])
    else (case p of [c] \<Rightarrow> w_seq [w_u8 246, w_u8 c] | _ \<Rightarrow> w_charvec p 0))"

text \<open>Dictionaries and tables.\<close>

definition write_dict :: "('f ray \<Rightarrow> emit) \<Rightarrow> u8 \<Rightarrow> bool \<Rightarrow> 'f ray \<Rightarrow> 'f ray \<Rightarrow> emit" where
  "write_dict obj a provider k v =
    w_seq ((if provider then [w_u8 98, w_u8 0, w_u8 99]
            else [w_u8 (if a AND SORTED \<noteq> 0 then 127 else 99)]) @ [obj k, obj v])"

definition write_table :: "('f ray \<Rightarrow> emit) \<Rightarrow> u8 \<Rightarrow> bytes list \<Rightarrow> 'f ray list \<Rightarrow> bytes option \<Rightarrow> emit" where
  "write_table obj abyte names cols dir =
    w_seq ([w_u8 98, w_u8 abyte, w_u8 99, w_u8 RAY_SYM, w_u8 0, w_count (length names)] @ map w_cstr names @
      [case dir of Some d \<Rightarrow> obj (RSym d False) | None \<Rightarrow> obj (RList 0 cols)])"

text \<open>A general list: in wire mode one that collapses is written as what it collapses to.\<close>

definition write_list :: "'f wenv \<Rightarrow> ('f ray \<Rightarrow> emit) \<Rightarrow> u8 \<Rightarrow> 'f ray list \<Rightarrow> emit" where
  "write_list env obj a xs = w_mode (\<lambda>serde.
    let plain = (\<lambda>attrs. w_seq ([w_u8 0, w_u8 attrs, w_count (length xs)] @ map obj xs))
    in if serde then plain (a AND NOT SLICE)
       else (case q_list_collapse (e_rows env) (RList a xs) of
               Inr cx \<Rightarrow> if \<not> is_list cx then obj cx else plain (letter_byte (vec_letter a None))
             | Inl _ \<Rightarrow> plain (letter_byte (vec_letter a None))))"

definition write_vec :: "ftype \<Rightarrow> u8 \<Rightarrow> letter option \<Rightarrow> bytes \<Rightarrow> emit" where
  "write_vec t a ix p = w_mode (\<lambda>serde.
    if t = CHARV then w_charvec p (letter_byte (vec_letter a ix))
    else w_seq [w_u8 (ftag t), w_u8 (if serde then a AND HAS_NULLS else letter_byte (vec_letter a ix)),
                w_count (length p div ray_type_sizes t), w_raw p])"

definition write_strvec :: "u8 \<Rightarrow> bytes list \<Rightarrow> emit" where
  "write_strvec abyte cells = w_seq ([w_u8 0, w_u8 abyte, w_count (length cells)] @ map (\<lambda>c. w_charvec c 0) cells)"

definition write_symvec :: "u8 \<Rightarrow> bytes list \<Rightarrow> emit" where
  "write_symvec abyte cells = w_seq ([w_u8 RAY_SYM, w_u8 abyte, w_count (length cells)] @ map w_cstr cells)"

text \<open>The object under the depth guard: the order of the cases is the order of the code.\<close>

fun write_plain :: "'f wenv \<Rightarrow> ('f ray \<Rightarrow> emit) \<Rightarrow> 'f ray \<Rightarrow> emit" where
  "write_plain env obj (RErr text) = w_seq [w_u8 128, w_cstr text]"
| "write_plain env obj RNull = w_prim 101 0"
| "write_plain env obj RHole = w_prim 101 255"
| "write_plain env obj (RFn v f) = write_fn env f"
| "write_plain env obj (RAtom t w aux) = w_seq [w_u8 (- ftag t), write_payload t w]"
| "write_plain env obj (RGuid g) = w_seq [w_u8 (- ftag GUID), w_raw g]"
| "write_plain env obj (RStr p) = write_str_atom p"
| "write_plain env obj (RSym s quoted) = w_seq [w_u8 (- RAY_SYM), w_cstr s]"
| "write_plain env obj (RDict a provider k v) = write_dict obj a provider k v"
| "write_plain env obj (RTable a names cols dir) = write_table obj (letter_byte (vec_letter a None)) names cols dir"
| "write_plain env obj (RVec t a ix p) = write_vec t a ix p"
| "write_plain env obj (RStrVec a cells) = write_strvec (letter_byte (vec_letter a None)) cells"
| "write_plain env obj (RSymVec a ix cells) = write_symvec (letter_byte (vec_letter a ix)) cells"
| "write_plain env obj (RList a xs) = write_list env obj a xs"
| "write_plain env obj _ = wbuf_fail QE_NYI"

fun is_carrier :: "'f ray \<Rightarrow> bool" where
  "is_carrier (RIter _) = True"
| "is_carrier (RLambda _ _) = True"
| "is_carrier (RProj _ _) = True"
| "is_carrier (RComp _) = True"
| "is_carrier (RDeriv _ _) = True"
| "is_carrier (RKfn _ _ _) = True"
| "is_carrier (RCarrier _) = True"
| "is_carrier _ = False"

definition write_body :: "'f wenv \<Rightarrow> ('f ray \<Rightarrow> emit) \<Rightarrow> 'f ray \<Rightarrow> emit" where
  "write_body env obj x = w_mode (\<lambda>serde.
    if is_carrier x then (if serde then wbuf_fail QE_NYI else write_carrier obj x)
    else if serde then (case write_ext env obj x of Some w \<Rightarrow> w | None \<Rightarrow> write_plain env obj x)
    else write_plain env obj x)"

fun is_nil :: "'f ray \<Rightarrow> bool" where
  "is_nil RNil = True"
| "is_nil _ = False"

abbreviation Q_WIRE_MAX_DEPTH :: nat where "Q_WIRE_MAX_DEPTH \<equiv> 512"

primrec q_wire_write_obj :: "'f wenv \<Rightarrow> nat \<Rightarrow> 'f ray \<Rightarrow> emit" where
  "q_wire_write_obj env 0 x = w_guard
    (if is_nil x then w_mode (\<lambda>serde. if serde then w_prim 101 0 else wbuf_fail QE_TYPE) else wbuf_fail QE_LIMIT)"
| "q_wire_write_obj env (Suc d) x = w_guard
    (if is_nil x then w_mode (\<lambda>serde. if serde then w_prim 101 0 else wbuf_fail QE_TYPE)
     else write_body env (q_wire_write_obj env d) x)"

definition wbuf_zero :: wbuf where
  "wbuf_zero = \<lparr>wb_p = [], wb_len = 0, wb_cap = 0, wb_err = None, wb_serde = False, wb_measure = False\<rparr>"

definition q_wire_write_obj_ex :: "'f wenv \<Rightarrow> nat \<Rightarrow> 'f ray \<Rightarrow> bool \<Rightarrow> emit" where
  "q_wire_write_obj_ex env d x serde b = q_wire_write_obj env d x (b\<lparr>wb_serde := serde\<rparr>)"

definition q_wire_serialize :: "'f wenv \<Rightarrow> 'f ray \<Rightarrow> u8 \<Rightarrow> bytes wres" where
  "q_wire_serialize env x msgtype =
    (let (ok, b) = w_seq [w_raw [1, msgtype, 0, 0, 0, 0, 0, 0], q_wire_write_obj env Q_WIRE_MAX_DEPTH x] wbuf_zero
     in if \<not> ok then Inl (case wb_err b of Some e \<Rightarrow> e | None \<Rightarrow> q_err QE_TYPE)
        else if wb_len b > Q_WIRE_MSG_MAX then Inl (q_err QE_LIMIT)
        else Inr (take 4 (wb_p b) @ le32 (wb_len b) @ drop 8 (wb_p b)))"

definition q_wire_serialize_len :: "'f wenv \<Rightarrow> 'f ray \<Rightarrow> nat wres" where
  "q_wire_serialize_len env x =
    (let (ok, b) = q_wire_write_obj env Q_WIRE_MAX_DEPTH x (wbuf_zero\<lparr>wb_measure := True, wb_len := 8\<rparr>)
     in if \<not> ok then Inl (case wb_err b of Some e \<Rightarrow> e | None \<Rightarrow> q_err QE_TYPE)
        else if wb_len b > Q_WIRE_MSG_MAX then Inl (q_err QE_LIMIT)
        else Inr (wb_len b))"

section \<open>Append-only emitters\<close>

lemma w_seq_single: "w_seq [g] b = g b"
  by (cases "g b") auto

lemma w_seq_ok: "fst (f b) \<Longrightarrow> w_seq (f # fs) b = w_seq fs (snd (f b))"
  by (cases "f b") auto

lemma w_raw_ok: "fst (w_raw s b)"
  by (simp add: w_raw_def Let_def)

text \<open>
  An emitter is regular when, on a buffer and on its measuring twin, it answers the same, leaves them twins and
  keeps the buffer's mode; a buffer is sound when it holds \<open>len\<close> bytes within its capacity.
\<close>

definition wbuf_ok :: "wbuf \<Rightarrow> bool" where
  "wbuf_ok b \<longleftrightarrow> \<not> wb_measure b \<and> wb_len b = length (wb_p b) \<and> wb_len b \<le> wb_cap b"

definition twin :: "wbuf \<Rightarrow> wbuf \<Rightarrow> bool" where
  "twin b m \<longleftrightarrow> wbuf_ok b \<and> wb_measure m \<and> wb_len m = wb_len b \<and> wb_err m = wb_err b \<and> wb_serde m = wb_serde b"

definition regular :: "emit \<Rightarrow> bool" where
  "regular f \<longleftrightarrow> (\<forall>b m. twin b m \<longrightarrow>
     fst (f b) = fst (f m) \<and> twin (snd (f b)) (snd (f m)) \<and> wb_serde (snd (f b)) = wb_serde b \<and>
     (\<exists>bs. wb_p (snd (f b)) = wb_p b @ bs))"

lemma regularI:
  assumes "\<And>b m. twin b m \<Longrightarrow> fst (f b) = fst (f m)" "\<And>b m. twin b m \<Longrightarrow> twin (snd (f b)) (snd (f m))"
    "\<And>b m. twin b m \<Longrightarrow> wb_serde (snd (f b)) = wb_serde b" "\<And>b m. twin b m \<Longrightarrow> \<exists>bs. wb_p (snd (f b)) = wb_p b @ bs"
  shows "regular f"
  using assms unfolding regular_def by blast

lemma regular_fail [simp]: "regular (wbuf_fail e)"
  by (rule regularI) (auto simp: wbuf_fail_def twin_def wbuf_ok_def)

lemma reserve_ok: "wbuf_ok b \<Longrightarrow> wbuf_ok (wbuf_reserve n b) \<and> wb_len b + n \<le> wb_cap (wbuf_reserve n b)"
  using grow_cap_enough [of "if wb_cap b \<noteq> 0 then wb_cap b else 64" "wb_len b + n"]
  by (auto simp: wbuf_reserve_def wbuf_ok_def)

lemma reserve_fields [simp]:
  "wb_p (wbuf_reserve n b) = wb_p b" "wb_len (wbuf_reserve n b) = wb_len b" "wb_err (wbuf_reserve n b) = wb_err b"
  "wb_serde (wbuf_reserve n b) = wb_serde b" "wb_measure (wbuf_reserve n b) = wb_measure b"
  by (simp_all add: wbuf_reserve_def)

lemma regular_raw [simp]: "regular (w_raw s)"
proof (rule regularI)
  fix b m assume t: "twin b m"
  then show "twin (snd (w_raw s b)) (snd (w_raw s m))"
    using reserve_ok [of b "length s"] by (auto simp: twin_def w_raw_def wbuf_ok_def Let_def)
qed (auto simp: twin_def w_raw_def wbuf_ok_def Let_def)

lemma regular_seq [simp]: "list_all regular fs \<Longrightarrow> regular (w_seq fs)"
proof (induction fs)
  case Nil
  show ?case by (rule regularI) auto
next
  case (Cons f fs)
  then have f: "regular f" and fs: "regular (w_seq fs)" by auto
  show ?case unfolding regular_def
  proof (intro allI impI)
    fix b m assume t: "twin b m"
    note F = f [unfolded regular_def, rule_format, OF t]
    then have G: "fst (w_seq fs (snd (f b))) = fst (w_seq fs (snd (f m)))"
      "twin (snd (w_seq fs (snd (f b)))) (snd (w_seq fs (snd (f m))))" "wb_serde (snd (w_seq fs (snd (f b)))) = wb_serde (snd (f b))"
      "\<exists>bs. wb_p (snd (w_seq fs (snd (f b)))) = wb_p (snd (f b)) @ bs"
      using fs [unfolded regular_def] by blast+
    show "fst (w_seq (f # fs) b) = fst (w_seq (f # fs) m) \<and> twin (snd (w_seq (f # fs) b)) (snd (w_seq (f # fs) m)) \<and>
        wb_serde (snd (w_seq (f # fs) b)) = wb_serde b \<and> (\<exists>bs. wb_p (snd (w_seq (f # fs) b)) = wb_p b @ bs)"
      using F G by (cases "fst (f b)") (auto simp: split_beta)
  qed
qed

lemma regular_if [intro]: "(c \<Longrightarrow> regular f) \<Longrightarrow> (\<not> c \<Longrightarrow> regular g) \<Longrightarrow> regular (if c then f else g)"
  by auto

lemma regular_mode [intro]: assumes "\<And>s. regular (f s)" shows "regular (w_mode f)"
  unfolding regular_def w_mode_def
proof (intro allI impI)
  fix b m assume t: "twin b m"
  then have "wb_serde m = wb_serde b" by (simp add: twin_def)
  then show "fst (f (wb_serde b) b) = fst (f (wb_serde m) m) \<and> twin (snd (f (wb_serde b) b)) (snd (f (wb_serde m) m)) \<and>
      wb_serde (snd (f (wb_serde b) b)) = wb_serde b \<and> (\<exists>bs. wb_p (snd (f (wb_serde b) b)) = wb_p b @ bs)"
    using assms [of "wb_serde b", unfolded regular_def, rule_format, OF t] by simp
qed

lemma regular_guard [intro]: assumes "regular f" shows "regular (w_guard f)"
  unfolding regular_def
proof (intro allI impI)
  fix b m assume t: "twin b m"
  have "wb_err m = wb_err b" using t by (simp add: twin_def)
  then show "fst (w_guard f b) = fst (w_guard f m) \<and> twin (snd (w_guard f b)) (snd (w_guard f m)) \<and>
      wb_serde (snd (w_guard f b)) = wb_serde b \<and> (\<exists>bs. wb_p (snd (w_guard f b)) = wb_p b @ bs)"
    using assms [unfolded regular_def, rule_format, OF t] t by (auto simp: w_guard_def)
qed

lemma regular_leaf [simp]:
  "regular (w_u8 v)" "regular (w_i16 h)" "regular (w_i32 i)" "regular (w_i64 j)" "regular (w_f64 j)" "regular (w_f32 i)"
  by (auto simp: w_u8_def w_i16_def w_i32_def w_i64_def w_f64_def w_f32_def)

lemma regular_count [simp]: "regular (w_count n)"
  by (auto simp: w_count_def)

lemma regular_text [simp]: "regular (w_cstr s)" "regular (w_charvec s a)" "regular (w_prim c k)" "regular (w_lambda_ctx s)"
  by (auto simp: w_cstr_def w_charvec_def w_prim_def w_lambda_ctx_def)

lemma regular_dl [simp]: "regular (w_dl_call l f r)"
  by (auto simp: w_dl_call_def)

lemma regular_fn: "regular (write_fn env f)"
  by (auto simp: write_fn_def split: option.split)

lemma regular_payload [simp]: "regular (write_payload t w)"
  by (auto simp: write_payload_def)

lemma regular_each: "(\<And>x. regular (f x)) \<Longrightarrow> list_all regular (map f xs)"
  by (induction xs) auto

lemma regular_carrier: "(\<And>x. regular (obj x)) \<Longrightarrow> regular (write_carrier obj x)"
  by (cases x) (auto simp: Let_def regular_each)

lemma regular_ext: "(\<And>x. regular (obj x)) \<Longrightarrow> write_ext env obj x = Some w \<Longrightarrow> regular w"
  by (cases x) (auto simp: regular_each split: if_splits)

lemma regular_list: "(\<And>x. regular (obj x)) \<Longrightarrow> regular (write_list env obj a xs)"
  unfolding write_list_def Let_def
  by (intro regular_mode) (auto simp: regular_each split: sum.split)

lemma regular_vecs:
  "regular (write_vec t a ix p)" "regular (write_strvec c cells)" "regular (write_symvec c cells)" "regular (write_str_atom s)"
  unfolding write_vec_def write_str_atom_def
  by (intro regular_mode | auto simp: write_strvec_def write_symvec_def regular_each split: list.split)+

lemma regular_plain:
  assumes "\<And>x. regular (obj x)"
  shows "regular (write_plain env obj x)"
  using assms regular_list [of obj] regular_fn regular_vecs
  by (cases x) (auto simp: write_dict_def write_table_def regular_each split: option.split)

lemma regular_body: "(\<And>x. regular (obj x)) \<Longrightarrow> regular (write_body env obj x)"
  unfolding write_body_def
  by (intro regular_mode) (auto intro: regular_carrier regular_plain regular_ext split: option.split)

lemma regular_nil: "regular (w_mode (\<lambda>serde. if serde then w_prim 101 0 else wbuf_fail QE_TYPE))"
  by (intro regular_mode) auto

lemma regular_obj: "regular (q_wire_write_obj env d x)"
  by (induction d arbitrary: x) (auto intro!: regular_guard regular_body regular_nil)

lemma regularD:
  assumes "regular f" "twin b m"
  shows "fst (f b) = fst (f m)" "twin (snd (f b)) (snd (f m))" "\<exists>bs. wb_p (snd (f b)) = wb_p b @ bs"
  using assms unfolding regular_def by blast+

text \<open>A system with nothing registered, for examples.\<close>

definition bare_env :: "unit wenv" where
  "bare_env = \<lparr>e_q = True, e_rows = (\<lambda>_. None), e_build = (\<lambda>_ _. Inl QE_TYPE), e_op_of = (\<lambda>_. None),
     e_native_name = (\<lambda>_. None), e_writer_hook = (\<lambda>_. None), e_fn_name = (\<lambda>_. None), e_op_value = (\<lambda>_ _. None),
     e_iter_value = (\<lambda>_. None), e_native_get = (\<lambda>_ _. None), e_dl_loaded = (\<lambda>_ _ _. None), e_reader_hook = (\<lambda>_. None),
     e_lookup = (\<lambda>_ _. None), e_resolve = (\<lambda>_. None), e_ctx_ok = (\<lambda>_. True), e_lambda = (\<lambda>_ _. None),
     e_apply = (\<lambda>_ _. Inl (q_err QE_TYPE)), e_compose = (\<lambda>_. Inl (q_err QE_TYPE)), e_proj = (\<lambda>_ _. Inl (q_err QE_TYPE)),
     e_flip = (\<lambda>_ _. None), e_provider_flip = (\<lambda>_ _. None)\<rparr>"

section \<open>Properties\<close>

text \<open>
  C19. Measuring is exact: \<open>q_wire_serialize_len\<close> (\<open>-22!\<close>) answers, for every value, message type and environment,
  the length of the frame \<open>q_wire_serialize\<close> builds, and fails with the same error when that fails.
\<close>

theorem serialize_len_exact: "q_wire_serialize_len env x = map_sum id length (q_wire_serialize env x msgtype)"
proof -
  define b where "b = snd (w_raw [1, msgtype, 0, 0, 0, 0, 0, 0] wbuf_zero)"
  define m where "m = wbuf_zero\<lparr>wb_measure := True, wb_len := 8\<rparr>"
  let ?f = "q_wire_write_obj env Q_WIRE_MAX_DEPTH x"
  have b: "wb_p b = [1, msgtype, 0, 0, 0, 0, 0, 0]" "wb_len b = 8" "wb_err b = None" "\<not> wb_measure b" "\<not> wb_serde b"
    by (simp_all add: b_def w_raw_def wbuf_zero_def)
  have "8 \<le> wb_cap b"
    using reserve_ok [of wbuf_zero 8] by (simp add: b_def w_raw_def wbuf_zero_def wbuf_ok_def numeral_eq_Suc)
  then have t: "twin b m" using b by (simp add: twin_def wbuf_ok_def m_def wbuf_zero_def)
  note R = regularD [OF regular_obj t, of env Q_WIRE_MAX_DEPTH x]
  obtain bs where "wb_p (snd (?f b)) = [1, msgtype, 0, 0, 0, 0, 0, 0] @ bs" using R(3) b(1) by auto
  then have "length (take 4 (wb_p (snd (?f b))) @ le32 (wb_len (snd (?f b))) @ drop 8 (wb_p (snd (?f b)))) = wb_len (snd (?f b))"
    using R(2) by (simp add: twin_def wbuf_ok_def le32_def)
  moreover have "w_seq [w_raw [1, msgtype, 0, 0, 0, 0, 0, 0], ?f] wbuf_zero = ?f b"
    by (simp add: b_def w_seq_ok w_raw_ok w_seq_single del: w_seq.simps)
  ultimately show ?thesis
    using R(1,2) by (simp add: q_wire_serialize_def q_wire_serialize_len_def m_def [symmetric] split_beta twin_def)
qed

text \<open>
  C20. The writer is append-only and stays inside its buffer: writing any value at any depth, successfully or not,
  leaves what was already in the buffer in place, the length equal to the number of bytes stored and within the
  capacity.
\<close>

theorem write_obj_buffer_sound:
  assumes "wbuf_ok b"
  shows "wbuf_ok (snd (q_wire_write_obj env d x b)) \<and> (\<exists>bs. wb_p (snd (q_wire_write_obj env d x b)) = wb_p b @ bs)"
proof -
  have "twin b (b\<lparr>wb_measure := True\<rparr>)" using assms by (simp add: twin_def)
  from regularD(2,3) [OF regular_obj this] show ?thesis by (auto simp: twin_def)
qed

theorem write_obj_buffer_sound_witness:
  "wbuf_ok wbuf_zero \<and> wbuf_ok (snd (q_wire_write_obj bare_env 3 (RList 0 [RAtom I64 7 False, RSym (lit ''ab'') False]) wbuf_zero))"
  using write_obj_buffer_sound [of wbuf_zero bare_env 3 "RList 0 [RAtom I64 7 False, RSym (lit ''ab'') False]"]
  by (simp add: wbuf_ok_def wbuf_zero_def)

end
