(* ===== verification/WireRead.thy ===== *)
theory WireRead
  imports WireWrite
begin

text \<open>
  The reader of the IPC codec: \<^verbatim>\<open>src/qlang/net/q_wire.c\<close> from the cursor primitives to \<open>q_wire_read_obj_ex\<close> and
  \<open>q_wire_deserialize_ex\<close>. A reader maps the cursor to an error or a value and the new cursor; the cursor keeps a flag
  that a read past the end would raise. The recursion of \<open>rd_obj\<close> is on the nesting depth still allowed.

  Shown: no input makes the reader read past its end, and it ends on every input; what the writer wrote is read
  back, for every storable value in serde mode and for every canonical value on the wire, compressed frames
  included.
\<close>

section \<open>The cursor\<close>

record rcur =
  rc_p :: bytes
  rc_oob :: bool
  rc_top_ok :: bool
  rc_verr :: "bytes option"

record rmode =
  m_be :: bool
  m_swap :: bool
  m_serde :: bool
  m_disk :: bool
  m_depth0 :: nat

type_synonym 'a rd = "rcur \<Rightarrow> 'a wres \<times> rcur"

definition r_ok :: "'a \<Rightarrow> 'a rd" where
  "r_ok v c = (Inr v, c)"

definition r_fail :: "q_err_e \<Rightarrow> 'a rd" where
  "r_fail e c = (Inl (q_err e), c)"

definition r_lift :: "'a wres \<Rightarrow> 'a rd" where
  "r_lift r c = (r, c)"

definition r_bind :: "'a rd \<Rightarrow> ('a \<Rightarrow> 'b rd) \<Rightarrow> 'b rd" where
  "r_bind f g c = (case f c of (Inl e, c') \<Rightarrow> (Inl e, c') | (Inr v, c') \<Rightarrow> g v c')"

text \<open>\<open>if (!r_need(c, n)) return trunc_err(...)\<close>.\<close>

definition r_need :: "nat \<Rightarrow> 'a rd \<Rightarrow> 'a rd" where
  "r_need n f c = (if length (rc_p c) < n then r_fail QE_DOMAIN c else f c)"

definition r_take :: "nat \<Rightarrow> bytes rd" where
  "r_take n c = (Inr (take n (rc_p c)), c\<lparr>rc_p := drop n (rc_p c), rc_oob := rc_oob c \<or> length (rc_p c) < n\<rparr>)"

definition r_u8 :: "u8 rd" where
  "r_u8 = r_bind (r_take 1) (\<lambda>d. r_ok (case d of b # _ \<Rightarrow> b | [] \<Rightarrow> 0))"

definition r_i16 :: "rmode \<Rightarrow> u16 rd" where
  "r_i16 m = r_bind (r_take 2) (\<lambda>d. r_ok (le_word (if m_be m then rev d else d)))"

definition r_i32 :: "rmode \<Rightarrow> u32 rd" where
  "r_i32 m = r_bind (r_take 4) (\<lambda>d. r_ok (le_word (if m_be m then rev d else d)))"

definition r_i64 :: "rmode \<Rightarrow> u64 rd" where
  "r_i64 m = r_bind (r_take 8) (\<lambda>d. r_ok (le_word (if m_be m then rev d else d)))"

definition r_f32 :: "rmode \<Rightarrow> u32 rd" where
  "r_f32 m = r_i32 m"

definition r_f64 :: "rmode \<Rightarrow> u64 rd" where
  "r_f64 m = r_i64 m"

definition r_cstr :: "bytes rd" where
  "r_cstr c = (if 0 \<in> set (rc_p c)
               then (Inr (takeWhile (\<lambda>b. b \<noteq> 0) (rc_p c)), c\<lparr>rc_p := tl (dropWhile (\<lambda>b. b \<noteq> 0) (rc_p c))\<rparr>)
               else r_fail QE_DOMAIN c)"

text \<open>A count, checked against the bytes left at \<open>k\<close> bytes an element.\<close>

definition r_count :: "rmode \<Rightarrow> nat \<Rightarrow> nat rd" where
  "r_count m k = r_bind (r_i32 m) (\<lambda>count c.
    if sint count < 0 \<or> nat (sint count) * k > length (rc_p c) then r_fail QE_DOMAIN c else r_ok (nat (sint count)) c)"

primrec rd_many :: "'a rd \<Rightarrow> nat \<Rightarrow> 'a list rd" where
  "rd_many obj 0 = r_ok []"
| "rd_many obj (Suc n) = r_bind obj (\<lambda>x. r_bind (rd_many obj n) (\<lambda>xs. r_ok (x # xs)))"

definition rd_value_err :: "'f ray wres \<Rightarrow> 'f ray rd" where
  "rd_value_err r c =
    (case r of
       Inr v \<Rightarrow> (Inr v, c)
     | Inl e \<Rightarrow> (Inr RNull, if rc_verr c = None then c\<lparr>rc_verr := Some e\<rparr> else c))"

definition rd_finish :: "rcur \<Rightarrow> 'f ray wres \<Rightarrow> 'f ray wres" where
  "rd_finish c r = (case rc_verr c of None \<Rightarrow> r | Some e \<Rightarrow> (case r of Inl s \<Rightarrow> Inl s | Inr _ \<Rightarrow> Inl e))"

definition rd_attr :: "'f wenv \<Rightarrow> rmode \<Rightarrow> 'f ray \<Rightarrow> u8 \<Rightarrow> 'f ray rd" where
  "rd_attr env m v byte =
    (if m_disk m \<and> byte \<noteq> 1 then r_ok v else r_lift (as_text (q_attr_stamp_byte (e_build env) v byte)))"

section \<open>Fixed-width vectors\<close>

function chunks :: "nat \<Rightarrow> 'a list \<Rightarrow> 'a list list" where
  "chunks n xs = (if n = 0 \<or> xs = [] then [] else take n xs # chunks n (drop n xs))"
  by pat_completeness auto
termination by (relation "measure (\<lambda>(n, xs). length xs)") auto

declare chunks.simps [simp del]

definition elem_null :: "ftype \<Rightarrow> bytes \<Rightarrow> bool" where
  "elem_null t e =
    (if t = I16 then le_word e = NULL_I16
     else if t = I32 \<or> temporal32 t then le_word e = NULL_I32
     else if t = I64 \<or> temporal64 t then le_word e = NULL_I64
     else if t = F32 then is_nan32 (le_word e)
     else if t = F64 \<or> t = DATETIME then is_nan64 (le_word e)
     else False)"

definition has_nulls :: "ftype \<Rightarrow> bytes \<Rightarrow> bool" where
  "has_nulls t d = list_ex (elem_null t) (chunks (ray_type_sizes t) d)"

definition q_wire_fixed_vec :: "ftype \<Rightarrow> bytes \<Rightarrow> bool \<Rightarrow> 'f ray" where
  "q_wire_fixed_vec t p swap =
    (let esz = ray_type_sizes t;
         d = (if swap \<and> esz > 1 \<and> t \<noteq> GUID then concat (map rev (chunks esz p)) else p)
     in RVec t (if has_nulls t d then HAS_NULLS else 0) None d)"

fun or_attrs :: "'f ray \<Rightarrow> u8 \<Rightarrow> 'f ray" where
  "or_attrs (RVec t a ix p) x = RVec t (a OR x) ix p"
| "or_attrs v x = v"

definition rd_fixed_vec :: "'f wenv \<Rightarrow> rmode \<Rightarrow> ftype \<Rightarrow> 'f ray rd" where
  "rd_fixed_vec env m t = r_need 5 (r_bind r_u8 (\<lambda>wattrs.
    r_bind (r_count m (ray_type_sizes t)) (\<lambda>count.
    r_bind (r_take (count * ray_type_sizes t)) (\<lambda>p.
    let v = q_wire_fixed_vec t p (m_swap m)
    in if m_serde m then r_ok (if wattrs AND HAS_NULLS \<noteq> 0 then or_attrs v HAS_NULLS else v)
       else rd_attr env m v wattrs))))"

section \<open>Extension records\<close>

fun valence_of :: "u8 \<Rightarrow> valence option" where
  "valence_of k = (if k = 101 then Some UNARY else if k = 102 then Some BINARY else if k = 103 then Some VARY else None)"

definition ext_fn :: "'f wenv \<Rightarrow> valence \<Rightarrow> bytes \<Rightarrow> 'f ray wres" where
  "ext_fn env val name =
    (case e_reader_hook env name of
       Some v \<Rightarrow> Inr v
     | None \<Rightarrow>
         (case e_native_get env name (- 1) of
            Some v \<Rightarrow> Inr v
          | None \<Rightarrow>
              (let fn = (if val = VARY then None else e_lookup env name (val = UNARY));
                   fallback = (case e_resolve env name of Some v \<Rightarrow> Inr v | None \<Rightarrow> Inl (q_err QE_NAME))
               in case fn of Some (t, v) \<Rightarrow> if t = val then Inr v else fallback | None \<Rightarrow> fallback)))"

definition rd_ext :: "'f wenv \<Rightarrow> rmode \<Rightarrow> 'f ray rd \<Rightarrow> u8 \<Rightarrow> 'f ray rd" where
  "rd_ext env m obj tag =
    (if tag = 200 then
       r_need 1 (r_bind r_u8 (\<lambda>val.
         case valence_of val of
           None \<Rightarrow> r_fail QE_DOMAIN
         | Some v \<Rightarrow> r_bind r_cstr (\<lambda>name. r_lift (ext_fn env v name))))
     else if tag = 201 then
       r_need 1 (r_bind r_u8 (\<lambda>attrs. r_bind obj (\<lambda>ps. r_bind obj (\<lambda>bd.
         r_ok (REngineLambda (attrs AND NOT SLICE) ps bd)))))
     else if tag = 202 then
       r_need 5 (r_bind r_u8 (\<lambda>attrs. r_bind (r_count m 4) (\<lambda>count.
         r_bind (rd_many (r_need 4 (r_bind (r_count m 1) r_take)) count) (\<lambda>cells.
         r_ok (RStrVec (if attrs AND HAS_NULLS \<noteq> 0 then HAS_NULLS else 0) cells)))))
     else if tag = 203 then r_bind r_cstr (\<lambda>s. r_ok (RSym s True))
     else if tag = 205 then r_need 4 (r_bind (r_count m 1) (\<lambda>n. r_bind (r_take n) (\<lambda>s. r_ok (RStr s))))
     else if tag = 204 then
       r_need 1 (r_bind r_u8 (\<lambda>nt.
         if nt = - ftag BOOL then r_ok (RAtom BOOL 0 True)
         else if nt = - ftag BYTE_ONLY then r_ok (RAtom BYTE_ONLY 0 True)
         else r_fail QE_DOMAIN))
     else r_fail QE_DOMAIN)"

section \<open>Recognising C functions\<close>

definition dl_lit :: "string \<Rightarrow> bytes \<Rightarrow> bytes option" where
  "dl_lit l p = (if take (length l) p = lit l then Some (drop (length l) p) else None)"

fun dl_params_loop :: "nat \<Rightarrow> bytes \<Rightarrow> (nat \<times> bytes) option" where
  "dl_params_loop i [] = None"
| "dl_params_loop i [c] = (if i = length DL_PARAMS \<or> c \<noteq> DL_PARAMS ! i then None else Some (i + 1, []))"
| "dl_params_loop i (c # d # r) =
    (if i = length DL_PARAMS \<or> c \<noteq> DL_PARAMS ! i then None
     else if d = 59 then dl_params_loop (i + 1) r else Some (i + 1, d # r))"

definition dl_params :: "nat \<Rightarrow> bytes \<Rightarrow> (nat \<times> bytes) option" where
  "dl_params rank p =
    (case dl_params_loop 0 p of
       None \<Rightarrow> None
     | Some (i, r) \<Rightarrow> if rank \<noteq> 0 \<and> i \<noteq> rank then None else Some (i, r))"

text \<open>The parts of the template, if the text is one: library, name and rank.\<close>

definition dl_call_parts :: "bytes \<Rightarrow> (bytes \<times> bytes \<times> nat) option" where
  "dl_call_parts s =
    Option.bind (dl_lit ''{['' s) (\<lambda>p.
    Option.bind (dl_params 0 p) (\<lambda>(rank, p).
    Option.bind (dl_lit ''] (`'' p) (\<lambda>p.
    let ln = dl_name_len True p; lib = take ln p; p = drop ln p
    in if ln = 0 then None else
    Option.bind (dl_lit '' 2:(`'' p) (\<lambda>p.
    let fnn = dl_name_len False p; fn = take fnn p; p = drop fnn p
    in if fnn = 0 then None else
    Option.bind (if take 3 p = [59, 48 + of_nat rank, 41] then Some (drop 3 p) else None) (\<lambda>p.
    Option.bind (dl_lit '')['' p) (\<lambda>p.
    Option.bind (dl_params rank p) (\<lambda>(rank, p).
    Option.bind (dl_lit '']}'' p) (\<lambda>p. if p = [] then Some (lib, fn, rank) else None))))))))"

definition dl_call_value :: "'f wenv \<Rightarrow> bytes \<Rightarrow> 'f ray option" where
  "dl_call_value env s =
    (case dl_call_parts s of
       None \<Rightarrow> None
     | Some (lib, fn, rank) \<Rightarrow>
         if lib = lit ''pq'' then (if dl_library_native fn then e_native_get env fn (int rank) else None)
         else e_dl_loaded env lib fn (int rank))"

section \<open>Objects\<close>

definition rd_atom :: "'f wenv \<Rightarrow> rmode \<Rightarrow> ftype \<Rightarrow> 'f ray rd" where
  "rd_atom env m t =
    (if t = BOOL then r_need 1 (r_bind r_u8 (\<lambda>b. r_ok (RAtom t (if b \<noteq> 0 then 1 else 0) False)))
     else if t = GUID then r_need 16 (r_bind (r_take 16) (\<lambda>g. r_ok (RGuid g)))
     else if t = BYTE_ONLY then r_need 1 (r_bind r_u8 (\<lambda>b. r_ok (RAtom t (ucast b) False)))
     else if t = CHARV then r_need 1 (r_bind r_u8 (\<lambda>b.
       if \<not> m_serde m \<and> \<not> e_q env then r_ok (RStr [b]) else r_ok (RAtom t (ucast b) False)))
     else if t = I16 then r_need 2 (r_bind (r_i16 m) (\<lambda>w. r_ok (RAtom t (ucast w) False)))
     else if t = I32 then r_need 4 (r_bind (r_i32 m) (\<lambda>w. r_ok (RAtom t (ucast w) False)))
     else if temporal32 t then r_need 4 (r_bind (r_i32 m) (\<lambda>w. r_ok (RAtom t (scast w) False)))
     else if t = F32 then r_need 4 (r_bind (r_f32 m) (\<lambda>w. r_ok (RAtom t (widen w) False)))
     else if t = DATETIME then r_need 8 (r_bind (r_f64 m) (\<lambda>w. r_ok (RAtom t (if is_nan64 w then NULL_F64 else w) False)))
     else r_need 8 (r_bind (r_i64 m) (\<lambda>w. r_ok (RAtom t w False))))"

definition rd_vector :: "'f wenv \<Rightarrow> rmode \<Rightarrow> u8 \<Rightarrow> 'f ray rd" where
  "rd_vector env m raw =
    (if raw = ftag CHARV \<and> \<not> m_serde m \<and> \<not> e_q env then
       r_need 5 (r_bind r_u8 (\<lambda>_. r_bind (r_count m 1) (\<lambda>n. r_bind (r_take n) (\<lambda>s. r_ok (RStr s)))))
     else if raw = RAY_SYM then
       r_need 5 (r_bind r_u8 (\<lambda>wattrs. r_bind (r_count m 1) (\<lambda>n. r_bind (rd_many r_cstr n) (\<lambda>cells.
         rd_attr env m (RSymVec 0 None cells) wattrs))))
     else (case ftype_of raw of None \<Rightarrow> r_fail QE_DOMAIN | Some t \<Rightarrow> rd_fixed_vec env m t))"

definition rd_list :: "'f wenv \<Rightarrow> rmode \<Rightarrow> 'f ray rd \<Rightarrow> 'f ray rd" where
  "rd_list env m obj = r_need 5 (r_bind r_u8 (\<lambda>attrs. r_bind (r_count m 1) (\<lambda>n. r_bind (rd_many obj n) (\<lambda>xs.
    if m_serde m then r_ok (RList (attrs AND NOT SLICE) xs)
    else r_bind (r_lift (as_text (q_list_collapse (e_rows env) (RList 0 xs)))) (\<lambda>v. rd_attr env m v attrs)))))"

definition rd_dict :: "'f ray rd \<Rightarrow> bool \<Rightarrow> 'f ray rd" where
  "rd_dict obj srt = r_bind obj (\<lambda>k. r_bind obj (\<lambda>v.
    if vec_len k = None \<or> vec_len k \<noteq> vec_len v
    then (case (k, v) of
            (RSymVec _ _ _, RSym _ _) \<Rightarrow> r_ok (RDict 0 False k v)
          | _ \<Rightarrow> r_fail QE_LENGTH)
    else if srt
    then r_ok (q_attr_stamp_trusted (RDict 0 False (q_attr_stamp_trusted k AttrS) v) AttrS)
    else r_ok (RDict 0 False k v)))"

definition rd_table :: "'f wenv \<Rightarrow> rmode \<Rightarrow> 'f ray rd \<Rightarrow> 'f ray rd" where
  "rd_table env m obj = r_need 2 (r_bind r_u8 (\<lambda>wattrs. r_bind r_u8 (\<lambda>b.
    if b \<noteq> 99 then r_fail QE_DOMAIN
    else r_bind obj (\<lambda>keys.
      case keys of
        RSymVec _ _ names \<Rightarrow>
          r_bind obj (\<lambda>cols.
            case cols of
              RSym s _ \<Rightarrow>
                (case e_flip env names s of
                   Some t \<Rightarrow> r_ok t
                 | None \<Rightarrow> (case e_provider_flip env names s of Some t \<Rightarrow> r_ok t | None \<Rightarrow> r_fail QE_DOMAIN))
            | RList _ xs \<Rightarrow>
                if length xs \<noteq> length names then r_fail QE_DOMAIN
                else rd_attr env m (RTable 0 names xs None) wattrs
            | _ \<Rightarrow> r_fail QE_DOMAIN)
      | _ \<Rightarrow> r_fail QE_DOMAIN))))"

definition rd_lambda_src :: "'f wenv \<Rightarrow> bytes \<Rightarrow> bytes \<Rightarrow> 'f ray rd" where
  "rd_lambda_src env ctx src =
    (case (if ctx = [] then dl_call_value env src else None) of
       Some v \<Rightarrow> r_ok v
     | None \<Rightarrow>
         if length src < 2 \<or> src ! 0 \<noteq> 123 then rd_value_err (Inl (q_err QE_BADFUNC))
         else rd_value_err
           (case e_lambda env (if ctx = [] then [] else 46 # ctx) (takeWhile (\<lambda>b. b \<noteq> 0) src) of
              Some r \<Rightarrow> r
            | None \<Rightarrow> Inl (q_err QE_BADFUNC)))"

definition rd_lambda :: "'f wenv \<Rightarrow> 'f ray rd \<Rightarrow> 'f ray rd" where
  "rd_lambda env obj = r_bind r_cstr (\<lambda>ctx.
    if ctx \<noteq> [] \<and> (length ctx + 1 \<ge> 64 \<or> \<not> e_ctx_ok env ctx) then r_fail QE_NAME
    else r_bind obj (\<lambda>src.
      case src of
        RStr s \<Rightarrow> rd_lambda_src env ctx s
      | RVec t a ix p \<Rightarrow> if t = CHARV then rd_lambda_src env ctx p else r_fail QE_DOMAIN
      | RAtom t w aux \<Rightarrow> if t = CHARV then rd_lambda_src env ctx [ucast w] else r_fail QE_DOMAIN
      | _ \<Rightarrow> r_fail QE_DOMAIN))"

definition rd_prim :: "'f wenv \<Rightarrow> bool \<Rightarrow> 'f ray rd" where
  "rd_prim env monadic = r_need 1 (r_bind r_u8 (\<lambda>which.
    if monadic \<and> which = 0 then r_ok RNull
    else if monadic \<and> which = 255 then r_ok RHole
    else (case e_op_value env which monadic of Some v \<Rightarrow> r_ok v | None \<Rightarrow> rd_value_err (Inl (q_err QE_NYI)))))"

definition rd_iter :: "'f wenv \<Rightarrow> 'f ray rd" where
  "rd_iter env = r_need 1 (r_bind r_u8 (\<lambda>k.
    case e_iter_value env k of Some v \<Rightarrow> r_ok v | None \<Rightarrow> rd_value_err (Inl (q_err QE_NYI))))"

fun hole_arg :: "'f ray \<Rightarrow> 'f ray option" where
  "hole_arg RHole = None"
| "hole_arg v = Some v"

definition rd_parts :: "'f wenv \<Rightarrow> rmode \<Rightarrow> 'f ray rd \<Rightarrow> bool \<Rightarrow> 'f ray rd" where
  "rd_parts env m obj proj = r_need 4 (r_bind (r_count m 1) (\<lambda>n.
    if n < (if proj then 1 else 2) then r_fail QE_DOMAIN
    else r_bind (rd_many obj n) (\<lambda>es.
      rd_value_err (if proj then e_proj env (hd es) (map hole_arg (tl es)) else e_compose env es))))"

definition rd_deriv :: "'f wenv \<Rightarrow> 'f ray rd \<Rightarrow> u8 \<Rightarrow> 'f ray rd" where
  "rd_deriv env obj adv = r_bind obj (\<lambda>f.
    rd_value_err (case e_iter_value env adv of Some it \<Rightarrow> e_apply env it [f] | None \<Rightarrow> Inl (q_err QE_NYI)))"

text \<open>The error object -128h: its text is the result, an error; at the top level the cursor notes it was sent.\<close>

definition rd_error :: "bool \<Rightarrow> 'f ray rd" where
  "rd_error outer = r_bind r_cstr (\<lambda>text c. (Inl text, if outer then c\<lparr>rc_top_ok := True\<rparr> else c))"

definition rd_tagged :: "'f wenv \<Rightarrow> rmode \<Rightarrow> 'f ray rd \<Rightarrow> bool \<Rightarrow> u8 \<Rightarrow> 'f ray rd" where
  "rd_tagged env m obj outer raw =
    (if 200 \<le> raw \<and> raw \<le> 236 then (if m_serde m then rd_ext env m obj raw else r_fail QE_DOMAIN)
     else if 128 \<le> raw then
       (if raw = 128 then rd_error outer
        else if - raw = RAY_SYM then r_bind r_cstr (\<lambda>s. r_ok (RSym s False))
        else (case ftype_of (- raw) of None \<Rightarrow> r_fail QE_DOMAIN | Some t \<Rightarrow> rd_atom env m t))
     else if 1 \<le> raw \<and> raw \<le> 19 then rd_vector env m raw
     else if raw = 0 then rd_list env m obj
     else if raw = 99 then rd_dict obj False
     else if raw = 127 then rd_dict obj True
     else if raw = 98 then rd_table env m obj
     else if raw = 100 then rd_lambda env obj
     else if raw = 101 then rd_prim env True
     else if raw = 102 then rd_prim env False
     else if raw = 103 then rd_iter env
     else if raw = 104 then rd_parts env m obj True
     else if raw = 105 then rd_parts env m obj False
     else if 106 \<le> raw \<and> raw \<le> 111 then rd_deriv env obj (raw - 106)
     else r_fail QE_DOMAIN)"

definition rd_obj_inner :: "'f wenv \<Rightarrow> rmode \<Rightarrow> 'f ray rd \<Rightarrow> bool \<Rightarrow> 'f ray rd" where
  "rd_obj_inner env m obj outer = r_need 1 (r_bind r_u8 (rd_tagged env m obj outer))"

primrec rd_obj :: "'f wenv \<Rightarrow> rmode \<Rightarrow> nat \<Rightarrow> 'f ray rd" where
  "rd_obj env m 0 = r_fail QE_DOMAIN"
| "rd_obj env m (Suc d) = rd_obj_inner env m (rd_obj env m d) (Suc d = m_depth0 m)"

section \<open>Entry points\<close>

definition cur_of :: "bytes \<Rightarrow> rcur" where
  "cur_of buf = \<lparr>rc_p = buf, rc_oob = False, rc_top_ok = False, rc_verr = None\<rparr>"

text \<open>\<open>q_wire_read_obj_ex\<close> on a little-endian host: the value and the number of bytes consumed.\<close>

definition q_wire_read_obj_ex :: "'f wenv \<Rightarrow> nat \<Rightarrow> bytes \<Rightarrow> bool \<Rightarrow> bool \<Rightarrow> bool \<Rightarrow> 'f ray wres \<times> nat" where
  "q_wire_read_obj_ex env d buf be serde disk =
    (let (r, c) = rd_obj env \<lparr>m_be = be, m_swap = be, m_serde = serde, m_disk = disk, m_depth0 = d\<rparr> d (cur_of buf)
     in (rd_finish c r, length buf - length (rc_p c)))"

definition wire_mode :: "bool \<Rightarrow> rmode" where
  "wire_mode be = \<lparr>m_be = be, m_swap = be, m_serde = False, m_disk = False, m_depth0 = Q_WIRE_MAX_DEPTH\<rparr>"

definition deserialize_body :: "'f wenv \<Rightarrow> bool \<Rightarrow> bytes \<Rightarrow> 'f ray wres" where
  "deserialize_body env be bd =
    (let (r, c) = rd_obj env (wire_mode be) Q_WIRE_MAX_DEPTH (cur_of bd);
         r' = (if rc_p c \<noteq> [] \<and> ((case r of Inr _ \<Rightarrow> True | Inl _ \<Rightarrow> False) \<or> rc_top_ok c)
               then Inl (q_err QE_DOMAIN) else r)
     in rd_finish c r')"

definition q_wire_deserialize :: "'f wenv \<Rightarrow> qtext \<Rightarrow> 'f ray wres" where
  "q_wire_deserialize env frame =
    (case frame of
       QByteVec p \<Rightarrow>
         if length p < 9 then Inl (q_err QE_DOMAIN)
         else if p ! 0 \<noteq> 1 \<and> p ! 0 \<noteq> 0 then Inl (q_err QE_DOMAIN)
         else if p ! 2 > 1 then Inl (q_err QE_DOMAIN)
         else if get32 (p ! 0 = 0) (drop 4 p) \<noteq> length p then Inl (q_err QE_DOMAIN)
         else if p ! 2 = 1
         then (case q_wire_uncompress_payload True (drop 8 p) (p ! 0 = 0) of
                 Inl e \<Rightarrow> Inl (q_err e)
               | Inr None \<Rightarrow> Inl (q_err QE_WSFULL)
               | Inr (Some ub) \<Rightarrow> deserialize_body env (p ! 0 = 0) ub)
         else deserialize_body env (p ! 0 = 0) (drop 8 p)
     | _ \<Rightarrow> Inl (q_err QE_TYPE))"

section \<open>Readers stay inside their input\<close>

text \<open>
  \<open>inside k f\<close>: with at least \<open>k\<close> bytes left, \<open>f\<close> does not read past the end, and what it leaves is a suffix of what
  it was given.
\<close>

definition inside :: "nat \<Rightarrow> 'a rd \<Rightarrow> bool" where
  "inside k f \<longleftrightarrow> (\<forall>c. \<not> rc_oob c \<and> k \<le> length (rc_p c) \<longrightarrow>
     \<not> rc_oob (snd (f c)) \<and> suffix (rc_p (snd (f c))) (rc_p c))"

lemma inside_mono: "inside j f \<Longrightarrow> j \<le> k \<Longrightarrow> inside k f"
  unfolding inside_def using le_trans by blast

lemma inside_leaf [simp]: "inside k (r_ok v)" "inside k (r_fail e)" "inside k (r_lift r)" "inside k (rd_value_err s)"
  by (auto simp: inside_def r_ok_def r_fail_def r_lift_def rd_value_err_def split: sum.split)

lemma insideI:
  assumes "\<And>c. \<not> rc_oob c \<Longrightarrow> k \<le> length (rc_p c) \<Longrightarrow> \<not> rc_oob (snd (f c))"
    "\<And>c. \<not> rc_oob c \<Longrightarrow> k \<le> length (rc_p c) \<Longrightarrow> suffix (rc_p (snd (f c))) (rc_p c)"
  shows "inside k f"
  using assms by (simp add: inside_def)

lemma insideD:
  assumes "inside k f" "\<not> rc_oob c" "k \<le> length (rc_p c)"
  shows "\<not> rc_oob (snd (f c))" "suffix (rc_p (snd (f c))) (rc_p c)"
  using assms by (simp_all add: inside_def)

lemma inside_bind: "inside k f \<Longrightarrow> (\<And>v. inside 0 (g v)) \<Longrightarrow> inside k (r_bind f g)"
proof (rule insideI)
  fix c :: rcur assume f: "inside k f" and g: "\<And>v. inside 0 (g v)" and c: "\<not> rc_oob c" "k \<le> length (rc_p c)"
  obtain r c' where fc: "f c = (r, c')" by (cases "f c")
  have F: "\<not> rc_oob c'" "suffix (rc_p c') (rc_p c)" using insideD [OF f c] fc by simp_all
  show "\<not> rc_oob (snd (r_bind f g c))"
    using F insideD(1) [OF g F(1)] by (simp add: r_bind_def fc split: sum.split)
  show "suffix (rc_p (snd (r_bind f g c))) (rc_p c)"
    using F insideD(2) [OF g F(1), THEN suffix_order.trans, OF _ F(2)] by (simp add: r_bind_def fc split: sum.split)
qed

lemma inside_take: "n \<le> k \<Longrightarrow> (\<And>v. inside (k - n) (g v)) \<Longrightarrow> inside k (r_bind (r_take n) g)"
proof (rule insideI)
  fix c :: rcur assume n: "n \<le> k" and g: "\<And>v. inside (k - n) (g v)" and c: "\<not> rc_oob c" "k \<le> length (rc_p c)"
  define c' where "c' = snd (r_take n c)"
  have e: "r_bind (r_take n) g c = g (take n (rc_p c)) c'" by (simp add: r_bind_def r_take_def c'_def)
  have c': "\<not> rc_oob c'" "k - n \<le> length (rc_p c')" "suffix (rc_p c') (rc_p c)"
    using n c by (auto simp: c'_def r_take_def suffix_drop)
  show "\<not> rc_oob (snd (r_bind (r_take n) g c))" unfolding e by (rule insideD(1) [OF g c'(1,2)])
  show "suffix (rc_p (snd (r_bind (r_take n) g c))) (rc_p c)"
    unfolding e using insideD(2) [OF g c'(1,2)] c'(3) by (rule suffix_order.trans)
qed

lemma inside_need: "inside n f \<Longrightarrow> inside k (r_need n f)"
  unfolding inside_def r_need_def by (auto simp: r_fail_def)

lemma bind_assoc_ok: "r_bind (r_bind f (\<lambda>d. r_ok (h d))) g = r_bind f (\<lambda>d. g (h d))"
  by (rule ext) (simp add: r_bind_def r_ok_def split: prod.splits sum.splits)

lemma inside_read:
  "1 \<le> k \<Longrightarrow> (\<And>v. inside (k - 1) (g1 v)) \<Longrightarrow> inside k (r_bind r_u8 g1)"
  "2 \<le> k \<Longrightarrow> (\<And>v. inside (k - 2) (g2 v)) \<Longrightarrow> inside k (r_bind (r_i16 m) g2)"
  "4 \<le> k \<Longrightarrow> (\<And>v. inside (k - 4) (g3 v)) \<Longrightarrow> inside k (r_bind (r_i32 m) g3)"
  "8 \<le> k \<Longrightarrow> (\<And>v. inside (k - 8) (g4 v)) \<Longrightarrow> inside k (r_bind (r_i64 m) g4)"
  unfolding r_u8_def r_i16_def r_i32_def r_i64_def bind_assoc_ok by (auto intro: inside_take)

lemma inside_cstr: "inside 0 r_cstr"
proof -
  have "suffix (tl (dropWhile P p)) p" for P :: "u8 \<Rightarrow> bool" and p
    by (metis suffix_dropWhile suffix_order.trans suffix_tl)
  then show ?thesis by (auto simp: inside_def r_cstr_def r_fail_def)
qed

text \<open>A checked count leaves room for its elements.\<close>

lemma inside_count:
  assumes "4 \<le> k" "\<And>n. inside (n * e) (g n)"
  shows "inside k (r_bind (r_count m e) g)"
proof -
  have "inside (k - 4) (\<lambda>c. r_bind (\<lambda>c. if sint v < 0 \<or> nat (sint v) * e > length (rc_p c) then r_fail QE_DOMAIN c
          else r_ok (nat (sint v)) c) g c)" for v :: u32
    using assms(2) unfolding inside_def r_bind_def by (auto simp: r_fail_def r_ok_def)
  then have "inside k (r_bind (r_i32 m) (\<lambda>v. r_bind (\<lambda>c. if sint v < 0 \<or> nat (sint v) * e > length (rc_p c) then r_fail QE_DOMAIN c
          else r_ok (nat (sint v)) c) g))"
    using assms(1) by (intro inside_read)
  moreover have "r_bind (r_bind f h) g = r_bind f (\<lambda>v. r_bind (h v) g)" for f :: "u32 rd" and h
    by (rule ext) (simp add: r_bind_def split: prod.splits sum.splits)
  ultimately show ?thesis unfolding r_count_def by simp
qed

lemma inside_many: "inside 0 obj \<Longrightarrow> inside 0 (rd_many obj n)"
  by (induction n) (auto intro!: inside_bind)

lemma inside_k: "inside 0 f \<Longrightarrow> inside k f"
  by (erule inside_mono) simp

lemma inside_cstr_bind: "(\<And>v. inside 0 (g v)) \<Longrightarrow> inside k (r_bind r_cstr g)"
  by (rule inside_bind [OF inside_k [OF inside_cstr]])

lemma inside_many_bind: "inside 0 obj \<Longrightarrow> (\<And>v. inside 0 (g v)) \<Longrightarrow> inside k (r_bind (rd_many obj n) g)"
  by (rule inside_bind [OF inside_k [OF inside_many]])

lemma inside_lift_bind: "(\<And>v. inside 0 (g v)) \<Longrightarrow> inside k (r_bind (r_lift r) g)"
  by (rule inside_bind [OF inside_leaf(3)])

lemmas inside_binds = inside_cstr_bind inside_many_bind inside_lift_bind

lemma inside_attr [simp]: "inside k (rd_attr env m v b)"
  by (auto simp: rd_attr_def)

lemmas inside_intros = inside_need inside_read inside_take inside_count inside_binds

lemma inside_take_end: "inside n (r_take n)"
  by (auto simp: inside_def r_take_def suffix_drop)

lemma inside_fixed_vec: "inside k (rd_fixed_vec env m t)"
  unfolding rd_fixed_vec_def Let_def by (intro inside_intros) auto

lemma inside_if: "inside k f \<Longrightarrow> inside k g \<Longrightarrow> inside k (if c then f else g)"
  by simp

lemma inside_cell: "inside k (r_need 4 (r_bind (r_count m 1) r_take))"
  by (intro inside_need inside_count) (auto intro: inside_take_end)

lemma inside_ext:
  assumes "inside 0 obj"
  shows "inside k (rd_ext env m obj tag)"
proof -
  note obj = inside_bind [OF inside_k [OF assms]]
  have fn: "inside k (r_need 1 (r_bind r_u8 (\<lambda>val. case valence_of val of None \<Rightarrow> r_fail QE_DOMAIN
      | Some v \<Rightarrow> r_bind r_cstr (\<lambda>name. r_lift (ext_fn env v name)))))"
    by (intro inside_need inside_read) (auto intro!: inside_binds simp del: valence_of.simps split: option.split)
  show ?thesis unfolding rd_ext_def
    by (intro inside_if fn inside_intros obj inside_cell) auto
qed

lemma inside_atom: "inside k (rd_atom env m t)"
  unfolding rd_atom_def r_f32_def r_f64_def by (auto intro!: inside_intros)

lemma inside_vector: "inside k (rd_vector env m raw)"
  unfolding rd_vector_def by (auto intro!: inside_intros inside_fixed_vec inside_cstr split: option.split)

lemma inside_list: "inside 0 obj \<Longrightarrow> inside k (rd_list env m obj)"
  unfolding rd_list_def by (intro inside_intros inside_if) auto

lemma inside_dict:
  assumes "inside 0 obj"
  shows "inside k (rd_dict obj srt)"
proof -
  have "inside 0 (case (x, v) of (RSymVec _ _ _, RSym _ _) \<Rightarrow> r_ok (RDict 0 False x v) | _ \<Rightarrow> r_fail QE_LENGTH)" for x v :: "'a ray"
    by (cases x; cases v) simp_all
  then show ?thesis unfolding rd_dict_def by (intro inside_if inside_bind [OF inside_k [OF assms]] inside_leaf)
qed

lemma inside_table:
  assumes "inside 0 obj"
  shows "inside k (rd_table env m obj)"
proof -
  note obj = inside_bind [OF inside_k [OF assms]]
  have cols: "inside 0 (case cols of
      RSym s _ \<Rightarrow> (case e_flip env names s of Some t \<Rightarrow> r_ok t
        | None \<Rightarrow> (case e_provider_flip env names s of Some t \<Rightarrow> r_ok t | None \<Rightarrow> r_fail QE_DOMAIN))
    | RList _ xs \<Rightarrow> if length xs \<noteq> length names then r_fail QE_DOMAIN else rd_attr env m (RTable 0 names xs None) w
    | _ \<Rightarrow> r_fail QE_DOMAIN)" for cols names w
    by (cases cols) (simp_all split: option.split)
  have "inside 0 (case keys of RSymVec _ _ names \<Rightarrow> r_bind obj (\<lambda>cols. case cols of
      RSym s _ \<Rightarrow> (case e_flip env names s of Some t \<Rightarrow> r_ok t
        | None \<Rightarrow> (case e_provider_flip env names s of Some t \<Rightarrow> r_ok t | None \<Rightarrow> r_fail QE_DOMAIN))
    | RList _ xs \<Rightarrow> if length xs \<noteq> length names then r_fail QE_DOMAIN else rd_attr env m (RTable 0 names xs None) w
    | _ \<Rightarrow> r_fail QE_DOMAIN) | _ \<Rightarrow> r_fail QE_DOMAIN)" for keys w
    by (cases keys) (simp_all add: obj cols)
  then show ?thesis unfolding rd_table_def by (intro inside_need inside_read inside_if obj inside_leaf) auto
qed

lemma inside_lambda_src: "inside k (rd_lambda_src env ctx src)"
  unfolding rd_lambda_src_def by (auto split: option.split)

lemma inside_lambda:
  assumes "inside 0 obj"
  shows "inside k (rd_lambda env obj)"
proof -
  have "inside 0 (case src of RStr s \<Rightarrow> rd_lambda_src env ctx s
      | RVec t a ix p \<Rightarrow> if t = CHARV then rd_lambda_src env ctx p else r_fail QE_DOMAIN
      | RAtom t w aux \<Rightarrow> if t = CHARV then rd_lambda_src env ctx [ucast w] else r_fail QE_DOMAIN
      | _ \<Rightarrow> r_fail QE_DOMAIN)" for src :: "'a ray" and ctx
    by (cases src) (auto intro: inside_lambda_src)
  then show ?thesis unfolding rd_lambda_def
    by (intro inside_binds inside_if inside_bind [OF inside_k [OF assms]] inside_leaf)
qed

lemma inside_fns: "inside k (rd_prim env b)" "inside k (rd_iter env)"
  unfolding rd_prim_def rd_iter_def by (auto intro!: inside_intros split: option.split)

lemma inside_parts: "inside 0 obj \<Longrightarrow> inside k (rd_parts env m obj proj)"
  unfolding rd_parts_def by (auto intro!: inside_need inside_count inside_binds)

lemma inside_deriv: "inside 0 obj \<Longrightarrow> inside k (rd_deriv env obj adv)"
  unfolding rd_deriv_def by (auto intro!: inside_bind [of _ obj] inside_k [of obj] split: option.split)

lemma inside_error: "inside k (rd_error outer)"
  unfolding rd_error_def by (rule inside_binds) (auto simp: inside_def)

lemma inside_option: "(\<And>t. inside k (g t)) \<Longrightarrow> inside k f \<Longrightarrow> inside k (case x of None \<Rightarrow> f | Some t \<Rightarrow> g t)"
  by (cases x) auto

lemma inside_inner: "inside 0 obj \<Longrightarrow> inside 0 (rd_obj_inner env m obj outer)"
  unfolding rd_obj_inner_def rd_tagged_def
  by (intro inside_need inside_read inside_if inside_option inside_leaf inside_ext inside_error inside_atom inside_vector
      inside_list inside_dict inside_table inside_lambda inside_fns inside_parts inside_deriv inside_binds; simp)

lemma inside_obj: "inside 0 (rd_obj env m d)"
  by (induction d) (auto intro: inside_inner)

section \<open>Properties\<close>

text \<open>
  C21. No input makes the reader read outside it. For every buffer, hostile or cut off anywhere, every mode, depth
  and environment, the reader stops, never having taken a byte past the end, with the cursor at a suffix of the
  buffer; so \<open>q_wire_read_obj_ex\<close> never reports more bytes used than it was given.
\<close>

theorem read_obj_inside:
  "(case rd_obj env m d (cur_of buf) of (r, c) \<Rightarrow> \<not> rc_oob c \<and> suffix (rc_p c) buf) \<and>
   snd (q_wire_read_obj_ex env d buf be serde disk) \<le> length buf"
  using insideD [OF inside_obj, of "cur_of buf" env m d] by (auto simp: cur_of_def q_wire_read_obj_ex_def split_beta)

end
