(* ===== verification/WireRound.thy ===== *)
theory WireRound
  imports WireRead
begin

text \<open>
  The two halves of the IPC codec together. \<open>wire_ok\<close> describes, for the wire and for serde mode, the values that
  are in the form the reader produces; every one of them comes back from its own bytes unchanged. The proof
  pairs the emitters with the bytes they append and the readers with the bytes they consume.
\<close>

section \<open>What emitters append\<close>

definition emits :: "bool \<Rightarrow> emit \<Rightarrow> bytes \<Rightarrow> bool" where
  "emits s f bs \<longleftrightarrow> (\<forall>b. \<not> wb_measure b \<and> wb_err b = None \<and> wb_serde b = s \<longrightarrow>
     fst (f b) \<and> wb_p (snd (f b)) = wb_p b @ bs \<and> wb_len (snd (f b)) = wb_len b + length bs \<and>
     \<not> wb_measure (snd (f b)) \<and> wb_err (snd (f b)) = None \<and> wb_serde (snd (f b)) = s)"

lemma emits_raw: "emits s (w_raw bs) bs"
  by (simp add: emits_def w_raw_def Let_def)

lemma emits_nil: "emits s (w_seq []) []"
  by (simp add: emits_def)

lemma emits_cons: "emits s f bs \<Longrightarrow> emits s (w_seq fs) cs \<Longrightarrow> emits s (w_seq (f # fs)) (bs @ cs)"
  by (simp add: emits_def split_beta)

lemma w_seq_append: "w_seq (fs @ gs) b = (let (ok, b') = w_seq fs b in if ok then w_seq gs b' else (False, b'))"
  by (induction fs arbitrary: b) (auto simp: split_beta)

lemma emits_append: "emits s (w_seq fs) bs \<Longrightarrow> emits s (w_seq gs) cs \<Longrightarrow> emits s (w_seq (fs @ gs)) (bs @ cs)"
  by (simp add: emits_def w_seq_append split_beta)

lemma w_seq_flat: "w_seq (fs @ [w_seq gs] @ hs) = w_seq (fs @ gs @ hs)"
  by (rule ext) (simp add: w_seq_append split_beta)

lemma emits_single: "emits s f bs \<Longrightarrow> emits s (w_seq [f]) bs"
  by (simp add: emits_def split_beta)

lemma emits_map: "list_all2 (\<lambda>x bs. emits s (f x) bs) xs bss \<Longrightarrow> emits s (w_seq (map f xs)) (concat bss)"
  by (induction rule: list_all2_induct) (auto intro: emits_nil emits_cons simp del: w_seq.simps)

lemma emits_mode: "emits s (f s) bs \<Longrightarrow> emits s (w_mode f) bs"
  by (simp add: emits_def w_mode_def)

lemma emits_guard: "emits s f bs \<Longrightarrow> emits s (w_guard f) bs"
  by (simp add: emits_def w_guard_def)

lemma i32_bytes: "[ucast u, ucast (drop_bit 8 u), ucast (drop_bit 16 u), ucast (drop_bit 24 u)] = le_bytes 4 u" for u :: u32
  by (simp add: le_bytes_def upt_rec)

lemma i16_bytes: "[ucast u, ucast (drop_bit 8 u)] = le_bytes 2 u" for u :: u16
  by (simp add: le_bytes_def upt_rec)

lemma emits_leaf:
  "emits s (w_u8 v) [v]" "emits s (w_i16 h) (le_bytes 2 h)" "emits s (w_i32 i) (le_bytes 4 i)" "emits s (w_i64 j) (le_bytes 8 j)"
  "emits s (w_f32 i) (le_bytes 4 i)" "emits s (w_f64 j) (le_bytes 8 j)"
  using emits_raw [of s]
  by (auto simp: w_u8_def w_i16_def w_i32_def w_i64_def w_f32_def w_f64_def i16_bytes i32_bytes simp flip: le_bytes_def)

lemma emits_cstr: "emits s (w_cstr t) (t @ [0])"
  unfolding w_cstr_def by (intro emits_cons emits_single emits_raw emits_leaf)

lemma emits_count: "n \<le> 2147483647 \<Longrightarrow> emits s (w_count n) (le_bytes 4 (of_nat n :: u32))"
  using emits_leaf(3) by (simp add: w_count_def)

lemma emits_prim: "emits s (w_prim a b) [a, b]"
  using emits_cons [OF emits_leaf(1) emits_single [OF emits_leaf(1)], of s a b] by (simp add: w_prim_def del: w_seq.simps)

lemmas emits_intros = emits_cons emits_append emits_single emits_raw emits_leaf emits_cstr emits_count

section \<open>What readers consume\<close>

definition reads :: "'a rd \<Rightarrow> bytes \<Rightarrow> 'a \<Rightarrow> bool" where
  "reads f bs v \<longleftrightarrow> (\<forall>c rest. rc_p c = bs @ rest \<longrightarrow> f c = (Inr v, c\<lparr>rc_p := rest\<rparr>))"

lemma reads_bind: "reads f bs v \<Longrightarrow> reads (g v) cs w \<Longrightarrow> reads (r_bind f g) (bs @ cs) w"
  unfolding reads_def r_bind_def by simp

lemma reads_need: "n \<le> length bs \<Longrightarrow> reads f bs v \<Longrightarrow> reads (r_need n f) bs v"
  unfolding reads_def r_need_def by simp

lemma reads_ok: "reads (r_ok v) [] v"
  by (simp add: reads_def r_ok_def)

lemma reads_lift: "r = Inr v \<Longrightarrow> reads (r_lift r) [] v"
  by (simp add: reads_def r_lift_def)

lemma reads_map: "reads f bs v \<Longrightarrow> reads (r_bind f (\<lambda>x. r_ok (h x))) bs (h v)"
  using reads_bind [of f bs v "\<lambda>x. r_ok (h x)" "[]" "h v"] reads_ok [of "h v"] by simp

lemma reads_take: "length bs = n \<Longrightarrow> reads (r_take n) bs bs"
  unfolding reads_def r_take_def by auto

lemma reads_le: "8 * n = LENGTH('a) \<Longrightarrow> reads (r_bind (r_take n) (\<lambda>d. r_ok (le_word d))) (le_bytes n w) w" for w :: "'a :: len word"
  using reads_map [OF reads_take [of "le_bytes n w" n], of "le_word :: bytes \<Rightarrow> 'a word"] by (simp add: le_word_bytes)

lemma reads_word:
  "\<not> m_be m \<Longrightarrow> reads (r_i16 m) (le_bytes 2 h) h" "\<not> m_be m \<Longrightarrow> reads (r_i32 m) (le_bytes 4 i) i"
  "\<not> m_be m \<Longrightarrow> reads (r_i64 m) (le_bytes 8 j) j" "\<not> m_be m \<Longrightarrow> reads (r_f32 m) (le_bytes 4 i) i"
  "\<not> m_be m \<Longrightarrow> reads (r_f64 m) (le_bytes 8 j) j"
  by (simp_all add: r_i16_def r_i32_def r_i64_def r_f32_def r_f64_def reads_le)

lemma reads_u8: "reads r_u8 [b] b"
  using reads_map [OF reads_take [of "[b]" 1], of "\<lambda>d. case d of b # _ \<Rightarrow> b | [] \<Rightarrow> 0"] by (simp add: r_u8_def)

lemma reads_byte: "reads (g b) [] v \<Longrightarrow> reads (r_need 1 (r_bind r_u8 g)) [b] v"
  using reads_need [OF _ reads_bind [of r_u8 "[b]" b g "[]" v, OF reads_u8], of 1] by simp

lemma reads_cstr: "0 \<notin> set t \<Longrightarrow> reads r_cstr (t @ [0]) t"
  unfolding reads_def r_cstr_def
proof (intro allI impI)
  fix c :: rcur and rest assume "0 \<notin> set t" "rc_p c = (t @ [0]) @ rest"
  moreover have "takeWhile (\<lambda>b. b \<noteq> 0) (t @ 0 # rest) = t" "dropWhile (\<lambda>b. b \<noteq> 0) (t @ 0 # rest) = 0 # rest"
    using \<open>0 \<notin> set t\<close> by (induction t) auto
  ultimately show "(if 0 \<in> set (rc_p c) then (Inr (takeWhile (\<lambda>b. b \<noteq> 0) (rc_p c)), c\<lparr>rc_p := tl (dropWhile (\<lambda>b. b \<noteq> 0) (rc_p c))\<rparr>)
      else r_fail QE_DOMAIN c) = (Inr t, c\<lparr>rc_p := rest\<rparr>)" by simp
qed

lemma sint_count: "n \<le> 2147483647 \<Longrightarrow> sint (of_nat n :: u32) = int n"
proof -
  assume "n \<le> 2147483647"
  then have "signed_take_bit 31 (int n) = int n" by (intro signed_take_bit_int_eq_self) simp_all
  then show ?thesis by (simp add: signed_of_nat)
qed

lemma reads_count:
  assumes "\<not> m_be m" "n \<le> 2147483647" "n * k \<le> length cs" "reads (g n) cs w"
  shows "reads (r_bind (r_count m k) g) (le_bytes 4 (of_nat n :: u32) @ cs) w"
  using assms(2-4) reads_word(2) [OF assms(1), of "of_nat n"]
  by (simp add: reads_def r_bind_def r_count_def sint_count r_ok_def)

lemma reads_many: "list_all2 (reads obj) bss xs \<Longrightarrow> reads (rd_many obj (length xs)) (concat bss) xs"
proof (induction rule: list_all2_induct)
  case (Cons bs bss x xs)
  have "reads (r_bind (rd_many obj (length xs)) (\<lambda>xs. r_ok (x # xs))) (concat bss) (x # xs)" by (rule reads_map [OF Cons(3)])
  then show ?case using reads_bind [of obj bs x "\<lambda>x. r_bind (rd_many obj (length xs)) (\<lambda>xs. r_ok (x # xs))", OF Cons(1)] by simp
qed (simp add: reads_ok)

section \<open>Values in the reader's form\<close>

definition payload_ok :: "ftype \<Rightarrow> u64 \<Rightarrow> bool" where
  "payload_ok t w =
    (if t = BOOL then w = 0 \<or> w = 1
     else if t = BYTE_ONLY \<or> t = CHARV then ucast (ucast w :: u8) = w
     else if t = I16 then ucast (ucast w :: u16) = w
     else if t = I32 then ucast (ucast w :: u32) = w
     else if temporal32 t then scast (ucast w :: u32) = w
     else if t = F32 then widen (narrow w) = w
     else if t = DATETIME then is_nan64 w \<longrightarrow> w = NULL_F64
     else t \<noteq> GUID)"

definition atom_ok :: "'f wenv \<Rightarrow> bool \<Rightarrow> ftype \<Rightarrow> u64 \<Rightarrow> bool \<Rightarrow> bool" where
  "atom_ok env s t w aux \<longleftrightarrow>
    (if aux then s \<and> (t = BOOL \<or> t = BYTE_ONLY) \<and> w = 0 else payload_ok t w \<and> (t = CHARV \<longrightarrow> s \<or> e_q env))"

definition vec_ok :: "'f wenv \<Rightarrow> bool \<Rightarrow> ftype \<Rightarrow> u8 \<Rightarrow> letter option \<Rightarrow> bytes \<Rightarrow> bool" where
  "vec_ok env s t a ix p \<longleftrightarrow>
    length p mod ray_type_sizes t = 0 \<and> length p div ray_type_sizes t \<le> 2147483647 \<and> (t = CHARV \<longrightarrow> s \<or> e_q env) \<and>
    (if s then ix = None \<and> (a = 0 \<and> \<not> has_nulls t p \<or> a = HAS_NULLS \<and> t \<noteq> CHARV)
     else q_attr_stamp_byte (e_build env) (RVec t (if has_nulls t p then HAS_NULLS else 0) None p) (letter_byte (vec_letter a ix))
          = Inr (RVec t a ix p))"

text \<open>
  A value that comes back as it went, \<open>d\<close> levels allowed: texts without NUL, counts in range, attributes that the
  reader stamps again, lists that do not collapse (on the wire), dictionaries whose sides conform.
\<close>

primrec wire_ok :: "'f wenv \<Rightarrow> bool \<Rightarrow> nat \<Rightarrow> 'f ray \<Rightarrow> bool" where
  "wire_ok env s 0 x = False"
| "wire_ok env s (Suc d) x =
    (case x of
       RNull \<Rightarrow> True
     | RHole \<Rightarrow> True
     | RAtom t w aux \<Rightarrow> atom_ok env s t w aux
     | RGuid g \<Rightarrow> length g = 16
     | RStr p \<Rightarrow> s \<and> length p \<le> 2147483647
     | RSym t quoted \<Rightarrow> (quoted \<longrightarrow> s) \<and> 0 \<notin> set t
     | RVec t a ix p \<Rightarrow> vec_ok env s t a ix p
     | RStrVec a cells \<Rightarrow> s \<and> (a = 0 \<or> a = HAS_NULLS) \<and> length cells \<le> 2147483647 \<and> list_all (\<lambda>c. length c \<le> 2147483647) cells
     | RSymVec a ix cells \<Rightarrow>
         length cells \<le> 2147483647 \<and> list_all (\<lambda>t. 0 \<notin> set t) cells \<and>
         q_attr_stamp_byte (e_build env) (RSymVec 0 None cells) (letter_byte (vec_letter a ix)) = Inr (RSymVec a ix cells)
     | RList a xs \<Rightarrow>
         length xs \<le> 2147483647 \<and> list_all (wire_ok env s d) xs \<and>
         (if s then a AND SLICE = 0
          else q_list_collapse (e_rows env) (RList a xs) = Inr (RList a xs) \<and>
               q_list_collapse (e_rows env) (RList 0 xs) = Inr (RList 0 xs) \<and>
               q_attr_stamp_byte (e_build env) (RList 0 xs) (letter_byte (vec_letter a None)) = Inr (RList a xs))
     | RDict a provider k v \<Rightarrow>
         \<not> provider \<and> wire_ok env s d k \<and> wire_ok env s d v \<and>
         (a = 0 \<and> (vec_len k \<noteq> None \<and> vec_len k = vec_len v \<or> (case (k, v) of (RSymVec _ _ _, RSym _ _) \<Rightarrow> True | _ \<Rightarrow> False)) \<or>
          a = SORTED \<and> vec_len k \<noteq> None \<and> vec_len k = vec_len v \<and> q_attr_stamp_trusted k AttrS = k)
     | RTable a names cols dir \<Rightarrow>
         dir = None \<and> length names \<le> 2147483647 \<and> list_all (\<lambda>t. 0 \<notin> set t) names \<and> length cols = length names \<and>
         wire_ok env s d (RList 0 cols) \<and>
         q_attr_stamp_byte (e_build env) (RTable 0 names cols None) (letter_byte (vec_letter a None)) = Inr (RTable a names cols None)
     | REngineLambda a ps bd \<Rightarrow> s \<and> a AND SLICE = 0 \<and> wire_ok env s d ps \<and> wire_ok env s d bd
     | _ \<Rightarrow> False)"

definition little :: "bool \<Rightarrow> rmode \<Rightarrow> bool" where
  "little s m \<longleftrightarrow> \<not> m_be m \<and> \<not> m_swap m \<and> m_serde m = s \<and> \<not> m_disk m"

text \<open>An object's bytes: written by the writer, read back by the reader, never none.\<close>

definition carried :: "'f wenv \<Rightarrow> rmode \<Rightarrow> bool \<Rightarrow> nat \<Rightarrow> 'f ray \<Rightarrow> bytes \<Rightarrow> bool" where
  "carried env m s d x bs \<longleftrightarrow> emits s (q_wire_write_obj env d x) bs \<and> reads (rd_obj env m d) bs x \<and> bs \<noteq> []"

section \<open>Leaves\<close>

lemma inner_reads: "reads (rd_tagged env m obj outer raw) bs v \<Longrightarrow> reads (rd_obj_inner env m obj outer) (raw # bs) v"
proof -
  assume "reads (rd_tagged env m obj outer raw) bs v"
  then have "reads (r_bind r_u8 (rd_tagged env m obj outer)) ([raw] @ bs) v" by (rule reads_bind [OF reads_u8])
  then show ?thesis unfolding rd_obj_inner_def by (intro reads_need) auto
qed

lemma tag_one: "\<not> (200 :: u8) \<le> 1" "\<not> (128 :: u8) \<le> 1" "\<not> (- 1 :: u8) \<le> 236"
  by code_simp+

lemma tagged_atom: "rd_tagged env m obj outer (- ftag t) = rd_atom env m t"
  by (cases t) (simp_all add: rd_tagged_def ftype_of_def all_ftypes_def tag_one)

lemma tagged_vector: "rd_tagged env m obj outer (ftag t) = rd_vector env m (ftag t)"
  by (cases t) (simp_all add: rd_tagged_def tag_one)

lemma tagged_simps:
  "rd_tagged env m obj outer RAY_SYM = rd_vector env m RAY_SYM"
  "rd_tagged env m obj outer (- RAY_SYM) = r_bind r_cstr (\<lambda>s. r_ok (RSym s False))"
  "rd_tagged env m obj outer 0 = rd_list env m obj"
  "rd_tagged env m obj outer 99 = rd_dict obj False" "rd_tagged env m obj outer 127 = rd_dict obj True"
  "rd_tagged env m obj outer 98 = rd_table env m obj" "rd_tagged env m obj outer 101 = rd_prim env True"
  by (simp_all add: rd_tagged_def)

lemma tagged_ext: "m_serde m \<Longrightarrow> 200 \<le> k \<Longrightarrow> k \<le> 236 \<Longrightarrow> rd_tagged env m obj outer k = rd_ext env m obj k"
  by (simp add: rd_tagged_def)

lemma write_obj_emits:
  "\<not> is_nil x \<Longrightarrow> emits s (write_body env (q_wire_write_obj env d) x) bs \<Longrightarrow> emits s (q_wire_write_obj env (Suc d) x) bs"
  by (simp add: emits_guard)

lemma body_wire: "\<not> is_carrier x \<Longrightarrow> emits False (write_plain env obj x) bs \<Longrightarrow> emits False (write_body env obj x) bs"
  unfolding write_body_def by (intro emits_mode) simp

lemma body_serde:
  "\<not> is_carrier x \<Longrightarrow> write_ext env obj x = None \<Longrightarrow> emits s (write_plain env obj x) bs \<Longrightarrow> emits s (write_body env obj x) bs"
  unfolding write_body_def by (intro emits_mode) (cases s; simp)

lemma body_ext:
  "\<not> is_carrier x \<Longrightarrow> write_ext env obj x = Some w \<Longrightarrow> emits True w bs \<Longrightarrow> emits True (write_body env obj x) bs"
  unfolding write_body_def by (intro emits_mode) simp

text \<open>Assembling the two halves for an object with tag \<open>k\<close>.\<close>

lemma carriedI:
  assumes "\<not> is_nil x" "emits s (write_body env (q_wire_write_obj env d) x) (k # bs)"
    and "\<And>outer. reads (rd_tagged env m (rd_obj env m d) outer k) bs x"
  shows "carried env m s (Suc d) x (k # bs)"
  using write_obj_emits [OF assms(1,2)] inner_reads [OF assms(3)] by (simp add: carried_def)

lemma payload_emits: "payload_ok t w \<Longrightarrow> emits s (write_payload t w)
    (if t = BOOL \<or> t = BYTE_ONLY \<or> t = CHARV then [ucast w] else if t = I16 then le_bytes 2 (ucast w :: u16)
     else if t = I32 \<or> temporal32 t then le_bytes 4 (ucast w :: u32) else if t = F32 then le_bytes 4 (narrow w) else le_bytes 8 w)"
  using emits_leaf [of s] by (cases t) (auto simp: write_payload_def payload_ok_def)

lemma payload_reads:
  assumes "payload_ok t w" "\<not> m_be m" "t = CHARV \<longrightarrow> m_serde m \<or> e_q env"
  shows "reads (rd_atom env m t)
    (if t = BOOL \<or> t = BYTE_ONLY \<or> t = CHARV then [ucast w] else if t = I16 then le_bytes 2 (ucast w :: u16)
     else if t = I32 \<or> temporal32 t then le_bytes 4 (ucast w :: u32) else if t = F32 then le_bytes 4 (narrow w) else le_bytes 8 w)
    (RAtom t w False)"
proof -
  have b: "reads (r_need 1 (r_bind r_u8 (\<lambda>b. r_ok (h b)))) [b] (h b)" for b and h :: "u8 \<Rightarrow> 'a ray"
    by (intro reads_need reads_map reads_u8) simp
  have h: "reads (r_need 2 (r_bind (r_i16 m) (\<lambda>b. r_ok (h b)))) (le_bytes 2 b) (h b)" for b and h :: "u16 \<Rightarrow> 'a ray"
    by (intro reads_need reads_map reads_word assms(2)) simp
  have i: "reads (r_need 4 (r_bind (r_i32 m) (\<lambda>b. r_ok (h b)))) (le_bytes 4 b) (h b)" for b and h :: "u32 \<Rightarrow> 'a ray"
    by (intro reads_need reads_map reads_word assms(2)) simp
  have j: "reads (r_need 8 (r_bind (r_i64 m) (\<lambda>b. r_ok (h b)))) (le_bytes 8 b) (h b)" for b and h :: "u64 \<Rightarrow> 'a ray"
    by (intro reads_need reads_map reads_word assms(2)) simp
  show ?thesis
    using assms(1,3) b [of "\<lambda>b. RAtom t (if b \<noteq> 0 then 1 else 0) False" "ucast w"] b [of "\<lambda>b. RAtom t (ucast b) False" "ucast w"]
      h [of "\<lambda>b. RAtom t (ucast b) False" "ucast w"] i [of "\<lambda>b. RAtom t (ucast b) False" "ucast w"]
      i [of "\<lambda>b. RAtom t (scast b) False" "ucast w"] i [of "\<lambda>b. RAtom t (widen b) False" "narrow w"]
      j [of "\<lambda>b. RAtom t b False" w] j [of "\<lambda>b. RAtom t (if is_nan64 b then NULL_F64 else b) False" w]
    by (cases t) (auto simp: rd_atom_def payload_ok_def r_f32_def r_f64_def split: if_splits)
qed

lemma carried_atom:
  assumes "atom_ok env s t w aux" "little s m"
  shows "\<exists>bs. carried env m s (Suc d) (RAtom t w aux) bs"
proof (cases aux)
  case True
  then have t: "s" "t = BOOL \<or> t = BYTE_ONLY" "w = 0" using assms(1) by (auto simp: atom_ok_def)
  have "emits True (w_seq [w_u8 204, w_u8 (- ftag t)]) ([204] @ [- ftag t])" by (intro emits_intros)
  then have "emits True (write_body env (q_wire_write_obj env d) (RAtom t w aux)) [204, - ftag t]"
    using True t by (intro body_ext) (auto simp: atom_is_null_def simp del: w_seq.simps)
  moreover have "reads (rd_ext env m obj 204) [- ftag t] (RAtom t w aux)" for obj
    using True t by (auto simp: rd_ext_def intro!: reads_byte reads_ok simp del: One_nat_def)
  ultimately show ?thesis using carriedI [of "RAtom t w aux" s env d 204 "[- ftag t]" m] t(1) assms(2)
    by (auto simp: tagged_ext little_def)
next
  case False
  then have p: "payload_ok t w" "t = CHARV \<longrightarrow> s \<or> e_q env" using assms(1) by (auto simp: atom_ok_def)
  define bs where "bs = (if t = BOOL \<or> t = BYTE_ONLY \<or> t = CHARV then [ucast w] else if t = I16 then le_bytes 2 (ucast w :: u16)
     else if t = I32 \<or> temporal32 t then le_bytes 4 (ucast w :: u32) else if t = F32 then le_bytes 4 (narrow w) else le_bytes 8 w)"
  have "emits s (w_seq [w_u8 (- ftag t), write_payload t w]) ([- ftag t] @ bs)"
    using payload_emits [OF p(1), of s] by (intro emits_intros) (simp add: bs_def)
  then have "emits s (write_body env (q_wire_write_obj env d) (RAtom t w aux)) (- ftag t # bs)"
    using False by (intro body_serde) (auto simp: atom_is_null_def simp del: w_seq.simps)
  moreover have "reads (rd_atom env m t) bs (RAtom t w aux)"
    using payload_reads [OF p(1), of m env] assms(2) p(2) False by (simp add: bs_def little_def)
  ultimately show ?thesis using carriedI [of "RAtom t w aux" s env d "- ftag t" bs m] by (auto simp: tagged_atom)
qed

lemma carried_guid:
  assumes "length g = 16" "little s m"
  shows "\<exists>bs. carried env m s (Suc d) (RGuid g) bs"
proof -
  have "emits s (w_seq [w_u8 (- ftag GUID), w_raw g]) ([- ftag GUID] @ g)" by (intro emits_intros)
  then have "emits s (write_body env (q_wire_write_obj env d) (RGuid g)) (- ftag GUID # g)"
    by (intro body_serde) (auto simp del: w_seq.simps ftag.simps)
  moreover have "reads (rd_atom env m GUID) g (RGuid g)"
    using assms(1) by (auto simp: rd_atom_def intro!: reads_need reads_map reads_take)
  ultimately show ?thesis using carriedI [of "RGuid g" s env d "- ftag GUID" g m] by (metis is_nil.simps(6) tagged_atom)
qed

lemma carried_null: "\<exists>bs. carried env m s (Suc d) RNull bs" "\<exists>bs. carried env m s (Suc d) RHole bs"
proof -
  have e: "emits s (write_body env (q_wire_write_obj env d) RNull) (101 # [0])"
    "emits s (write_body env (q_wire_write_obj env d) RHole) (101 # [255])"
    by (intro body_serde; simp add: emits_prim)+
  have "reads (rd_prim env True) [0] RNull" "reads (rd_prim env True) [255] RHole" for env :: "'a wenv"
    by (auto simp: rd_prim_def intro!: reads_byte reads_ok simp del: One_nat_def)
  then have "carried env m s (Suc d) RNull [101, 0]" "carried env m s (Suc d) RHole [101, 255]"
    using e by (intro carriedI; simp add: tagged_simps)+
  then show "\<exists>bs. carried env m s (Suc d) RNull bs" "\<exists>bs. carried env m s (Suc d) RHole bs" by blast+
qed

lemma carried_str:
  assumes "s" "length p \<le> 2147483647" "little s m"
  shows "\<exists>bs. carried env m s (Suc d) (RStr p) bs"
proof -
  let ?n = "le_bytes 4 (of_nat (length p) :: u32)"
  have "emits True (w_seq [w_u8 205, w_i32 (of_nat (length p)), w_raw p]) ([205] @ ?n @ p)" by (intro emits_intros)
  then have "emits s (write_body env (q_wire_write_obj env d) (RStr p)) (205 # ?n @ p)"
    using assms(1,2) by (intro body_serde) (auto simp: write_str_atom_def intro!: emits_mode simp del: w_seq.simps)
  moreover have "reads (rd_ext env m obj 205) (?n @ p) (RStr p)" for obj
    using assms(2,3) by (auto simp: rd_ext_def little_def intro!: reads_need reads_count reads_map reads_take)
  ultimately show ?thesis using carriedI [of "RStr p" s env d 205 "?n @ p" m] assms by (auto simp: tagged_ext little_def)
qed

lemma carried_sym:
  assumes "quoted \<longrightarrow> s" "0 \<notin> set t" "little s m"
  shows "\<exists>bs. carried env m s (Suc d) (RSym t quoted) bs"
proof (cases quoted)
  case True
  have "emits True (w_seq [w_u8 203, w_cstr t]) ([203] @ t @ [0])" by (intro emits_intros)
  then have "emits s (write_body env (q_wire_write_obj env d) (RSym t quoted)) (203 # t @ [0])"
    using True assms(1) by (auto intro!: body_ext simp del: w_seq.simps)
  moreover have "reads (rd_ext env m obj 203) (t @ [0]) (RSym t quoted)" for obj
    using reads_map [OF reads_cstr [OF assms(2)], of "\<lambda>s. RSym s True"] True by (simp add: rd_ext_def)
  ultimately show ?thesis using carriedI [of "RSym t quoted" s env d 203 "t @ [0]" m] assms True by (auto simp: tagged_ext little_def)
next
  case False
  have "emits s (w_seq [w_u8 (- RAY_SYM), w_cstr t]) ([- RAY_SYM] @ t @ [0])" by (intro emits_intros)
  then have "emits s (write_body env (q_wire_write_obj env d) (RSym t quoted)) (- RAY_SYM # t @ [0])"
    using False by (intro body_serde) (auto simp del: w_seq.simps)
  moreover have "reads (r_bind r_cstr (\<lambda>s. r_ok (RSym s False))) (t @ [0]) (RSym t quoted)"
    using reads_map [OF reads_cstr [OF assms(2)], of "\<lambda>s. RSym s False"] False by simp
  ultimately show ?thesis using carriedI [of "RSym t quoted" s env d "- RAY_SYM" "t @ [0]" m]
    by (metis is_nil.simps(8) tagged_simps(2))
qed

section \<open>Vectors\<close>

lemma reads_header:
  assumes "\<not> m_be m" "n \<le> 2147483647" "n * k \<le> length cs" "reads (g a n) cs v"
  shows "reads (r_need 5 (r_bind r_u8 (\<lambda>a. r_bind (r_count m k) (g a)))) (a # le_bytes 4 (of_nat n :: u32) @ cs) v"
proof -
  have "reads (r_bind r_u8 (\<lambda>a. r_bind (r_count m k) (g a))) ([a] @ le_bytes 4 (of_nat n :: u32) @ cs) v"
    by (rule reads_bind [OF reads_u8], rule reads_count) (fact assms)+
  then show ?thesis by (intro reads_need) auto
qed

lemma reads_attr:
  "\<not> m_disk m \<Longrightarrow> q_attr_stamp_byte (e_build env) v b = Inr v' \<Longrightarrow> reads (rd_attr env m v b) [] v'"
  by (simp add: rd_attr_def reads_lift)

lemma carried_vec:
  assumes "vec_ok env s t a ix p" "little s m"
  shows "\<exists>bs. carried env m s (Suc d) (RVec t a ix p) bs"
proof -
  define n where "n = length p div ray_type_sizes t"
  define x where "x = (if s \<and> t \<noteq> CHARV then a AND HAS_NULLS else letter_byte (vec_letter a ix))"
  let ?bs = "x # le_bytes 4 (of_nat n :: u32) @ p"
  have n: "n \<le> 2147483647" "length p = n * ray_type_sizes t" "t = CHARV \<longrightarrow> s \<or> e_q env"
    using assms(1) by (auto simp: vec_ok_def n_def)
  have "emits s (w_seq [w_u8 (ftag t), w_u8 x, w_count n, w_raw p]) ([ftag t] @ [x] @ le_bytes 4 (of_nat n :: u32) @ p)"
    using n(1) by (intro emits_intros)
  moreover have "t = CHARV \<Longrightarrow> ftag t = 10 \<and> n = length p \<and> x = letter_byte (vec_letter a ix)" by (simp add: n_def x_def)
  ultimately have "emits s (write_vec t a ix p) (ftag t # ?bs)"
    unfolding write_vec_def by (intro emits_mode) (auto simp: w_charvec_def n_def x_def simp del: w_seq.simps)
  then have e: "emits s (write_body env (q_wire_write_obj env d) (RVec t a ix p)) (ftag t # ?bs)"
    by (intro body_serde) simp_all
  let ?v = "q_wire_fixed_vec t p (m_swap m) :: 'a ray"
  have v: "?v = RVec t (if has_nulls t p then HAS_NULLS else 0) None p"
    using assms(2) by (simp add: q_wire_fixed_vec_def little_def Let_def)
  have "reads (let v = q_wire_fixed_vec t p (m_swap m) in if m_serde m then r_ok (if x AND HAS_NULLS \<noteq> 0 then or_attrs v HAS_NULLS else v)
       else rd_attr env m v x) [] (RVec t a ix p)"
  proof (cases s)
    case True
    then have *: "ix = None" "a = 0 \<and> \<not> has_nulls t p \<or> a = HAS_NULLS \<and> t \<noteq> CHARV" using assms(1) by (auto simp: vec_ok_def)
    have "(if x AND HAS_NULLS \<noteq> 0 then or_attrs ?v HAS_NULLS else ?v) = RVec t a ix p"
      using * True by (auto simp: v x_def vec_letter_def letter_byte_def)
    then have "reads (r_ok (if x AND HAS_NULLS \<noteq> 0 then or_attrs ?v HAS_NULLS else ?v)) [] (RVec t a ix p)" by (simp only: reads_ok)
    then show ?thesis using True assms(2) by (auto simp: little_def Let_def split: if_splits)
  next
    case False
    have "reads (rd_attr env m (RVec t (if has_nulls t p then HAS_NULLS else 0) None p) x) [] (RVec t a ix p)"
      using False assms by (intro reads_attr) (simp_all add: vec_ok_def little_def x_def)
    then show ?thesis using False assms(2) unfolding Let_def v by (simp add: little_def)
  qed
  then have "reads (rd_fixed_vec env m t) ?bs (RVec t a ix p)" unfolding rd_fixed_vec_def
    using assms(2) n reads_bind [OF reads_take [of p "n * ray_type_sizes t"], of _ "[]"]
    by (intro reads_header) (auto simp: little_def)
  moreover have "rd_tagged env m obj outer (ftag t) = rd_fixed_vec env m t" for obj outer
    unfolding tagged_vector using n(3) assms(2) by (cases t) (auto simp: rd_vector_def little_def ftype_of_def all_ftypes_def)
  ultimately have "carried env m s (Suc d) (RVec t a ix p) (ftag t # ?bs)" by (intro carriedI e) simp_all
  then show ?thesis by blast
qed

lemma all2_cells: "list_all2 (\<lambda>x bs. P x bs) xs (map f xs) \<longleftrightarrow> list_all (\<lambda>x. P x (f x)) xs"
  by (simp add: list_all2_conv_all_nth list_all_length)

lemma cells_length: "list_all (\<lambda>x. k \<le> length (f x)) xs \<Longrightarrow> length xs * k \<le> length (concat (map f xs))"
  by (induction xs) auto

definition symvec_bytes :: "u8 \<Rightarrow> bytes list \<Rightarrow> bytes" where
  "symvec_bytes x cells = RAY_SYM # x # le_bytes 4 (of_nat (length cells) :: u32) @ concat (map (\<lambda>t. t @ [0]) cells)"

lemma emits_symvec: "length cells \<le> 2147483647 \<Longrightarrow> emits s (write_symvec x cells) (symvec_bytes x cells)"
proof -
  assume len: "length cells \<le> 2147483647"
  let ?cs = "concat (map (\<lambda>t. t @ [0]) cells)"
  have "emits s (w_seq (map w_cstr cells)) ?cs"
    by (rule emits_map) (simp add: all2_cells list_all_iff emits_cstr)
  then have "emits s (write_symvec x cells) (([RAY_SYM] @ [x] @ le_bytes 4 (of_nat (length cells) :: u32)) @ ?cs)"
    unfolding write_symvec_def using len by (intro emits_intros)
  then show ?thesis by (simp add: symvec_bytes_def)
qed

lemma carried_symvec:
  assumes "length cells \<le> 2147483647" "list_all (\<lambda>t. 0 \<notin> set t) cells"
    and "q_attr_stamp_byte (e_build env) (RSymVec 0 None cells) (letter_byte (vec_letter a ix)) = Inr (RSymVec a ix cells)"
    and "little s m"
  shows "carried env m s (Suc d) (RSymVec a ix cells) (symvec_bytes (letter_byte (vec_letter a ix)) cells)"
proof -
  let ?x = "letter_byte (vec_letter a ix)" and ?cs = "concat (map (\<lambda>t. t @ [0]) cells)"
  let ?bs = "?x # le_bytes 4 (of_nat (length cells) :: u32) @ ?cs"
  have e: "emits s (write_body env (q_wire_write_obj env d) (RSymVec a ix cells)) (symvec_bytes ?x cells)"
    using emits_symvec [OF assms(1)] by (intro body_serde) simp_all
  have "reads (rd_many r_cstr (length cells)) ?cs cells"
    using assms(2) by (intro reads_many) (simp add: list_all2_conv_all_nth list_all_length reads_cstr)
  then have "reads (r_bind (rd_many r_cstr (length cells)) (\<lambda>cells. rd_attr env m (RSymVec 0 None cells) ?x)) ?cs (RSymVec a ix cells)"
    using reads_bind [of _ ?cs cells _ "[]"] reads_attr [OF _ assms(3), of m] assms(4) by (simp add: little_def)
  then have "reads (rd_vector env m RAY_SYM) ?bs (RSymVec a ix cells)"
    unfolding rd_vector_def using assms(1,4) cells_length [of 1 "\<lambda>t. t @ [0]" cells]
    by (auto simp: little_def list_all_iff intro!: reads_header)
  then show ?thesis unfolding symvec_bytes_def
    by (intro carriedI e [unfolded symvec_bytes_def]) (simp_all add: tagged_simps)
qed

lemma carried_strvec:
  assumes "s" "a = 0 \<or> a = HAS_NULLS" "length cells \<le> 2147483647" "list_all (\<lambda>c. length c \<le> 2147483647) cells" "little s m"
  shows "\<exists>bs. carried env m s (Suc d) (RStrVec a cells) bs"
proof -
  let ?f = "\<lambda>c. le_bytes 4 (of_nat (length c) :: u32) @ c" and ?x = "a AND HAS_NULLS"
  let ?bs = "?x # le_bytes 4 (of_nat (length cells) :: u32) @ concat (map ?f cells)"
  have "emits True (if length c > 2147483647 then wbuf_fail QE_LIMIT else w_seq [w_i32 (of_nat (length c)), w_raw c]) (?f c)"
    if "c \<in> set cells" for c
  proof -
    have "emits True (w_seq [w_i32 (of_nat (length c)), w_raw c]) (?f c)" by (intro emits_intros)
    then show ?thesis using that assms(4) by (auto simp: list_all_iff)
  qed
  then have "emits True (w_seq (map (\<lambda>c. if length c > 2147483647 then wbuf_fail QE_LIMIT else w_seq [w_i32 (of_nat (length c)), w_raw c]) cells))
      (concat (map ?f cells))"
    by (intro emits_map) (simp add: all2_cells list_all_iff)
  then have "emits True (w_seq ([w_u8 202, w_u8 ?x, w_count (length cells)] @
      map (\<lambda>c. if length c > 2147483647 then wbuf_fail QE_LIMIT else w_seq [w_i32 (of_nat (length c)), w_raw c]) cells))
      (([202] @ [?x] @ le_bytes 4 (of_nat (length cells) :: u32)) @ concat (map ?f cells))"
    using assms(3) by (intro emits_intros)
  then have e: "emits s (write_body env (q_wire_write_obj env d) (RStrVec a cells)) (202 # ?bs)"
    using assms(1) by (auto intro!: body_ext simp del: w_seq.simps)
  have "reads (r_need 4 (r_bind (r_count m 1) r_take)) (?f c) c" if "c \<in> set cells" for c
    using that assms(4,5) by (intro reads_need reads_count) (auto simp: list_all_iff little_def reads_take)
  then have "reads (rd_many (r_need 4 (r_bind (r_count m 1) r_take)) (length cells)) (concat (map ?f cells)) cells"
    by (intro reads_many) (simp add: list_all2_conv_all_nth)
  then have "reads (r_bind (rd_many (r_need 4 (r_bind (r_count m 1) r_take)) (length cells))
      (\<lambda>cells. r_ok (RStrVec (if ?x AND HAS_NULLS \<noteq> 0 then HAS_NULLS else 0) cells))) (concat (map ?f cells)) (RStrVec a cells)"
    using assms(2) reads_map [of _ _ cells "RStrVec a"] by auto
  then have "reads (rd_ext env m obj 202) ?bs (RStrVec a cells)" for obj
    using assms(3,5) cells_length [of 4 ?f cells] by (auto simp: rd_ext_def little_def list_all_iff intro!: reads_header)
  then have "carried env m s (Suc d) (RStrVec a cells) (202 # ?bs)"
    using assms(1,5) by (intro carriedI e) (simp_all add: tagged_ext little_def)
  then show ?thesis by blast
qed

section \<open>Containers\<close>

lemma clear_bits: "a AND b = 0 \<Longrightarrow> a AND NOT b = a" for a b :: u8
proof (rule bit_word_eqI)
  fix n assume "a AND b = 0" "n < LENGTH(8)"
  then have "\<not> (bit a n \<and> bit b n)" by (metis bit_and_iff bit_0_eq bot_apply bot_bool_def)
  then show "bit (a AND NOT b) n = bit a n" using \<open>n < LENGTH(8)\<close> by (auto simp: bit_and_iff bit_not_iff)
qed

lemmas clear_slice = clear_bits [where b = SLICE]

lemma carried_each:
  assumes "list_all (wire_ok env s d) xs" and IH: "\<And>x. wire_ok env s d x \<Longrightarrow> \<exists>bs. carried env m s d x bs"
  shows "\<exists>cs. emits s (w_seq (map (q_wire_write_obj env d) xs)) cs \<and> reads (rd_many (rd_obj env m d) (length xs)) cs xs \<and>
    length xs * 1 \<le> length cs"
proof -
  have "\<forall>x\<in>set xs. \<exists>bs. carried env m s d x bs" using assms by (simp add: list_all_iff)
  then obtain f where f: "\<forall>x\<in>set xs. carried env m s d x (f x)" by metis
  have "emits s (w_seq (map (q_wire_write_obj env d) xs)) (concat (map f xs))"
    using f by (intro emits_map) (simp add: all2_cells list_all_iff carried_def)
  moreover have "reads (rd_many (rd_obj env m d) (length xs)) (concat (map f xs)) xs"
    using f by (intro reads_many) (simp add: list_all2_conv_all_nth carried_def)
  moreover have "list_all (\<lambda>x. 1 \<le> length (f x)) xs" using f by (auto simp: list_all_iff carried_def Suc_le_eq)
  ultimately show ?thesis using cells_length by blast
qed

lemma carried_list:
  assumes len: "length xs \<le> 2147483647" and ok: "list_all (wire_ok env s d) xs" and lm: "little s m"
    and attr: "if s then a AND SLICE = 0
          else q_list_collapse (e_rows env) (RList a xs) = Inr (RList a xs) \<and>
               q_list_collapse (e_rows env) (RList 0 xs) = Inr (RList 0 xs) \<and>
               q_attr_stamp_byte (e_build env) (RList 0 xs) (letter_byte (vec_letter a None)) = Inr (RList a xs)"
    and IH: "\<And>x. wire_ok env s d x \<Longrightarrow> \<exists>bs. carried env m s d x bs"
  shows "\<exists>bs. carried env m s (Suc d) (RList a xs) bs"
proof -
  define x where "x = (if s then a AND NOT SLICE else letter_byte (vec_letter a None))"
  obtain cs where cs: "emits s (w_seq (map (q_wire_write_obj env d) xs)) cs" "reads (rd_many (rd_obj env m d) (length xs)) cs xs"
    "length xs * 1 \<le> length cs" using carried_each [OF ok IH] by blast
  let ?bs = "x # le_bytes 4 (of_nat (length xs) :: u32) @ cs"
  have "emits s (w_seq ([w_u8 0, w_u8 x, w_count (length xs)] @ map (q_wire_write_obj env d) xs))
      (([0] @ [x] @ le_bytes 4 (of_nat (length xs) :: u32)) @ cs)"
    using len by (intro emits_intros cs(1))
  then have "emits s (write_list env (q_wire_write_obj env d) a xs) (0 # ?bs)"
    using attr unfolding write_list_def by (intro emits_mode) (auto simp: Let_def x_def split: if_splits simp del: w_seq.simps)
  then have e: "emits s (write_body env (q_wire_write_obj env d) (RList a xs)) (0 # ?bs)" by (intro body_serde) simp_all
  have "reads (if m_serde m then r_ok (RList (x AND NOT SLICE) xs)
      else r_bind (r_lift (as_text (q_list_collapse (e_rows env) (RList 0 xs)))) (\<lambda>v. rd_attr env m v x)) [] (RList a xs)"
  proof (cases s)
    case True
    then have "x AND NOT SLICE = a" using attr clear_slice [of a] by (simp add: x_def)
    then show ?thesis using True lm reads_ok [of "RList a xs"] by (simp add: little_def)
  next
    case False
    have "reads (r_lift (as_text (Inr (RList 0 xs)))) [] (RList 0 xs)" by (rule reads_lift) simp
    then show ?thesis
      using False attr lm reads_bind [of _ "[]" "RList 0 xs" "\<lambda>v. rd_attr env m v x" "[]"] reads_attr [of m env "RList 0 xs" x]
      by (simp add: little_def x_def)
  qed
  then have "reads (r_bind (rd_many (rd_obj env m d) (length xs)) (\<lambda>xs. if m_serde m then r_ok (RList (x AND NOT SLICE) xs)
      else r_bind (r_lift (as_text (q_list_collapse (e_rows env) (RList 0 xs)))) (\<lambda>v. rd_attr env m v x))) (cs @ []) (RList a xs)"
    by (rule reads_bind [OF cs(2)])
  then have "reads (rd_list env m (rd_obj env m d)) ?bs (RList a xs)"
    unfolding rd_list_def using lm len cs(3) by (intro reads_header) (simp_all add: little_def)
  then have "carried env m s (Suc d) (RList a xs) (0 # ?bs)" by (intro carriedI e) (simp_all add: tagged_simps)
  then show ?thesis by blast
qed

lemma carried_two:
  assumes "carried env m s d x bs" "carried env m s d y cs" "reads (g x y) [] v"
  shows "emits s (w_seq [q_wire_write_obj env d x, q_wire_write_obj env d y]) (bs @ cs)"
    "reads (r_bind (rd_obj env m d) (\<lambda>x. r_bind (rd_obj env m d) (g x))) (bs @ cs) v"
proof -
  show "emits s (w_seq [q_wire_write_obj env d x, q_wire_write_obj env d y]) (bs @ cs)"
    using assms(1,2) by (intro emits_intros) (simp_all add: carried_def)
  have "reads (r_bind (rd_obj env m d) (g x)) (cs @ []) v"
    using assms(2,3) by (intro reads_bind [of _ cs y]) (simp_all add: carried_def)
  then show "reads (r_bind (rd_obj env m d) (\<lambda>x. r_bind (rd_obj env m d) (g x))) (bs @ cs) v"
    using assms(1) by (intro reads_bind [of _ bs x]) (simp_all add: carried_def)
qed

lemma carried_engine:
  assumes "s" "a AND SLICE = 0" "carried env m s d ps bs" "carried env m s d bd cs" "little s m"
  shows "\<exists>bs. carried env m s (Suc d) (REngineLambda a ps bd) bs"
proof -
  have g: "reads (r_ok (REngineLambda (a AND NOT SLICE) ps bd)) [] (REngineLambda a ps bd)"
    using clear_slice [OF assms(2)] reads_ok [of "REngineLambda a ps bd"] by simp
  note two = carried_two [OF assms(3,4), where g = "\<lambda>ps bd. r_ok (REngineLambda (a AND NOT SLICE) ps bd)", OF g]
  have "emits s (w_seq ([w_u8 201, w_u8 a] @ [q_wire_write_obj env d ps, q_wire_write_obj env d bd])) (([201] @ [a]) @ bs @ cs)"
    by (intro emits_append [OF _ two(1)] emits_intros)
  then have e: "emits s (write_body env (q_wire_write_obj env d) (REngineLambda a ps bd)) (201 # a # bs @ cs)"
    using assms(1) by (auto intro!: body_ext simp del: w_seq.simps)
  have "reads (r_bind r_u8 (\<lambda>a. r_bind (rd_obj env m d) (\<lambda>ps. r_bind (rd_obj env m d) (\<lambda>bd.
      r_ok (REngineLambda (a AND NOT SLICE) ps bd))))) ([a] @ bs @ cs) (REngineLambda a ps bd)"
    by (rule reads_bind [OF reads_u8], rule two(2))
  then have "reads (rd_ext env m (rd_obj env m d) 201) (a # bs @ cs) (REngineLambda a ps bd)"
    unfolding rd_ext_def by (auto intro!: reads_need)
  then have "carried env m s (Suc d) (REngineLambda a ps bd) (201 # a # bs @ cs)"
    using assms(1,5) by (intro carriedI e) (simp_all add: tagged_ext little_def)
  then show ?thesis by blast
qed

lemma dict_reads:
  fixes k v :: "'f ray"
  assumes "a = 0 \<and> (vec_len k \<noteq> None \<and> vec_len k = vec_len v \<or> (case (k, v) of (RSymVec _ _ _, RSym _ _) \<Rightarrow> True | _ \<Rightarrow> False)) \<or>
      a = SORTED \<and> vec_len k \<noteq> None \<and> vec_len k = vec_len v \<and> q_attr_stamp_trusted k AttrS = k"
  shows "reads (if vec_len k = None \<or> vec_len k \<noteq> vec_len v
    then (case (k, v) of (RSymVec _ _ _, RSym _ _) \<Rightarrow> r_ok (RDict 0 False k v) | _ \<Rightarrow> r_fail QE_LENGTH)
    else if a AND SORTED \<noteq> 0
    then r_ok (q_attr_stamp_trusted (RDict 0 False (q_attr_stamp_trusted k AttrS) v) AttrS)
    else r_ok (RDict 0 False k v)) [] (RDict a False k v)"
proof (cases "vec_len k = None \<or> vec_len k \<noteq> vec_len v")
  case True
  then have a: "a = 0" and "case (k, v) of (RSymVec _ _ _, RSym _ _) \<Rightarrow> True | _ \<Rightarrow> False" using assms by auto
  then obtain b ix cells where "k = RSymVec b ix cells" by (cases k) auto
  moreover from this obtain t q where "v = RSym t q" using \<open>case (k, v) of (RSymVec _ _ _, RSym _ _) \<Rightarrow> True | _ \<Rightarrow> False\<close> by (cases v) auto
  ultimately have kv: "k = RSymVec b ix cells" "v = RSym t q" by simp_all
  then show ?thesis using a by (simp add: reads_ok)
next
  case False
  then show ?thesis using assms by (auto simp: reads_ok stamp_def simp del: q_attr_stamp_trusted.simps(1-5))
qed

lemma carried_dict:
  assumes kv: "carried env m s d k bs" "carried env m s d v cs"
    and a: "a = 0 \<and> (vec_len k \<noteq> None \<and> vec_len k = vec_len v \<or> (case (k, v) of (RSymVec _ _ _, RSym _ _) \<Rightarrow> True | _ \<Rightarrow> False)) \<or>
      a = SORTED \<and> vec_len k \<noteq> None \<and> vec_len k = vec_len v \<and> q_attr_stamp_trusted k AttrS = k"
  shows "\<exists>bs. carried env m s (Suc d) (RDict a False k v) bs"
proof -
  note g = dict_reads [OF a]
  note two = carried_two [OF kv, where g = "\<lambda>k v. if vec_len k = None \<or> vec_len k \<noteq> vec_len v
    then (case (k, v) of (RSymVec _ _ _, RSym _ _) \<Rightarrow> r_ok (RDict 0 False k v) | _ \<Rightarrow> r_fail QE_LENGTH)
    else if a AND SORTED \<noteq> 0
    then r_ok (q_attr_stamp_trusted (RDict 0 False (q_attr_stamp_trusted k AttrS) v) AttrS)
    else r_ok (RDict 0 False k v)", OF g]
  let ?tag = "if a AND SORTED \<noteq> 0 then 127 else 99 :: u8"
  have "emits s (w_seq ([w_u8 ?tag] @ [q_wire_write_obj env d k, q_wire_write_obj env d v])) ([?tag] @ bs @ cs)"
    by (intro emits_append [OF _ two(1)] emits_intros)
  then have e: "emits s (write_body env (q_wire_write_obj env d) (RDict a False k v)) (?tag # bs @ cs)"
    by (intro body_serde) (simp_all add: write_dict_def del: w_seq.simps)
  have "rd_tagged env m obj outer ?tag = rd_dict obj (a AND SORTED \<noteq> 0)" for obj outer by (simp add: tagged_simps)
  moreover have "reads (rd_dict (rd_obj env m d) (a AND SORTED \<noteq> 0)) (bs @ cs) (RDict a False k v)"
    unfolding rd_dict_def by (rule two(2))
  ultimately have "carried env m s (Suc d) (RDict a False k v) (?tag # bs @ cs)" by (intro carriedI e) simp_all
  then show ?thesis by blast
qed

lemma carried_table:
  assumes names: "length names \<le> 2147483647" "list_all (\<lambda>t. 0 \<notin> set t) names" "length cols = length names"
    and attr: "q_attr_stamp_byte (e_build env) (RTable 0 names cols None) (letter_byte (vec_letter a None)) = Inr (RTable a names cols None)"
    and cols: "carried env m s (Suc d) (RList 0 cols) cs" and lm: "little s m"
  shows "\<exists>bs. carried env m s (Suc (Suc d)) (RTable a names cols None) bs"
proof -
  let ?x = "letter_byte (vec_letter a None)" and ?obj = "rd_obj env m (Suc d)"
  have z: "letter_byte (vec_letter 0 None) = 0" by (simp add: vec_letter_def letter_byte_def)
  have keys: "carried env m s (Suc d) (RSymVec 0 None names) (symvec_bytes 0 names)"
    using carried_symvec [OF names(1,2), of env 0 None s m d] lm z by (simp add: q_attr_stamp_byte_def)
  have "emits s (w_seq ([w_u8 98, w_u8 ?x, w_u8 99] @ [write_symvec 0 names, q_wire_write_obj env (Suc d) (RList 0 cols)]))
      (([98] @ [?x] @ [99]) @ symvec_bytes 0 names @ cs)"
    using cols by (intro emits_append emits_intros emits_symvec names) (simp add: carried_def)
  then have e: "emits s (write_body env (q_wire_write_obj env (Suc d)) (RTable a names cols None)) (98 # ?x # 99 # symvec_bytes 0 names @ cs)"
    using w_seq_flat [of "[w_u8 98, w_u8 ?x, w_u8 99]" "[w_u8 RAY_SYM, w_u8 0, w_count (length names)] @ map w_cstr names"
        "[q_wire_write_obj env (Suc d) (RList 0 cols)]"]
    by (intro body_serde) (simp_all add: write_table_def write_symvec_def del: w_seq.simps q_wire_write_obj.simps)
  have "reads (rd_attr env m (RTable 0 names cols None) ?x) [] (RTable a names cols None)"
    using lm by (intro reads_attr attr) (simp add: little_def)
  then have c: "reads (r_bind ?obj (\<lambda>cols. case cols of
              RSym s _ \<Rightarrow>
                (case e_flip env names s of
                   Some t \<Rightarrow> r_ok t
                 | None \<Rightarrow> (case e_provider_flip env names s of Some t \<Rightarrow> r_ok t | None \<Rightarrow> r_fail QE_DOMAIN))
            | RList _ xs \<Rightarrow>
                if length xs \<noteq> length names then r_fail QE_DOMAIN
                else rd_attr env m (RTable 0 names xs None) ?x
            | _ \<Rightarrow> r_fail QE_DOMAIN)) (cs @ []) (RTable a names cols None)"
    using cols names(3) by (intro reads_bind [of _ cs "RList 0 cols"]) (simp_all add: carried_def)
  have "reads (rd_table env m ?obj) ([?x] @ [99] @ symvec_bytes 0 names @ cs @ []) (RTable a names cols None)"
    unfolding rd_table_def
    by (intro reads_need, simp, rule reads_bind [OF reads_u8], rule reads_bind [OF reads_u8], simp only: if_False not_True_eq_False simp_thms,
        rule reads_bind [of _ _ "RSymVec 0 None names"])
      (use c keys in \<open>simp_all add: carried_def\<close>)
  then have "carried env m s (Suc (Suc d)) (RTable a names cols None) (98 # ?x # 99 # symvec_bytes 0 names @ cs)"
    by (intro carriedI e) (simp_all add: tagged_simps)
  then show ?thesis by blast
qed

text \<open>Every value in the reader's form is carried.\<close>

lemma carried_ok: "wire_ok env s d x \<Longrightarrow> little s m \<Longrightarrow> \<exists>bs. carried env m s d x bs"
proof (induction d arbitrary: x)
  case (Suc d)
  note IH = Suc.IH [OF _ Suc.prems(2)]
  show ?case
  proof (cases x)
    case (RList a xs)
    then have "\<exists>bs. carried env m s (Suc d) (RList a xs) bs"
      using Suc.prems by (intro carried_list IH) simp_all
    then show ?thesis unfolding RList .
  next
    case (RDict a p k v)
    then show ?thesis using Suc.prems IH [of k] IH [of v] carried_dict [of env m s d k _ v _ a] by auto
  next
    case (RTable a names cols dir)
    then have ok: "wire_ok env s d (RList 0 cols)" "dir = None" using Suc.prems by auto
    then obtain d' where "d = Suc d'" by (cases d) auto
    then show ?thesis using RTable ok Suc.prems IH [OF ok(1)] carried_table [of names cols env a m s d'] by auto
  next
    case (REngineLambda a ps bd)
    then show ?thesis using Suc.prems IH [of ps] IH [of bd] carried_engine [of s a env m d ps _ bd] by auto
  next
    case (RSymVec a ix cells)
    then show ?thesis using Suc.prems carried_symvec [of cells env a ix s m d] by auto
  next
    case (RStr p)
    then show ?thesis using Suc.prems carried_str [of s p m env d] by simp
  next
    case (RStrVec a cells)
    then show ?thesis using Suc.prems carried_strvec [of s a cells m env d] by simp
  next
    case (RSym t q)
    then show ?thesis using Suc.prems carried_sym [of q s t m env d] by simp
  qed (use Suc.prems carried_null carried_atom carried_guid carried_vec in \<open>simp_all del: q_wire_write_obj.simps rd_obj.simps\<close>)
qed simp

section \<open>Frames\<close>

lemma emitsD:
  assumes "emits s f bs" "\<not> wb_measure b" "wb_err b = None" "wb_serde b = s"
  shows "fst (f b)" "wb_p (snd (f b)) = wb_p b @ bs" "wb_len (snd (f b)) = wb_len b + length bs" "wb_err (snd (f b)) = None"
  using assms by (simp_all add: emits_def)

lemma readsD: "reads f bs v \<Longrightarrow> f (cur_of (bs @ rest)) = (Inr v, cur_of rest)"
  by (simp add: reads_def cur_of_def)

lemma deserialize_body_reads: "reads (rd_obj env (wire_mode be) Q_WIRE_MAX_DEPTH) bs x \<Longrightarrow> deserialize_body env be bs = Inr x"
  by (drule readsD [of _ bs x "[]"]) (simp add: deserialize_body_def cur_of_def rd_finish_def del: rd_obj.simps)

definition frame_of :: "u8 \<Rightarrow> bytes \<Rightarrow> bytes" where
  "frame_of msgtype bs = [1, msgtype, 0, 0] @ le32 (8 + length bs) @ bs"

lemma serialize_emits:
  assumes "emits False (q_wire_write_obj env Q_WIRE_MAX_DEPTH x) bs"
  shows "q_wire_serialize env x msgtype =
    (if 8 + length bs > Q_WIRE_MSG_MAX then Inl (q_err QE_LIMIT) else Inr (frame_of msgtype bs))"
proof -
  let ?h = "[1, msgtype, 0, 0, 0, 0, 0, 0]"
  have "emits False (w_seq [w_raw ?h, q_wire_write_obj env Q_WIRE_MAX_DEPTH x]) (?h @ bs)"
    by (intro emits_cons emits_single emits_raw assms)
  note E = emitsD [OF this, of wbuf_zero]
  then have "wb_len (snd (w_seq [w_raw ?h, q_wire_write_obj env Q_WIRE_MAX_DEPTH x] wbuf_zero)) = 8 + length bs"
    by (simp add: wbuf_zero_def del: w_seq.simps q_wire_write_obj.simps)
  then show ?thesis using E(1,2) unfolding q_wire_serialize_def split_beta Let_def
    by (simp add: wbuf_zero_def frame_of_def del: w_seq.simps q_wire_write_obj.simps)
qed

lemma deserialize_plain:
  assumes "reads (rd_obj env (wire_mode False) Q_WIRE_MAX_DEPTH) bs x" "bs \<noteq> []" "8 + length bs \<le> Q_WIRE_MSG_MAX"
  shows "q_wire_deserialize env (QByteVec (frame_of msgtype bs)) = Inr x"
proof -
  have l: "length (frame_of msgtype bs) = 8 + length bs" by (simp add: frame_of_def le32_def)
  have g: "get32 False (drop 4 (frame_of msgtype bs)) = 8 + length bs"
    using get32_put32 [of "8 + length bs" False bs] assms(3) by (simp add: frame_of_def put32_def)
  have d: "drop 8 (frame_of msgtype bs) = bs" by (simp add: frame_of_def le32_def)
  have n: "frame_of msgtype bs ! 0 = 1" "frame_of msgtype bs ! 2 = 0" by (simp_all add: frame_of_def)
  show ?thesis
    unfolding q_wire_deserialize_def using assms(2) l g d n deserialize_body_reads [OF assms(1)] by simp
qed

lemma deserialize_compressed:
  assumes "reads (rd_obj env (wire_mode False) Q_WIRE_MAX_DEPTH) bs x" "8 + length bs \<le> Q_WIRE_MSG_MAX"
    and "q_wire_compress True (QByteVec (frame_of msgtype bs)) = Inr z" "z \<noteq> frame_of msgtype bs"
  shows "q_wire_deserialize env (QByteVec z) = Inr x"
proof -
  let ?y = "frame_of msgtype bs"
  have y: "length ?y = 8 + length bs" "?y ! 0 = 1" "drop 8 ?y = bs" by (simp_all add: frame_of_def le32_def)
  have "2008 < length ?y" using assms(3,4) by (auto simp: q_wire_compress_def not_less [symmetric] simp del: not_less split: if_splits)
  from compressed_frame [OF this _ assms(3,4)] have z: "q_wire_uncompress_payload True (drop 8 z) False = Inr (Some bs)"
    "take 4 z = [1, ?y ! 1, 1, ?y ! 3]" "get32 False (drop 4 z) = length z"
    using assms(2) y by simp_all
  have "8 < length z" using z(1) by (auto simp: q_wire_uncompress_payload_def Let_def split: if_splits)
  moreover have "z ! 0 = take 4 z ! 0" "z ! 2 = take 4 z ! 2" by simp_all
  then have "z ! 0 = 1" "z ! 2 = 1" unfolding z(2) by simp_all
  ultimately show ?thesis
    unfolding q_wire_deserialize_def using z(1,3) deserialize_body_reads [OF assms(1)] by simp
qed

lemma compress_answers: "\<exists>z. q_wire_compress True (QByteVec y) = Inr z"
  by (auto simp: q_wire_compress_def Let_def split: option.split)

section \<open>The storage codec as a prefix code\<close>

text \<open>What \<open>q_wire_write_obj_ex\<close> leaves in a fresh buffer, and \<open>q_wire_read_obj_ex\<close> on a little-endian host, in serde mode.\<close>

definition serde_bytes :: "'f wenv \<Rightarrow> nat \<Rightarrow> 'f ray \<Rightarrow> bytes" where
  "serde_bytes env d x = wb_p (snd (q_wire_write_obj_ex env d x True wbuf_zero))"

definition serde_read :: "'f wenv \<Rightarrow> nat \<Rightarrow> bytes \<Rightarrow> 'f ray wres \<times> nat" where
  "serde_read env d buf = q_wire_read_obj_ex env d buf False True False"

lemma serde_carried:
  assumes "wire_ok env True d x"
  shows "\<exists>bs. emits True (q_wire_write_obj env d x) bs \<and> (\<forall>rest. serde_read env d (bs @ rest) = (Inr x, length bs)) \<and> bs \<noteq> []"
proof -
  let ?m = "\<lparr>m_be = False, m_swap = False, m_serde = True, m_disk = False, m_depth0 = d\<rparr>"
  obtain bs where "carried env ?m True d x bs" using carried_ok [OF assms, of ?m] by (auto simp: little_def)
  then have "emits True (q_wire_write_obj env d x) bs" "reads (rd_obj env ?m d) bs x" "bs \<noteq> []" by (auto simp: carried_def)
  then show ?thesis using readsD [of "rd_obj env ?m d" bs x]
    by (auto simp: serde_read_def q_wire_read_obj_ex_def cur_of_def rd_finish_def)
qed

lemma serde_bytes_emits: "emits True (q_wire_write_obj env d x) bs \<Longrightarrow> serde_bytes env d x = bs"
  by (drule emitsD(2) [of _ _ _ "wbuf_zero\<lparr>wb_serde := True\<rparr>"]) (simp_all add: serde_bytes_def q_wire_write_obj_ex_def wbuf_zero_def)

interpretation serde: prefix_codec "wire_ok env True d" "serde_bytes env d" "serde_read env d" for env d
proof
  fix x rest assume "wire_ok env True d x"
  then show "serde_read env d (serde_bytes env d x @ rest) = (Inr x, length (serde_bytes env d x))"
    using serde_carried serde_bytes_emits by blast
qed

lemma serde_bytes_nonempty: "wire_ok env True d x \<Longrightarrow> serde_bytes env d x \<noteq> []"
  using serde_carried serde_bytes_emits by metis

section \<open>Properties\<close>

text \<open>
  C22. The IPC round trip. A value in the reader's form (within the depth limit of 512) is refused exactly when its
  frame would exceed the wire limit; otherwise it is serialized, and the frame, sent as it is or compressed,
  deserializes to the same value.
\<close>

theorem wire_roundtrip:
  assumes "wire_ok env False Q_WIRE_MAX_DEPTH x"
  shows "if 8 + wb_len (snd (q_wire_write_obj env Q_WIRE_MAX_DEPTH x wbuf_zero)) > Q_WIRE_MSG_MAX
    then q_wire_serialize env x msgtype = Inl (q_err QE_LIMIT)
    else (\<exists>frame z. q_wire_serialize env x msgtype = Inr frame \<and> q_wire_compress True (QByteVec frame) = Inr z \<and>
       q_wire_deserialize env (QByteVec frame) = Inr x \<and> q_wire_deserialize env (QByteVec z) = Inr x)"
proof -
  obtain bs where "carried env (wire_mode False) False Q_WIRE_MAX_DEPTH x bs"
    using carried_ok [OF assms, of "wire_mode False"] by (auto simp: little_def wire_mode_def)
  then have bs: "emits False (q_wire_write_obj env Q_WIRE_MAX_DEPTH x) bs"
    "reads (rd_obj env (wire_mode False) Q_WIRE_MAX_DEPTH) bs x" "bs \<noteq> []" unfolding carried_def by blast+
  have n: "wb_len (snd (q_wire_write_obj env Q_WIRE_MAX_DEPTH x wbuf_zero)) = length bs"
    using emitsD(3) [OF bs(1), of wbuf_zero] by (simp add: wbuf_zero_def del: q_wire_write_obj.simps)
  obtain z where z: "q_wire_compress True (QByteVec (frame_of msgtype bs)) = Inr z" using compress_answers by blast
  show ?thesis
  proof (cases "8 + length bs \<le> Q_WIRE_MSG_MAX")
    case True
    then show ?thesis unfolding n
      using serialize_emits [OF bs(1), of msgtype] deserialize_plain [OF bs(2,3)] deserialize_compressed [OF bs(2) _ z] z
      by (cases "z = frame_of msgtype bs") auto
  qed (simp add: n serialize_emits [OF bs(1)])
qed

text \<open>A dictionary of a symbol vector and a mixed list, for the examples.\<close>

definition sample :: "unit ray" where
  "sample = RDict 0 False (RSymVec 0 None [lit ''a'', lit ''b'']) (RList 0 [RAtom I64 7 False, RSym (lit ''x'') False])"

lemma sample_ok_deep: "wire_ok bare_env s (Suc (Suc (Suc d))) sample"
  by (simp add: sample_def bare_env_def atom_ok_def payload_ok_def lit_def q_list_collapse_def atom_run_collapse_def
      vec_letter_def letter_byte_def q_attr_stamp_byte_def)

lemma sample_ok: "wire_ok bare_env s Q_WIRE_MAX_DEPTH sample"
proof -
  have "Q_WIRE_MAX_DEPTH = Suc (Suc (Suc 509))" by simp
  then show ?thesis using sample_ok_deep by (simp only:)
qed

lemma sample_size: "wb_len (snd (q_wire_write_obj bare_env (Suc (Suc (Suc d))) sample wbuf_zero)) = 29"
  by (simp add: sample_def write_body_def w_mode_def w_guard_def write_dict_def write_symvec_def write_list_def w_u8_def w_raw_def
      w_count_def w_i32_def w_i64_def w_cstr_def write_payload_def wbuf_zero_def lit_def Let_def q_list_collapse_def atom_run_collapse_def)

theorem wire_roundtrip_witness:
  "\<exists>frame z. q_wire_serialize bare_env sample 1 = Inr frame \<and> q_wire_compress True (QByteVec frame) = Inr z \<and>
     q_wire_deserialize bare_env (QByteVec frame) = Inr sample \<and> q_wire_deserialize bare_env (QByteVec z) = Inr sample"
proof -
  have "Q_WIRE_MAX_DEPTH = Suc (Suc (Suc 509))" by simp
  then have "wb_len (snd (q_wire_write_obj bare_env Q_WIRE_MAX_DEPTH sample wbuf_zero)) = 29" by (simp only: sample_size)
  then show ?thesis using wire_roundtrip [OF sample_ok, of 1] by (simp del: q_wire_write_obj.simps)
qed

text \<open>
  C23. The storage round trip. Writing a storable value in serde mode into any error-free buffer succeeds and appends
  bytes from which the reader gives the value back, whatever follows them, and reports exactly how many it used.
\<close>

theorem serde_roundtrip:
  assumes "wire_ok env True d x" "wbuf_ok b" "wb_err b = None"
  shows "\<exists>b'. q_wire_write_obj_ex env d x True b = (True, b') \<and>
    (\<forall>rest. q_wire_read_obj_ex env d (drop (wb_len b) (wb_p b') @ rest) False True False = (Inr x, wb_len b' - wb_len b))"
proof -
  obtain bs where bs: "emits True (q_wire_write_obj env d x) bs" "\<forall>rest. serde_read env d (bs @ rest) = (Inr x, length bs)"
    using serde_carried [OF assms(1)] by blast
  define b' where "b' = snd (q_wire_write_obj_ex env d x True b)"
  note E = emitsD [OF bs(1), of "b\<lparr>wb_serde := True\<rparr>"]
  have "q_wire_write_obj_ex env d x True b = (True, b')" "wb_p b' = wb_p b @ bs" "wb_len b' = wb_len b + length bs"
    using E assms(2,3) by (simp_all add: b'_def q_wire_write_obj_ex_def wbuf_ok_def prod_eq_iff)
  moreover have "wb_len b = length (wb_p b)" using assms(2) by (simp add: wbuf_ok_def)
  ultimately show ?thesis using bs(2) by (simp add: serde_read_def)
qed

theorem serde_roundtrip_witness:
  "\<exists>b'. q_wire_write_obj_ex bare_env Q_WIRE_MAX_DEPTH sample True wbuf_zero = (True, b') \<and>
    (\<forall>rest. q_wire_read_obj_ex bare_env Q_WIRE_MAX_DEPTH (wb_p b' @ rest) False True False = (Inr sample, wb_len b'))"
  using serde_roundtrip [OF sample_ok, of wbuf_zero] by (simp add: wbuf_zero_def wbuf_ok_def)

text \<open>
  Stored objects need no delimiter: a run of storage records, written one after the other, can be taken apart into
  storable values in one way only.
\<close>

theorem serde_stream_unique:
  assumes "list_all (wire_ok env True d) xs" "list_all (wire_ok env True d) ys"
    and "concat (map (serde_bytes env d) xs) = concat (map (serde_bytes env d) ys)"
  shows "xs = ys"
  using assms serde_bytes_nonempty by (intro serde.stream_unique [of env d xs ys])

theorem serde_stream_unique_witness:
  "concat (map (serde_bytes bare_env Q_WIRE_MAX_DEPTH) [sample, sample]) \<noteq> concat (map (serde_bytes bare_env Q_WIRE_MAX_DEPTH) [sample])"
  using serde_stream_unique [of bare_env Q_WIRE_MAX_DEPTH "[sample, sample]" "[sample]"] sample_ok by auto

end
