(* ===== verification/WsFrame.thy ===== *)
theory WsFrame
  imports Prelude
begin

text \<open>
  The pure part of \<^verbatim>\<open>src/qlang/net/q_ws.c\<close>: WebSocket frame headers, masking, and the UTF-8 check of text messages.

  Shown: the header parser accepts exactly the encoder's headers, with the reserved bits, the mask bit and the key
  filled in, and recovers their fields; the UTF-8 check accepts exactly the encodings of scalar values.
\<close>

section \<open>Frame headers\<close>

abbreviation Q_WS_MAX_MSG :: nat where "Q_WS_MAX_MSG \<equiv> 33554432"
abbreviation Q_WS_MAX_FRAGS :: u32 where "Q_WS_MAX_FRAGS \<equiv> 65536"

abbreviation OP_CONT :: u8 where "OP_CONT \<equiv> 0"
abbreviation OP_TEXT :: u8 where "OP_TEXT \<equiv> 1"
abbreviation OP_BIN :: u8 where "OP_BIN \<equiv> 2"
abbreviation OP_CLOSE :: u8 where "OP_CLOSE \<equiv> 8"
abbreviation OP_PING :: u8 where "OP_PING \<equiv> 9"
abbreviation OP_PONG :: u8 where "OP_PONG \<equiv> 10"

record ws_hdr =
  wh_fin :: u8
  wh_rsv :: u8
  wh_opcode :: u8
  wh_masked :: u8
  wh_len :: u64
  wh_mask :: bytes
  wh_hdr_len :: nat

definition hdr_zero :: ws_hdr where
  "hdr_zero = \<lparr>wh_fin = 0, wh_rsv = 0, wh_opcode = 0, wh_masked = 0, wh_len = 0, wh_mask = replicate 4 0, wh_hdr_len = 0\<rparr>"

text \<open>The results 0, -1 and the header length of \<open>q_ws_hdr_parse\<close>.\<close>

datatype ws_parse = WsMore | WsBad | WsHdr ws_hdr

definition be_num :: "bytes \<Rightarrow> u64" where
  "be_num bs = foldl (\<lambda>l b. push_bit 8 l OR ucast b) 0 bs"

text \<open>The payload length and the position behind it.\<close>

definition hdr_len_field :: "bytes \<Rightarrow> ws_parse + u64 \<times> nat" where
  "hdr_len_field b =
    (let len7 = ucast (b ! 1 AND 127) :: u64
     in if len7 = 126 then
          (if length b < 4 then Inl WsMore
           else (let len = push_bit 8 (ucast (b ! 2)) OR ucast (b ! 3)
                 in if len < 126 then Inl WsBad else Inr (len, 4)))
        else if len7 = 127 then
          (if length b < 10 then Inl WsMore
           else if b ! 2 AND 128 \<noteq> 0 then Inl WsBad
           else (let len = be_num (take 8 (drop 2 b)) in if len < 65536 then Inl WsBad else Inr (len, 10)))
        else Inr (len7, 2))"

definition q_ws_hdr_parse :: "bytes \<Rightarrow> ws_parse" where
  "q_ws_hdr_parse b =
    (if length b < 2 then WsMore
     else (let masked = drop_bit 7 (b ! 1) AND 1;
               h = (\<lambda>len key pos. \<lparr>wh_fin = drop_bit 7 (b ! 0) AND 1, wh_rsv = drop_bit 4 (b ! 0) AND 7,
                      wh_opcode = b ! 0 AND 15, wh_masked = masked, wh_len = len, wh_mask = key, wh_hdr_len = pos\<rparr>)
           in case hdr_len_field b of
                Inl r \<Rightarrow> r
              | Inr (len, pos) \<Rightarrow>
                  if masked \<noteq> 0
                  then (if length b < pos + 4 then WsMore else WsHdr (h len (take 4 (drop pos b)) (pos + 4)))
                  else WsHdr (h len (replicate 4 0) pos)))"

definition q_ws_hdr_encode :: "bool \<Rightarrow> u8 \<Rightarrow> u64 \<Rightarrow> bytes" where
  "q_ws_hdr_encode fin opcode len =
    ((if fin then 128 else 0) OR (opcode AND 15)) #
    (if len \<le> 125 then [ucast len]
     else if len \<le> 65535 then [126, ucast (drop_bit 8 len), ucast len]
     else 127 # map (\<lambda>i. ucast (drop_bit (8 * (7 - i)) len)) [0..<8])"

definition q_ws_mask_apply :: "bytes \<Rightarrow> bytes \<Rightarrow> nat \<Rightarrow> bytes" where
  "q_ws_mask_apply p key off = map (\<lambda>i. p ! i XOR key ! ((off + i) mod 4)) [0..<length p]"

section \<open>UTF-8\<close>

text \<open>How many bytes follow a lead byte, the bits it carries and the least code point of that length.\<close>

definition utf8_lead :: "u8 \<Rightarrow> (nat \<times> u32 \<times> u32) option" where
  "utf8_lead c =
    (if c AND 224 = 192 then Some (1, ucast (c AND 31), 128)
     else if c AND 240 = 224 then Some (2, ucast (c AND 15), 2048)
     else if c AND 248 = 240 then Some (3, ucast (c AND 7), 65536)
     else None)"

definition utf8_cont :: "u32 \<Rightarrow> bytes \<Rightarrow> u32" where
  "utf8_cont cp bs = foldl (\<lambda>cp b. push_bit 6 cp OR ucast (b AND 63)) cp bs"

function q_ws_utf8_ok :: "bytes \<Rightarrow> bool" where
  "q_ws_utf8_ok p =
    (case p of
       [] \<Rightarrow> True
     | c # r \<Rightarrow>
         if c < 128 then q_ws_utf8_ok r
         else (case utf8_lead c of
                 None \<Rightarrow> False
               | Some (need, cp0, least) \<Rightarrow>
                   if length r < need then False
                   else if \<not> list_all (\<lambda>b. b AND 192 = 128) (take need r) then False
                   else (let cp = utf8_cont cp0 (take need r)
                         in if cp < least \<or> cp > 1114111 then False
                            else if 55296 \<le> cp \<and> cp \<le> 57343 then False
                            else q_ws_utf8_ok (drop need r))))"
  by pat_completeness auto
termination by (relation "measure length") auto

declare q_ws_utf8_ok.simps [simp del]

section \<open>Header codec\<close>

definition be_bytes :: "nat \<Rightarrow> u64 \<Rightarrow> bytes" where
  "be_bytes k v = map (\<lambda>i. ucast (drop_bit (8 * (k - 1 - i)) v)) [0..<k]"

lemma be_bytes_Suc: "be_bytes (Suc k) v = be_bytes k (drop_bit 8 v) @ [ucast v]"
  by (auto simp: be_bytes_def algebra_simps intro!: arg_cong [of _ _ "\<lambda>n. ucast (drop_bit n v)"])

lemma be_bytes_length [simp]: "length (be_bytes k v) = k"
  by (simp add: be_bytes_def)

lemma be_num_snoc: "be_num (bs @ [b]) = push_bit 8 (be_num bs) OR ucast b"
  by (simp add: be_num_def)

lemma be_num_bytes: "be_num (be_bytes k v) = take_bit (8 * k) v"
proof (induction k arbitrary: v)
  case (Suc k)
  have "push_bit 8 (take_bit (8 * k) (drop_bit 8 v)) OR ucast (ucast v :: u8) = take_bit (8 * Suc k) v"
    by (rule bit_word_eqI) (auto simp: bit_simps)
  then show ?case by (simp only: be_bytes_Suc be_num_snoc Suc.IH)
qed (simp add: be_bytes_def be_num_def)

lemma be_num_small: "take_bit (8 * length bs) (be_num bs) = be_num bs"
proof (induction bs rule: rev_induct)
  case (snoc b bs)
  have B: "bit (be_num bs) n \<Longrightarrow> n < 8 * length bs" for n by (metis bit_take_bit_iff snoc.IH)
  have "\<not> bit b n" if "8 \<le> n" for n using that bit_imp_le_length [of b n] by auto
  then show ?case unfolding be_num_snoc
    by (intro bit_word_eqI) (auto simp: bit_simps not_less dest: B)
qed (simp add: be_num_def)

lemma be_bytes_num: "length bs \<le> 8 \<Longrightarrow> be_bytes (length bs) (be_num bs) = bs"
proof (induction bs rule: rev_induct)
  case (snoc b bs)
  have B: "bit (be_num bs) n \<Longrightarrow> n < 8 * length bs" for n by (metis bit_take_bit_iff be_num_small)
  have "\<not> bit b (8 + n)" for n using bit_imp_le_length [of b "8 + n"] by auto
  then have "drop_bit 8 (push_bit 8 (be_num bs) OR ucast b) = be_num bs"
    using snoc.prems by (intro bit_word_eqI) (auto simp: bit_simps dest: B)
  moreover have "ucast (push_bit 8 (be_num bs) OR ucast b) = b"
    by (rule bit_word_eqI) (auto simp: bit_simps)
  ultimately show ?case using snoc by (simp add: be_bytes_Suc be_num_snoc)
qed (simp add: be_bytes_def)

lemma encode_long: "q_ws_hdr_encode fin op len =
    ((if fin then 128 else 0) OR (op AND 15)) #
    (if len \<le> 125 then [ucast len] else if len \<le> 65535 then 126 # be_bytes 2 len else 127 # be_bytes 8 len)"
  by (simp add: q_ws_hdr_encode_def be_bytes_def upt_rec)

lemma byte_bits:
  "bit (128 :: int) n \<longleftrightarrow> n = 7" "bit (127 :: int) n \<longleftrightarrow> n < 7" "bit (15 :: int) n \<longleftrightarrow> n < 4" "bit (7 :: int) n \<longleftrightarrow> n < 3"
proof -
  have e: "(128 :: int) = push_bit 7 1" "(127 :: int) = mask 7" "(15 :: int) = mask 4" "(7 :: int) = mask 3"
    by (simp_all add: mask_eq_exp_minus_1)
  show "bit (128 :: int) n \<longleftrightarrow> n = 7" "bit (127 :: int) n \<longleftrightarrow> n < 7" "bit (15 :: int) n \<longleftrightarrow> n < 4" "bit (7 :: int) n \<longleftrightarrow> n < 3"
    unfolding e bit_push_bit_iff bit_1_iff bit_mask_iff by auto
qed

lemma first_byte:
  "drop_bit 7 ((if fin then 128 else 0) OR (op AND 15)) AND 1 = (if fin then 1 else 0 :: u8)"
  "drop_bit 4 ((if fin then 128 else 0) OR (op AND 15)) AND 7 = (0 :: u8)"
  "((if fin then 128 else 0) OR (op AND 15)) AND 15 = (op AND 15 :: u8)"
  by (rule bit_word_eqI; auto simp: bit_simps byte_bits)+

lemma first_byte_inv: "drop_bit 4 b AND 7 = 0 \<Longrightarrow> (if drop_bit 7 b AND 1 \<noteq> 0 then 128 else 0) OR (b AND 15 AND 15) = b" for b :: u8
proof (rule bit_word_eqI)
  fix n assume h: "drop_bit 4 b AND 7 = 0" and n: "n < LENGTH(8)"
  have "drop_bit 7 b AND 1 = (if bit b 7 then 1 else 0)" by (rule bit_word_eqI) (auto simp: bit_simps intro: gr0I)
  moreover have "bit (drop_bit 4 b AND 7) k \<longleftrightarrow> bit b (4 + k) \<and> k < 3" for k by (auto simp: bit_simps byte_bits)
  then have "\<not> bit b (4 + k)" if "k < 3" for k using h that by auto
  from this [of 0] this [of 1] this [of 2] have "\<not> bit b 4" "\<not> bit b 5" "\<not> bit b 6" by simp_all
  then have "bit b n \<longleftrightarrow> n = 7 \<and> bit b 7 \<or> n < 4 \<and> bit b n"
    using n by (cases "n < 4") (auto simp: numeral_eq_Suc less_Suc_eq)
  ultimately show "bit ((if drop_bit 7 b AND 1 \<noteq> 0 then 128 else 0) OR (b AND 15 AND 15)) n = bit b n"
    using n by (auto simp: bit_simps byte_bits)
qed

lemma word_less_exp: "v < 2 ^ n \<Longrightarrow> take_bit n v = v" for v :: u64
  by (simp add: take_bit_eq_mask less_mask_eq)

lemma len7_small: "len \<le> 125 \<Longrightarrow> ucast (ucast len AND 127 :: u8) = len \<and> drop_bit 7 (ucast len :: u8) AND 1 = 0" for len :: u64
proof -
  assume "len \<le> 125"
  then have "len < 2 ^ 7" by (simp add: word_le_nat_alt word_less_nat_alt)
  then have t: "take_bit 7 len = len" by (rule word_less_exp)
  have "ucast (ucast len AND 127 :: u8) = take_bit 7 len" by (rule bit_word_eqI) (auto simp: bit_simps byte_bits)
  moreover have "\<not> bit len 7" by (metis bit_take_bit_iff less_irrefl t)
  then have "drop_bit 7 (ucast len :: u8) AND 1 = 0" by (intro bit_word_eqI) (auto simp: bit_simps intro: gr0I)
  ultimately show ?thesis using t by simp
qed

text \<open>Parsing what was encoded, unmasked and masked.\<close>

lemma len_field_encode:
  assumes "len < 2 ^ 63"
  shows "hdr_len_field (q_ws_hdr_encode fin op len @ rest) = Inr (len, length (q_ws_hdr_encode fin op len))"
proof (cases "len \<le> 125")
  case True
  have "len \<noteq> 126" "len \<noteq> 127" using True by auto
  then show ?thesis using True len7_small [OF True] by (simp add: encode_long hdr_len_field_def Let_def)
next
  case big: False
  show ?thesis
  proof (cases "len \<le> 65535")
    case True
    then have "len < 2 ^ 16" by (simp add: word_le_nat_alt word_less_nat_alt)
    then have "be_num (be_bytes 2 len) = len" by (simp add: be_num_bytes word_less_exp)
    then have "push_bit 8 (ucast (ucast (drop_bit 8 len) :: u8)) OR ucast (ucast len :: u8) = len"
      by (simp add: be_bytes_def be_num_def upt_rec)
    moreover have "126 \<le> len" using big by (simp add: word_le_nat_alt)
    ultimately show ?thesis using True big
      by (simp add: encode_long hdr_len_field_def Let_def be_bytes_def upt_rec not_less)
  next
    case False
    have n: "be_num (be_bytes 8 len) = len" by (simp add: be_num_bytes take_bit_word_eq_self)
    have "ucast (drop_bit 56 len) AND 128 = (0 :: u8)"
    proof -
      have "\<not> bit len 63" using word_less_exp [OF assms] by (metis bit_take_bit_iff less_irrefl)
      then show ?thesis by (intro bit_word_eqI) (auto simp: bit_simps byte_bits)
    qed
    then have z: "be_bytes 8 len ! 0 AND 128 = 0" by (simp add: be_bytes_def)
    have "65536 \<le> len" using False by (simp add: word_le_nat_alt)
    then show ?thesis using False big n z
      by (simp add: encode_long hdr_len_field_def Let_def nth_append not_less)
  qed
qed

lemma len_field_no_hdr [simp]: "hdr_len_field b \<noteq> Inl (WsHdr h)"
  by (simp add: hdr_len_field_def Let_def)

lemma encode_shape: "\<exists>b r. q_ws_hdr_encode fin op len = ((if fin then 128 else 0) OR (op AND 15)) # b # r"
  by (simp add: encode_long)

lemma second_byte: "drop_bit 7 (q_ws_hdr_encode fin op len ! 1) AND 1 = 0"
  using len7_small [of len] by (auto simp: encode_long)

lemma parse_encode:
  assumes "len < 2 ^ 63"
  shows "q_ws_hdr_parse (q_ws_hdr_encode fin op len @ rest) =
    WsHdr \<lparr>wh_fin = (if fin then 1 else 0), wh_rsv = 0, wh_opcode = op AND 15, wh_masked = 0, wh_len = len,
      wh_mask = replicate 4 0, wh_hdr_len = length (q_ws_hdr_encode fin op len)\<rparr>"
proof -
  obtain b r where e: "q_ws_hdr_encode fin op len = ((if fin then 128 else 0) OR (op AND 15)) # b # r" using encode_shape by blast
  have "drop_bit 7 b AND 1 = 0" using second_byte [of fin op len] by (simp add: e)
  then show ?thesis using len_field_encode [OF assms, of fin op rest] first_byte [of fin op]
    by (simp add: q_ws_hdr_parse_def e Let_def)
qed

definition masked_hdr :: "bytes \<Rightarrow> bytes \<Rightarrow> bytes" where
  "masked_hdr hdr key = hdr[1 := hdr ! 1 OR 128] @ key"

lemma len_field_masked: "2 \<le> length b \<Longrightarrow> hdr_len_field (b[1 := b ! 1 OR 128] @ rest) = hdr_len_field (b @ rest)"
proof -
  assume b: "2 \<le> length b"
  have "(b ! 1 OR 128) AND 127 = b ! 1 AND 127" by (rule bit_word_eqI) (auto simp: bit_simps byte_bits)
  moreover have "drop 2 (b[1 := b ! 1 OR 128] @ rest) = drop 2 (b @ rest)" by (simp add: drop_update_cancel)
  moreover have "(b[1 := b ! 1 OR 128] @ rest) ! k = (b @ rest) ! k" if "k \<noteq> 1" for k
    using that by (cases "k < length b") (simp_all add: nth_append)
  ultimately show ?thesis using b by (simp add: hdr_len_field_def Let_def nth_append)
qed

lemma parse_masked:
  assumes "len < 2 ^ 63" "length key = 4"
  shows "q_ws_hdr_parse (masked_hdr (q_ws_hdr_encode fin op len) key @ rest) =
    WsHdr \<lparr>wh_fin = (if fin then 1 else 0), wh_rsv = 0, wh_opcode = op AND 15, wh_masked = 1, wh_len = len,
      wh_mask = key, wh_hdr_len = length (q_ws_hdr_encode fin op len) + 4\<rparr>"
proof -
  obtain b r where e: "q_ws_hdr_encode fin op len = ((if fin then 128 else 0) OR (op AND 15)) # b # r" using encode_shape by blast
  have "drop_bit 7 (b OR 128) AND 1 = 1" by (rule bit_word_eqI) (auto simp: bit_simps byte_bits)
  moreover have "hdr_len_field (masked_hdr (q_ws_hdr_encode fin op len) key @ rest) = Inr (len, length (q_ws_hdr_encode fin op len))"
    using len_field_masked [of "q_ws_hdr_encode fin op len" "key @ rest"] len_field_encode [OF assms(1), of fin op "key @ rest"]
    by (simp add: masked_hdr_def e)
  ultimately show ?thesis using first_byte [of fin op] assms(2)
    by (simp add: q_ws_hdr_parse_def masked_hdr_def e Let_def)
qed

text \<open>Conversely, a complete unmasked header is an encoding.\<close>

lemma clear_top: "drop_bit 7 b AND 1 = 0 \<Longrightarrow> b AND 127 = b \<and> \<not> bit b 7" for b :: u8
proof -
  assume "drop_bit 7 b AND 1 = 0"
  moreover have "bit (drop_bit 7 b AND 1) 0 \<longleftrightarrow> bit b 7" by (simp add: bit_simps)
  ultimately have "\<not> bit b 7" by simp
  moreover from this have "b AND 127 = b"
    by (intro bit_word_eqI) (auto simp: bit_simps byte_bits numeral_eq_Suc less_Suc_eq)
  ultimately show ?thesis by simp
qed

lemma two_bytes: "be_num [x, y] = push_bit 8 (ucast x) OR ucast y"
  by (simp add: be_num_def)

lemma be_num_top: "length bs = 8 \<Longrightarrow> bs ! 0 AND 128 = 0 \<Longrightarrow> be_num bs < 2 ^ 63"
proof -
  assume l: "length bs = 8" and z: "bs ! 0 AND 128 = 0"
  define v where "v = be_num bs"
  have "be_bytes 8 v ! 0 = ucast (drop_bit 56 v)" by (simp add: be_bytes_def)
  then have "bs ! 0 = ucast (drop_bit 56 v)" using be_bytes_num [of bs] l by (simp add: v_def)
  then have "bit (bs ! 0 AND 128) 7 \<longleftrightarrow> bit v 63" by (simp add: bit_simps byte_bits)
  then have t: "\<not> bit v 63" using z by simp
  have "v AND mask 63 = v"
  proof (rule bit_word_eqI)
    fix n assume "n < LENGTH(64)"
    then show "bit (v AND mask 63) n = bit v n" using t by (cases "n = 63") (auto simp: bit_simps)
  qed
  then have "uint v < 2 ^ 63" by (simp only: mask_eq_iff)
  then show ?thesis by (simp add: word_less_def v_def)
qed

lemma len_field_inv:
  assumes "hdr_len_field b = Inr (len, pos)" "2 \<le> length b" "drop_bit 7 (b ! 1) AND 1 = 0"
  shows "take pos b = b ! 0 # tl (q_ws_hdr_encode fin op len) \<and> len < 2 ^ 63"
proof -
  obtain b0 b1 r where b: "b = b0 # b1 # r" using assms(2) by (cases b; cases "tl b") auto
  have b1: "b1 AND 127 = b1" "\<not> bit b1 7" using clear_top assms(3) by (auto simp: b)
  consider (two) "b1 = 126" | (eight) "b1 = 127" | (short) "b1 \<noteq> 126" "b1 \<noteq> 127" by blast
  then show ?thesis
  proof cases
    case two
    then obtain x y q where r: "r = x # y # q" using assms(1) by (cases r; cases "tl r") (auto simp: b hdr_len_field_def Let_def split: if_splits)
    have len: "len = be_num [x, y]" "pos = 4" "\<not> len \<le> 125"
      using assms(1) two by (auto simp: b r hdr_len_field_def Let_def two_bytes word_le_nat_alt word_less_nat_alt split: if_splits)
    have "take_bit 16 len = len" using be_num_small [of "[x, y]"] by (simp add: len(1))
    then have "uint len < 2 ^ 16" by (simp only: take_bit_eq_mask mask_eq_iff)
    then have "len \<le> 65535" "len < 2 ^ 63" by (simp_all add: word_le_def word_less_def)
    moreover have "be_bytes 2 len = [x, y]" using be_bytes_num [of "[x, y]"] by (simp add: len(1) numeral_2_eq_2)
    ultimately show ?thesis using two len(2,3) by (simp add: b r encode_long)
  next
    case eight
    then have l: "8 \<le> length r" and z: "r ! 0 AND 128 = 0" and len: "len = be_num (take 8 r)" "pos = 10" "\<not> len < 65536"
      using assms(1) by (auto simp: b hdr_len_field_def Let_def split: if_splits)
    have "len < 2 ^ 63" using be_num_top [of "take 8 r"] l z by (simp add: len(1))
    moreover have "be_bytes 8 len = take 8 r" using be_bytes_num [of "take 8 r"] l by (simp add: len(1))
    moreover have "\<not> len \<le> 125" "\<not> len \<le> 65535" using len(3) by (auto simp: word_le_nat_alt word_less_nat_alt)
    ultimately show ?thesis using eight len(2) by (simp add: b encode_long)
  next
    case short
    have "b1 AND mask 7 = b1" using b1(1) by (simp add: mask_eq_exp_minus_1)
    then have "uint b1 < 2 ^ 7" by (simp only: mask_eq_iff)
    then have n: "uint (ucast b1 :: u64) = uint b1" by (simp add: unsigned_ucast_eq take_bit_int_eq_self_iff)
    have "uint b1 \<noteq> 126" "uint b1 \<noteq> 127" using short by (auto simp: word_eq_iff_unsigned [where ?'a = int])
    with n \<open>uint b1 < 2 ^ 7\<close> have "ucast b1 \<le> (125 :: u64)" "(ucast b1 :: u64) \<noteq> 126" "(ucast b1 :: u64) \<noteq> 127"
      by (auto simp: word_le_def word_eq_iff_unsigned [where ?'a = int])
    moreover from this have "len = ucast b1" "pos = 2" using assms(1) b1(1) by (auto simp: b hdr_len_field_def Let_def split: if_splits)
    moreover have "ucast (ucast b1 :: u64) = b1" by (rule bit_word_eqI) (auto simp: bit_simps)
    moreover have "ucast b1 < (2 ^ 63 :: u64)" using n \<open>uint b1 < 2 ^ 7\<close> by (simp add: word_less_def)
    ultimately show ?thesis by (simp add: b encode_long)
  qed
qed

text \<open>
  A header as it stands on the wire: the encoder's, the reserved bits put into its first byte and, when it is masked,
  the mask bit into the second and the key behind it.
\<close>

definition hdr_wire :: "bool \<Rightarrow> u8 \<Rightarrow> u8 \<Rightarrow> u64 \<Rightarrow> bool \<Rightarrow> bytes \<Rightarrow> bytes" where
  "hdr_wire fin rsv op len masked key =
    (let h = q_ws_hdr_encode fin op len
     in (h ! 0 OR push_bit 4 (rsv AND 7)) # (h ! 1 OR (if masked then 128 else 0)) # drop 2 h @ (if masked then key else []))"

lemma encode_parts:
  "q_ws_hdr_encode fin op len = ((if fin then 128 else 0) OR (op AND 15)) #
     q_ws_hdr_encode False 0 len ! 1 # drop 2 (q_ws_hdr_encode False 0 len)"
  by (simp add: encode_long)

lemma len_field_second: "hdr_len_field (b0 # b1 # r) = hdr_len_field (c0 # (b1 AND 127) # r)"
  by (simp add: hdr_len_field_def Let_def numeral_2_eq_2 numeral_3_eq_3)

lemma second_low: "(b AND 127) AND 127 = b AND 127" "drop_bit 7 (b AND 127) AND 1 = 0" for b :: u8
  by (rule bit_word_eqI; auto simp: bit_simps byte_bits)+

lemma len_field_iff:
  "hdr_len_field (b0 # b1 # r) = Inr (len, pos) \<longleftrightarrow>
    len < 2 ^ 63 \<and> b1 AND 127 = q_ws_hdr_encode False 0 len ! 1 \<and> prefix (drop 2 (q_ws_hdr_encode False 0 len)) r \<and>
    pos = length (q_ws_hdr_encode False 0 len)" (is "?l \<longleftrightarrow> ?r")
proof
  assume ?l
  then have f: "hdr_len_field (0 # (b1 AND 127) # r) = Inr (len, pos)" by (simp only: len_field_second [of b0 b1 r 0])
  from len_field_inv [OF this, of False 0] second_low
  have t: "take pos (0 # (b1 AND 127) # r) = 0 # tl (q_ws_hdr_encode False 0 len)" "len < 2 ^ 63" by simp_all
  then have e: "take pos (0 # (b1 AND 127) # r) = q_ws_hdr_encode False 0 len"
    by (simp add: q_ws_hdr_encode_def)
  then have p: "prefix (q_ws_hdr_encode False 0 len) (0 # (b1 AND 127) # r)" by (metis take_is_prefix)
  moreover obtain rest where r: "0 # (b1 AND 127) # r = q_ws_hdr_encode False 0 len @ rest" using p by (auto simp: prefix_def)
  from len_field_encode [OF t(2), of False 0 rest] f have "pos = length (q_ws_hdr_encode False 0 len)" by (simp add: r)
  ultimately show ?r using t(2) by (subst (asm) encode_parts) simp
next
  assume r: ?r
  then obtain rest where rest: "r = drop 2 (q_ws_hdr_encode False 0 len) @ rest" by (auto simp: prefix_def)
  have "0 # (b1 AND 127) # r = q_ws_hdr_encode False 0 len @ rest"
    using r by (subst encode_parts) (simp add: rest)
  with len_field_encode [of len False 0 rest] r show ?l by (simp only: len_field_second [of b0 b1 r 0])
qed

lemma bit_112: "bit (112 :: int) n \<longleftrightarrow> 4 \<le> n \<and> n < 7"
proof -
  have e: "(112 :: int) = push_bit 4 (mask 3)" by (simp add: mask_eq_exp_minus_1)
  show ?thesis unfolding e bit_push_bit_iff bit_mask_iff by auto
qed

lemma first_byte_iff:
  fixes b op rsv :: u8
  shows "drop_bit 7 b AND 1 = (if fin then 1 else 0) \<and> drop_bit 4 b AND 7 = rsv AND 7 \<and> b AND 15 = op AND 15 \<longleftrightarrow>
    b = (if fin then 128 else 0) OR (op AND 15) OR push_bit 4 (rsv AND 7)" (is "?l \<longleftrightarrow> b = ?w")
proof
  have w: "bit ?w n \<longleftrightarrow> n < 4 \<and> bit op n \<or> 4 \<le> n \<and> n < 7 \<and> bit rsv (n - 4) \<or> n = 7 \<and> fin" for n
    by (auto simp: bit_simps byte_bits bit_112)
  assume l: ?l
  have "bit (drop_bit 7 b AND 1) 0 \<longleftrightarrow> bit b 7" by (simp add: bit_simps)
  then have 7: "bit b 7 \<longleftrightarrow> fin" using l by (cases fin) simp_all
  have "bit (drop_bit 4 b AND 7) k \<longleftrightarrow> bit b (4 + k) \<and> k < 3" "bit (rsv AND 7) k \<longleftrightarrow> bit rsv k \<and> k < 3" for k
    by (auto simp: bit_simps byte_bits)
  then have 4: "bit b (4 + k) \<longleftrightarrow> bit rsv k" if "k < 3" for k using l that by metis
  have "bit (b AND 15) k \<longleftrightarrow> bit b k \<and> k < 4" "bit (op AND 15) k \<longleftrightarrow> bit op k \<and> k < 4" for k
    by (auto simp: bit_simps byte_bits)
  then have 0: "bit b k \<longleftrightarrow> bit op k" if "k < 4" for k using l that by metis
  show "b = ?w"
  proof (rule bit_word_eqI)
    fix n assume "n < LENGTH(8)"
    then consider "n < 4" | "4 \<le> n" "n < 7" | "n = 7" by fastforce
    then show "bit b n = bit ?w n" unfolding w using 0 4 [of "n - 4"] 7 by cases (auto simp: less_diff_conv2)
  qed
next
  have "drop_bit 7 ?w AND 1 = (if fin then 1 else 0)" "drop_bit 4 ?w AND 7 = rsv AND 7" "?w AND 15 = op AND 15"
    by (rule bit_word_eqI; auto simp: bit_simps byte_bits bit_112)+
  then show "b = ?w \<Longrightarrow> ?l" by blast
qed

lemma second_byte_iff:
  fixes b s :: u8
  assumes "drop_bit 7 s AND 1 = 0"
  shows "drop_bit 7 b AND 1 = (if m then 1 else 0) \<and> b AND 127 = s \<longleftrightarrow> b = s OR (if m then 128 else 0)" (is "?l \<longleftrightarrow> b = ?w")
proof
  have s: "\<not> bit s 7" using clear_top [OF assms] by simp
  have w: "bit ?w n \<longleftrightarrow> bit s n \<or> n = 7 \<and> m" for n by (auto simp: bit_simps byte_bits)
  { assume l: ?l
    have "bit (drop_bit 7 b AND 1) 0 \<longleftrightarrow> bit b 7" by (simp add: bit_simps)
    then have 7: "bit b 7 \<longleftrightarrow> m" using l by (cases m) simp_all
    have "bit (b AND 127) k \<longleftrightarrow> bit b k \<and> k < 7" for k by (auto simp: bit_simps byte_bits)
    then have 0: "bit b k \<longleftrightarrow> bit s k" if "k < 7" for k using l that by metis
    show "b = ?w"
    proof (rule bit_word_eqI)
      fix n assume "n < LENGTH(8)"
      then consider "n < 7" | "n = 7" by fastforce
      then show "bit b n = bit ?w n" using 0 7 s by cases (auto simp: w)
    qed }
  { assume b: "b = ?w"
    have "b AND 127 = s AND 127" unfolding b by (rule bit_word_eqI) (auto simp: bit_simps byte_bits)
    moreover have "drop_bit 7 b AND 1 = (if m then 1 else 0)"
      unfolding b using s by (intro bit_word_eqI) (auto simp: bit_simps byte_bits intro: gr0I)
    ultimately show ?l using clear_top [OF assms] by simp }
qed

lemma prefix_key:
  "length key = 4 \<Longrightarrow> prefix t r \<Longrightarrow> prefix (t @ key) r \<longleftrightarrow> \<not> length r < length t + 4 \<and> take 4 (drop (length t) r) = key"
  by (auto simp: prefix_def) (metis append_take_drop_id)

section \<open>UTF-8 as code points\<close>

definition scalar :: "nat \<Rightarrow> bool" where
  "scalar cp \<longleftrightarrow> cp \<le> 1114111 \<and> \<not> (55296 \<le> cp \<and> cp \<le> 57343)"

definition utf8_enc :: "nat \<Rightarrow> bytes" where
  "utf8_enc cp =
    (if cp < 128 then [of_nat cp]
     else if cp < 2048 then [of_nat (192 + cp div 64), of_nat (128 + cp mod 64)]
     else if cp < 65536 then [of_nat (224 + cp div 4096), of_nat (128 + cp div 64 mod 64), of_nat (128 + cp mod 64)]
     else [of_nat (240 + cp div 262144), of_nat (128 + cp div 4096 mod 64), of_nat (128 + cp div 64 mod 64), of_nat (128 + cp mod 64)])"

lemma unat_and_mask: "unat (c AND mask k) = unat c mod 2 ^ k" for c :: u8
proof -
  have "unat (take_bit k c) = take_bit k (unat c)" by (rule unsigned_take_bit_eq)
  then show ?thesis unfolding take_bit_eq_mask [symmetric] by (simp only: take_bit_eq_mod)
qed

lemma unat_and_top: "unat (c AND NOT (mask k)) = unat c div 2 ^ k * 2 ^ k" for c :: u8
proof -
  have "(c AND mask k) AND (c AND NOT (mask k)) = 0" by (rule bit_word_eqI) (auto simp: bit_simps)
  then have "(c AND mask k) + (c AND NOT (mask k)) = (c AND mask k) OR (c AND NOT (mask k))" by (rule disjunctive_add_eq_or)
  also have "\<dots> = c" by (rule bit_word_eqI) (auto simp: bit_simps)
  finally have "c AND NOT (mask k) = c - (c AND mask k)" by (metis add_diff_cancel_left')
  moreover have "c AND mask k \<le> c" by (rule word_and_le2)
  ultimately have "unat (c AND NOT (mask k)) = unat c - unat c mod 2 ^ k" by (simp only: unat_sub unat_and_mask)
  then show ?thesis by (simp only: minus_mod_eq_div_mult)
qed

lemma masks8: "mask 5 = (31 :: u8)" "mask 4 = (15 :: u8)" "mask 3 = (7 :: u8)" "mask 6 = (63 :: u8)"
  "NOT (mask 5) = (224 :: u8)" "NOT (mask 4) = (240 :: u8)" "NOT (mask 3) = (248 :: u8)" "NOT (mask 6) = (192 :: u8)"
  by (simp_all add: mask_eq_exp_minus_1)

lemma byte_low:
  fixes c :: u8
  shows "unat (c AND 31) = unat c mod 32" "unat (c AND 15) = unat c mod 16" "unat (c AND 7) = unat c mod 8" "unat (c AND 63) = unat c mod 64"
  using unat_and_mask [of c 5] unat_and_mask [of c 4] unat_and_mask [of c 3] unat_and_mask [of c 6]
  unfolding masks8(1-4) by simp_all

lemma byte_top: "c AND NOT (mask k) = v \<longleftrightarrow> unat c div 2 ^ k * 2 ^ k = unat v" for c :: u8
  by (simp add: word_eq_iff_unsigned [where ?'a = nat] unat_and_top)

lemma byte_classes:
  fixes c :: u8
  shows "c AND 224 = 192 \<longleftrightarrow> unat c div 32 = 6" "c AND 240 = 224 \<longleftrightarrow> unat c div 16 = 14" "c AND 248 = 240 \<longleftrightarrow> unat c div 8 = 30"
    "c AND 192 = 128 \<longleftrightarrow> unat c div 64 = 2"
  using byte_top [of c 5 192] byte_top [of c 4 224] byte_top [of c 3 240] byte_top [of c 6 128]
  unfolding masks8(5-8) by simp_all

lemma cont_step: "unat cp < 2 ^ 26 \<Longrightarrow> unat (push_bit 6 cp OR ucast (b AND 63)) = unat cp * 64 + unat b mod 64" for cp :: u32 and b :: u8
proof -
  assume cp: "unat cp < 2 ^ 26"
  let ?x = "ucast (b AND 63) :: u32"
  have x: "unat ?x = unat b mod 64" proof -
    have "unat b mod 64 < 2 ^ 32" by (rule less_trans [of _ 64]) simp_all
    then show ?thesis by (simp add: unsigned_ucast_eq byte_low take_bit_nat_eq_self_iff)
  qed
  have "push_bit 6 cp AND ?x = 0"
  proof (rule bit_word_eqI)
    fix n
    have "unat (take_bit 6 ?x) = unat ?x" unfolding unsigned_take_bit_eq x by (simp add: take_bit_eq_mod)
    then have "?x = take_bit 6 ?x" by (metis unsigned_word_eqI)
    then have "bit ?x n \<Longrightarrow> n < 6" by (metis bit_take_bit_iff)
    then show "bit (push_bit 6 cp AND ?x) n = bit 0 n" by (auto simp: bit_simps)
  qed
  then have "push_bit 6 cp OR ?x = push_bit 6 cp + ?x" by (simp add: disjunctive_add_eq_or)
  moreover have "unat (push_bit 6 cp) = unat cp * 64"
    using cp by (simp add: push_bit_eq_mult unat_word_ariths)
  ultimately show ?thesis using cp x by (simp add: unat_word_ariths)
qed

definition cont_val :: "nat \<Rightarrow> bytes \<Rightarrow> nat" where
  "cont_val n bs = foldl (\<lambda>n b. n * 64 + unat b mod 64) n bs"

lemma unat_cont: "unat cp < 32 \<Longrightarrow> length bs \<le> 3 \<Longrightarrow> unat (utf8_cont cp bs) = cont_val (unat cp) bs"
proof (induction bs arbitrary: cp rule: rev_induct)
  case (snoc b bs)
  have "cont_val n bs < (n + 1) * 64 ^ length bs" for n
  proof (induction bs arbitrary: n)
    case (Cons b bs)
    have "(n * 64 + unat b mod 64 + 1) * 64 ^ length bs \<le> ((n + 1) * 64) * 64 ^ length bs" by (intro mult_right_mono) simp_all
    then have "cont_val (n * 64 + unat b mod 64) bs < ((n + 1) * 64) * 64 ^ length bs" using Cons [of "n * 64 + unat b mod 64"] by linarith
    then show ?case by (simp add: cont_val_def algebra_simps)
  qed (simp add: cont_val_def)
  then have "cont_val (unat cp) bs < (unat cp + 1) * 64 ^ length bs" .
  also have "\<dots> \<le> 32 * 64 ^ length bs" using snoc.prems(1) by (intro mult_right_mono) simp_all
  finally have "cont_val (unat cp) bs < 32 * 64 ^ length bs" .
  moreover have "(64 :: nat) ^ length bs \<le> 64 ^ 2" using snoc.prems(2) by (intro power_increasing) simp_all
  ultimately have "cont_val (unat cp) bs < 2 ^ 26" by simp
  then show ?case using snoc cont_step [of "utf8_cont cp bs" b] by (simp add: utf8_cont_def cont_val_def)
qed (simp add: utf8_cont_def cont_val_def)

text \<open>One step of the check, on the numbers: \<open>k\<close> bytes follow a lead byte that carries \<open>n\<close>.\<close>

lemma ok_multi:
  assumes "utf8_lead c = Some (k, cp0, least)" "128 \<le> unat c" "unat cp0 < 32" "k \<le> 3"
  shows "q_ws_utf8_ok (c # r) \<longleftrightarrow>
    (\<exists>t s. r = t @ s \<and> length t = k \<and> list_all (\<lambda>b. unat b div 64 = 2) t \<and>
       unat least \<le> cont_val (unat cp0) t \<and> scalar (cont_val (unat cp0) t) \<and> q_ws_utf8_ok s)"
proof (cases "length r < k")
  case True
  then show ?thesis using assms by (subst q_ws_utf8_ok.simps) (auto simp: word_less_nat_alt)
next
  case False
  define t where "t = take k r"
  have t: "r = t @ drop k r" "length t = k" using False by (simp_all add: t_def)
  have v: "unat (utf8_cont cp0 t) = cont_val (unat cp0) t" using unat_cont assms(3,4) t(2) by simp
  have A: "q_ws_utf8_ok (c # r) \<longleftrightarrow> list_all (\<lambda>b. unat b div 64 = 2) t \<and> unat least \<le> cont_val (unat cp0) t \<and>
      scalar (cont_val (unat cp0) t) \<and> q_ws_utf8_ok (drop k r)"
    using assms(1,2) False v
    by (subst q_ws_utf8_ok.simps) (auto simp: word_less_nat_alt word_le_nat_alt byte_classes scalar_def t_def [symmetric] Let_def)
  have B: "(\<exists>t' s. r = t' @ s \<and> length t' = k \<and> P t' \<and> q_ws_utf8_ok s) \<longleftrightarrow> P t \<and> q_ws_utf8_ok (drop k r)" for P
    using t by (auto simp: append_eq_conv_conj)
  show ?thesis unfolding A
    using B [of "\<lambda>t. list_all (\<lambda>b. unat b div 64 = 2) t \<and> unat least \<le> cont_val (unat cp0) t \<and> scalar (cont_val (unat cp0) t)"]
    by (simp only: conj_assoc)
qed

lemma lead_of:
  "unat c div 32 = 6 \<Longrightarrow> utf8_lead c = Some (1, ucast (c AND 31), 128)"
  "unat c div 16 = 14 \<Longrightarrow> utf8_lead c = Some (2, ucast (c AND 15), 2048)"
  "unat c div 8 = 30 \<Longrightarrow> utf8_lead c = Some (3, ucast (c AND 7), 65536)"
  "128 \<le> unat c \<Longrightarrow> unat c div 32 \<noteq> 6 \<Longrightarrow> unat c div 16 \<noteq> 14 \<Longrightarrow> unat c div 8 \<noteq> 30 \<Longrightarrow> utf8_lead c = None"
  by (auto simp: utf8_lead_def byte_classes)

lemma unat_byte_small: "n < 256 \<Longrightarrow> unat (of_nat n :: u8) = n"
  by (simp add: unat_of_nat)

lemma unat_lead: "unat (ucast (c AND 31) :: u32) = unat c mod 32" "unat (ucast (c AND 15) :: u32) = unat c mod 16"
    "unat (ucast (c AND 7) :: u32) = unat c mod 8" for c :: u8
proof -
  have "n < 256 \<Longrightarrow> take_bit 32 n = n" for n :: nat by (simp add: take_bit_nat_eq_self_iff)
  moreover have "n mod k < 256" if "0 < k" "k \<le> 256" for n k :: nat using mod_less_divisor [of k n] that by linarith
  ultimately show "unat (ucast (c AND 31) :: u32) = unat c mod 32" "unat (ucast (c AND 15) :: u32) = unat c mod 16"
    "unat (ucast (c AND 7) :: u32) = unat c mod 8" by (simp_all add: unsigned_ucast_eq byte_low)
qed

lemma ok_one: "unat c < 128 \<Longrightarrow> q_ws_utf8_ok (c # r) = q_ws_utf8_ok r"
  by (subst q_ws_utf8_ok.simps) (simp add: word_less_nat_alt)

lemma ok_multi_app:
  assumes "utf8_lead c = Some (k, cp0, least)" "128 \<le> unat c" "unat cp0 < 32" "k \<le> 3" "length t = k"
  shows "q_ws_utf8_ok (c # t @ s) \<longleftrightarrow> list_all (\<lambda>b. unat b div 64 = 2) t \<and>
       unat least \<le> cont_val (unat cp0) t \<and> scalar (cont_val (unat cp0) t) \<and> q_ws_utf8_ok s"
  using assms(5) by (auto simp: ok_multi [OF assms(1-4)])

text \<open>A code point as the digits to base 64 its encoding carries.\<close>

lemma cp_digits:
  fixes cp :: nat
  shows "cp = cp div 64 * 64 + cp mod 64" "cp = (cp div 4096 * 64 + cp div 64 mod 64) * 64 + cp mod 64"
    "cp = ((cp div 262144 * 64 + cp div 4096 mod 64) * 64 + cp div 64 mod 64) * 64 + cp mod 64"
proof -
  have d: "x = x div 64 * 64 + x mod 64" for x :: nat by simp
  have e: "cp div 4096 = cp div 64 div 64" "cp div 262144 = cp div 4096 div 64" by (simp_all flip: div_mult2_eq)
  show "cp = cp div 64 * 64 + cp mod 64" by (rule d)
  show 2: "cp = (cp div 4096 * 64 + cp div 64 mod 64) * 64 + cp mod 64" unfolding e(1) d [of "cp div 64", symmetric] by (rule d)
  show "cp = ((cp div 262144 * 64 + cp div 4096 mod 64) * 64 + cp div 64 mod 64) * 64 + cp mod 64"
    unfolding e(2) d [of "cp div 4096", symmetric] by (rule 2)
qed

lemma plus_mod: "q < k \<Longrightarrow> (a * k + q) mod k = q \<and> (a * k + q) div k = a" for q k a :: nat
  by simp

lemma digit_bytes: "q < 64 \<Longrightarrow> unat (of_nat (128 + q) :: u8) = 128 + q \<and> (128 + q) div 64 = 2 \<and> (128 + q) mod 64 = q" for q :: nat
  using plus_mod [of q 64 2] unat_byte_small [of "128 + q"] by simp

lemma lead_bytes:
  "q < 32 \<Longrightarrow> unat (of_nat (192 + q) :: u8) = 192 + q \<and> (192 + q) div 32 = 6 \<and> (192 + q) mod 32 = q"
  "q < 16 \<Longrightarrow> unat (of_nat (224 + q) :: u8) = 224 + q \<and> (224 + q) div 16 = 14 \<and> (224 + q) mod 16 = q"
  "q < 8 \<Longrightarrow> unat (of_nat (240 + q) :: u8) = 240 + q \<and> (240 + q) div 8 = 30 \<and> (240 + q) mod 8 = q" for q :: nat
  using plus_mod [of q 32 6] plus_mod [of q 16 14] plus_mod [of q 8 30]
    unat_byte_small [of "192 + q"] unat_byte_small [of "224 + q"] unat_byte_small [of "240 + q"] by simp_all

text \<open>The encoding of a scalar value in front: accepted, and nothing else is.\<close>

lemma ok_lead:
  assumes "list_all (\<lambda>b. unat b div 64 = 2) t" "scalar cp"
  shows "unat c div 32 = 6 \<Longrightarrow> length t = 1 \<Longrightarrow> cont_val (unat c mod 32) t = cp \<Longrightarrow> 128 \<le> cp \<Longrightarrow> q_ws_utf8_ok (c # t @ s) = q_ws_utf8_ok s"
    "unat c div 16 = 14 \<Longrightarrow> length t = 2 \<Longrightarrow> cont_val (unat c mod 16) t = cp \<Longrightarrow> 2048 \<le> cp \<Longrightarrow> q_ws_utf8_ok (c # t @ s) = q_ws_utf8_ok s"
    "unat c div 8 = 30 \<Longrightarrow> length t = 3 \<Longrightarrow> cont_val (unat c mod 8) t = cp \<Longrightarrow> 65536 \<le> cp \<Longrightarrow> q_ws_utf8_ok (c # t @ s) = q_ws_utf8_ok s"
proof -
  have h: "128 \<le> unat c" if "unat c div k = n" "128 \<le> k * n" for k n using that by (metis order_trans times_div_less_eq_dividend)
  have b: "n mod k < 32" if "0 < k" "k \<le> 32" for n k :: nat using mod_less_divisor [of k n] that by linarith
  show "unat c div 32 = 6 \<Longrightarrow> length t = 1 \<Longrightarrow> cont_val (unat c mod 32) t = cp \<Longrightarrow> 128 \<le> cp \<Longrightarrow> q_ws_utf8_ok (c # t @ s) = q_ws_utf8_ok s"
    using assms ok_multi_app [OF lead_of(1), of c t s] h [of 32 6] b [of 32] by (simp add: unat_lead)
  show "unat c div 16 = 14 \<Longrightarrow> length t = 2 \<Longrightarrow> cont_val (unat c mod 16) t = cp \<Longrightarrow> 2048 \<le> cp \<Longrightarrow> q_ws_utf8_ok (c # t @ s) = q_ws_utf8_ok s"
    using assms ok_multi_app [OF lead_of(2), of c t s] h [of 16 14] b [of 16] by (simp add: unat_lead)
  show "unat c div 8 = 30 \<Longrightarrow> length t = 3 \<Longrightarrow> cont_val (unat c mod 8) t = cp \<Longrightarrow> 65536 \<le> cp \<Longrightarrow> q_ws_utf8_ok (c # t @ s) = q_ws_utf8_ok s"
    using assms ok_multi_app [OF lead_of(3), of c t s] h [of 8 30] b [of 8] by (simp add: unat_lead)
qed

lemma ok_enc:
  assumes "scalar cp"
  shows "q_ws_utf8_ok (utf8_enc cp @ s) = q_ws_utf8_ok s"
proof -
  define x y z where "x = (of_nat (128 + cp mod 64) :: u8)" and "y = (of_nat (128 + cp div 64 mod 64) :: u8)"
    and "z = (of_nat (128 + cp div 4096 mod 64) :: u8)"
  note xyz = x_def y_def z_def
  have m: "cp mod 64 < 64" "cp div 64 mod 64 < 64" "cp div 4096 mod 64 < 64" by simp_all
  have d: "unat x div 64 = 2" "unat x mod 64 = cp mod 64" "unat y div 64 = 2" "unat y mod 64 = cp div 64 mod 64"
      "unat z div 64 = 2" "unat z mod 64 = cp div 4096 mod 64"
    using digit_bytes [OF m(1)] digit_bytes [OF m(2)] digit_bytes [OF m(3)] by (simp_all add: xyz)
  have v: "cont_val (cp div 64) [x] = cp" "cont_val (cp div 4096) [y, x] = cp" "cont_val (cp div 262144) [z, y, x] = cp"
    unfolding cont_val_def foldl.simps d by (rule cp_digits [symmetric])+
  consider "cp < 128" | "128 \<le> cp" "cp < 2048" | "2048 \<le> cp" "cp < 65536" | "65536 \<le> cp" by linarith
  then show ?thesis
  proof cases
    case 1
    then show ?thesis by (simp add: utf8_enc_def ok_one unat_byte_small)
  next
    case 2
    define c where "c = (of_nat (192 + cp div 64) :: u8)"
    have "cp div 64 < 32" using 2 by simp
    from lead_bytes(1) [OF this] have l: "unat c div 32 = 6" "unat c mod 32 = cp div 64" by (simp_all add: c_def)
    have "utf8_enc cp = c # [x]" using 2 by (simp add: utf8_enc_def c_def xyz)
    then show ?thesis using ok_lead(1) [of "[x]" cp c s] l v(1) d(1) assms 2 by simp
  next
    case 3
    define c where "c = (of_nat (224 + cp div 4096) :: u8)"
    have "cp div 4096 < 16" using 3 by simp
    from lead_bytes(2) [OF this] have l: "unat c div 16 = 14" "unat c mod 16 = cp div 4096" by (simp_all add: c_def)
    have e: "utf8_enc cp = c # [y, x]" using 3 by (simp add: utf8_enc_def c_def xyz)
    have "q_ws_utf8_ok (c # [y, x] @ s) = q_ws_utf8_ok s"
      by (rule ok_lead(2) [of _ cp]) (use l(1) d(1,3) assms 3 v(2) in \<open>simp_all add: l(2)\<close>)
    then show ?thesis by (simp add: e)
  next
    case 4
    define c where "c = (of_nat (240 + cp div 262144) :: u8)"
    have "cp < 8 * 262144" using assms by (simp add: scalar_def)
    then have "cp div 262144 < 8" by (rule less_mult_imp_div_less)
    from lead_bytes(3) [OF this] have l: "unat c div 8 = 30" "unat c mod 8 = cp div 262144" by (simp_all add: c_def)
    have e: "utf8_enc cp = c # [z, y, x]" using 4 by (simp add: utf8_enc_def c_def xyz)
    have "q_ws_utf8_ok (c # [z, y, x] @ s) = q_ws_utf8_ok s"
      by (rule ok_lead(3) [of _ cp]) (use l(1) d(1,3,5) assms 4 v(3) in \<open>simp_all add: l(2)\<close>)
    then show ?thesis by (simp add: e)
  qed
qed

lemma list_len: "length t = 2 \<longleftrightarrow> (\<exists>y x. t = [y, x])" "length t = 3 \<longleftrightarrow> (\<exists>z y x. t = [z, y, x])"
  by (auto simp: numeral_2_eq_2 numeral_3_eq_3 length_Suc_conv)

lemma cp_pack:
  fixes a b d q :: nat
  shows "a < 64 \<Longrightarrow> (q * 64 + a) div 64 = q \<and> (q * 64 + a) mod 64 = a"
    "a < 64 \<Longrightarrow> b < 64 \<Longrightarrow> ((q * 64 + b) * 64 + a) div 4096 = q \<and> ((q * 64 + b) * 64 + a) div 64 mod 64 = b \<and> ((q * 64 + b) * 64 + a) mod 64 = a"
    "a < 64 \<Longrightarrow> b < 64 \<Longrightarrow> d < 64 \<Longrightarrow> (((q * 64 + d) * 64 + b) * 64 + a) div 262144 = q \<and> (((q * 64 + d) * 64 + b) * 64 + a) div 4096 mod 64 = d \<and>
       (((q * 64 + d) * 64 + b) * 64 + a) div 64 mod 64 = b \<and> (((q * 64 + d) * 64 + b) * 64 + a) mod 64 = a"
proof -
  have 1: "(n * 64 + k) div 64 = n" "(n * 64 + k) mod 64 = k" if "k < 64" for n k :: nat using that by simp_all
  have e: "n div 4096 = n div 64 div 64" "n div 262144 = n div 64 div 64 div 64" for n :: nat by (simp_all flip: div_mult2_eq)
  show "a < 64 \<Longrightarrow> (q * 64 + a) div 64 = q \<and> (q * 64 + a) mod 64 = a" using 1 by simp
  show "a < 64 \<Longrightarrow> b < 64 \<Longrightarrow> ((q * 64 + b) * 64 + a) div 4096 = q \<and> ((q * 64 + b) * 64 + a) div 64 mod 64 = b \<and> ((q * 64 + b) * 64 + a) mod 64 = a"
    unfolding e by (simp only: 1 simp_thms)
  show "a < 64 \<Longrightarrow> b < 64 \<Longrightarrow> d < 64 \<Longrightarrow> (((q * 64 + d) * 64 + b) * 64 + a) div 262144 = q \<and> (((q * 64 + d) * 64 + b) * 64 + a) div 4096 mod 64 = d \<and>
       (((q * 64 + d) * 64 + b) * 64 + a) div 64 mod 64 = b \<and> (((q * 64 + d) * 64 + b) * 64 + a) mod 64 = a"
    unfolding e by (simp only: 1 simp_thms)
qed

lemma enc_of_ok:
  assumes "q_ws_utf8_ok (c # r)"
  shows "\<exists>cp s. scalar cp \<and> c # r = utf8_enc cp @ s \<and> q_ws_utf8_ok s"
proof -
  have byte: "of_nat (unat b) = b" for b :: u8 by simp
  have digit: "unat b = 128 + unat b mod 64" if "unat b div 64 = 2" for b :: u8 using that div_mult_mod_eq [of "unat b" 64] by simp
  consider "unat c < 128" | "unat c div 32 = 6" | "unat c div 16 = 14" | "unat c div 8 = 30" | "128 \<le> unat c" "utf8_lead c = None"
    using lead_of(4) [of c] by linarith
  then show ?thesis
  proof cases
    case 1
    then have "scalar (unat c) \<and> c # r = utf8_enc (unat c) @ r \<and> q_ws_utf8_ok r" using assms by (simp add: utf8_enc_def scalar_def ok_one)
    then show ?thesis by blast
  next
    case 2
    then have c: "128 \<le> unat c" "unat c mod 32 < 32" "unat c = 192 + unat c mod 32" using div_mult_mod_eq [of "unat c" 32] by simp_all
    obtain x s where x: "r = [x] @ s" "unat x div 64 = 2" "q_ws_utf8_ok s"
        and cp: "128 \<le> unat c mod 32 * 64 + unat x mod 64" "scalar (unat c mod 32 * 64 + unat x mod 64)"
      using assms 2 c unfolding ok_multi [OF lead_of(1) [OF 2] c(1)] by (auto simp: unat_lead ok_multi [OF lead_of(1)] cont_val_def length_Suc_conv)
    have "utf8_enc (unat c mod 32 * 64 + unat x mod 64) = [c, x]"
      using cp(1) c(2) plus_mod [of "unat x mod 64" 64 "unat c mod 32"] c(3) [symmetric] digit [OF x(2), symmetric] by (simp add: utf8_enc_def byte)
    then show ?thesis using x cp by (intro exI [of _ "unat c mod 32 * 64 + unat x mod 64"] exI [of _ s]) simp
  next
    case 3
    then have c: "128 \<le> unat c" "unat c mod 16 < 16" "unat c = 224 + unat c mod 16" using div_mult_mod_eq [of "unat c" 16] by simp_all
    obtain y x s where x: "r = [y, x] @ s" "unat y div 64 = 2" "unat x div 64 = 2" "q_ws_utf8_ok s"
        and cp: "2048 \<le> (unat c mod 16 * 64 + unat y mod 64) * 64 + unat x mod 64" "scalar ((unat c mod 16 * 64 + unat y mod 64) * 64 + unat x mod 64)"
      using assms 3 c unfolding ok_multi [OF lead_of(2) [OF 3] c(1)] by (auto simp: unat_lead ok_multi [OF lead_of(2)] cont_val_def list_len)
    note g = cp_pack(2) [of "unat x mod 64" "unat y mod 64" "unat c mod 16"]
    have "utf8_enc ((unat c mod 16 * 64 + unat y mod 64) * 64 + unat x mod 64) = [c, y, x]"
      using cp(1) c(2) g unfolding utf8_enc_def by (simp add: c(3) [symmetric] digit [OF x(2), symmetric] digit [OF x(3), symmetric])
    then show ?thesis using x cp(2) by (intro exI [of _ "(unat c mod 16 * 64 + unat y mod 64) * 64 + unat x mod 64"] exI [of _ s]) simp
  next
    case 4
    then have c: "128 \<le> unat c" "unat c mod 8 < 8" "unat c = 240 + unat c mod 8" using div_mult_mod_eq [of "unat c" 8] by simp_all
    obtain z y x s where x: "r = [z, y, x] @ s" "unat z div 64 = 2" "unat y div 64 = 2" "unat x div 64 = 2" "q_ws_utf8_ok s"
        and cp: "65536 \<le> ((unat c mod 8 * 64 + unat z mod 64) * 64 + unat y mod 64) * 64 + unat x mod 64"
          "scalar (((unat c mod 8 * 64 + unat z mod 64) * 64 + unat y mod 64) * 64 + unat x mod 64)"
      using assms 4 c unfolding ok_multi [OF lead_of(3) [OF 4] c(1)] by (auto simp: unat_lead ok_multi [OF lead_of(3)] cont_val_def list_len)
    note g = cp_pack(3) [of "unat x mod 64" "unat y mod 64" "unat z mod 64" "unat c mod 8"]
    have "utf8_enc (((unat c mod 8 * 64 + unat z mod 64) * 64 + unat y mod 64) * 64 + unat x mod 64) = [c, z, y, x]"
      using cp(1) c(2) g unfolding utf8_enc_def
      by (simp add: c(3) [symmetric] digit [OF x(2), symmetric] digit [OF x(3), symmetric] digit [OF x(4), symmetric])
    then show ?thesis using x cp(2)
      by (intro exI [of _ "((unat c mod 8 * 64 + unat z mod 64) * 64 + unat y mod 64) * 64 + unat x mod 64"] exI [of _ s]) simp
  next
    case 5
    then show ?thesis using assms by (subst (asm) q_ws_utf8_ok.simps) (simp add: word_less_nat_alt)
  qed
qed

lemma utf8_ok_iff: "q_ws_utf8_ok p \<longleftrightarrow> (\<exists>cps. list_all scalar cps \<and> p = concat (map utf8_enc cps))"
proof
  show "q_ws_utf8_ok p \<Longrightarrow> \<exists>cps. list_all scalar cps \<and> p = concat (map utf8_enc cps)"
  proof (induction "length p" arbitrary: p rule: less_induct)
    case less
    show ?case
    proof (cases p)
      case (Cons c r)
      then obtain cp s where *: "scalar cp" "p = utf8_enc cp @ s" "q_ws_utf8_ok s" using enc_of_ok less.prems by blast
      moreover have "utf8_enc cp \<noteq> []" by (simp add: utf8_enc_def)
      ultimately obtain cps where "list_all scalar cps" "s = concat (map utf8_enc cps)" using less.hyps [of s] by auto
      then show ?thesis using * by (intro exI [of _ "cp # cps"]) simp
    qed (auto intro: exI [of _ "[]"])
  qed
  have "list_all scalar cps \<Longrightarrow> q_ws_utf8_ok (concat (map utf8_enc cps))" for cps
    by (induction cps) (simp_all add: ok_enc q_ws_utf8_ok.simps [of "[]"])
  then show "\<exists>cps. list_all scalar cps \<and> p = concat (map utf8_enc cps) \<Longrightarrow> q_ws_utf8_ok p" by blast
qed

section \<open>Properties\<close>

text \<open>
  C24. The header codec is exact. For all bytes and all fields (end of message, reserved bits, opcode, length, and with
  or without a mask key): the parser reads a header with these fields and this length off the front of the bytes
  precisely when the encoder's header for these fields stands there, with the reserved bits and the mask filled in, and
  the length is below 2 to the 63; in particular it rejects every length that is not written in the shortest form.
\<close>

theorem ws_hdr_codec:
  "q_ws_hdr_parse b = WsHdr \<lparr>wh_fin = (if fin then 1 else 0), wh_rsv = rsv AND 7, wh_opcode = op AND 15,
      wh_masked = (if masked then 1 else 0), wh_len = len, wh_mask = key,
      wh_hdr_len = length (hdr_wire fin rsv op len masked key)\<rparr> \<longleftrightarrow>
   len < 2 ^ 63 \<and> (if masked then length key = 4 else key = replicate 4 0) \<and>
   prefix (hdr_wire fin rsv op len masked key) b"
proof (cases "length b < 2")
  case True
  then have "\<not> prefix (hdr_wire fin rsv op len masked key) b"
    using prefix_length_le [of "hdr_wire fin rsv op len masked key" b] by (auto simp: hdr_wire_def Let_def)
  then show ?thesis using True by (simp add: q_ws_hdr_parse_def)
next
  case False
  then obtain b0 b1 r where b: "b = b0 # b1 # r" by (cases b; cases "tl b") auto
  define e where "e = q_ws_hdr_encode False 0 len"
  have wire: "hdr_wire fin rsv op len masked key =
      ((if fin then 128 else 0) OR (op AND 15) OR push_bit 4 (rsv AND 7)) # (e ! 1 OR (if masked then 128 else 0)) #
        drop 2 e @ (if masked then key else [])"
    by (simp add: hdr_wire_def Let_def encode_parts [of fin op] e_def or.assoc)
  have e2: "length e = Suc (Suc (length (drop 2 e)))" "drop_bit 7 (e ! 1) AND 1 = 0"
    using second_byte [of False 0 len] by (simp_all add: e_def encode_long)
  have "q_ws_hdr_parse b = WsHdr \<lparr>wh_fin = (if fin then 1 else 0), wh_rsv = rsv AND 7, wh_opcode = op AND 15,
      wh_masked = (if masked then 1 else 0), wh_len = len, wh_mask = key,
      wh_hdr_len = length (hdr_wire fin rsv op len masked key)\<rparr> \<longleftrightarrow>
    (\<exists>pos. hdr_len_field b = Inr (len, pos) \<and>
      (drop_bit 7 b0 AND 1 = (if fin then 1 else 0) \<and> drop_bit 4 b0 AND 7 = rsv AND 7 \<and> b0 AND 15 = op AND 15) \<and>
      drop_bit 7 b1 AND 1 = (if masked then 1 else 0) \<and>
      (if masked then \<not> length b < pos + 4 \<and> key = take 4 (drop pos b) else key = replicate 4 0) \<and>
      length (hdr_wire fin rsv op len masked key) = (if masked then pos + 4 else pos))"
    by (auto simp: q_ws_hdr_parse_def Let_def b split: sum.splits prod.splits if_splits)
  also have "\<dots> \<longleftrightarrow> len < 2 ^ 63 \<and>
      b0 = (if fin then 128 else 0) OR (op AND 15) OR push_bit 4 (rsv AND 7) \<and> b1 = e ! 1 OR (if masked then 128 else 0) \<and>
      prefix (drop 2 e) r \<and>
      (if masked then \<not> length r < length (drop 2 e) + 4 \<and> take 4 (drop (length (drop 2 e)) r) = key else key = replicate 4 0) \<and>
      (if masked then length key = 4 else True)"
    unfolding first_byte_iff second_byte_iff [OF e2(2), symmetric] len_field_iff b wire e_def [symmetric] e2(1)
    by auto
  also have "\<dots> \<longleftrightarrow> len < 2 ^ 63 \<and> (if masked then length key = 4 else key = replicate 4 0) \<and>
      prefix (hdr_wire fin rsv op len masked key) b"
    unfolding wire b using prefix_key [of key "drop 2 e" r] append_prefixD [of "drop 2 e" key r] by auto
  finally show ?thesis .
qed

text \<open>
  C25. The UTF-8 check accepts a text exactly when it is the concatenation of the UTF-8 encodings of Unicode scalar
  values: no overlong forms, no surrogates, nothing above 10FFFF, nothing cut off.
\<close>

theorem utf8_ok_spec: "q_ws_utf8_ok p \<longleftrightarrow> (\<exists>cps. list_all scalar cps \<and> p = concat (map utf8_enc cps))"
  by (rule utf8_ok_iff)

end
