(* ===== verification/Ws.thy ===== *)
theory Ws
  imports WsFrame Codec
begin

text \<open>
  WebSocket connections: \<^verbatim>\<open>src/qlang/net/q_ws.c\<close> and the pump \<open>ipc_read_ws\<close> of \<^verbatim>\<open>src/core/ipc.c\<close> that feeds it exactly the
  bytes it asked for. A buffer with its length is the list of its bytes.
  What a call learns from outside (is \<open>.z.ws\<close> set, do the allocations and the sends succeed, the entropy of the mask
  generator) is the record \<open>ws_ask\<close>; what it does outside is appended to a log: bytes handed to the socket and
  messages handed to the handler. A send that fails is not logged, although part of it may have left.

  Shown: in every reachable state the header buffer, the accumulator and the next read stay within their limits;
  a conforming stream of frames is delivered as the messages it carries; what a client sends arrives.
\<close>

section \<open>Sending\<close>

record ws_ask =
  ask_hook :: bool
  ask_seed :: u64
  ask_mem_frame :: bool
  ask_mem_msg :: bool
  ask_mem_arg :: bool
  ask_send_hdr :: bool
  ask_send_body :: bool

datatype ws_event = Sent bytes | Handler bool bytes

record ws_world =
  ww_rng :: u64
  ww_log :: "ws_event list"

definition log_event :: "ws_event \<Rightarrow> ws_world \<Rightarrow> ws_world" where
  "log_event e w = w\<lparr>ww_log := ww_log w @ [e]\<rparr>"

definition ws_mask_next :: "u64 \<Rightarrow> u64 \<Rightarrow> u32 \<times> u64" where
  "ws_mask_next seed rng =
    (let x = (if rng = 0 then seed else rng);
         x = x XOR drop_bit 12 x; x = x XOR push_bit 25 x; x = x XOR drop_bit 27 x
     in (ucast (drop_bit 32 (x * 2685821657736338717)), x))"

text \<open>Header, then payload if there is one; a failed send ends it.\<close>

definition send_frame :: "ws_ask \<Rightarrow> bytes \<Rightarrow> bytes \<Rightarrow> ws_world \<Rightarrow> bool \<times> ws_world" where
  "send_frame ask hdr p w =
    (if \<not> ask_send_hdr ask then (False, w)
     else if p = [] then (True, log_event (Sent hdr) w)
     else if \<not> ask_send_body ask then (False, log_event (Sent hdr) w)
     else (True, log_event (Sent p) (log_event (Sent hdr) w)))"

definition key_bytes :: "u32 \<Rightarrow> bytes" where
  "key_bytes k = [ucast (drop_bit 24 k), ucast (drop_bit 16 k), ucast (drop_bit 8 k), ucast k]"

definition ws_frame_send :: "ws_ask \<Rightarrow> u8 \<Rightarrow> bytes \<Rightarrow> bool \<Rightarrow> ws_world \<Rightarrow> bool \<times> ws_world" where
  "ws_frame_send ask opcode payload msk w =
    (let hdr = q_ws_hdr_encode True opcode (of_nat (length payload))
     in if msk
        then (let (k, rng) = ws_mask_next (ask_seed ask) (ww_rng w);
                  key = key_bytes k;
                  hdr = hdr[1 := hdr ! 1 OR 128] @ key;
                  w = w\<lparr>ww_rng := rng\<rparr>
              in if length payload > 256 \<and> \<not> ask_mem_frame ask then (False, w)
                 else send_frame ask hdr (q_ws_mask_apply payload key 0) w)
        else send_frame ask hdr payload w)"

definition ws_close_send :: "ws_ask \<Rightarrow> u16 \<Rightarrow> bool \<Rightarrow> ws_world \<Rightarrow> ws_world" where
  "ws_close_send ask code msk w =
    snd (ws_frame_send ask OP_CLOSE (if code \<noteq> 0 then [ucast (drop_bit 8 code), ucast code] else []) msk w)"

section \<open>Connections\<close>

datatype ws_state = WS_HDR | WS_HDREXT | WS_PAYLOAD

record ws_conn =
  wc_st :: ws_state
  wc_client :: bool
  wc_hbuf :: bytes
  wc_h :: ws_hdr
  wc_msg :: bytes
  wc_cap :: nat
  wc_op :: u8
  wc_frames :: u32
  wc_want :: nat

definition q_ws_conn_new_role :: "bool \<Rightarrow> ws_conn" where
  "q_ws_conn_new_role is_client =
    \<lparr>wc_st = WS_HDR, wc_client = is_client, wc_hbuf = [], wc_h = hdr_zero, wc_msg = [], wc_cap = 0, wc_op = 0,
      wc_frames = 0, wc_want = 2\<rparr>"

definition ws_dispatch :: "ws_ask \<Rightarrow> bool \<Rightarrow> u8 \<Rightarrow> bytes \<Rightarrow> ws_world \<Rightarrow> ws_world" where
  "ws_dispatch ask client opcode p w =
    (if \<not> ask_hook ask
     then (if opcode = OP_BIN \<and> \<not> client then snd (ws_frame_send ask OP_BIN p False w) else w)
     else if \<not> ask_mem_arg ask then w
     else log_event (Handler (opcode = OP_TEXT) p) w)"

definition msg_append :: "ws_ask \<Rightarrow> bytes \<Rightarrow> ws_conn \<Rightarrow> bool \<times> ws_conn" where
  "msg_append ask p c =
    (if p = [] then (True, c)
     else if length (wc_msg c) + length p > wc_cap c
     then (if \<not> ask_mem_msg ask then (False, c)
           else (True, c\<lparr>wc_cap := grow_cap (if wc_cap c \<noteq> 0 then wc_cap c * 2 else 4096) (length (wc_msg c) + length p),
                         wc_msg := wc_msg c @ p\<rparr>))
     else (True, c\<lparr>wc_msg := wc_msg c @ p\<rparr>))"

text \<open>The next read, 0 to close, with the new connection and the world.\<close>

type_synonym ws_res = "nat \<times> ws_conn \<times> ws_world"

definition ws_process :: "ws_ask \<Rightarrow> bytes \<Rightarrow> ws_conn \<Rightarrow> ws_world \<Rightarrow> ws_res" where
  "ws_process ask p c w =
    (let op = wh_opcode (wc_h c); fin = wh_fin (wc_h c) \<noteq> 0; msk = wc_client c;
         c = c\<lparr>wc_st := WS_HDR, wc_hbuf := [], wc_want := 2\<rparr>;
         close = (\<lambda>code c. (0, c, ws_close_send ask code msk w))
     in if op = OP_PING
        then (let (ok, w) = ws_frame_send ask OP_PONG p msk w in (if ok then wc_want c else 0, c, w))
        else if op = OP_PONG then (wc_want c, c, w)
        else if op = OP_CLOSE
        then (if length p = 1 then close 1002 c
              else close (if length p \<ge> 2 then push_bit 8 (ucast (p ! 0)) OR ucast (p ! 1) else 0) c)
        else if op = OP_TEXT \<or> op = OP_BIN
        then (if \<not> fin
              then (let (ok, c) = msg_append ask p (c\<lparr>wc_op := op, wc_frames := 1\<rparr>)
                    in if ok then (wc_want c, c, w) else close 1009 c)
              else if op = OP_TEXT \<and> \<not> q_ws_utf8_ok p then close 1007 c
              else (wc_want c, c, ws_dispatch ask (wc_client c) op p w))
        else (let (ok, c) = msg_append ask p c
              in if \<not> ok then close 1009 c
                 else if \<not> fin then (wc_want c, c, w)
                 else (let m = wc_msg c; mop = wc_op c; c = c\<lparr>wc_msg := [], wc_cap := 0, wc_op := 0, wc_frames := 0\<rparr>
                       in if mop = OP_TEXT \<and> \<not> q_ws_utf8_ok m then close 1007 c
                          else (wc_want c, c, ws_dispatch ask (wc_client c) mop m w))))"

text \<open>
  What a complete header is checked for: the close code it earns, or the connection to go on with. A connection that is
  closed is freed, so that its last state does not matter.
\<close>

definition hdr_check :: "ws_conn \<Rightarrow> u16 + ws_conn" where
  "hdr_check c =
    (let h = wc_h c; op = wh_opcode h; len = unat (wh_len h)
     in if (wh_masked h \<noteq> (if wc_client c then 0 else 1)) \<or> wh_rsv h \<noteq> 0 then Inl 1002
        else if op \<ge> 8 then (if op > OP_PONG \<or> wh_fin h = 0 \<or> len > 125 then Inl 1002 else Inr c)
        else if op > OP_BIN then Inl 1002
        else if op = OP_CONT \<and> wc_op c = 0 then Inl 1002
        else if op = OP_CONT \<and> wc_frames c + 1 > Q_WS_MAX_FRAGS then Inl 1009
        else if op \<noteq> OP_CONT \<and> wc_op c \<noteq> 0 then Inl 1002
        else if len > Q_WS_MAX_MSG \<or> length (wc_msg c) + len > Q_WS_MAX_MSG then Inl 1009
        else Inr (if op = OP_CONT then c\<lparr>wc_frames := wc_frames c + 1\<rparr> else c))"

text \<open>The length of a header, from its second byte.\<close>

definition hdr_full :: "u8 \<Rightarrow> nat" where
  "hdr_full b1 = 2 + (if b1 AND 127 = 126 then 2 else if b1 AND 127 = 127 then 8 else 0) + (if b1 AND 128 \<noteq> 0 then 4 else 0)"

definition q_ws_feed :: "ws_ask \<Rightarrow> bytes \<Rightarrow> ws_conn \<Rightarrow> ws_world \<Rightarrow> ws_res" where
  "q_ws_feed ask data c w =
    (let m = wc_client c; close = (\<lambda>code c. (0, c, ws_close_send ask code m w))
     in if wc_st c = WS_PAYLOAD
        then ws_process ask (if wh_masked (wc_h c) \<noteq> 0 then q_ws_mask_apply data (wh_mask (wc_h c)) 0 else data) c w
        else if length (wc_hbuf c) + length data > 14 then close 1002 c
        else (let c = c\<lparr>wc_hbuf := wc_hbuf c @ data\<rparr>
              in case q_ws_hdr_parse (wc_hbuf c) of
                   WsBad \<Rightarrow> close 1002 c
                 | WsMore \<Rightarrow>
                     (let want = hdr_full (wc_hbuf c ! 1) - length (wc_hbuf c)
                      in (want, c\<lparr>wc_st := WS_HDREXT, wc_want := want\<rparr>, w))
                 | WsHdr h \<Rightarrow>
                     (case hdr_check (c\<lparr>wc_h := h\<rparr>) of
                        Inl code \<Rightarrow> close code (c\<lparr>wc_h := h\<rparr>)
                      | Inr c \<Rightarrow>
                          if wh_len h = 0 then ws_process ask [] c w
                          else (unat (wh_len h), c\<lparr>wc_st := WS_PAYLOAD, wc_want := unat (wh_len h)\<rparr>, w))))"

text \<open>The reply path \<open>neg[h] msg\<close>: 0, -1 or -2.\<close>

definition q_ws_send :: "ws_ask \<Rightarrow> ws_conn \<Rightarrow> qtext option \<Rightarrow> ws_world \<Rightarrow> int \<times> ws_world" where
  "q_ws_send ask c msg w =
    (case msg of
       None \<Rightarrow> (0, w)
     | Some x \<Rightarrow>
         (case q_str_text_bytes x of
            Some p \<Rightarrow> (let (ok, w) = ws_frame_send ask OP_TEXT p (wc_client c) w in (if ok then 0 else - 1, w))
          | None \<Rightarrow>
              (case x of
                 QByteVec p \<Rightarrow> (let (ok, w) = ws_frame_send ask OP_BIN p (wc_client c) w in (if ok then 0 else - 1, w))
               | _ \<Rightarrow> (- 2, w))))"

text \<open>
  The pump: as long as the socket holds the bytes asked for, they are fed; \<open>asks i\<close> is what the \<open>i\<close>-th call learns.
  The result has the bytes left over and whether the connection is still open.
\<close>

function ws_pump :: "(nat \<Rightarrow> ws_ask) \<Rightarrow> bytes \<Rightarrow> ws_conn \<Rightarrow> ws_world \<Rightarrow> bool \<times> bytes \<times> ws_conn \<times> ws_world" where
  "ws_pump asks stream c w =
    (if wc_want c = 0 \<or> length stream < wc_want c then (True, stream, c, w)
     else (case q_ws_feed (asks 0) (take (wc_want c) stream) c w of
             (want, c', w') \<Rightarrow>
               if want = 0 then (False, drop (wc_want c) stream, c', w')
               else ws_pump (\<lambda>i. asks (Suc i)) (drop (wc_want c) stream) c' w'))"
  by pat_completeness auto
termination by (relation "measure (\<lambda>(asks, stream, c, w). length stream)") auto

declare ws_pump.simps [simp del]

section \<open>Reachable connections\<close>

lemma full_more:
  assumes "q_ws_hdr_parse b = WsMore" "2 \<le> length b"
  shows "length b < hdr_full (b ! 1)"
proof -
  have m: "drop_bit 7 (b ! 1) AND 1 \<noteq> 0 \<longleftrightarrow> b ! 1 AND 128 \<noteq> 0"
  proof -
    have "drop_bit 7 (b ! 1) AND 1 = (if bit (b ! 1) 7 then 1 else 0)" by (rule bit_word_eqI) (auto simp: bit_simps intro: gr0I)
    moreover have "b ! 1 AND 128 = (if bit (b ! 1) 7 then 128 else 0)" by (rule bit_word_eqI) (auto simp: bit_simps byte_bits)
    ultimately show ?thesis by simp
  qed
  have u: "ucast (x :: u8) = (126 :: u64) \<longleftrightarrow> x = 126" "ucast (x :: u8) = (127 :: u64) \<longleftrightarrow> x = 127" for x
  proof -
    have "unat x < 2 ^ 8" using unsigned_less [of x, where ?'a = nat] by simp
    then have "unat (ucast x :: u64) = unat x" by (simp add: unsigned_ucast_eq take_bit_nat_eq_self_iff)
    then show "ucast (x :: u8) = (126 :: u64) \<longleftrightarrow> x = 126" "ucast (x :: u8) = (127 :: u64) \<longleftrightarrow> x = 127"
      by (simp_all add: word_eq_iff_unsigned [where ?'a = nat])
  qed
  show ?thesis using assms m
    by (auto simp: q_ws_hdr_parse_def hdr_len_field_def hdr_full_def Let_def u split: if_splits)
qed

lemma grow_cap_le: "grow_cap c n \<le> max c (2 * n)"
proof (induction c n rule: grow_cap.induct)
  case (1 c n)
  then show ?case by (subst grow_cap.simps) (auto split: if_splits)
qed

definition known_op :: "ws_conn \<Rightarrow> bool" where
  "known_op c \<longleftrightarrow> wh_opcode (wc_h c) \<in> {OP_CONT, OP_TEXT, OP_BIN, OP_CLOSE, OP_PING, OP_PONG} \<and>
    (wh_opcode (wc_h c) = OP_CONT \<longrightarrow> wc_op c \<noteq> 0)"

definition acc_ok :: "ws_conn \<Rightarrow> bool" where
  "acc_ok c \<longleftrightarrow> length (wc_msg c) \<le> Q_WS_MAX_MSG \<and> length (wc_msg c) \<le> wc_cap c \<and> wc_cap c \<le> 2 * Q_WS_MAX_MSG \<and>
    (wc_op c = 0 \<longrightarrow> wc_msg c = []) \<and> wc_frames c \<le> Q_WS_MAX_FRAGS"

definition ws_inv :: "ws_conn \<Rightarrow> bool" where
  "ws_inv c \<longleftrightarrow>
    (case wc_st c of
       WS_HDR \<Rightarrow> wc_hbuf c = [] \<and> wc_want c = 2
     | WS_HDREXT \<Rightarrow> 2 \<le> length (wc_hbuf c) \<and> 0 < wc_want c \<and> length (wc_hbuf c) + wc_want c = hdr_full (wc_hbuf c ! 1)
     | WS_PAYLOAD \<Rightarrow> 0 < wc_want c \<and> wc_want c = unat (wh_len (wc_h c)) \<and> known_op c \<and>
         (if 8 \<le> wh_opcode (wc_h c) then wc_want c \<le> 125
          else length (wc_msg c) + wc_want c \<le> Q_WS_MAX_MSG)) \<and>
    acc_ok c"

lemma append_bounds:
  assumes "msg_append ask p c = (True, c')" "length (wc_msg c) + length p \<le> Q_WS_MAX_MSG" "length (wc_msg c) \<le> wc_cap c" "wc_cap c \<le> 2 * Q_WS_MAX_MSG"
  shows "wc_msg c' = wc_msg c @ p" "length (wc_msg c') \<le> wc_cap c'" "wc_cap c' \<le> 2 * Q_WS_MAX_MSG"
    "c'\<lparr>wc_msg := m, wc_cap := k\<rparr> = c\<lparr>wc_msg := m, wc_cap := k\<rparr>"
proof -
  let ?n = "length (wc_msg c) + length p" and ?c0 = "if wc_cap c \<noteq> 0 then wc_cap c * 2 else 4096"
  have g: "?n \<le> grow_cap ?c0 ?n" by (rule grow_cap_enough) simp
  have l: "grow_cap ?c0 ?n \<le> 2 * Q_WS_MAX_MSG" if "wc_cap c < ?n"
    using grow_cap_le [of ?c0 ?n] that assms(2) by (auto simp: max_def split: if_splits)
  show "wc_msg c' = wc_msg c @ p" "length (wc_msg c') \<le> wc_cap c'" "wc_cap c' \<le> 2 * Q_WS_MAX_MSG"
      "c'\<lparr>wc_msg := m, wc_cap := k\<rparr> = c\<lparr>wc_msg := m, wc_cap := k\<rparr>"
    using assms g l by (auto simp: msg_append_def split: if_splits)
qed

lemma append_fields: "msg_append ask p c = (ok, c') \<Longrightarrow> wc_st c' = wc_st c \<and> wc_hbuf c' = wc_hbuf c \<and> wc_want c' = wc_want c \<and>
    wc_op c' = wc_op c \<and> wc_frames c' = wc_frames c \<and> wc_client c' = wc_client c \<and> wc_h c' = wc_h c"
  by (auto simp: msg_append_def split: if_splits)

text \<open>Processing a payload that fits leaves an idle connection within bounds, or closes.\<close>

definition idle :: "ws_conn \<Rightarrow> ws_conn" where
  "idle c = c\<lparr>wc_st := WS_HDR, wc_hbuf := [], wc_want := 2\<rparr>"

lemma idle_fields [simp]: "wc_st (idle c) = WS_HDR" "wc_hbuf (idle c) = []" "wc_want (idle c) = 2" "wc_op (idle c) = wc_op c"
    "wc_msg (idle c) = wc_msg c" "wc_cap (idle c) = wc_cap c" "wc_frames (idle c) = wc_frames c" "wc_client (idle c) = wc_client c"
    "wc_h (idle c) = wc_h c"
  by (simp_all add: idle_def)

lemma process_ping: "wh_opcode (wc_h c) = OP_PING \<Longrightarrow> ws_process ask p c w =
    (let (ok, w) = ws_frame_send ask OP_PONG p (wc_client c) w in (if ok then 2 else 0, idle c, w))"
  by (simp add: ws_process_def idle_def Let_def split: prod.split)

lemma process_pong: "wh_opcode (wc_h c) = OP_PONG \<Longrightarrow> ws_process ask p c w = (2, idle c, w)"
  by (simp add: ws_process_def idle_def Let_def)

lemma process_close: "wh_opcode (wc_h c) = OP_CLOSE \<Longrightarrow> fst (ws_process ask p c w) = 0"
  by (simp add: ws_process_def Let_def)

lemma process_start: "wh_opcode (wc_h c) \<in> {OP_TEXT, OP_BIN} \<Longrightarrow> wh_fin (wc_h c) = 0 \<Longrightarrow> ws_process ask p c w =
    (let (ok, c2) = msg_append ask p ((idle c)\<lparr>wc_op := wh_opcode (wc_h c), wc_frames := 1\<rparr>)
     in if ok then (wc_want c2, c2, w) else (0, c2, ws_close_send ask 1009 (wc_client c) w))"
  by (auto simp: ws_process_def idle_def Let_def)

lemma process_whole: "wh_opcode (wc_h c) \<in> {OP_TEXT, OP_BIN} \<Longrightarrow> wh_fin (wc_h c) \<noteq> 0 \<Longrightarrow> ws_process ask p c w =
    (if wh_opcode (wc_h c) = OP_TEXT \<and> \<not> q_ws_utf8_ok p then (0, idle c, ws_close_send ask 1007 (wc_client c) w)
     else (2, idle c, ws_dispatch ask (wc_client c) (wh_opcode (wc_h c)) p w))"
  by (auto simp: ws_process_def idle_def Let_def)

lemma process_cont: "wh_opcode (wc_h c) = OP_CONT \<Longrightarrow> ws_process ask p c w =
    (let (ok, c2) = msg_append ask p (idle c)
     in if \<not> ok then (0, c2, ws_close_send ask 1009 (wc_client c) w)
        else if wh_fin (wc_h c) = 0 then (wc_want c2, c2, w)
        else (let c3 = c2\<lparr>wc_msg := [], wc_cap := 0, wc_op := 0, wc_frames := 0\<rparr>
              in if wc_op c2 = OP_TEXT \<and> \<not> q_ws_utf8_ok (wc_msg c2) then (0, c3, ws_close_send ask 1007 (wc_client c) w)
                 else (wc_want c2, c3, ws_dispatch ask (wc_client c2) (wc_op c2) (wc_msg c2) w)))"
  by (simp add: ws_process_def idle_def Let_def split: prod.split)

lemma idle_inv: "acc_ok c \<Longrightarrow> wc_st c = WS_HDR \<Longrightarrow> wc_hbuf c = [] \<Longrightarrow> wc_want c = 2 \<Longrightarrow> ws_inv c"
  by (simp add: ws_inv_def)

lemma acc_idle [simp]: "acc_ok (idle c) = acc_ok c"
  by (simp add: acc_ok_def)

lemma append_acc:
  assumes "msg_append ask p c = (True, c2)" "acc_ok c" "wc_op c \<noteq> 0" "length (wc_msg c) + length p \<le> Q_WS_MAX_MSG"
  shows "acc_ok c2"
  using append_bounds(1-3) [OF assms(1,4)] append_fields [OF assms(1)] assms by (auto simp: acc_ok_def)

lemma process_inv:
  assumes r: "ws_process ask p c w = (want, c', w')" "want \<noteq> 0" and c: "acc_ok c" "known_op c"
    and p: "wh_opcode (wc_h c) < 8 \<longrightarrow> length (wc_msg c) + length p \<le> Q_WS_MAX_MSG"
  shows "ws_inv c' \<and> want = wc_want c'"
proof -
  have i: "ws_inv (idle c)" using c(1) by (intro idle_inv) simp_all
  consider "wh_opcode (wc_h c) = OP_PING" | "wh_opcode (wc_h c) = OP_PONG" | "wh_opcode (wc_h c) = OP_CLOSE"
    | "wh_opcode (wc_h c) \<in> {OP_TEXT, OP_BIN}" "wh_fin (wc_h c) = 0" | "wh_opcode (wc_h c) \<in> {OP_TEXT, OP_BIN}" "wh_fin (wc_h c) \<noteq> 0"
    | "wh_opcode (wc_h c) = OP_CONT" using c(2) by (auto simp: known_op_def)
  then show ?thesis
  proof cases
    case 4
    let ?c1 = "(idle c)\<lparr>wc_op := wh_opcode (wc_h c), wc_frames := 1\<rparr>"
    obtain c2 where a: "msg_append ask p ?c1 = (True, c2)" "c' = c2" "want = wc_want c2"
      using r by (auto simp: process_start [OF 4] split: prod.splits if_splits)
    have "wh_opcode (wc_h c) < 8" "wh_opcode (wc_h c) \<noteq> 0" using 4(1) by auto
    moreover have "acc_ok ?c1" using c(1) 4(1) by (auto simp: acc_ok_def)
    ultimately have "acc_ok c2" using append_acc [OF a(1)] p by simp
    then show ?thesis using a append_fields [OF a(1)] by (auto intro: idle_inv)
  next
    case 5
    then show ?thesis using r i by (auto simp: process_whole split: if_splits)
  next
    case 6
    then obtain c2 where a: "msg_append ask p (idle c) = (True, c2)"
        "c' = c2 \<or> c' = c2\<lparr>wc_msg := [], wc_cap := 0, wc_op := 0, wc_frames := 0\<rparr>" "want = wc_want c2"
      using r by (auto simp: process_cont Let_def split: prod.splits if_splits)
    have "acc_ok c2" using append_acc [OF a(1)] p c 6 by (simp add: known_op_def)
    moreover from this have "acc_ok (c2\<lparr>wc_msg := [], wc_cap := 0, wc_op := 0, wc_frames := 0\<rparr>)" by (simp add: acc_ok_def)
    ultimately show ?thesis using a append_fields [OF a(1)] by (auto intro: idle_inv)
  qed (use r i process_close [of c ask p w] in \<open>auto simp: process_ping process_pong split: prod.splits if_splits\<close>)
qed

lemma check_ok:
  assumes "hdr_check c = Inr c2"
  shows "c2 = c\<lparr>wc_frames := wc_frames c2\<rparr>" "known_op c2" "wc_frames c \<le> Q_WS_MAX_FRAGS \<longrightarrow> wc_frames c2 \<le> Q_WS_MAX_FRAGS"
    "if 8 \<le> wh_opcode (wc_h c) then unat (wh_len (wc_h c)) \<le> 125 else length (wc_msg c) + unat (wh_len (wc_h c)) \<le> Q_WS_MAX_MSG"
proof -
  have k: "op \<in> {OP_CONT, OP_TEXT, OP_BIN, OP_CLOSE, OP_PING, OP_PONG}" if "8 \<le> op \<and> op \<le> OP_PONG \<or> \<not> 8 \<le> op \<and> op \<le> OP_BIN" for op :: u8
  proof -
    have "unat op \<in> {0, 1, 2, 8, 9, 10}" using that by (auto simp: word_le_nat_alt)
    then show ?thesis by (auto simp: word_eq_iff_unsigned [where ?'a = nat])
  qed
  show "c2 = c\<lparr>wc_frames := wc_frames c2\<rparr>" "wc_frames c \<le> Q_WS_MAX_FRAGS \<longrightarrow> wc_frames c2 \<le> Q_WS_MAX_FRAGS"
    "if 8 \<le> wh_opcode (wc_h c) then unat (wh_len (wc_h c)) \<le> 125 else length (wc_msg c) + unat (wh_len (wc_h c)) \<le> Q_WS_MAX_MSG"
    using assms by (auto simp: hdr_check_def Let_def not_less split: if_splits)
  show "known_op c2" unfolding known_op_def using assms k [of "wh_opcode (wc_h c2)"]
    by (auto simp: hdr_check_def Let_def not_less split: if_splits)
qed

lemma feed_payload: "wc_st c = WS_PAYLOAD \<Longrightarrow> q_ws_feed ask data c w =
    ws_process ask (if wh_masked (wc_h c) \<noteq> 0 then q_ws_mask_apply data (wh_mask (wc_h c)) 0 else data) c w"
  by (simp add: q_ws_feed_def)

lemma mask_length [simp]: "length (q_ws_mask_apply p key off) = length p"
  by (simp add: q_ws_mask_apply_def)

lemma full_bounds: "2 \<le> hdr_full b" "hdr_full b \<le> 14"
  by (simp_all add: hdr_full_def)

lemma feed_header:
  assumes "wc_st c \<noteq> WS_PAYLOAD" "length (wc_hbuf c) + length data \<le> 14"
  shows "q_ws_feed ask data c w =
    (let b = wc_hbuf c @ data
     in case q_ws_hdr_parse b of
          WsBad \<Rightarrow> (0, c\<lparr>wc_hbuf := b\<rparr>, ws_close_send ask 1002 (wc_client c) w)
        | WsMore \<Rightarrow> (hdr_full (b ! 1) - length b, c\<lparr>wc_hbuf := b, wc_st := WS_HDREXT, wc_want := hdr_full (b ! 1) - length b\<rparr>, w)
        | WsHdr h \<Rightarrow>
            (case hdr_check (c\<lparr>wc_hbuf := b, wc_h := h\<rparr>) of
               Inl code \<Rightarrow> (0, c\<lparr>wc_hbuf := b, wc_h := h\<rparr>, ws_close_send ask code (wc_client c) w)
             | Inr c \<Rightarrow>
                 if wh_len h = 0 then ws_process ask [] c w
                 else (unat (wh_len h), c\<lparr>wc_st := WS_PAYLOAD, wc_want := unat (wh_len h)\<rparr>, w)))"
  using assms by (simp add: q_ws_feed_def Let_def cong: ws_parse.case_cong sum.case_cong)

lemma feed_inv:
  assumes inv: "ws_inv c" and len: "length data = wc_want c" and r: "q_ws_feed ask data c w = (want, c', w')" "want \<noteq> 0"
  shows "ws_inv c' \<and> want = wc_want c'"
proof (cases "wc_st c = WS_PAYLOAD")
  case True
  then have "acc_ok c" "known_op c" "\<not> 8 \<le> wh_opcode (wc_h c) \<longrightarrow> length (wc_msg c) + length data \<le> Q_WS_MAX_MSG"
    using inv len by (simp_all add: ws_inv_def split: if_splits)
  then show ?thesis using process_inv [OF r(1) [unfolded feed_payload [OF True]] r(2)] by (simp add: not_le)
next
  case False
  then have b: "2 \<le> length (wc_hbuf c @ data)" "length (wc_hbuf c) + length data \<le> 14"
    using inv len full_bounds by (auto simp: ws_inv_def split: ws_state.splits)
  have acc: "acc_ok c" using inv by (simp add: ws_inv_def)
  define b where "b = wc_hbuf c @ data"
  note F = feed_header [OF False b(2), of ask w, folded b_def]
  show ?thesis
  proof (cases "q_ws_hdr_parse b")
    case WsMore
    have "length b < hdr_full (b ! 1)" using full_more [OF WsMore] b(1) by (simp add: b_def)
    moreover have "2 \<le> length b" using b(1) by (simp add: b_def)
    ultimately show ?thesis using r WsMore acc by (auto simp: F Let_def ws_inv_def acc_ok_def)
  next
    case WsBad
    then show ?thesis using r by (simp add: F)
  next
    case (WsHdr h)
    then obtain c2 where c2: "hdr_check (c\<lparr>wc_hbuf := b, wc_h := h\<rparr>) = Inr c2" using r by (auto simp: F Let_def split: sum.splits)
    note C = check_ok [OF c2]
    have fields: "wc_h c2 = h" "wc_msg c2 = wc_msg c" "wc_cap c2 = wc_cap c" "wc_op c2 = wc_op c" by (subst C(1), simp)+
    then have acc2: "acc_ok c2" using acc C(3) by (simp add: acc_ok_def)
    show ?thesis
    proof (cases "wh_len h = 0")
      case True
      then show ?thesis using r acc2 C(2) acc by (intro process_inv [of ask "[]" c2 w]) (auto simp: F Let_def WsHdr c2 fields acc_ok_def)
    next
      case len0: False
      then have "0 < unat (wh_len h)" by (simp add: unat_gt_0)
      have "want = unat (wh_len h)" "c' = c2\<lparr>wc_st := WS_PAYLOAD, wc_want := unat (wh_len h)\<rparr>"
        using r len0 by (auto simp: F Let_def WsHdr c2)
      moreover have "if 8 \<le> wh_opcode h then unat (wh_len h) \<le> 125 else length (wc_msg c) + unat (wh_len h) \<le> Q_WS_MAX_MSG"
        using C(4) by (simp split: if_splits)
      ultimately show ?thesis using acc2 C(2) fields \<open>0 < unat (wh_len h)\<close>
        by (simp add: ws_inv_def acc_ok_def known_op_def split: if_splits)
    qed
  qed
qed

inductive ws_reach :: "ws_conn \<Rightarrow> bool" where
  opened: "ws_reach (q_ws_conn_new_role client)"
| fed: "ws_reach c \<Longrightarrow> length data = wc_want c \<Longrightarrow> q_ws_feed ask data c w = (want, c', w') \<Longrightarrow> want \<noteq> 0 \<Longrightarrow> ws_reach c'"

lemma reach_inv: "ws_reach c \<Longrightarrow> ws_inv c"
proof (induction rule: ws_reach.induct)
  case (opened client)
  show ?case by (simp add: q_ws_conn_new_role_def ws_inv_def acc_ok_def)
next
  case (fed c data ask w want c' w')
  then show ?case using feed_inv by blast
qed

section \<open>Frames on the stream\<close>

text \<open>A frame as a peer sends it: final bit, opcode, key and payload; on the stream it is masked.\<close>

datatype ws_frame = Frame bool u8 bytes bytes

fun frame_bytes :: "ws_frame \<Rightarrow> bytes" where
  "frame_bytes (Frame fin op key p) = masked_hdr (q_ws_hdr_encode fin op (of_nat (length p))) key @ q_ws_mask_apply p key 0"

lemma mask_twice: "q_ws_mask_apply (q_ws_mask_apply p key off) key off = p"
  by (rule nth_equalityI) (simp_all add: q_ws_mask_apply_def xor.assoc)

lemma masked_prefix_more:
  assumes "drop_bit 7 b1 AND 1 = (1 :: u8)"
  shows "q_ws_hdr_parse [b0, b1] = WsMore"
  using assms by (auto simp: q_ws_hdr_parse_def hdr_len_field_def Let_def)

definition frame_hdr :: "bool \<Rightarrow> u8 \<Rightarrow> bytes \<Rightarrow> bytes \<Rightarrow> ws_hdr" where
  "frame_hdr fin op key p = \<lparr>wh_fin = (if fin then 1 else 0), wh_rsv = 0, wh_opcode = op AND 15, wh_masked = 1,
     wh_len = of_nat (length p), wh_mask = key, wh_hdr_len = length (q_ws_hdr_encode fin op (of_nat (length p))) + 4\<rparr>"

lemma encode_hdr_full: "length key = 4 \<Longrightarrow> length (q_ws_hdr_encode fin op len) + 4 = hdr_full (q_ws_hdr_encode fin op len ! 1 OR 128)"
proof -
  have a: "(b OR 128) AND 127 = b AND 127" "(b OR 128) AND 128 = 128" for b :: u8
    by (rule bit_word_eqI; auto simp: bit_simps byte_bits)+
  have "ucast len AND 127 \<noteq> (126 :: u8)" "ucast len AND 127 \<noteq> (127 :: u8)" if "len \<le> 125"
    using len7_small [OF that] that by (auto dest: arg_cong [where f = "ucast :: u8 \<Rightarrow> u64"])
  then show ?thesis by (auto simp: hdr_full_def a encode_long)
qed

text \<open>Pumping a frame that passes the header check: two reads for the header, one for the payload.\<close>

lemma pump_step:
  assumes "0 < wc_want c" "length d = wc_want c"
  shows "ws_pump asks (d @ rest) c w =
    (case q_ws_feed (asks 0) d c w of (want, c', w') \<Rightarrow> if want = 0 then (False, rest, c', w') else ws_pump (\<lambda>i. asks (Suc i)) rest c' w')"
proof -
  have "take (wc_want c) (d @ rest) = d" "drop (wc_want c) (d @ rest) = rest" using assms(2) [symmetric] by simp_all
  moreover have "\<not> (wc_want c = 0 \<or> length (d @ rest) < wc_want c)" using assms by simp
  ultimately show ?thesis by (subst ws_pump.simps) (simp only: if_False)
qed

lemma process_idle: "ws_process ask p (idle c) w = ws_process ask p c w"
  by (simp add: ws_process_def idle_def Let_def)

lemma check_frame: "hdr_check (c\<lparr>wc_st := st, wc_hbuf := b, wc_want := n\<rparr>) = map_sum id (\<lambda>c. c\<lparr>wc_st := st, wc_hbuf := b, wc_want := n\<rparr>) (hdr_check c)"
  by (simp add: hdr_check_def Let_def)

lemma idle_absorb [simp]: "idle (c\<lparr>wc_st := st, wc_hbuf := b, wc_want := n\<rparr>) = idle c" "idle (c\<lparr>wc_st := st, wc_want := n\<rparr>) = idle c"
  by (simp_all add: idle_def)

lemma pump_frame:
  assumes c: "wc_st c = WS_HDR" "wc_hbuf c = []" "wc_want c = 2"
    and k: "length key = 4" "length p \<le> Q_WS_MAX_MSG"
    and ok: "hdr_check (c\<lparr>wc_h := frame_hdr fin op key p\<rparr>) = Inr c1"
  shows "\<exists>j. ws_pump asks (frame_bytes (Frame fin op key p) @ rest) c w =
    (case ws_process (asks j) p c1 w of (want, c', w') \<Rightarrow>
       if want = 0 then (False, rest, c', w') else ws_pump (\<lambda>i. asks (Suc j + i)) rest c' w')"
proof -
  let ?len = "of_nat (length p) :: u64" and ?h = "frame_hdr fin op key p"
  let ?after = "\<lambda>j r. case r of (want, c', w') \<Rightarrow> if want = 0 then (False, rest, c', w') else ws_pump (\<lambda>i. asks (Suc j + i)) rest c' w'"
  obtain b0 b r where e: "q_ws_hdr_encode fin op ?len = b0 # b # r" using encode_shape by blast
  define b1 where "b1 = b OR 128"
  define mp where "mp = q_ws_mask_apply p key 0"
  have h: "masked_hdr (q_ws_hdr_encode fin op ?len) key = [b0, b1] @ r @ key" by (simp add: masked_hdr_def e b1_def)
  have full: "hdr_full b1 = length r + 6" using encode_hdr_full [OF k(1), of fin op ?len] by (simp add: e b1_def)
  have len: "unat ?len = length p" "?len < 2 ^ 63" using k(2) by (simp_all add: unat_of_nat word_less_nat_alt)
  have "drop_bit 7 b1 AND 1 = 1" unfolding b1_def by (rule bit_word_eqI) (auto simp: bit_simps byte_bits)
  then have more: "q_ws_hdr_parse [b0, b1] = WsMore" by (rule masked_prefix_more)
  let ?cx = "c\<lparr>wc_hbuf := [b0, b1], wc_st := WS_HDREXT, wc_want := length r + 4\<rparr>"
  have 1: "q_ws_feed ask [b0, b1] c w = (length r + 4, ?cx, w)" for ask
    using feed_header [of c "[b0, b1]" ask w] c more full by (simp add: Let_def)
  have parse: "q_ws_hdr_parse ([b0, b1] @ r @ key) = WsHdr ?h"
    using parse_masked [OF len(2) k(1), of fin op "[]"] by (simp add: h frame_hdr_def)
  let ?c1 = "c1\<lparr>wc_st := WS_HDREXT, wc_hbuf := [b0, b1] @ r @ key, wc_want := length r + 4\<rparr>"
  have "?cx\<lparr>wc_hbuf := [b0, b1] @ r @ key, wc_h := ?h\<rparr> =
      c\<lparr>wc_h := ?h, wc_st := WS_HDREXT, wc_hbuf := [b0, b1] @ r @ key, wc_want := length r + 4\<rparr>" by (cases c) simp
  then have check: "hdr_check (?cx\<lparr>wc_hbuf := [b0, b1] @ r @ key, wc_h := ?h\<rparr>) = Inr ?c1"
    using check_frame [where c = "c\<lparr>wc_h := ?h\<rparr>" and st = WS_HDREXT and b = "[b0, b1] @ r @ key" and n = "length r + 4"] ok
    by (simp only: map_sum.simps)
  have p0: "wh_len ?h = 0 \<longleftrightarrow> p = []" "unat (wh_len ?h) = length p"
    using len(1) by (auto simp: frame_hdr_def word_eq_iff_unsigned [where ?'a = nat])
  have r14: "length (wc_hbuf ?cx) + length (r @ key) \<le> 14" using full full_bounds(2) [of b1] k(1) by simp
  have 2: "q_ws_feed ask (r @ key) ?cx w =
      (if p = [] then ws_process ask [] c1 w else (length p, ?c1\<lparr>wc_st := WS_PAYLOAD, wc_want := length p\<rparr>, w))" for ask
  proof -
    have "ws_process ask [] ?c1 w = ws_process ask [] c1 w" by (metis process_idle idle_absorb(1))
    then show ?thesis using feed_header [OF _ r14, of ask w] check parse p0 by (simp add: Let_def)
  qed
  let ?c2 = "?c1\<lparr>wc_st := WS_PAYLOAD, wc_want := length p\<rparr>"
  have h2: "wc_h c1 = ?h" using check_ok(1) [OF ok] by (metis ws_conn.select_convs(4) ws_conn.surjective ws_conn.update_convs(4,8))
  have 3: "q_ws_feed ask mp ?c2 w = ws_process ask p c1 w" for ask
  proof -
    have "q_ws_feed ask mp ?c2 w = ws_process ask p ?c2 w"
      by (simp add: feed_payload h2) (simp add: frame_hdr_def mp_def mask_twice)
    also have "\<dots> = ws_process ask p c1 w" by (metis process_idle idle_absorb)
    finally show ?thesis .
  qed
  have stream: "frame_bytes (Frame fin op key p) @ rest = [b0, b1] @ (r @ key) @ mp @ rest" by (simp add: h mp_def)
  have P1: "ws_pump asks (frame_bytes (Frame fin op key p) @ rest) c w = ws_pump (\<lambda>i. asks (Suc i)) ((r @ key) @ mp @ rest) ?cx w"
    unfolding stream using c by (subst pump_step) (simp_all add: 1)
  have P2: "ws_pump (\<lambda>i. asks (Suc i)) ((r @ key) @ mp @ rest) ?cx w =
      (case q_ws_feed (asks 1) (r @ key) ?cx w of (want, c', w') \<Rightarrow>
        if want = 0 then (False, mp @ rest, c', w') else ws_pump (\<lambda>i. asks (Suc (Suc i))) (mp @ rest) c' w')"
    using k(1) by (subst pump_step) simp_all
  show ?thesis
  proof (cases "p = []")
    case True
    then have "mp = []" by (simp add: mp_def q_ws_mask_apply_def)
    then show ?thesis unfolding P1 P2 2 using True by (intro exI [of _ 1]) (simp split: prod.split)
  next
    case False
    have 4: "ws_pump (\<lambda>i. asks (Suc (Suc i))) (mp @ rest) ?c2 w = (case q_ws_feed (asks 2) mp ?c2 w of (want, c', w') \<Rightarrow>
        if want = 0 then (False, rest, c', w') else ws_pump (\<lambda>i. asks (Suc (Suc (Suc i)))) rest c' w')"
      unfolding numeral_2_eq_2 by (rule pump_step) (use False in \<open>simp_all add: mp_def\<close>)
    show ?thesis unfolding P1 P2 2 if_not_P [OF False] prod.case 4 3 using False
      by (intro exI [of _ 2]) (simp add: numeral_3_eq_3 split: prod.split)
  qed
qed

text \<open>A frame whose header is refused: the connection is closed before its payload is read.\<close>

lemma pump_refused:
  assumes c: "wc_st c = WS_HDR" "wc_hbuf c = []" "wc_want c = 2"
    and k: "length key = 4" "length p < 2 ^ 63"
    and bad: "hdr_check (c\<lparr>wc_h := frame_hdr fin op key p\<rparr>) = Inl code"
  shows "\<exists>rest c'. ws_pump asks (frame_bytes (Frame fin op key p)) c w =
    (False, rest, c', ws_close_send (asks 1) code (wc_client c) w)"
proof -
  let ?len = "of_nat (length p) :: u64" and ?h = "frame_hdr fin op key p"
  obtain b0 b r where e: "q_ws_hdr_encode fin op ?len = b0 # b # r" using encode_shape by blast
  define b1 where "b1 = b OR 128"
  define mp where "mp = q_ws_mask_apply p key 0"
  have h: "masked_hdr (q_ws_hdr_encode fin op ?len) key = [b0, b1] @ r @ key" by (simp add: masked_hdr_def e b1_def)
  have full: "hdr_full b1 = length r + 6" using encode_hdr_full [OF k(1), of fin op ?len] by (simp add: e b1_def)
  have len: "?len < 2 ^ 63" using k(2) by (simp add: unat_of_nat word_less_nat_alt)
  have "drop_bit 7 b1 AND 1 = 1" unfolding b1_def by (rule bit_word_eqI) (auto simp: bit_simps byte_bits)
  then have more: "q_ws_hdr_parse [b0, b1] = WsMore" by (rule masked_prefix_more)
  let ?cx = "c\<lparr>wc_hbuf := [b0, b1], wc_st := WS_HDREXT, wc_want := length r + 4\<rparr>"
  have 1: "q_ws_feed ask [b0, b1] c w = (length r + 4, ?cx, w)" for ask
    using feed_header [of c "[b0, b1]" ask w] c more full by (simp add: Let_def)
  have parse: "q_ws_hdr_parse ([b0, b1] @ r @ key) = WsHdr ?h"
    using parse_masked [OF len k(1), of fin op "[]"] by (simp add: h frame_hdr_def)
  have "?cx\<lparr>wc_hbuf := [b0, b1] @ r @ key, wc_h := ?h\<rparr> =
      c\<lparr>wc_h := ?h, wc_st := WS_HDREXT, wc_hbuf := [b0, b1] @ r @ key, wc_want := length r + 4\<rparr>" by (cases c) simp
  then have check: "hdr_check (?cx\<lparr>wc_hbuf := [b0, b1] @ r @ key, wc_h := ?h\<rparr>) = Inl code"
    using check_frame [where c = "c\<lparr>wc_h := ?h\<rparr>" and st = WS_HDREXT and b = "[b0, b1] @ r @ key" and n = "length r + 4"] bad
    by (simp only: map_sum.simps id_apply)
  have r14: "length (wc_hbuf ?cx) + length (r @ key) \<le> 14" using full full_bounds(2) [of b1] k(1) by simp
  have 2: "\<exists>c'. q_ws_feed ask (r @ key) ?cx w = (0, c', ws_close_send ask code (wc_client c) w)" for ask
    using feed_header [OF _ r14, of ask w] check parse by (simp add: Let_def)
  then obtain c' where c': "q_ws_feed (asks 1) (r @ key) ?cx w = (0, c', ws_close_send (asks 1) code (wc_client c) w)" by blast
  have "frame_bytes (Frame fin op key p) = [b0, b1] @ (r @ key) @ mp" by (simp add: h mp_def)
  then have "ws_pump asks (frame_bytes (Frame fin op key p)) c w = ws_pump (\<lambda>i. asks (Suc i)) ((r @ key) @ mp) ?cx w"
    using c by (simp only:) (subst pump_step, simp_all add: 1)
  also have "\<dots> = (False, mp, c', ws_close_send (asks 1) code (wc_client c) w)"
    using k(1) c' by (subst pump_step) simp_all
  finally show ?thesis by blast
qed

section \<open>What a conforming stream delivers\<close>

text \<open>
  The abstract receiver holds the message under way, if any: its opcode, the bytes so far and the fragments seen.
  \<open>frame_ok\<close> is what the protocol asks of the next frame, \<open>frame_does\<close> what it causes.
\<close>

type_synonym ws_acc = "(u8 \<times> bytes \<times> nat) option"

fun frame_ok :: "ws_acc \<Rightarrow> ws_frame \<Rightarrow> bool" where
  "frame_ok got (Frame fin op key p) \<longleftrightarrow> length key = 4 \<and>
    (if op = OP_PING \<or> op = OP_PONG then fin \<and> length p \<le> 125
     else (case got of
             None \<Rightarrow> (op = OP_TEXT \<or> op = OP_BIN) \<and> length p \<le> Q_WS_MAX_MSG \<and> (fin \<and> op = OP_TEXT \<longrightarrow> q_ws_utf8_ok p)
           | Some (mop, m, n) \<Rightarrow> op = OP_CONT \<and> n < unat Q_WS_MAX_FRAGS \<and> length m + length p \<le> Q_WS_MAX_MSG \<and>
               (fin \<and> mop = OP_TEXT \<longrightarrow> q_ws_utf8_ok (m @ p))))"

definition pong_events :: "bytes \<Rightarrow> ws_event list" where
  "pong_events p = Sent (q_ws_hdr_encode True OP_PONG (of_nat (length p))) # (if p = [] then [] else [Sent p])"

fun frame_does :: "ws_acc \<Rightarrow> ws_frame \<Rightarrow> ws_event list \<times> ws_acc" where
  "frame_does got (Frame fin op key p) =
    (if op = OP_PING then (pong_events p, got)
     else if op = OP_PONG then ([], got)
     else (case got of
             None \<Rightarrow> if fin then ([Handler (op = OP_TEXT) p], None) else ([], Some (op, p, 1))
           | Some (mop, m, n) \<Rightarrow> if fin then ([Handler (mop = OP_TEXT) (m @ p)], None) else ([], Some (mop, m @ p, n + 1))))"

fun ws_conforms :: "ws_acc \<Rightarrow> ws_frame list \<Rightarrow> bool" where
  "ws_conforms got [] \<longleftrightarrow> True"
| "ws_conforms got (f # fs) \<longleftrightarrow> frame_ok got f \<and> ws_conforms (snd (frame_does got f)) fs"

fun ws_delivers :: "ws_acc \<Rightarrow> ws_frame list \<Rightarrow> ws_event list" where
  "ws_delivers got [] = []"
| "ws_delivers got (f # fs) = fst (frame_does got f) @ ws_delivers (snd (frame_does got f)) fs"

definition good_ask :: "ws_ask \<Rightarrow> bool" where
  "good_ask ask \<longleftrightarrow> ask_hook ask \<and> ask_mem_msg ask \<and> ask_mem_arg ask \<and> ask_send_hdr ask \<and> ask_send_body ask"

text \<open>A server connection between frames that stands for an abstract receiver.\<close>

definition acc_rel :: "ws_acc \<Rightarrow> ws_conn \<Rightarrow> bool" where
  "acc_rel got c \<longleftrightarrow> wc_st c = WS_HDR \<and> wc_hbuf c = [] \<and> wc_want c = 2 \<and> \<not> wc_client c \<and>
    (case got of
       None \<Rightarrow> wc_op c = 0 \<and> wc_msg c = []
     | Some (mop, m, n) \<Rightarrow> (mop = OP_TEXT \<or> mop = OP_BIN) \<and> wc_op c = mop \<and> wc_msg c = m \<and> unat (wc_frames c) = n)"

lemma append_good: "good_ask ask \<Longrightarrow> fst (msg_append ask p c) \<and> wc_msg (snd (msg_append ask p c)) = wc_msg c @ p"
  by (simp add: msg_append_def good_ask_def)

lemma frame_hdr_fields [simp]: "wh_fin (frame_hdr fin op key p) = (if fin then 1 else 0)" "wh_rsv (frame_hdr fin op key p) = 0"
    "wh_opcode (frame_hdr fin op key p) = op AND 15" "wh_masked (frame_hdr fin op key p) = 1"
    "wh_len (frame_hdr fin op key p) = of_nat (length p)"
  by (simp_all add: frame_hdr_def)

lemma send_pong: "good_ask ask \<Longrightarrow> ws_frame_send ask OP_PONG p False w = (True, w\<lparr>ww_log := ww_log w @ pong_events p\<rparr>)"
  by (simp add: ws_frame_send_def send_frame_def good_ask_def log_event_def pong_events_def)

lemma frames_next: "unat (n :: u32) < unat Q_WS_MAX_FRAGS \<Longrightarrow> unat (n + 1) = unat n + 1 \<and> \<not> n + 1 > Q_WS_MAX_FRAGS"
  by (simp add: unat_word_ariths word_less_nat_alt)

lemma frame_accepted:
  assumes "acc_rel got c" "frame_ok got (Frame fin op key p)"
  shows "hdr_check (c\<lparr>wc_h := frame_hdr fin op key p\<rparr>) =
    Inr (c\<lparr>wc_h := frame_hdr fin op key p, wc_frames := (if op = OP_CONT then wc_frames c + 1 else wc_frames c)\<rparr>)"
proof -
  have len: "unat (of_nat (length p) :: u64) = length p"
    using assms(2) by (auto simp: unat_of_nat split: if_splits option.splits)
  consider "op = OP_PING \<or> op = OP_PONG" "fin" "length p \<le> 125"
    | "op = OP_TEXT \<or> op = OP_BIN" "wc_op c = 0" "wc_msg c = []" "length p \<le> Q_WS_MAX_MSG"
    | "op = OP_CONT" "wc_op c \<noteq> 0" "unat (wc_frames c) < unat Q_WS_MAX_FRAGS" "length (wc_msg c) + length p \<le> Q_WS_MAX_MSG"
    using assms by (auto simp: acc_rel_def split: if_splits option.splits)
  then show ?thesis
  proof cases
    case 3
    then show ?thesis using assms(1) len frames_next [OF 3(3)] by (simp add: hdr_check_def Let_def acc_rel_def not_less)
  qed (use assms(1) len in \<open>auto simp: hdr_check_def Let_def acc_rel_def word_le_nat_alt word_less_nat_alt\<close>)
qed

lemma frame_processed:
  assumes r: "acc_rel got c" and f: "frame_ok got (Frame fin op key p)" and ask: "good_ask ask"
    and c1: "c1 = c\<lparr>wc_h := frame_hdr fin op key p, wc_frames := (if op = OP_CONT then wc_frames c + 1 else wc_frames c)\<rparr>"
  shows "\<exists>c'. ws_process ask p c1 w = (2, c', w\<lparr>ww_log := ww_log w @ fst (frame_does got (Frame fin op key p))\<rparr>) \<and>
    acc_rel (snd (frame_does got (Frame fin op key p))) c'"
proof -
  have h: "wh_opcode (wc_h c1) = op AND 15" "wh_fin (wc_h c1) = (if fin then 1 else 0)" "\<not> wc_client c1" using r by (simp_all add: c1 acc_rel_def)
  have keep: "acc_rel got (idle c1)" if "op \<noteq> OP_CONT" using r that by (simp add: c1 acc_rel_def cong: option.case_cong)
  consider (ping) "op = OP_PING" | (pong) "op = OP_PONG"
    | (whole) "op = OP_TEXT \<or> op = OP_BIN" "got = None" "fin" "op = OP_TEXT \<longrightarrow> q_ws_utf8_ok p"
    | (start) "op = OP_TEXT \<or> op = OP_BIN" "got = None" "\<not> fin"
    | (cont) mop m n where "op = OP_CONT" "got = Some (mop, m, n)" "fin \<and> mop = OP_TEXT \<longrightarrow> q_ws_utf8_ok (m @ p)" "n < unat Q_WS_MAX_FRAGS"
    using f by (auto split: if_splits option.splits)
  then show ?thesis
  proof cases
    case ping
    then show ?thesis using keep h send_pong [OF ask] by (simp add: process_ping)
  next
    case pong
    then show ?thesis using keep h by (simp add: process_pong)
  next
    case whole
    then show ?thesis using keep h ask by (auto simp: process_whole ws_dispatch_def good_ask_def log_event_def)
  next
    case start
    let ?c = "(idle c1)\<lparr>wc_op := op, wc_frames := 1\<rparr>"
    obtain c2 where a: "msg_append ask p ?c = (True, c2)" "wc_msg c2 = wc_msg c1 @ p"
      using append_good [OF ask, of p ?c] by (cases "msg_append ask p ?c") simp
    have op: "op AND 15 = op" using start by auto
    have "wc_msg c1 = []" using r start by (simp add: c1 acc_rel_def)
    then have "acc_rel (Some (op, p, 1)) c2" using append_fields [OF a(1)] a(2) h(3) start(1) by (simp add: acc_rel_def)
    then show ?thesis using start h append_fields [OF a(1)] by (auto simp: process_start op a(1))
  next
    case cont
    obtain c2 where a: "msg_append ask p (idle c1) = (True, c2)" "wc_msg c2 = wc_msg c1 @ p"
      using append_good [OF ask, of p "idle c1"] by (cases "msg_append ask p (idle c1)") simp
    have c2: "wc_msg c2 = m @ p" "wc_op c2 = mop" "mop = OP_TEXT \<or> mop = OP_BIN" "wc_want c2 = 2" "wc_st c2 = WS_HDR" "wc_hbuf c2 = []"
        "\<not> wc_client c2" "unat (wc_frames c2) = n + 1"
      using r cont append_fields [OF a(1)] a(2) frames_next [of "wc_frames c"] by (simp_all add: c1 acc_rel_def)
    then show ?thesis using cont h a(1) ask
      by (auto simp: process_cont Let_def ws_dispatch_def good_ask_def log_event_def acc_rel_def)
  qed
qed

lemma frame_len: "frame_ok got (Frame fin op key p) \<Longrightarrow> length key = 4 \<and> length p \<le> Q_WS_MAX_MSG"
  by (auto split: if_splits option.splits)

lemma pump_frames:
  assumes "acc_rel got c" "ws_conforms got fs" "\<forall>i. good_ask (asks i)"
  shows "\<exists>c'. ws_pump asks (concat (map frame_bytes fs)) c w = (True, [], c', w\<lparr>ww_log := ww_log w @ ws_delivers got fs\<rparr>)"
  using assms
proof (induction fs arbitrary: got c asks w)
  case Nil
  then show ?case by (subst ws_pump.simps) (simp add: acc_rel_def)
next
  case (Cons f fs)
  obtain fin op key p where f: "f = Frame fin op key p" by (cases f)
  let ?rest = "concat (map frame_bytes fs)" and ?got = "snd (frame_does got f)"
  let ?c1 = "c\<lparr>wc_h := frame_hdr fin op key p, wc_frames := (if op = OP_CONT then wc_frames c + 1 else wc_frames c)\<rparr>"
  have ok: "frame_ok got (Frame fin op key p)" using Cons.prems(2) by (simp add: f)
  obtain j where j: "ws_pump asks (frame_bytes (Frame fin op key p) @ ?rest) c w =
      (case ws_process (asks j) p ?c1 w of (want, c', w') \<Rightarrow>
         if want = 0 then (False, ?rest, c', w') else ws_pump (\<lambda>i. asks (Suc j + i)) ?rest c' w')"
    using pump_frame [OF _ _ _ _ _ frame_accepted [OF Cons.prems(1) ok]] frame_len [OF ok] Cons.prems(1) unfolding acc_rel_def by blast
  obtain c' where c': "ws_process (asks j) p ?c1 w = (2, c', w\<lparr>ww_log := ww_log w @ fst (frame_does got f)\<rparr>)" "acc_rel ?got c'"
    using frame_processed [OF Cons.prems(1) ok _ refl, of "asks j" w] Cons.prems(3) by (auto simp: f)
  obtain c'' where "ws_pump (\<lambda>i. asks (Suc j + i)) ?rest c' (w\<lparr>ww_log := ww_log w @ fst (frame_does got f)\<rparr>) =
      (True, [], c'', w\<lparr>ww_log := (ww_log w @ fst (frame_does got f)) @ ws_delivers ?got fs\<rparr>)"
    using Cons.IH [OF c'(2), of "\<lambda>i. asks (Suc j + i)" "w\<lparr>ww_log := ww_log w @ fst (frame_does got f)\<rparr>"] Cons.prems(2,3) by auto
  then show ?case using j c'(1) by (simp add: f del: frame_bytes.simps frame_does.simps)
qed

text \<open>An outside world where nothing fails.\<close>

definition calm :: ws_ask where
  "calm = \<lparr>ask_hook = True, ask_seed = 7, ask_mem_frame = True, ask_mem_msg = True, ask_mem_arg = True, ask_send_hdr = True, ask_send_body = True\<rparr>"

lemma fresh_rel: "acc_rel None (q_ws_conn_new_role False)"
  by (simp add: acc_rel_def q_ws_conn_new_role_def)

section \<open>From a client to a server\<close>

text \<open>What a value is sent as: text or binary, and its bytes.\<close>

definition ws_payload :: "qtext \<Rightarrow> (bool \<times> bytes) option" where
  "ws_payload x =
    (case q_str_text_bytes x of
       Some p \<Rightarrow> Some (True, p)
     | None \<Rightarrow> (case x of QByteVec p \<Rightarrow> Some (False, p) | _ \<Rightarrow> None))"

definition sent_bytes :: "ws_event list \<Rightarrow> bytes" where
  "sent_bytes es = concat (map (\<lambda>e. case e of Sent b \<Rightarrow> b | Handler _ _ \<Rightarrow> []) es)"

lemma send_payload: "ws_payload x = Some (text, p) \<Longrightarrow> q_ws_send ask c (Some x) w =
    (let (ok, w) = ws_frame_send ask (if text then OP_TEXT else OP_BIN) p (wc_client c) w in (if ok then 0 else - 1, w))"
  by (auto simp: ws_payload_def q_ws_send_def split: option.splits qtext.splits)

lemma key_length [simp]: "length (key_bytes k) = 4"
  by (simp add: key_bytes_def)

lemma send_masked:
  assumes "good_ask ask" "ask_mem_frame ask"
  shows "\<exists>w'. ws_frame_send ask op p True w = (True, w') \<and>
    (\<exists>k. sent_bytes (ww_log w') = sent_bytes (ww_log w) @ frame_bytes (Frame True op (key_bytes k) p))"
proof -
  obtain k rng where k: "ws_mask_next (ask_seed ask) (ww_rng w) = (k, rng)" by (cases "ws_mask_next (ask_seed ask) (ww_rng w)")
  have "q_ws_mask_apply p (key_bytes k) 0 = [] \<longleftrightarrow> p = []" by (metis mask_length length_0_conv)
  then show ?thesis using assms
    by (auto simp: ws_frame_send_def k Let_def send_frame_def good_ask_def log_event_def sent_bytes_def masked_hdr_def intro!: exI [of _ k])
qed

lemma close_sent:
  "good_ask ask \<Longrightarrow> code \<noteq> 0 \<Longrightarrow>
    ws_close_send ask code False w = w\<lparr>ww_log := ww_log w @ [Sent [136, 2], Sent [ucast (drop_bit 8 code), ucast code]]\<rparr>"
  by (simp add: ws_close_send_def ws_frame_send_def send_frame_def good_ask_def log_event_def q_ws_hdr_encode_def)

text \<open>One whole message that a fresh server refuses.\<close>

lemma pump_too_long:
  assumes "length key = 4" "Q_WS_MAX_MSG < length p" "length p < 2 ^ 63" "\<forall>i. good_ask (asks i)"
  shows "\<exists>rest c'. ws_pump asks (frame_bytes (Frame True (if text then OP_TEXT else OP_BIN) key p)) (q_ws_conn_new_role False) w =
    (False, rest, c', w\<lparr>ww_log := ww_log w @ [Sent [136, 2], Sent [3, 241]]\<rparr>)"
proof -
  let ?c = "q_ws_conn_new_role False" and ?op = "if text then OP_TEXT else OP_BIN"
  have "unat (of_nat (length p) :: u64) = length p" using assms(3) by (simp add: unat_of_nat)
  then have "hdr_check (?c\<lparr>wc_h := frame_hdr True ?op key p\<rparr>) = Inl 1009"
    using assms(2) by (simp add: hdr_check_def Let_def q_ws_conn_new_role_def word_le_nat_alt)
  from pump_refused [OF _ _ _ assms(1,3) this, of asks w] obtain rest c' where
    "ws_pump asks (frame_bytes (Frame True ?op key p)) ?c w = (False, rest, c', ws_close_send (asks 1) 1009 False w)"
    by (auto simp: q_ws_conn_new_role_def)
  with close_sent [of "asks 1" 1009 w] assms(4) show ?thesis by auto
qed

lemma pump_bad_text:
  assumes "length key = 4" "length p \<le> Q_WS_MAX_MSG" "\<not> q_ws_utf8_ok p" "\<forall>i. good_ask (asks i)"
  shows "\<exists>rest c'. ws_pump asks (frame_bytes (Frame True OP_TEXT key p)) (q_ws_conn_new_role False) w =
    (False, rest, c', w\<lparr>ww_log := ww_log w @ [Sent [136, 2], Sent [3, 239]]\<rparr>)"
proof -
  let ?c = "q_ws_conn_new_role False"
  have "unat (of_nat (length p) :: u64) = length p" using assms(2) by (simp add: unat_of_nat)
  then have "hdr_check (?c\<lparr>wc_h := frame_hdr True OP_TEXT key p\<rparr>) = Inr (?c\<lparr>wc_h := frame_hdr True OP_TEXT key p\<rparr>)"
    using assms(2) by (simp add: hdr_check_def Let_def q_ws_conn_new_role_def word_le_nat_alt)
  from pump_frame [OF _ _ _ assms(1,2) this, of asks "[]" w] obtain j where
    j: "ws_pump asks (frame_bytes (Frame True OP_TEXT key p)) ?c w =
      (case ws_process (asks j) p (?c\<lparr>wc_h := frame_hdr True OP_TEXT key p\<rparr>) w of (want, c', w') \<Rightarrow>
         if want = 0 then (False, [], c', w') else ws_pump (\<lambda>i. asks (Suc j + i)) [] c' w')"
    by (auto simp: q_ws_conn_new_role_def simp del: frame_bytes.simps)
  have "\<exists>c'. ws_process (asks j) p (?c\<lparr>wc_h := frame_hdr True OP_TEXT key p\<rparr>) w = (0, c', ws_close_send (asks j) 1007 False w)"
    using assms(3) by (simp add: ws_process_def Let_def q_ws_conn_new_role_def)
  with j close_sent [of "asks j" 1007 w] assms(4) show ?thesis by auto
qed

section \<open>Properties\<close>

text \<open>
  C26. In every state a connection can reach by being fed what it asked for, the next read is at least one byte and at
  most the largest message, the header never outgrows its 14 bytes, the accumulator never outgrows the largest message
  or its own capacity, and a message never has more fragments than the limit.
\<close>

theorem ws_reachable_bounds:
  assumes "ws_reach c"
  shows "0 < wc_want c \<and> wc_want c \<le> Q_WS_MAX_MSG \<and>
    (wc_st c \<noteq> WS_PAYLOAD \<longrightarrow> length (wc_hbuf c) + wc_want c \<le> 14) \<and>
    length (wc_msg c) \<le> wc_cap c \<and> length (wc_msg c) \<le> Q_WS_MAX_MSG \<and> wc_cap c \<le> 2 * Q_WS_MAX_MSG \<and>
    wc_frames c \<le> Q_WS_MAX_FRAGS"
proof -
  have i: "ws_inv c" by (rule reach_inv [OF assms])
  then have "acc_ok c" by (simp add: ws_inv_def)
  moreover have "0 < wc_want c \<and> wc_want c \<le> Q_WS_MAX_MSG \<and> (wc_st c \<noteq> WS_PAYLOAD \<longrightarrow> length (wc_hbuf c) + wc_want c \<le> 14)"
    using i full_bounds(2) [of "wc_hbuf c ! 1"] by (auto simp: ws_inv_def split: ws_state.splits if_splits)
  ultimately show ?thesis by (simp add: acc_ok_def)
qed

theorem ws_reachable_bounds_witness:
  "0 < wc_want ((q_ws_conn_new_role False)\<lparr>wc_hbuf := [129, 133], wc_st := WS_HDREXT, wc_want := 4\<rparr>)"
proof -
  have f: "q_ws_feed calm [129, 133] (q_ws_conn_new_role False) \<lparr>ww_rng = 0, ww_log = []\<rparr> =
      (4, (q_ws_conn_new_role False)\<lparr>wc_hbuf := [129, 133], wc_st := WS_HDREXT, wc_want := 4\<rparr>, \<lparr>ww_rng = 0, ww_log = []\<rparr>)"
    by code_simp
  show ?thesis using ws_reachable_bounds [OF ws_reach.fed [OF ws_reach.opened _ f]] by (simp add: q_ws_conn_new_role_def)
qed

text \<open>
  C27. A stream of frames that follows the protocol is consumed to its last byte and delivers exactly what the abstract
  receiver says: every ping is answered, every message, whole or in fragments with control frames between them, reaches
  the handler once and in order.
\<close>

theorem ws_stream_delivered:
  assumes "ws_conforms None fs" "\<forall>i. good_ask (asks i)"
  shows "\<exists>c'. ws_pump asks (concat (map frame_bytes fs)) (q_ws_conn_new_role False) w =
    (True, [], c', w\<lparr>ww_log := ww_log w @ ws_delivers None fs\<rparr>)"
  by (rule pump_frames [OF fresh_rel assms])

theorem ws_stream_delivered_witness:
  "\<exists>c'. ws_pump (\<lambda>_. calm)
      (concat (map frame_bytes [Frame False OP_BIN [1, 2, 3, 4] [10], Frame True OP_PING [1, 2, 3, 4] [], Frame True OP_CONT [5, 6, 7, 8] [11]]))
      (q_ws_conn_new_role False) \<lparr>ww_rng = 0, ww_log = []\<rparr> =
    (True, [], c', \<lparr>ww_rng = 0, ww_log = [Sent [138, 0], Handler False [10, 11]]\<rparr>)"
  using ws_stream_delivered [of "[Frame False OP_BIN [1, 2, 3, 4] [10], Frame True OP_PING [1, 2, 3, 4] [], Frame True OP_CONT [5, 6, 7, 8] [11]]"
      "\<lambda>_. calm" "\<lparr>ww_rng = 0, ww_log = []\<rparr>"]
  by (simp add: calm_def good_ask_def pong_events_def q_ws_hdr_encode_def del: frame_bytes.simps)

text \<open>
  C28. What a client sends arrives, or is refused. Text or bytes given to the send of a client connection leave as one
  masked frame, whatever they are. A fresh server connection hands the same message to its handler, text as text and
  bytes as bytes, when it is no longer than the largest message and text is valid UTF-8. The send does not check this:
  the server answers a longer message with a close frame 1009 and text that is not UTF-8 with a close frame 1007, and
  closes without calling its handler. (Allocations and sends succeed, the handler is set.)
\<close>

theorem ws_send_arrives:
  assumes "ws_payload x = Some (text, p)" "length p < 2 ^ 63"
    and "good_ask ask" "ask_mem_frame ask" "\<forall>i. good_ask (asks i)"
  shows "\<exists>w1 rest c'. q_ws_send ask (q_ws_conn_new_role True) (Some x) \<lparr>ww_rng = rng, ww_log = []\<rparr> = (0, w1) \<and>
    ws_pump asks (sent_bytes (ww_log w1)) (q_ws_conn_new_role False) w =
      (if length p > Q_WS_MAX_MSG then (False, rest, c', w\<lparr>ww_log := ww_log w @ [Sent [136, 2], Sent [3, 241]]\<rparr>)
       else if text \<and> \<not> q_ws_utf8_ok p then (False, rest, c', w\<lparr>ww_log := ww_log w @ [Sent [136, 2], Sent [3, 239]]\<rparr>)
       else (True, [], c', w\<lparr>ww_log := ww_log w @ [Handler text p]\<rparr>))"
proof -
  let ?op = "if text then OP_TEXT else OP_BIN" and ?f = "\<lambda>k. Frame True (if text then OP_TEXT else OP_BIN) (key_bytes k) p"
  obtain w1 k where w1: "ws_frame_send ask ?op p True \<lparr>ww_rng = rng, ww_log = []\<rparr> = (True, w1)"
      "sent_bytes (ww_log w1) = frame_bytes (?f k)"
    using send_masked [OF assms(3,4), of ?op p "\<lparr>ww_rng = rng, ww_log = []\<rparr>"] by (auto simp: sent_bytes_def)
  have sent: "q_ws_send ask (q_ws_conn_new_role True) (Some x) \<lparr>ww_rng = rng, ww_log = []\<rparr> = (0, w1)"
    using send_payload [OF assms(1)] w1(1) by (simp add: q_ws_conn_new_role_def)
  consider (long) "length p > Q_WS_MAX_MSG" | (bad) "length p \<le> Q_WS_MAX_MSG" "text" "\<not> q_ws_utf8_ok p"
    | (good) "length p \<le> Q_WS_MAX_MSG" "\<not> (text \<and> \<not> q_ws_utf8_ok p)" by force
  then show ?thesis
  proof cases
    case long
    then show ?thesis using pump_too_long [OF key_length long assms(2,5), of "text" k w] sent
      by (auto simp: w1(2) simp del: frame_bytes.simps)
  next
    case bad
    then show ?thesis using pump_bad_text [OF key_length bad(1,3) assms(5), of k w] sent
      by (auto simp: w1(2) simp del: frame_bytes.simps)
  next
    case good
    then have "ws_conforms None [?f k]" by simp
    then obtain c' where "ws_pump asks (frame_bytes (?f k)) (q_ws_conn_new_role False) w =
        (True, [], c', w\<lparr>ww_log := ww_log w @ ws_delivers None [?f k]\<rparr>)"
      using pump_frames [OF fresh_rel _ assms(5), of "[?f k]" w] by (auto simp del: frame_bytes.simps)
    moreover have "ws_delivers None [?f k] = [Handler text p]" by simp
    ultimately show ?thesis using sent good by (auto simp: w1(2) simp del: frame_bytes.simps)
  qed
qed

theorem ws_send_arrives_witness:
  "\<exists>w1 rest c'. q_ws_send calm (q_ws_conn_new_role True) (Some (QByteVec [1, 255])) \<lparr>ww_rng = 5, ww_log = []\<rparr> = (0, w1) \<and>
    ws_pump (\<lambda>_. calm) (sent_bytes (ww_log w1)) (q_ws_conn_new_role False) \<lparr>ww_rng = 0, ww_log = []\<rparr> =
      (True, [], c', \<lparr>ww_rng = 0, ww_log = [Handler False [1, 255]]\<rparr>)"
  using ws_send_arrives [of "QByteVec [1, 255]" False "[1, 255]" calm "\<lambda>_. calm" 5 "\<lparr>ww_rng = 0, ww_log = []\<rparr>"]
  by (simp add: ws_payload_def calm_def good_ask_def)

end
