(* ===== verification/Url.thy ===== *)
theory Url
  imports Prelude
begin

text \<open>
  The URLs of the HTTP client, \<^verbatim>\<open>src/qlang/net/q_http_client.c\<close>: the parser, and the resolution of a redirect's
  \<open>Location\<close> against the URL that answered it. A character array with its terminator is the list of the characters
  before it; the sizes of the arrays are checked as the code checks them.

  Shown: what the parser returns is well formed and within its arrays, and printing it as a URL parses back to it,
  so that a parsed URL is a canonical form of its text.
\<close>

record q_http_url =
  hu_scheme :: bool
  hu_host :: bytes
  hu_port :: u16
  hu_path :: bytes
  hu_userinfo :: bytes

abbreviation COLON :: u8 where "COLON \<equiv> 58"
abbreviation SLASH :: u8 where "SLASH \<equiv> 47"
abbreviation QUEST :: u8 where "QUEST \<equiv> 63"
abbreviation HASH :: u8 where "HASH \<equiv> 35"
abbreviation AT :: u8 where "AT \<equiv> 64"
abbreviation LBRACK :: u8 where "LBRACK \<equiv> 91"

definition ctl :: "u8 \<Rightarrow> bool" where
  "ctl c \<longleftrightarrow> c < 32 \<or> c = 127"

definition scan_ok :: "bytes \<Rightarrow> bool" where
  "scan_ok p \<longleftrightarrow> list_all (\<lambda>c. \<not> ctl c) p"

text \<open>The scheme, true for https, and the length of its prefix.\<close>

definition scheme_of :: "bytes \<Rightarrow> (bool \<times> nat) option" where
  "scheme_of s =
    (if length s \<ge> 7 \<and> take 7 s = lit ''http://'' then Some (False, 7)
     else if length s \<ge> 8 \<and> take 8 s = lit ''https://'' then Some (True, 8)
     else None)"

definition auth_end :: "u8 \<Rightarrow> bool" where
  "auth_end c \<longleftrightarrow> c = SLASH \<or> c = QUEST \<or> c = HASH"

fun url_port :: "nat \<Rightarrow> bytes \<Rightarrow> nat option" where
  "url_port port [] = Some port"
| "url_port port (c # cs) =
    (if \<not> is_digit c then None
     else if port * 10 + (unat c - 48) > 65535 then None
     else url_port (port * 10 + (unat c - 48)) cs)"

text \<open>The host and the port, if there is one, of \<open>host[:port]\<close>.\<close>

definition url_hostport :: "bytes \<Rightarrow> u16 \<Rightarrow> (bytes \<times> u16) option" where
  "url_hostport hp dflt =
    (let colon = length (takeWhile (\<lambda>c. c \<noteq> COLON) hp)
     in if colon = 0 \<or> colon \<ge> 256 then None
        else if colon < length hp
        then (if colon + 1 \<ge> length hp then None
              else map_option (\<lambda>p. (take colon hp, of_nat p)) (url_port 0 (drop (colon + 1) hp)))
        else Some (take colon hp, dflt))"

definition url_path :: "bytes \<Rightarrow> bytes option" where
  "url_path rest =
    (let p = takeWhile (\<lambda>c. c \<noteq> HASH) rest
     in if p = [] then Some [SLASH]
        else (let off = (if rest ! 0 \<noteq> SLASH then [SLASH] else [])
              in if length p + length off \<ge> 1024 then None else Some (off @ p)))"

text \<open>The optional \<open>user:pass@\<close> of an authority, and what follows it.\<close>

definition url_user :: "bytes \<Rightarrow> (bytes \<times> bytes) option" where
  "url_user auth =
    (let at = length (takeWhile (\<lambda>c. c \<noteq> AT) auth)
     in if at < length auth
        then (if at \<ge> 256 then None else Some (take at auth, drop (at + 1) auth))
        else Some ([], auth))"

definition q_http_client_url_parse :: "bytes \<Rightarrow> q_http_url option" where
  "q_http_client_url_parse url =
    (let url = (if url \<noteq> [] \<and> url ! 0 = COLON then drop 1 url else url)
     in if \<not> scan_ok url then None
        else (case scheme_of url of
                None \<Rightarrow> None
              | Some (sch, pfx) \<Rightarrow>
                  (let url = drop pfx url;
                       auth = takeWhile (\<lambda>c. \<not> auth_end c) url;
                       rest = drop (length auth) url
                   in case url_user auth of
                        None \<Rightarrow> None
                      | Some (user, hp) \<Rightarrow>
                          if hp \<noteq> [] \<and> hp ! 0 = LBRACK then None
                          else (case url_hostport hp (if sch then 443 else 80) of
                                  None \<Rightarrow> None
                                | Some (host, port) \<Rightarrow>
                                    map_option (\<lambda>path. \<lparr>hu_scheme = sch, hu_host = host, hu_port = port, hu_path = path, hu_userinfo = user\<rparr>)
                                      (url_path rest)))))"

section \<open>Redirects\<close>

abbreviation blank :: "u8 \<Rightarrow> bool" where "blank c \<equiv> c = 32 \<or> c = 9"

definition ows_trim :: "bytes \<Rightarrow> bytes" where
  "ows_trim s = rev (dropWhile blank (rev (dropWhile blank s)))"

definition scheme_text :: "bool \<Rightarrow> bytes" where
  "scheme_text sch = (if sch then lit ''https:'' else lit ''http:'')"

definition origin_text :: "q_http_url \<Rightarrow> bytes" where
  "origin_text u = scheme_text (hu_scheme u) @ [SLASH, SLASH] @ hu_host u @ [COLON] @ dec_text (unat (hu_port u))"

text \<open>How much of the current path a relative reference keeps.\<close>

definition kept_path :: "bytes \<Rightarrow> bytes \<Rightarrow> bytes" where
  "kept_path path loc =
    (let q = takeWhile (\<lambda>c. c \<noteq> QUEST) path
     in if loc ! 0 = QUEST then q
        else if loc ! 0 = HASH then path
        else rev (dropWhile (\<lambda>c. c \<noteq> SLASH) (rev q)))"

definition redirect_resolve :: "q_http_url \<Rightarrow> bytes \<Rightarrow> q_http_url option" where
  "redirect_resolve cur loc =
    (let loc = ows_trim loc
     in if loc = [] \<or> loc ! 0 = COLON then None
        else if scheme_of loc \<noteq> None then q_http_client_url_parse loc
        else if COLON \<in> set (takeWhile (\<lambda>c. \<not> auth_end c) loc) then None
        else (let buf = (if length loc \<ge> 2 \<and> loc ! 0 = SLASH \<and> loc ! 1 = SLASH then scheme_text (hu_scheme cur) @ loc
                         else if loc ! 0 = SLASH then origin_text cur @ loc
                         else origin_text cur @ kept_path (hu_path cur) loc @ loc)
              in if length buf \<ge> 2560 then None else q_http_client_url_parse buf))"

section \<open>The canonical text of a URL\<close>

definition url_ok :: "q_http_url \<Rightarrow> bool" where
  "url_ok u \<longleftrightarrow>
    hu_host u \<noteq> [] \<and> length (hu_host u) < 256 \<and> hd (hu_host u) \<noteq> LBRACK \<and>
    list_all (\<lambda>c. \<not> ctl c \<and> \<not> auth_end c \<and> c \<noteq> COLON) (hu_host u) \<and>
    length (hu_userinfo u) < 256 \<and> list_all (\<lambda>c. \<not> ctl c \<and> \<not> auth_end c \<and> c \<noteq> AT) (hu_userinfo u) \<and>
    hu_path u \<noteq> [] \<and> hd (hu_path u) = SLASH \<and> length (hu_path u) < 1024 \<and> list_all (\<lambda>c. \<not> ctl c \<and> c \<noteq> HASH) (hu_path u)"

definition url_text :: "q_http_url \<Rightarrow> bytes" where
  "url_text u = scheme_text (hu_scheme u) @ [SLASH, SLASH] @ (hu_userinfo u @ [AT] @ hu_host u @ [COLON] @ dec_text (unat (hu_port u))) @ hu_path u"

lemma port_digits: "\<forall>c\<in>set ds. is_digit c \<Longrightarrow> dec_val ds \<le> 65535 \<Longrightarrow> url_port 0 ds = Some (dec_val ds)"
proof -
  have "url_port n cs = Some (dec_val (ds @ cs))" if "\<forall>c\<in>set cs. is_digit c" "dec_val (ds @ cs) \<le> 65535" "n = dec_val ds" for n cs ds
    using that
  proof (induction cs arbitrary: n ds)
    case (Cons c cs)
    have "dec_val (ds @ [c]) * 10 ^ length cs + dec_val cs = dec_val (ds @ c # cs)" using dec_val_append [of "ds @ [c]" cs] by simp
    moreover have "dec_val (ds @ [c]) \<le> dec_val (ds @ [c]) * 10 ^ length cs" by simp
    ultimately have "n * 10 + (unat c - 48) \<le> 65535" using Cons.prems by (simp only: dec_val_snoc)
    then show ?case using Cons.IH [of "ds @ [c]" "n * 10 + (unat c - 48)"] Cons.prems by simp
  qed simp
  from this [of ds "[]" 0] show "\<forall>c\<in>set ds. is_digit c \<Longrightarrow> dec_val ds \<le> 65535 \<Longrightarrow> url_port 0 ds = Some (dec_val ds)" by simp
qed

lemma take_until: "\<forall>c\<in>set xs. P c \<Longrightarrow> \<not> P y \<Longrightarrow> takeWhile P (xs @ y # ys) = xs"
  by (simp add: takeWhile_append2)

lemma digit_plain: "is_digit c \<Longrightarrow> \<not> ctl c \<and> \<not> auth_end c \<and> c \<noteq> COLON \<and> c \<noteq> AT"
  by (auto simp: is_digit_def ctl_def auth_end_def word_le_nat_alt word_less_nat_alt)

lemma scheme_text_of: "scheme_of (scheme_text sch @ [SLASH, SLASH] @ r) = Some (sch, length (scheme_text sch) + 2)"
  by (simp add: scheme_of_def scheme_text_def lit_def)

lemma scheme_text_plain: "scan_ok (scheme_text sch @ [SLASH, SLASH] @ r) = scan_ok r" "scheme_text sch @ r \<noteq> []" "(scheme_text sch @ r) ! 0 \<noteq> COLON"
  by (simp_all add: scan_ok_def scheme_text_def lit_def ctl_def word_less_nat_alt)

lemma host_plain: "url_ok u \<Longrightarrow> c \<in> set (hu_host u @ [COLON] @ dec_text (unat (hu_port u))) \<Longrightarrow> \<not> ctl c \<and> \<not> auth_end c"
  using dec_text_digits digit_plain by (auto simp: url_ok_def list_all_iff ctl_def auth_end_def)

lemma parse_auth:
  assumes "url_ok u" and user: "url_user auth = Some (hu_userinfo u, hu_host u @ [COLON] @ dec_text (unat (hu_port u)))"
    and auth: "\<And>c. c \<in> set auth \<Longrightarrow> \<not> ctl c \<and> \<not> auth_end c"
  shows "q_http_client_url_parse (scheme_text (hu_scheme u) @ [SLASH, SLASH] @ auth @ hu_path u) = Some u"
proof -
  let ?hp = "hu_host u @ [COLON] @ dec_text (unat (hu_port u))" and ?port = "dec_text (unat (hu_port u))"
  note ok = assms(1) [unfolded url_ok_def list_all_iff]
  have pd: "\<forall>c\<in>set ?port. is_digit c" using dec_text_digits by blast
  have clean: "scan_ok (auth @ hu_path u)" using ok auth by (auto simp: scan_ok_def list_all_iff)
  have path: "hu_path u = SLASH # tl (hu_path u)" using ok by (metis list.collapse)
  have cut: "takeWhile (\<lambda>c. \<not> auth_end c) (auth @ hu_path u) = auth"
    using auth by (subst path, intro take_until) (auto simp: auth_end_def)
  have port: "url_port 0 ?port = Some (unat (hu_port u))"
    using port_digits [OF pd] unsigned_less [of "hu_port u", where ?'a = nat] by simp
  have host: "url_hostport ?hp d = Some (hu_host u, hu_port u)" for d
    using ok port take_until [of "hu_host u" "\<lambda>c. c \<noteq> COLON" COLON ?port] by (simp add: url_hostport_def)
  have brack: "?hp ! 0 \<noteq> LBRACK" using ok by (metis append_is_Nil_conv hd_append2 hd_conv_nth)
  have tw: "takeWhile (\<lambda>c. c \<noteq> HASH) (hu_path u) = hu_path u" using ok by (simp add: takeWhile_eq_all_conv)
  have "hu_path u ! 0 = SLASH" using path by (metis nth_Cons_0)
  then have p: "url_path (hu_path u) = Some (hu_path u)" using ok by (simp add: url_path_def tw)
  show ?thesis unfolding q_http_client_url_parse_def
    using scheme_text_plain [of "hu_scheme u"] clean scheme_text_of [of "hu_scheme u"] cut user host brack p
    by (simp add: Let_def)
qed

lemma parse_text:
  assumes "url_ok u"
  shows "q_http_client_url_parse (url_text u) = Some u"
proof -
  let ?hp = "hu_host u @ [COLON] @ dec_text (unat (hu_port u))"
  have "\<forall>c\<in>set (hu_userinfo u). c \<noteq> AT" "length (hu_userinfo u) < 256" using assms by (simp_all add: url_ok_def list_all_iff)
  then have "url_user (hu_userinfo u @ [AT] @ ?hp) = Some (hu_userinfo u, ?hp)"
    using take_until [of "hu_userinfo u" "\<lambda>c. c \<noteq> AT" AT ?hp] by (simp add: url_user_def)
  moreover have "\<not> ctl c \<and> \<not> auth_end c" if m: "c \<in> set (hu_userinfo u @ [AT] @ ?hp)" for c
  proof -
    consider "c \<in> set (hu_userinfo u)" | "c = AT" | "c \<in> set ?hp" using m by fastforce
    then show ?thesis
    proof cases
      case 1
      then show ?thesis using assms unfolding url_ok_def list_all_iff by blast
    next
      case 2
      then show ?thesis by (simp add: ctl_def auth_end_def)
    next
      case 3
      then show ?thesis by (rule host_plain [OF assms])
    qed
  qed
  ultimately show ?thesis unfolding url_text_def by (rule parse_auth [OF assms])
qed

text \<open>
  A \<open>Location\<close> that is an absolute path keeps the origin and drops the credentials, provided the host has no \<open>@\<close>
  (the parser ends the credentials at the first one, so that a host may have another).
\<close>

theorem redirect_keeps_origin:
  assumes "url_ok cur" "AT \<notin> set (hu_host cur)" "url_ok (cur\<lparr>hu_path := loc\<rparr>)" "loc ! 1 \<noteq> SLASH \<or> length loc < 2" "\<not> blank (last loc)"
  shows "redirect_resolve cur loc = Some (cur\<lparr>hu_path := loc, hu_userinfo := []\<rparr>)"
proof -
  let ?u = "cur\<lparr>hu_path := loc, hu_userinfo := []\<rparr>" and ?hp = "hu_host cur @ [COLON] @ dec_text (unat (hu_port cur))"
  have u: "url_ok ?u" using assms(3) by (simp add: url_ok_def)
  obtain r where loc: "loc = SLASH # r" using assms(3) by (cases loc) (auto simp: url_ok_def)
  have trim: "ows_trim loc = loc" using assms(5) by (simp add: ows_trim_def loc dropWhile_eq_self_iff) (metis hd_rev last.simps list.distinct(1) rev.simps(2))
  have "url_user ?hp = Some ([], ?hp)"
  proof -
    have "c \<noteq> AT" if "c \<in> set ?hp" for c using that assms(2) dec_text_digits digit_plain by auto
    then have "takeWhile (\<lambda>c. c \<noteq> AT) ?hp = ?hp" by (simp only: takeWhile_eq_all_conv) blast
    then show ?thesis by (simp only: url_user_def Let_def) simp
  qed
  then have p: "q_http_client_url_parse (origin_text cur @ loc) = Some ?u"
    using parse_auth [OF u, of ?hp] host_plain [OF assms(1)] by (simp add: origin_text_def)
  have "length (dec_text (unat (hu_port cur))) \<le> 5"
    using dec_text_length [of "unat (hu_port cur)" 5] unsigned_less [of "hu_port cur", where ?'a = nat] by simp
  then have "length (origin_text cur @ loc) < 2560" using assms(1) u by (simp add: origin_text_def url_ok_def scheme_text_def lit_def)
  moreover have "scheme_of loc = None" by (simp add: loc scheme_of_def lit_def)
  ultimately show ?thesis using p assms(4) by (auto simp: redirect_resolve_def Let_def trim [unfolded loc] loc auth_end_def)
qed

lemma take_drop_until: "s = takeWhile P s @ drop (length (takeWhile P s)) s"
  by (metis dropWhile_eq_drop takeWhile_dropWhile_id)

lemma after_until: "length (takeWhile P s) < length s \<Longrightarrow> \<not> P (drop (length (takeWhile P s)) s ! 0)"
  by (metis dropWhile_eq_drop hd_conv_nth hd_dropWhile length_drop list.size(3) zero_less_diff less_irrefl)

lemma path_ok:
  assumes "url_path rest = Some p" "list_all (\<lambda>c. \<not> ctl c) rest"
  shows "p \<noteq> [] \<and> hd p = SLASH \<and> length p < 1024 \<and> list_all (\<lambda>c. \<not> ctl c \<and> c \<noteq> HASH) p"
proof -
  have "list_all (\<lambda>c. \<not> ctl c \<and> c \<noteq> HASH) (takeWhile (\<lambda>c. c \<noteq> HASH) rest)"
    using assms(2) by (auto simp: list_all_iff dest: set_takeWhileD)
  moreover have "takeWhile (\<lambda>c. c \<noteq> HASH) rest \<noteq> [] \<Longrightarrow> hd (takeWhile (\<lambda>c. c \<noteq> HASH) rest) = rest ! 0"
    by (cases rest) auto
  ultimately show ?thesis using assms(1)
    by (auto simp: url_path_def Let_def ctl_def word_less_nat_alt split: if_splits)
qed

lemma host_ok:
  assumes "url_hostport hp d = Some (host, port)"
  shows "host \<noteq> [] \<and> length host < 256 \<and> hd host = hp ! 0 \<and> set host \<subseteq> set hp \<and> COLON \<notin> set host"
proof -
  let ?h = "takeWhile (\<lambda>c. c \<noteq> COLON) hp"
  have h: "host = ?h" "length ?h \<noteq> 0" "length ?h < 256"
    using assms by (auto simp: url_hostport_def Let_def takeWhile_eq_take [symmetric] split: if_splits)
  moreover have "hd ?h = hp ! 0" using h(2) by (cases hp) auto
  ultimately show ?thesis by (auto dest: set_takeWhileD)
qed

lemma user_ok:
  assumes "url_user auth = Some (user, hp)"
  shows "length user < 256 \<and> set user \<subseteq> set auth \<and> AT \<notin> set user \<and> set hp \<subseteq> set auth"
  using assms by (auto simp: url_user_def Let_def takeWhile_eq_take [symmetric] split: if_splits dest: set_takeWhileD in_set_dropD)

lemma parse_ok:
  assumes "q_http_client_url_parse url = Some u"
  shows "url_ok u"
proof -
  define s where "s = (if url \<noteq> [] \<and> url ! 0 = COLON then drop 1 url else url)"
  obtain sch pfx user hp host port path where
    a: "scan_ok s" "url_user (takeWhile (\<lambda>c. \<not> auth_end c) (drop pfx s)) = Some (user, hp)" "\<not> (hp \<noteq> [] \<and> hp ! 0 = LBRACK)"
      "url_hostport hp (if sch then 443 else 80) = Some (host, port)"
      "url_path (drop (length (takeWhile (\<lambda>c. \<not> auth_end c) (drop pfx s))) (drop pfx s)) = Some path"
      "u = \<lparr>hu_scheme = sch, hu_host = host, hu_port = port, hu_path = path, hu_userinfo = user\<rparr>"
    using assms unfolding q_http_client_url_parse_def Let_def s_def [symmetric]
    by (auto split: option.splits if_splits prod.splits)
  have "\<forall>c\<in>set s. \<not> ctl c" using a(1) by (simp add: scan_ok_def list_all_iff)
  then have clean: "\<forall>c\<in>set (takeWhile (\<lambda>c. \<not> auth_end c) (drop pfx s)). \<not> ctl c \<and> \<not> auth_end c"
      "list_all (\<lambda>c. \<not> ctl c) (drop (length (takeWhile (\<lambda>c. \<not> auth_end c) (drop pfx s))) (drop pfx s))"
    by (auto simp: list_all_iff dest: set_takeWhileD in_set_dropD)
  have "hp \<noteq> []" using host_ok [OF a(4)] by auto
  then show ?thesis using host_ok [OF a(4)] user_ok [OF a(2)] path_ok [OF a(5) clean(2)] clean(1) a(3)
    unfolding url_ok_def a(6) by (auto simp: list_all_iff)
qed

text \<open>
  C31. The parser is exact on well-formed URLs: what it returns is well formed, fits its arrays and has neither
  control characters (so no request can be injected) nor a fragment; and a record is well formed exactly when
  printing it as a URL parses back to it.
\<close>

theorem url_parse_canonical:
  "(q_http_client_url_parse url = Some u \<longrightarrow> url_ok u) \<and> (url_ok u \<longleftrightarrow> q_http_client_url_parse (url_text u) = Some u)"
  using parse_ok parse_text by blast

theorem url_parse_canonical_witness:
  "q_http_client_url_parse (lit '':http://u:p@h.org:81?x#y'') =
     Some \<lparr>hu_scheme = False, hu_host = lit ''h.org'', hu_port = 81, hu_path = lit ''/?x'', hu_userinfo = lit ''u:p''\<rparr> \<and>
   url_ok \<lparr>hu_scheme = False, hu_host = lit ''h.org'', hu_port = 81, hu_path = lit ''/?x'', hu_userinfo = lit ''u:p''\<rparr>"
proof
  show p: "q_http_client_url_parse (lit '':http://u:p@h.org:81?x#y'') =
     Some \<lparr>hu_scheme = False, hu_host = lit ''h.org'', hu_port = 81, hu_path = lit ''/?x'', hu_userinfo = lit ''u:p''\<rparr>"
    by (simp add: q_http_client_url_parse_def lit_def scan_ok_def ctl_def scheme_of_def auth_end_def url_user_def url_hostport_def
        is_digit_def url_path_def word_less_nat_alt)
  show "url_ok \<lparr>hu_scheme = False, hu_host = lit ''h.org'', hu_port = 81, hu_path = lit ''/?x'', hu_userinfo = lit ''u:p''\<rparr>"
    using url_parse_canonical p by blast
qed

end
