(* ===== verification/HttpParse.thy ===== *)
theory HttpParse
  imports Prelude
begin

text \<open>
  The HTTP parser the program vendors, \<^verbatim>\<open>third_party/picohttpparser/picohttpparser.c\<close>: request and status lines,
  tokens and header lines. The text that is left is a list of bytes; a parse ends in -1 (malformed), in -2 (cut
  off), or in a value and the text behind it. The vectorised scan skips only bytes the plain loop would accept, and
  the unrolled loop is the plain loop, so each loop is modelled byte by byte. All callers pass \<open>last_len = 0\<close>; the
  check for a complete message before the parse is therefore left out, and so is the reason phrase, which no caller
  reads.

  Shown: a request or response that is printed as lines parses back to its parts.
\<close>

section \<open>Tokens\<close>

type_synonym phr_header = "bytes option \<times> bytes"

definition token_char_map :: "nat list" where
  "token_char_map = replicate 32 0
    @ [0,1,0,1,1,1,1,1,0,0,1,1,0,1,1,0,1,1,1,1,1,1,1,1,1,1,0,0,0,0,0,0]
    @ [0,1,1,1,1,1,1,1,1,1,1,1,1,1,1,1,1,1,1,1,1,1,1,1,1,1,1,0,0,0,1,1]
    @ [1,1,1,1,1,1,1,1,1,1,1,1,1,1,1,1,1,1,1,1,1,1,1,1,1,1,1,0,1,0,1,0]
    @ replicate 128 0"

definition token_char :: "u8 \<Rightarrow> bool" where
  "token_char c \<longleftrightarrow> token_char_map ! unat c \<noteq> 0"

fun parse_token :: "u8 \<Rightarrow> bytes \<Rightarrow> int + bytes \<times> bytes" where
  "parse_token next_char [] = Inl (-2)"
| "parse_token next_char (c # buf) =
    (if c = next_char then Inr ([], c # buf)
     else if \<not> token_char c then Inl (-1)
     else map_sum id (apfst ((#) c)) (parse_token next_char buf))"

text \<open>\<open>ADVANCE_TOKEN\<close>: up to the next space.\<close>

fun advance_token :: "bytes \<Rightarrow> int + bytes \<times> bytes" where
  "advance_token [] = Inl (-2)"
| "advance_token (c # buf) =
    (if c = 32 then Inr ([], c # buf)
     else if c < 32 \<or> c = 127 then Inl (-1)
     else map_sum id (apfst ((#) c)) (advance_token buf))"

definition ctl_char :: "u8 \<Rightarrow> bool" where
  "ctl_char c \<longleftrightarrow> c < 32 \<and> c \<noteq> 9 \<or> c = 127"

fun get_token_to_eol :: "bytes \<Rightarrow> int + bytes \<times> bytes" where
  "get_token_to_eol [] = Inl (-2)"
| "get_token_to_eol (c # buf) =
    (if ctl_char c then
       (if c = 13 then (case buf of [] \<Rightarrow> Inl (-2) | d # buf' \<Rightarrow> if d = 10 then Inr ([], buf') else Inl (-1))
        else if c = 10 then Inr ([], buf)
        else Inl (-1))
     else map_sum id (apfst ((#) c)) (get_token_to_eol buf))"

text \<open>From a space to the byte behind it and all that follow.\<close>

definition skip_spaces :: "bytes \<Rightarrow> int + bytes" where
  "skip_spaces buf = (let b = dropWhile (\<lambda>c. c = 32) (drop 1 buf) in if b = [] then Inl (-2) else Inr b)"

definition blank :: "u8 \<Rightarrow> bool" where
  "blank c \<longleftrightarrow> c = 32 \<or> c = 9"

definition strip_right :: "bytes \<Rightarrow> bytes" where
  "strip_right v = rev (dropWhile blank (rev v))"

lemma map_sum_Inr: "map_sum id f s = Inr y \<longleftrightarrow> (\<exists>x. s = Inr x \<and> y = f x)"
  by (cases s) auto

lemma token_rest: "parse_token n buf = Inr (t, rest) \<Longrightarrow> buf = t @ rest \<and> rest \<noteq> []"
  by (induction buf arbitrary: t rest) (auto simp: map_sum_Inr split: if_splits)

lemma eol_shorter: "get_token_to_eol buf = Inr (t, rest) \<Longrightarrow> length rest < length buf"
proof (induction buf arbitrary: t rest)
  case (Cons c buf)
  show ?case
  proof (cases "ctl_char c")
    case True
    then show ?thesis using Cons.prems by (auto split: if_splits list.splits)
  next
    case False
    then obtain t' where "get_token_to_eol buf = Inr (t', rest)" using Cons.prems by (auto simp: map_sum_Inr)
    from Cons.IH [OF this] show ?thesis by simp
  qed
qed simp

section \<open>Header lines\<close>

definition parse_name :: "nat \<Rightarrow> bytes \<Rightarrow> int + bytes option \<times> bytes" where
  "parse_name num buf =
    (if \<not> (num \<noteq> 0 \<and> blank (hd buf))
     then (case parse_token 58 buf of
             Inl e \<Rightarrow> Inl e
           | Inr (name, buf) \<Rightarrow>
               if name = [] then Inl (-1)
               else (let b = dropWhile blank (drop 1 buf) in if b = [] then Inl (-2) else Inr (Some name, b)))
     else Inr (None, buf))"

lemma name_shorter: "parse_name num buf = Inr (n, rest) \<Longrightarrow> length rest \<le> length buf"
proof -
  have "length (dropWhile blank (drop 1 xs)) \<le> length ys + length xs" for xs ys :: bytes
    using length_dropWhile_le [of blank "drop 1 xs"] by simp
  then show "parse_name num buf = Inr (n, rest) \<Longrightarrow> length rest \<le> length buf"
    by (auto simp: parse_name_def Let_def dest!: token_rest split: if_splits sum.splits prod.splits)
qed

function parse_headers :: "nat \<Rightarrow> nat \<Rightarrow> bytes \<Rightarrow> int + phr_header list \<times> bytes" where
  "parse_headers max_headers num buf =
    (case buf of
       [] \<Rightarrow> Inl (-2)
     | c # r \<Rightarrow>
         if c = 13 then (case r of [] \<Rightarrow> Inl (-2) | d # r' \<Rightarrow> if d = 10 then Inr ([], r') else Inl (-1))
         else if c = 10 then Inr ([], r)
         else if num = max_headers then Inl (-1)
         else (case parse_name num buf of
                 Inl e \<Rightarrow> Inl e
               | Inr (name, buf1) \<Rightarrow>
                   (case get_token_to_eol buf1 of
                      Inl e \<Rightarrow> Inl e
                    | Inr (value, buf2) \<Rightarrow>
                        map_sum id (apfst ((#) (name, strip_right value))) (parse_headers max_headers (num + 1) buf2))))"
  by pat_completeness auto
termination
proof (relation "measure (\<lambda>(m, n, buf). length buf)")
  fix m num buf c r x e name buf1 z ev v buf2
  assume "parse_name num buf = Inr e" "(name, buf1) = e" "get_token_to_eol buf1 = Inr ev" "(v, buf2) = ev"
  then show "((m, num + 1, buf2), m, num, buf) \<in> measure (\<lambda>(m, n, buf). length buf)"
    using name_shorter [of num buf name buf1] eol_shorter [of buf1 v buf2] by auto
qed simp

declare parse_headers.simps [simp del]

section \<open>Requests and responses\<close>

definition parse_http_version :: "bytes \<Rightarrow> int + nat \<times> bytes" where
  "parse_http_version buf =
    (if length buf < 9 then Inl (-2)
     else if take 7 buf \<noteq> lit ''HTTP/1.'' then Inl (-1)
     else if buf ! 7 < 48 \<or> 57 < buf ! 7 then Inl (-1)
     else Inr (unat (buf ! 7) - 48, drop 8 buf))"

text \<open>A request: method, target, minor version, headers and the text behind it.\<close>

definition parse_request :: "nat \<Rightarrow> bytes \<Rightarrow> int + bytes \<times> bytes \<times> nat \<times> phr_header list \<times> bytes" where
  "parse_request max_headers buf0 =
    (let after_blank_line =
       (case buf0 of
          [] \<Rightarrow> Inl (-2)
        | c # r \<Rightarrow>
            if c = 13 then (case r of [] \<Rightarrow> Inl (-2) | d # r' \<Rightarrow> if d = 10 then Inr r' else Inl (-1))
            else if c = 10 then Inr r else Inr buf0)
     in case after_blank_line of
          Inl e \<Rightarrow> Inl e
        | Inr buf \<Rightarrow>
     (case parse_token 32 buf of
        Inl e \<Rightarrow> Inl e
      | Inr (method, buf) \<Rightarrow>
     (case skip_spaces buf of
        Inl e \<Rightarrow> Inl e
      | Inr buf \<Rightarrow>
     (case advance_token buf of
        Inl e \<Rightarrow> Inl e
      | Inr (path, buf) \<Rightarrow>
     (case skip_spaces buf of
        Inl e \<Rightarrow> Inl e
      | Inr buf \<Rightarrow>
          if method = [] \<or> path = [] then Inl (-1)
          else
     (case parse_http_version buf of
        Inl e \<Rightarrow> Inl e
      | Inr (minor, buf) \<Rightarrow>
          if hd buf = 13 \<and> tl buf = [] then Inl (-2)
          else if hd buf = 13 \<and> hd (tl buf) \<noteq> 10 then Inl (-1)
          else if hd buf \<noteq> 13 \<and> hd buf \<noteq> 10 then Inl (-1)
          else map_sum id (\<lambda>(hs, rest). (method, path, minor, hs, rest))
                 (parse_headers max_headers 0 (if hd buf = 13 then drop 2 buf else tl buf))))))))"

text \<open>A response: minor version, status, headers and the text behind it.\<close>

definition parse_int_3 :: "bytes \<Rightarrow> int + nat" where
  "parse_int_3 ds = (if list_all (\<lambda>c. 48 \<le> c \<and> c \<le> 57) ds then Inr (foldl (\<lambda>n c. 10 * n + (unat c - 48)) 0 ds) else Inl (-1))"

definition parse_response :: "nat \<Rightarrow> bytes \<Rightarrow> int + nat \<times> nat \<times> phr_header list \<times> bytes" where
  "parse_response max_headers buf =
    (case parse_http_version buf of
       Inl e \<Rightarrow> Inl e
     | Inr (minor, buf) \<Rightarrow>
         if hd buf \<noteq> 32 then Inl (-1)
         else
    (case skip_spaces buf of
       Inl e \<Rightarrow> Inl e
     | Inr buf \<Rightarrow>
         if length buf < 4 then Inl (-2)
         else
    (case parse_int_3 (take 3 buf) of
       Inl e \<Rightarrow> Inl e
     | Inr status \<Rightarrow>
    (case get_token_to_eol (drop 3 buf) of
       Inl e \<Rightarrow> Inl e
     | Inr (msg, buf) \<Rightarrow>
         if msg \<noteq> [] \<and> hd msg \<noteq> 32 then Inl (-1)
         else map_sum id (\<lambda>(hs, rest). (minor, status, hs, rest)) (parse_headers max_headers 0 buf)))))"

text \<open>The entry points, with the length of the array of headers; the number of bytes consumed comes last.\<close>

definition phr_parse_request :: "nat \<Rightarrow> bytes \<Rightarrow> int + bytes \<times> bytes \<times> nat \<times> phr_header list \<times> nat" where
  "phr_parse_request max_headers buf =
    map_sum id (\<lambda>(m, p, v, hs, rest). (m, p, v, hs, length buf - length rest)) (parse_request max_headers buf)"

definition phr_parse_response :: "nat \<Rightarrow> bytes \<Rightarrow> int + nat \<times> nat \<times> phr_header list \<times> nat" where
  "phr_parse_response max_headers buf =
    map_sum id (\<lambda>(v, st, hs, rest). (v, st, hs, length buf - length rest)) (parse_response max_headers buf)"

section \<open>Printed lines parse back\<close>

definition CRLF :: bytes where
  "CRLF = [13, 10]"

definition hdr_lines :: "phr_header list \<Rightarrow> bytes" where
  "hdr_lines hs = concat (map (\<lambda>(n, v). (case n of None \<Rightarrow> [] | Some m \<Rightarrow> m) @ lit '': '' @ v @ CRLF) hs)"

text \<open>Headers that survive: a name that is a token, a value without control characters or outer blanks.\<close>

definition hdr_ok :: "phr_header \<Rightarrow> bool" where
  "hdr_ok h \<longleftrightarrow>
    (case fst h of None \<Rightarrow> False | Some n \<Rightarrow> n \<noteq> [] \<and> list_all token_char n) \<and>
    list_all (\<lambda>c. \<not> ctl_char c) (snd h) \<and> (snd h = [] \<or> \<not> blank (hd (snd h)) \<and> \<not> blank (last (snd h)))"

lemma token_stops:
  assumes "list_all token_char t" "\<not> token_char n"
  shows "parse_token n (t @ n # rest) = Inr (t, n # rest)"
  using assms(1)
proof (induction t)
  case (Cons c t)
  then have "c \<noteq> n" using assms(2) by auto
  with Cons show ?case by simp
qed simp

lemma advance_stops: "list_all (\<lambda>c. 32 < c \<and> c \<noteq> 127) t \<Longrightarrow> advance_token (t @ 32 # rest) = Inr (t, 32 # rest)"
  by (induction t) auto

lemma eol_stops: "list_all (\<lambda>c. \<not> ctl_char c) v \<Longrightarrow> get_token_to_eol (v @ CRLF @ rest) = Inr (v, rest)"
  by (induction v) (auto simp: CRLF_def ctl_char_def)

lemma token_not: "\<not> token_char 58" "\<not> token_char 32" "\<not> token_char 9" "\<not> token_char 13" "\<not> token_char 10"
  by code_simp+

lemma strip_right_id: "v = [] \<or> \<not> blank (last v) \<Longrightarrow> strip_right v = v"
  by (cases v rule: rev_cases) (auto simp: strip_right_def)

lemma parse_name_line:
  assumes "n \<noteq> []" "list_all token_char n" "v = [] \<or> \<not> blank (hd v)"
  shows "parse_name num (n @ lit '': '' @ v @ CRLF @ rest) = Inr (Some n, v @ CRLF @ rest)"
proof -
  define w where "w = v @ CRLF @ rest"
  have line: "n @ lit '': '' @ v @ CRLF @ rest = n @ 58 # 32 # w" by (simp add: lit_def w_def)
  have tok: "parse_token 58 (n @ 58 # 32 # w) = Inr (n, 58 # 32 # w)" by (rule token_stops [OF assms(2) token_not(1)])
  have dw: "dropWhile blank (drop 1 (58 # 32 # w)) = w" and w: "w \<noteq> []"
    using assms(3) by (cases v; auto simp: blank_def CRLF_def w_def)+
  have "\<not> blank (hd (n @ 58 # 32 # w))" using assms(1,2) token_not by (cases n) (auto simp: blank_def)
  then show ?thesis
    unfolding line parse_name_def tok sum.case prod.case Let_def dw using assms(1) w by (simp add: w_def)
qed

lemma parse_headers_lines:
  "list_all hdr_ok hs \<Longrightarrow> num + length hs \<le> m \<Longrightarrow> parse_headers m num (hdr_lines hs @ CRLF @ rest) = Inr (hs, rest)"
proof (induction hs arbitrary: num)
  case Nil
  then show ?case by (subst parse_headers.simps) (simp add: hdr_lines_def CRLF_def)
next
  case (Cons h hs)
  obtain n v where h: "h = (Some n, v)" "n \<noteq> []" "list_all token_char n" "list_all (\<lambda>c. \<not> ctl_char c) v"
      "v = [] \<or> \<not> blank (hd v)" "v = [] \<or> \<not> blank (last v)"
    using Cons.prems(1) by (cases h) (auto simp: hdr_ok_def split: option.splits)
  let ?rest = "hdr_lines hs @ CRLF @ rest"
  have line: "hdr_lines (h # hs) @ CRLF @ rest = n @ lit '': '' @ v @ CRLF @ ?rest" by (simp add: hdr_lines_def h(1))
  obtain c n' where n: "n = c # n'" using h(2) by (cases n) auto
  have c: "c \<noteq> 13" "c \<noteq> 10" using h(3) token_not by (auto simp: n)
  have "parse_headers m num (n @ lit '': '' @ v @ CRLF @ ?rest) =
      map_sum id (apfst ((#) (Some n, strip_right v))) (parse_headers m (num + 1) ?rest)"
    using c Cons.prems(2) parse_name_line [OF h(2,3,5), of num ?rest] eol_stops [OF h(4), of ?rest]
    by (subst parse_headers.simps) (simp add: n)
  then show ?case unfolding line using Cons by (simp add: strip_right_id [OF h(6)] h(1))
qed

definition request_line :: "bytes \<Rightarrow> bytes \<Rightarrow> bytes" where
  "request_line method target = method @ [32] @ target @ lit '' HTTP/1.1''"

lemma version_line: "parse_http_version (lit ''HTTP/1.1'' @ c # rest) = Inr (1, c # rest)"
  by (simp add: parse_http_version_def lit_def)

lemma parse_request_lines:
  assumes m: "m \<noteq> []" "list_all token_char m" and t: "t \<noteq> []" "list_all (\<lambda>c. 32 < c \<and> c \<noteq> 127) t"
    and hs: "list_all hdr_ok hs" "length hs \<le> max_headers"
  shows "parse_request max_headers (request_line m t @ CRLF @ hdr_lines hs @ CRLF @ rest) = Inr (m, t, 1, hs, rest)"
proof -
  obtain c m' where c: "m = c # m'" using m(1) by (cases m) auto
  have cr: "c \<noteq> 13" "c \<noteq> 10" using m(2) token_not by (auto simp: c)
  obtain d t' where d: "t = d # t'" "32 < d" using t by (cases t) auto
  let ?r = "CRLF @ hdr_lines hs @ CRLF @ rest" and ?v = "lit ''HTTP/1.1''"
  have v: "lit '' HTTP/1.1'' = 32 # ?v" by (simp add: lit_def)
  have 1: "parse_token 32 (m @ 32 # t @ 32 # ?v @ ?r) = Inr (m, 32 # t @ 32 # ?v @ ?r)" by (rule token_stops [OF m(2) token_not(2)])
  have 2: "skip_spaces (32 # t @ w) = Inr (t @ w)" for w using d by (auto simp: skip_spaces_def)
  have 3: "advance_token (t @ 32 # ?v @ ?r) = Inr (t, 32 # ?v @ ?r)" by (rule advance_stops [OF t(2)])
  have 4: "skip_spaces (32 # ?v @ w) = Inr (?v @ w)" for w by (simp add: skip_spaces_def lit_def)
  have 5: "parse_http_version (?v @ ?r) = Inr (1, ?r)" using version_line by (simp add: CRLF_def)
  have 6: "parse_headers max_headers 0 (hdr_lines hs @ CRLF @ rest) = Inr (hs, rest)"
    by (rule parse_headers_lines) (use hs in simp_all)
  have 7: "hd ?r = 13" "tl ?r \<noteq> []" "hd (tl ?r) = 10" "drop 2 ?r = hdr_lines hs @ CRLF @ rest" by (simp_all add: CRLF_def)
  have "request_line m t @ ?r = c # m' @ 32 # t @ 32 # ?v @ ?r" by (simp add: request_line_def v c)
  with 1 2 [of "32 # ?v @ ?r"] 3 4 [of ?r] 5 6 7 m(1) t(1) cr show ?thesis
    by (simp add: parse_request_def c Let_def)
qed

lemma parse_response_lines:
  assumes hs: "list_all hdr_ok hs" "length hs \<le> max_headers" and msg: "list_all (\<lambda>c. \<not> ctl_char c) msg"
  shows "parse_response max_headers (lit ''HTTP/1.1 101 '' @ msg @ CRLF @ hdr_lines hs @ CRLF @ rest) = Inr (1, 101, hs, rest)"
proof -
  let ?r = "hdr_lines hs @ CRLF @ rest"
  have "lit ''HTTP/1.1 101 '' = lit ''HTTP/1.1'' @ 32 # 49 # 48 # 49 # [32]" by (simp add: lit_def)
  moreover have "get_token_to_eol (32 # msg @ CRLF @ ?r) = Inr (32 # msg, ?r)"
    using eol_stops [of "32 # msg" ?r] msg by (simp add: ctl_char_def)
  moreover have "parse_headers max_headers 0 ?r = Inr (hs, rest)" by (rule parse_headers_lines) (use hs in simp_all)
  ultimately show ?thesis
    by (simp add: parse_response_def version_line skip_spaces_def parse_int_3_def)
qed

end
