(* ===== verification/WsHandshake.thy ===== *)
theory WsHandshake
  imports Ws Url HttpParse
begin

text \<open>
  The WebSocket handshake: the server's half in \<^verbatim>\<open>src/qlang/net/q_ws.c\<close> and the client's in
  \<^verbatim>\<open>src/qlang/net/q_ws_client.c\<close>, which repeats the helpers on tokens and headers word for word, and the routing of a
  request to the server's half in \<^verbatim>\<open>src/qlang/net/q_http.c\<close>. Headers are what the vendored HTTP parser hands
  over: names, absent for a continuation line, and values. Allocations that may fail are flags.

  Shown: the bytes of the request a client composes, parsed and routed by the server, are answered with a 101 whose
  bytes the client accepts; the client reads exactly up to the end of the response header.
\<close>

section \<open>Tokens and headers\<close>

definition tok_ieq :: "bytes \<Rightarrow> bytes \<Rightarrow> bool" where
  "tok_ieq s lower \<longleftrightarrow>
    length s = length lower \<and> list_all2 (\<lambda>ch l. (if 65 \<le> ch \<and> ch \<le> 90 then ch + 32 else ch) = l) s lower"

definition tok_sep :: "u8 \<Rightarrow> bool" where
  "tok_sep c \<longleftrightarrow> c = 32 \<or> c = 9 \<or> c = 44"

function list_has_token :: "bytes \<Rightarrow> bytes \<Rightarrow> bool" where
  "list_has_token v lower =
    (if v = [] then False
     else (let u = dropWhile tok_sep v; t = takeWhile (\<lambda>c. \<not> tok_sep c) u
           in if t \<noteq> [] \<and> tok_ieq t lower then True else list_has_token (drop (length t) u) lower))"
  by pat_completeness auto
termination
proof (relation "measure (\<lambda>(v, lower). length v)")
  fix v lower :: bytes and u t
  assume v: "v \<noteq> []" "u = dropWhile tok_sep v" "t = takeWhile (\<lambda>c. \<not> tok_sep c) u"
  then obtain a r where a: "v = a # r" by (cases v) auto
  show "((drop (length t) u, lower), v, lower) \<in> measure (\<lambda>(v, lower). length v)"
  proof (cases "tok_sep a")
    case True
    then have "length u \<le> length r" using v(2) a by (simp add: length_dropWhile_le)
    then show ?thesis by (simp add: a)
  next
    case False
    then show ?thesis using v a by simp
  qed
qed simp

declare list_has_token.simps [simp del]

definition hdr_find :: "phr_header list \<Rightarrow> bytes \<Rightarrow> bytes option" where
  "hdr_find hdrs lower = map_option snd (find (\<lambda>h. case fst h of None \<Rightarrow> False | Some n \<Rightarrow> tok_ieq n lower) hdrs)"

section \<open>The server\<close>

record hs_ask =
  hs_str :: bool
  hs_sha1 :: bool
  hs_btoa :: bool
  hs_send :: bool
  hs_send_body :: bool

definition guid :: bytes where
  "guid = lit ''258EAFA5-E914-47DA-95CA-C5AB0DC85B11''"

text \<open>A piece that could not be sent is not logged.\<close>

definition send_all :: "bool \<Rightarrow> bytes \<Rightarrow> ws_world \<Rightarrow> ws_world" where
  "send_all ok p w = (if ok then log_event (Sent p) w else w)"

definition q_http_send_simple :: "hs_ask \<Rightarrow> nat \<Rightarrow> bytes \<Rightarrow> ws_world \<Rightarrow> ws_world" where
  "q_http_send_simple ask code reason w =
    (let body = dec_text code @ [32] @ reason @ [10];
         hdr = lit ''HTTP/1.1 '' @ dec_text code @ [32] @ reason @ CRLF @ lit ''Content-Type: text/plain'' @ CRLF @
           lit ''Content-Length: '' @ dec_text (length body) @ CRLF @ lit ''Connection: close'' @ CRLF @ CRLF
     in if hs_send ask then send_all (hs_send_body ask) body (send_all True hdr w) else w)"

text \<open>The accept key of a key: the base64 of the SHA-1 of the key and the GUID, \<open>None\<close> when an allocation fails.\<close>

definition accept_key :: "hs_ask \<Rightarrow> bytes \<Rightarrow> bytes option" where
  "accept_key ask key =
    (if \<not> hs_str ask then None
     else (case q_dotq_sha1_fn (hs_sha1 ask) (QStr (key @ guid)) of
             Inl _ \<Rightarrow> None
           | Inr digest \<Rightarrow>
               (case q_dotq_btoa_fn (hs_btoa ask) digest of Inr (QCharv a) \<Rightarrow> Some a | _ \<Rightarrow> None)))"

definition resp_101 :: "bytes \<Rightarrow> bytes" where
  "resp_101 a = lit ''HTTP/1.1 101 Switching Protocols'' @ CRLF @ lit ''Connection: Upgrade'' @ CRLF @
     lit ''Upgrade: websocket'' @ CRLF @ lit ''Sec-WebSocket-Accept: '' @ a @ CRLF @ CRLF"

definition resp_426 :: bytes where
  "resp_426 = lit ''HTTP/1.1 426 Upgrade Required'' @ CRLF @ lit ''Sec-WebSocket-Version: 13'' @ CRLF @
     lit ''Content-Length: 0'' @ CRLF @ lit ''Connection: close'' @ CRLF @ CRLF"

definition q_ws_handshake :: "hs_ask \<Rightarrow> phr_header list \<Rightarrow> ws_world \<Rightarrow> bool \<times> ws_world" where
  "q_ws_handshake ask hdrs w =
    (let conn = hdr_find hdrs (lit ''connection'');
         key = hdr_find hdrs (lit ''sec-websocket-key'');
         ver = hdr_find hdrs (lit ''sec-websocket-version'')
     in if (case ver of None \<Rightarrow> True | Some v \<Rightarrow> \<not> tok_ieq v (lit ''13'')) then (False, send_all (hs_send ask) resp_426 w)
        else if (case conn of None \<Rightarrow> True | Some v \<Rightarrow> \<not> list_has_token v (lit ''upgrade'')) then (False, q_http_send_simple ask 400 (lit ''Bad Request'') w)
        else (case key of
                None \<Rightarrow> (False, q_http_send_simple ask 400 (lit ''Bad Request'') w)
              | Some k \<Rightarrow>
                  if length k = 0 \<or> length k > 64 then (False, q_http_send_simple ask 400 (lit ''Bad Request'') w)
                  else (case accept_key ask k of
                          None \<Rightarrow> (False, q_http_send_simple ask 500 (lit ''Internal Server Error'') w)
                        | Some a \<Rightarrow>
                            if length (resp_101 a) \<ge> 256 \<or> \<not> hs_send ask then (False, w)
                            else (True, log_event (Sent (resp_101 a)) w))))"

text \<open>
  \<open>q_http_respond\<close> up to the hand-off to the handshake; true when the connection is a WebSocket now. The gate \<open>.z.ac\<close>, when it is
  set, is a parameter, and so is what answers the requests that are not upgrades (\<open>.z.pp\<close>, \<open>.z.pm\<close>, \<open>.z.ph\<close>, static files).
\<close>

datatype zac = ZAC_PROCEED | ZAC_DONE | ZAC_FALLBACK

definition q_http_respond ::
  "hs_ask \<Rightarrow> bool \<Rightarrow> (bytes \<Rightarrow> phr_header list \<Rightarrow> ws_world \<Rightarrow> zac \<times> ws_world) option \<Rightarrow>
   (bytes \<Rightarrow> bytes \<Rightarrow> phr_header list \<Rightarrow> ws_world \<Rightarrow> ws_world) \<Rightarrow> bytes \<Rightarrow> ws_world \<Rightarrow> bool \<times> ws_world" where
  "q_http_respond ask auth_required zac_gate other req w =
    (if zac_gate = None \<and> auth_required then (False, q_http_send_simple ask 401 (lit ''Unauthorized'') w)
     else (case phr_parse_request 64 req of
             Inl _ \<Rightarrow> (False, q_http_send_simple ask 400 (lit ''Bad Request'') w)
           | Inr (method, target, minor, hdrs, pret) \<Rightarrow>
               if pret = 0 then (False, q_http_send_simple ask 400 (lit ''Bad Request'') w)
               else (case (case zac_gate of None \<Rightarrow> (ZAC_PROCEED, w) | Some gate \<Rightarrow> gate target hdrs w) of
                       (g, w) \<Rightarrow>
                         if g = ZAC_DONE then (False, w)
                         else if g = ZAC_FALLBACK \<and> auth_required then (False, q_http_send_simple ask 401 (lit ''Unauthorized'') w)
                         else if method \<noteq> lit ''GET'' then (False, other method target hdrs w)
                         else (case hdr_find hdrs (lit ''upgrade'') of
                                 None \<Rightarrow> (False, other method target hdrs w)
                               | Some v \<Rightarrow>
                                   if tok_ieq v (lit ''websocket'') then q_ws_handshake ask hdrs w
                                   else (False, q_http_send_simple ask 501 (lit ''Not Implemented'') w)))))"

section \<open>The client\<close>

text \<open>The key of 16 random bytes and the accept key to expect; the flags \<open>kin\<close> and \<open>kb\<close> are for the key itself.\<close>

definition client_keys :: "bool \<Rightarrow> bool \<Rightarrow> hs_ask \<Rightarrow> bytes \<Rightarrow> (bytes \<times> bytes) qres" where
  "client_keys kin kb ask raw =
    (if \<not> kin then Inl QE_OOM
     else (case q_dotq_btoa_fn kb (QStr raw) of
             Inr (QCharv key) \<Rightarrow>
               if length key > 64 then Inl QE_LIMIT
               else if \<not> hs_str ask then Inl QE_OOM
               else (case q_dotq_sha1_fn (hs_sha1 ask) (QStr (key @ guid)) of
                       Inl e \<Rightarrow> Inl e
                     | Inr digest \<Rightarrow>
                         (case q_dotq_btoa_fn (hs_btoa ask) digest of
                            Inr (QCharv a) \<Rightarrow> Inr (key, a)
                          | Inl e \<Rightarrow> Inl e
                          | Inr _ \<Rightarrow> Inl QE_OOM))
           | Inl e \<Rightarrow> Inl e
           | Inr _ \<Rightarrow> Inl QE_OOM))"

text \<open>\<open>snprintf\<close> into 512 bytes keeps 511.\<close>

definition auth_header :: "bytes \<Rightarrow> bytes" where
  "auth_header userinfo =
    (if userinfo = [] then []
     else take 511 (lit ''Authorization: Basic '' @ codec_b64_encode userinfo @ CRLF))"

definition request_head :: "bytes \<Rightarrow> bytes" where
  "request_head uq = (if length uq \<ge> 4 \<and> drop (length uq - 4) uq = CRLF @ CRLF then take (length uq - 2) uq else uq)"

definition compose_request :: "bytes \<Rightarrow> bytes \<Rightarrow> bytes \<Rightarrow> bytes qres" where
  "compose_request uq key authhdr =
    (let head = request_head uq;
         reqcap = length head + 640 + length key;
         extra = lit ''Upgrade: websocket'' @ CRLF @ lit ''Connection: Upgrade'' @ CRLF @ lit ''Sec-WebSocket-Key: '' @ key @ CRLF @
           lit ''Sec-WebSocket-Version: 13'' @ CRLF @ authhdr @ CRLF
     in if length head + length extra \<ge> reqcap then Inl QE_LIMIT else Inr (head @ extra))"

text \<open>The target of the connection, from the text of the file symbol.\<close>

definition client_url :: "bytes \<Rightarrow> q_http_url qres" where
  "client_url s =
    (if length s < 1 \<or> s ! 0 \<noteq> 58 then Inl QE_DOMAIN
     else (let rest = drop 1 s
           in if length rest \<ge> 5 \<and> take 5 rest = lit ''ws://''
              then (let urlbuf = lit ''http://'' @ takeWhile (\<lambda>c. c \<noteq> 0) (drop 5 rest)
                    in if length urlbuf \<ge> 600 then Inl QE_DOMAIN
                       else (case q_http_client_url_parse urlbuf of None \<Rightarrow> Inl QE_DOMAIN | Some u \<Rightarrow> Inr u))
              else if length rest \<ge> 6 \<and> take 6 rest = lit ''wss://'' then Inl QE_NYI
              else Inl QE_DOMAIN))"

text \<open>
  The bytes of the response as the socket yields them: a byte, or a wait or a read that fails or runs out of time.
  The flag \<open>mem\<close> says whether the buffer can grow to a size.
\<close>

datatype sock_event = Arrives u8 | Gone

fun read_loop :: "(nat \<Rightarrow> bool) \<Rightarrow> bytes \<Rightarrow> nat \<Rightarrow> sock_event list \<Rightarrow> (bytes \<times> sock_event list) qres" where
  "read_loop mem buf cap [] = Inl QE_CONN"
| "read_loop mem buf cap (Gone # evs) = Inl QE_CONN"
| "read_loop mem buf cap (Arrives b # evs) =
    (if length buf + 1 > cap \<and> (cap \<ge> 65536 \<or> \<not> mem (cap * 2)) then Inl QE_WSFULL
     else (let cap = (if length buf + 1 > cap then cap * 2 else cap); buf = buf @ [b]
           in if length buf \<ge> 4 \<and> drop (length buf - 4) buf = CRLF @ CRLF then Inr (buf, evs)
              else read_loop mem buf cap evs))"

definition ws_read_response :: "(nat \<Rightarrow> bool) \<Rightarrow> sock_event list \<Rightarrow> (bytes \<times> sock_event list) qres" where
  "ws_read_response mem evs = (if \<not> mem 512 then Inl QE_WSFULL else read_loop mem [] 512 evs)"

definition upgrade_ok :: "bytes \<Rightarrow> phr_header list \<Rightarrow> bool" where
  "upgrade_ok accept h \<longleftrightarrow>
    (case hdr_find h (lit ''upgrade'') of None \<Rightarrow> False | Some v \<Rightarrow> tok_ieq v (lit ''websocket'')) \<and>
    (case hdr_find h (lit ''connection'') of None \<Rightarrow> False | Some v \<Rightarrow> list_has_token v (lit ''upgrade'')) \<and>
    (case hdr_find h (lit ''sec-websocket-accept'') of None \<Rightarrow> False | Some v \<Rightarrow> v = accept)"

text \<open>
  Opening a client connection: up to the request that is sent, with the accept key to expect, and from the response
  on. A response with another status is returned with a null handle (the rest of its body is read first, which is not modelled); \<open>reg\<close>
  says whether the connection can be made and registered.
\<close>

record open_ask =
  oa_restricted :: bool
  oa_raw :: bytes
  oa_keyin :: bool
  oa_key :: bool
  oa_hs :: hs_ask
  oa_user :: bool
  oa_enc :: bool
  oa_req :: bool

definition open_request :: "open_ask \<Rightarrow> bytes option \<Rightarrow> qtext \<Rightarrow> (q_http_url \<times> bytes \<times> bytes) qres" where
  "open_request ask hsym request =
    (if oa_restricted ask then Inl QE_ACCESS
     else (case q_str_text_bytes request of
             None \<Rightarrow> Inl QE_TYPE
           | Some uq \<Rightarrow>
               (case hsym of
                  None \<Rightarrow> Inl QE_TYPE
                | Some s \<Rightarrow>
                    (case client_url s of
                       Inl e \<Rightarrow> Inl e
                     | Inr u \<Rightarrow>
                         (case client_keys (oa_keyin ask) (oa_key ask) (oa_hs ask) (oa_raw ask) of
                            Inl e \<Rightarrow> Inl e
                          | Inr (key, accept) \<Rightarrow>
                              if hu_userinfo u \<noteq> [] \<and> \<not> oa_user ask then Inl QE_OOM
                              else if hu_userinfo u \<noteq> [] \<and> \<not> oa_enc ask then Inl QE_WSFULL
                              else if \<not> oa_req ask then Inl QE_OOM
                              else (case compose_request uq key (auth_header (hu_userinfo u)) of
                                      Inl e \<Rightarrow> Inl e
                                    | Inr req \<Rightarrow> Inr (u, req, accept)))))))"

datatype open_result = OpenFail q_err_e | OpenRefused bytes | OpenedWs ws_conn bytes

definition open_finish :: "bool \<Rightarrow> bool \<Rightarrow> bytes \<Rightarrow> bytes \<Rightarrow> open_result" where
  "open_finish mem reg accept resp =
    (case phr_parse_response 32 resp of
       Inl _ \<Rightarrow> OpenFail QE_CONN
     | Inr (minor, status, h, pr) \<Rightarrow>
         if pr = 0 then OpenFail QE_CONN
         else if status \<noteq> 101 then OpenRefused resp
         else if \<not> upgrade_ok accept h then OpenFail QE_CONN
         else if \<not> mem then OpenFail QE_OOM
         else if \<not> reg then OpenFail QE_CONN
         else OpenedWs (q_ws_conn_new_role True) resp)"

section \<open>Helpers\<close>

lemma digest_length: "length (codec_sha1_compute msg) = 20"
  by (simp add: codec_sha1_compute_def split: prod.split)

lemma b64_16: "length raw = 16 \<Longrightarrow> length (codec_b64_encode raw) = 24"
  and b64_20: "length raw = 20 \<Longrightarrow> length (codec_b64_encode raw) = 28"
  by (simp_all add: encode_length)

lemma find_skip: "hdr_find us lower = None \<Longrightarrow> hdr_find (us @ hs) lower = hdr_find hs lower"
  by (simp add: hdr_find_def) (induction us; simp split: if_splits option.splits)

definition hs_good :: "hs_ask \<Rightarrow> bool" where
  "hs_good ask \<longleftrightarrow> hs_str ask \<and> hs_sha1 ask \<and> hs_btoa ask \<and> hs_send ask"

text \<open>The headers the client adds and the server answers.\<close>

definition request_headers :: "bytes \<Rightarrow> phr_header list" where
  "request_headers key = [(Some (lit ''Upgrade''), lit ''websocket''), (Some (lit ''Connection''), lit ''Upgrade''),
     (Some (lit ''Sec-WebSocket-Key''), key), (Some (lit ''Sec-WebSocket-Version''), lit ''13'')]"

definition response_headers :: "bytes \<Rightarrow> phr_header list" where
  "response_headers a = [(Some (lit ''Connection''), lit ''Upgrade''), (Some (lit ''Upgrade''), lit ''websocket''),
     (Some (lit ''Sec-WebSocket-Accept''), a)]"

definition accept_of :: "bytes \<Rightarrow> bytes" where
  "accept_of key = codec_b64_encode (codec_sha1_compute (key @ guid))"

lemma accept_good: "hs_good ask \<Longrightarrow> accept_key ask key = Some (accept_of key)"
  by (simp add: accept_key_def hs_good_def accept_of_def q_dotq_sha1_fn_def q_dotq_btoa_fn_def q_str_text_or_bytevec_def)

lemma keys_good: "hs_good ask \<Longrightarrow> length raw = 16 \<Longrightarrow>
    client_keys True True ask raw = Inr (codec_b64_encode raw, accept_of (codec_b64_encode raw))"
  by (simp add: client_keys_def hs_good_def accept_of_def b64_16 q_dotq_sha1_fn_def q_dotq_btoa_fn_def q_str_text_or_bytevec_def)

lemma token_upgrade: "list_has_token (lit ''Upgrade'') (lit ''upgrade'')"
  by (subst list_has_token.simps) (simp add: lit_def tok_sep_def tok_ieq_def)

lemma resp_lines: "resp_101 a = lit ''HTTP/1.1 101 Switching Protocols'' @ CRLF @ hdr_lines (response_headers a) @ CRLF"
  by (simp add: resp_101_def hdr_lines_def response_headers_def lit_def)

lemma resp_length: "length (resp_101 a) = 101 + length a"
  by (simp add: resp_101_def lit_def CRLF_def)

lemma find_request:
  "hdr_find (request_headers key @ vh) (lit ''upgrade'') = Some (lit ''websocket'')"
  "hdr_find (request_headers key @ vh) (lit ''connection'') = Some (lit ''Upgrade'')"
  "hdr_find (request_headers key @ vh) (lit ''sec-websocket-key'') = Some key"
  "hdr_find (request_headers key @ vh) (lit ''sec-websocket-version'') = Some (lit ''13'')"
  by (simp_all add: hdr_find_def request_headers_def tok_ieq_def lit_def)

lemma response_accepted: "upgrade_ok a (response_headers a)"
  using token_upgrade by (simp add: upgrade_ok_def hdr_find_def response_headers_def tok_ieq_def lit_def)

lemma compose_lines: "compose_request uq key (auth_header ui) = Inr (request_head uq @ hdr_lines (request_headers key) @ auth_header ui @ CRLF)"
proof -
  have "length (auth_header ui) \<le> 511" by (simp add: auth_header_def del: length_append take_append)
  then show ?thesis by (simp add: compose_request_def hdr_lines_def request_headers_def lit_def CRLF_def)
qed

text \<open>The credentials as a header line: those of a URL are short enough not to be cut off.\<close>

definition auth_headers :: "bytes \<Rightarrow> phr_header list" where
  "auth_headers ui = (if ui = [] then [] else [(Some (lit ''Authorization''), lit ''Basic '' @ codec_b64_encode ui)])"

lemma auth_lines: "length ui < 256 \<Longrightarrow> auth_header ui = hdr_lines (auth_headers ui)"
proof -
  assume "length ui < 256"
  then have "(length ui + 2) div 3 * 4 \<le> 344" by simp
  then have "length (lit ''Authorization: Basic '' @ codec_b64_encode ui @ CRLF) \<le> 511"
    by (simp add: encode_length lit_def CRLF_def)
  then show ?thesis
    by (simp add: auth_header_def auth_headers_def hdr_lines_def del: length_append take_append) (simp add: lit_def)
qed

text \<open>Base64 text is a header value that survives parsing.\<close>

lemma alpha_plain: "\<not> ctl_char (alpha d)" "\<not> blank (alpha d)"
proof -
  have "list_all (\<lambda>c. \<not> ctl_char c \<and> \<not> blank c) Q_B64_ALPHA" by code_simp
  moreover have "alpha d \<in> set Q_B64_ALPHA"
    using take6_less [of d] by (simp add: alpha_def and_63 alpha_length word_less_nat_alt)
  ultimately show "\<not> ctl_char (alpha d)" "\<not> blank (alpha d)" by (auto simp: list_all_iff)
qed

lemma b64_plain: "c \<in> set (codec_b64_encode bs) \<Longrightarrow> \<not> ctl_char c \<and> \<not> blank c"
  using encode_chars [of c bs] alpha_plain by (auto simp: ctl_char_def blank_def)

lemma b64_value_ok: "bs \<noteq> [] \<Longrightarrow> list_all (\<lambda>c. \<not> ctl_char c) pre \<Longrightarrow> pre = [] \<or> \<not> blank (hd pre) \<Longrightarrow>
    n \<noteq> [] \<Longrightarrow> list_all token_char n \<Longrightarrow> hdr_ok (Some n, pre @ codec_b64_encode bs)"
proof -
  assume a: "bs \<noteq> []" "list_all (\<lambda>c. \<not> ctl_char c) pre" "pre = [] \<or> \<not> blank (hd pre)" "n \<noteq> []" "list_all token_char n"
  have "codec_b64_encode bs \<noteq> []" using a(1) encode_length [of bs] by (cases bs) auto
  then show ?thesis using a b64_plain [of _ bs] by (auto simp: hdr_ok_def list_all_iff hd_append)
qed

lemma request_headers_ok: "raw \<noteq> [] \<Longrightarrow> list_all hdr_ok (request_headers (codec_b64_encode raw) @ auth_headers ui)"
proof -
  have t: "list_all token_char (lit ''Upgrade'')" "list_all token_char (lit ''Connection'')" "list_all token_char (lit ''Sec-WebSocket-Key'')"
    "list_all token_char (lit ''Sec-WebSocket-Version'')" "list_all token_char (lit ''Authorization'')" by code_simp+
  have k: "raw \<noteq> [] \<Longrightarrow> hdr_ok (Some (lit ''Sec-WebSocket-Key''), codec_b64_encode raw)"
    using b64_value_ok [of raw "[]" "lit ''Sec-WebSocket-Key''"] t(3) by (simp add: lit_def)
  have "ui \<noteq> [] \<Longrightarrow> hdr_ok (Some (lit ''Authorization''), lit ''Basic '' @ codec_b64_encode ui)"
    by (rule b64_value_ok) (use t(5) in \<open>simp_all add: lit_def ctl_char_def blank_def\<close>)
  moreover have "hdr_ok (Some (lit ''Upgrade''), lit ''websocket'')" "hdr_ok (Some (lit ''Connection''), lit ''Upgrade'')"
      "hdr_ok (Some (lit ''Sec-WebSocket-Version''), lit ''13'')" by code_simp+
  moreover assume "raw \<noteq> []"
  ultimately show ?thesis using k by (simp add: request_headers_def auth_headers_def)
qed

lemma response_headers_ok: "msg \<noteq> [] \<Longrightarrow> list_all hdr_ok (response_headers (codec_b64_encode msg))"
proof -
  have "hdr_ok (Some (lit ''Upgrade''), lit ''websocket'')" "hdr_ok (Some (lit ''Connection''), lit ''Upgrade'')"
      "list_all token_char (lit ''Sec-WebSocket-Accept'')" by code_simp+
  moreover assume "msg \<noteq> []"
  ultimately show ?thesis using b64_value_ok [of msg "[]" "lit ''Sec-WebSocket-Accept''"]
    by (simp add: response_headers_def) (simp add: lit_def)
qed

text \<open>The caller's request, with or without its blank line, keeps one line end before the added headers.\<close>

lemma hdr_lines_app: "hdr_lines (xs @ ys) = hdr_lines xs @ hdr_lines ys"
  by (simp add: hdr_lines_def)

lemma head_lines:
  assumes "list_all hdr_ok uh" and L: "L = request_line m t @ CRLF @ hdr_lines uh"
  shows "request_head L = L" "request_head (L @ CRLF) = L"
proof -
  have "\<exists>x c. c \<noteq> 10 \<and> L = x @ [c] @ CRLF"
  proof (cases uh rule: rev_cases)
    case Nil
    have "lit '' HTTP/1.1'' = lit '' HTTP/1.'' @ [49]" by (simp add: lit_def)
    then have "L = (m @ [32] @ t @ lit '' HTTP/1.'') @ [49] @ CRLF" using Nil by (simp add: L request_line_def hdr_lines_def)
    then show ?thesis by (intro exI [of _ "m @ [32] @ t @ lit '' HTTP/1.''"] exI [of _ "49"]) simp
  next
    case (snoc hs h)
    then obtain n v where h: "h = (Some n, v)" "list_all (\<lambda>c. \<not> ctl_char c) v"
      using assms(1) by (cases h) (auto simp: hdr_ok_def split: option.splits)
    have e: "L = (request_line m t @ CRLF @ hdr_lines hs @ n @ lit '': '' @ v) @ CRLF"
      by (simp add: L snoc hdr_lines_app h(1)) (simp add: hdr_lines_def)
    show ?thesis
    proof (cases v rule: rev_cases)
      case Nil
      have "lit '': '' = [58, 32]" by (simp add: lit_def)
      then show ?thesis using Nil e
        by (intro exI [of _ "request_line m t @ CRLF @ hdr_lines hs @ n @ [58]"] exI [of _ "32"]) simp
    next
      case (snoc w c)
      then have "c \<noteq> 10" using h(2) by (auto simp: ctl_char_def)
      then show ?thesis using snoc e
        by (intro exI [of _ "request_line m t @ CRLF @ hdr_lines hs @ n @ lit '': '' @ w"] exI [of _ c]) simp
    qed
  qed
  then obtain x c where x: "c \<noteq> 10" "L = x @ [c] @ CRLF" by blast
  have "drop (length L - 4) L \<noteq> CRLF @ CRLF"
  proof
    assume "drop (length L - 4) L = CRLF @ CRLF"
    then have "L = take (length L - 4) L @ CRLF @ CRLF" by (metis append_take_drop_id)
    then have "x @ [c] = take (length L - 4) L @ CRLF" unfolding x(2) by (metis append.assoc append_same_eq)
    then have "last (x @ [c]) = last CRLF" by (metis last_append CRLF_def list.distinct(1))
    then show False using x(1) by (simp add: CRLF_def)
  qed
  then show "request_head L = L" by (simp add: request_head_def)
  have "drop (length (L @ CRLF) - 4) (L @ CRLF) = CRLF @ CRLF" "length (L @ CRLF) \<ge> 4"
    by (simp_all add: x(2) CRLF_def)
  then show "request_head (L @ CRLF) = L" by (simp add: request_head_def CRLF_def)
qed

lemma user_short: "client_url s = Inr u \<Longrightarrow> length (hu_userinfo u) < 256"
  by (auto simp: client_url_def Let_def url_ok_def dest!: parse_ok split: if_splits option.splits)

section \<open>Reading the response\<close>

definition hdr_ends :: "bytes \<Rightarrow> bool" where
  "hdr_ends b \<longleftrightarrow> length b \<ge> 4 \<and> drop (length b - 4) b = CRLF @ CRLF"

lemma read_step:
  assumes "\<forall>n. mem n" "k \<le> 7" "length buf \<le> 512 * 2 ^ k" "length buf < 65536"
  shows "\<exists>j\<le>7. length (buf @ [b]) \<le> 512 * 2 ^ j \<and> read_loop mem buf (512 * 2 ^ k) (Arrives b # evs) =
    (if hdr_ends (buf @ [b]) then Inr (buf @ [b], evs) else read_loop mem (buf @ [b]) (512 * 2 ^ j) evs)"
proof (cases "length buf + 1 > 512 * 2 ^ k")
  case True
  then have "(512 * 2 ^ k :: nat) < 512 * 2 ^ 7" using assms(3,4) by simp
  then have "(2 :: nat) ^ k < 2 ^ 7" by linarith
  then have "k < 7" by (rule power_less_imp_less_exp [rotated]) simp
  then have "Suc k \<le> 7" "\<not> (512 * 2 ^ k :: nat) \<ge> 65536" using assms(3,4) True by simp_all
  moreover have "length (buf @ [b]) \<le> 512 * 2 ^ Suc k" 
  proof -
    define q :: nat where "q = 2 ^ k"
    have "0 < q" by (simp add: q_def)
    then show ?thesis using assms(3) unfolding power_Suc q_def [symmetric] by simp
  qed
  ultimately show ?thesis using True assms by (intro exI [of _ "Suc k"]) (simp add: hdr_ends_def Let_def mult.commute)
next
  case False
  then show ?thesis using assms by (intro exI [of _ k]) (simp add: hdr_ends_def Let_def)
qed

lemma read_full: "\<forall>n. mem n \<Longrightarrow> k \<le> 7 \<Longrightarrow> length buf \<le> 512 * 2 ^ k \<Longrightarrow> length buf = 65536 \<Longrightarrow>
    read_loop mem buf (512 * 2 ^ k) (Arrives b # evs) = Inl QE_WSFULL"
proof -
  assume a: "k \<le> 7" "length buf \<le> 512 * 2 ^ k" "length buf = 65536"
  have "(2 :: nat) ^ k \<le> 2 ^ 7" using a(1) by (intro power_increasing) simp_all
  then have "(512 * 2 ^ k :: nat) = 65536" using a by simp
  then show ?thesis using a by simp
qed

lemma read_found:
  assumes "\<forall>n. mem n"
  shows "k \<le> 7 \<Longrightarrow> length buf \<le> 512 * 2 ^ k \<Longrightarrow> 0 < n \<Longrightarrow> n \<le> length s \<Longrightarrow> length buf + n \<le> 65536 \<Longrightarrow> hdr_ends (buf @ take n s) \<Longrightarrow>
    (\<And>m. 0 < m \<Longrightarrow> m < n \<Longrightarrow> \<not> hdr_ends (buf @ take m s)) \<Longrightarrow>
    read_loop mem buf (512 * 2 ^ k) (map Arrives s @ evs) = Inr (buf @ take n s, map Arrives (drop n s) @ evs)"
proof (induction s arbitrary: buf k n)
  case (Cons b s)
  have "length buf < 65536" using Cons.prems by simp
  then obtain j where j: "j \<le> 7" "length (buf @ [b]) \<le> 512 * 2 ^ j" "read_loop mem buf (512 * 2 ^ k) (Arrives b # map Arrives s @ evs) =
      (if hdr_ends (buf @ [b]) then Inr (buf @ [b], map Arrives s @ evs) else read_loop mem (buf @ [b]) (512 * 2 ^ j) (map Arrives s @ evs))"
    using read_step [OF assms, of k buf b "map Arrives s @ evs"] Cons.prems by blast
  show ?case
  proof (cases "n = 1")
    case True
    then show ?thesis using j Cons.prems by simp
  next
    case False
    then have "\<not> hdr_ends (buf @ [b])" using Cons.prems(7) [of 1] Cons.prems(3) by simp
    moreover have "read_loop mem (buf @ [b]) (512 * 2 ^ j) (map Arrives s @ evs) = Inr ((buf @ [b]) @ take (n - 1) s, map Arrives (drop (n - 1) s) @ evs)"
    proof (rule Cons.IH [OF j(1,2)])
      show "\<not> hdr_ends ((buf @ [b]) @ take m s)" if "0 < m" "m < n - 1" for m using Cons.prems(7) [of "Suc m"] that by simp
    qed (use Cons.prems False in \<open>auto simp: take_Cons' drop_Cons'\<close>)
    ultimately show ?thesis using j(3) Cons.prems(3) by (simp add: take_Cons' drop_Cons')
  qed
qed simp

lemma read_missing:
  assumes "\<forall>n. mem n"
  shows "k \<le> 7 \<Longrightarrow> length buf \<le> 512 * 2 ^ k \<Longrightarrow> length buf \<le> 65536 \<Longrightarrow>
    (\<And>m. 0 < m \<Longrightarrow> length buf + m \<le> 65536 \<Longrightarrow> \<not> hdr_ends (buf @ take m s)) \<Longrightarrow>
    read_loop mem buf (512 * 2 ^ k) (map Arrives s) = Inl (if length buf + length s > 65536 then QE_WSFULL else QE_CONN)"
proof (induction s arbitrary: buf k)
  case (Cons b s)
  show ?case
  proof (cases "length buf = 65536")
    case True
    then show ?thesis using read_full [OF assms Cons.prems(1,2)] by simp
  next
    case False
    then obtain j where j: "j \<le> 7" "length (buf @ [b]) \<le> 512 * 2 ^ j" "read_loop mem buf (512 * 2 ^ k) (Arrives b # map Arrives s) =
        (if hdr_ends (buf @ [b]) then Inr (buf @ [b], map Arrives s) else read_loop mem (buf @ [b]) (512 * 2 ^ j) (map Arrives s))"
      using read_step [OF assms Cons.prems(1,2), of b "map Arrives s"] Cons.prems(3) by auto
    have "\<not> hdr_ends (buf @ [b])" using Cons.prems(4) [of 1] Cons.prems(3) False by simp
    moreover have "read_loop mem (buf @ [b]) (512 * 2 ^ j) (map Arrives s) = Inl (if length (buf @ [b]) + length s > 65536 then QE_WSFULL else QE_CONN)"
    proof (rule Cons.IH [OF j(1,2)])
      show "\<not> hdr_ends ((buf @ [b]) @ take m s)" if "0 < m" "length (buf @ [b]) + m \<le> 65536" for m
        using Cons.prems(4) [of "Suc m"] that by simp
    qed (use Cons.prems False in simp)
    ultimately show ?thesis using j(3) by simp
  qed
qed simp

section \<open>Properties\<close>

lemma server_answers:
  assumes "hs_good sask" "length key = 24"
    and "hdr_find uh (lit ''connection'') = None" "hdr_find uh (lit ''sec-websocket-key'') = None"
      "hdr_find uh (lit ''sec-websocket-version'') = None"
  shows "q_ws_handshake sask (uh @ request_headers key @ vh) w = (True, log_event (Sent (resp_101 (accept_of key))) w)"
proof -
  have len: "length (accept_of key) = 28" by (simp add: b64_20 accept_of_def digest_length)
  have "tok_ieq (lit ''13'') (lit ''13'')" by (simp add: tok_ieq_def lit_def)
  then show ?thesis
    using len resp_length [of "accept_of key"] token_upgrade assms(1,2)
    by (simp add: q_ws_handshake_def find_skip [OF assms(3)] find_skip [OF assms(4)] find_skip [OF assms(5)] find_request
        accept_good [OF assms(1)] hs_good_def)
qed

lemma client_accepts: "open_finish True True (accept_of key) (resp_101 (accept_of key)) = OpenedWs (q_ws_conn_new_role True) (resp_101 (accept_of key))"
proof -
  let ?a = "accept_of key" and ?msg = "lit ''Switching Protocols''"
  have ne: "codec_sha1_compute (key @ guid) \<noteq> []" using digest_length [of "key @ guid"] by auto
  have "resp_101 ?a = lit ''HTTP/1.1 101 '' @ ?msg @ CRLF @ hdr_lines (response_headers ?a) @ CRLF @ []"
    by (simp add: resp_lines) (simp add: lit_def)
  moreover have "list_all (\<lambda>c. \<not> ctl_char c) ?msg" by code_simp
  ultimately have "parse_response 32 (resp_101 ?a) = Inr (1, 101, response_headers ?a, [])"
    using parse_response_lines [of "response_headers ?a" 32 ?msg "[]"] response_headers_ok [OF ne]
    by (simp add: accept_of_def response_headers_def)
  moreover have "length (resp_101 ?a) \<noteq> 0" by (simp add: resp_length)
  ultimately show ?thesis by (simp add: open_finish_def phr_parse_response_def response_accepted)
qed

text \<open>
  C29. Client and server agree on the handshake, on the bytes that pass between them. Let the caller's request be a
  GET line and up to 59 well-formed header lines, each ended by a line end, with or without a blank line behind them,
  and let it not set the handshake's own headers. For every random key and every URL the client composes a request;
  the server, without an authorisation gate, parses its bytes, routes them to the handshake and answers with one
  response; the client parses the bytes of that response and opens the connection, because the accept key in it
  is the one it computed on its own. Neither the request nor the response outgrows its buffer.
\<close>

theorem handshake_agrees:
  assumes ask: "\<not> oa_restricted ask" "oa_keyin ask" "oa_key ask" "oa_user ask" "oa_enc ask" "oa_req ask"
      "hs_good (oa_hs ask)" "length (oa_raw ask) = 16"
    and url: "client_url s = Inr u"
    and req: "q_str_text_bytes request = Some uq"
      "uq = request_line (lit ''GET'') target @ CRLF @ hdr_lines uh @ (if blank_line then CRLF else [])"
      "target \<noteq> []" "list_all (\<lambda>c. 32 < c \<and> c \<noteq> 127) target" "list_all hdr_ok uh" "length uh \<le> 59"
    and own: "hdr_find uh (lit ''upgrade'') = None" "hdr_find uh (lit ''connection'') = None"
      "hdr_find uh (lit ''sec-websocket-key'') = None" "hdr_find uh (lit ''sec-websocket-version'') = None"
    and "hs_good sask"
  shows "\<exists>bs accept resp. open_request ask (Some s) request = Inr (u, bs, accept) \<and>
    q_http_respond sask False None other bs w = (True, log_event (Sent resp) w) \<and>
    open_finish True True accept resp = OpenedWs (q_ws_conn_new_role True) resp"
proof -
  let ?key = "codec_b64_encode (oa_raw ask)" and ?ui = "hu_userinfo u" and ?get = "lit ''GET''"
  define L where "L = request_line ?get target @ CRLF @ hdr_lines uh"
  define hs where "hs = uh @ request_headers ?key @ auth_headers ?ui"
  define bs where "bs = request_line ?get target @ CRLF @ hdr_lines hs @ CRLF @ []"
  have uq: "uq = L \<or> uq = L @ CRLF" using req(2) by (simp add: L_def)
  have "request_head uq = L" using head_lines [OF req(5) L_def] uq by auto
  then have comp: "compose_request uq ?key (auth_header ?ui) = Inr bs"
    unfolding compose_lines by (simp add: auth_lines [OF user_short [OF url]] bs_def hs_def L_def hdr_lines_app)
  have keys: "client_keys True True (oa_hs ask) (oa_raw ask) = Inr (?key, accept_of ?key)" by (rule keys_good [OF ask(7,8)])
  have "open_request ask (Some s) request = Inr (u, bs, accept_of ?key)"
    using ask(1-6) by (simp add: open_request_def req(1) url keys comp)
  moreover have "oa_raw ask \<noteq> []" using ask(8) by auto
  then have hs: "list_all hdr_ok hs" "length hs \<le> 64" using req(5,6) request_headers_ok [of "oa_raw ask" ?ui]
    by (simp_all add: hs_def request_headers_def auth_headers_def)
  have get: "?get \<noteq> []" "list_all token_char ?get" by (simp add: lit_def) code_simp
  have "parse_request 64 bs = Inr (?get, target, 1, hs, [])"
    unfolding bs_def by (rule parse_request_lines [OF get req(3,4) hs])
  then have "phr_parse_request 64 bs = Inr (?get, target, 1, hs, length bs)" by (simp add: phr_parse_request_def)
  moreover have "hdr_find hs (lit ''upgrade'') = Some (lit ''websocket'')"
    unfolding hs_def find_skip [OF own(1)] by (rule find_request(1))
  moreover have "length bs \<noteq> 0" "tok_ieq (lit ''websocket'') (lit ''websocket'')"
    by (simp_all add: bs_def CRLF_def tok_ieq_def lit_def)
  ultimately have "q_http_respond sask False None other bs w = q_ws_handshake sask hs w"
    by (simp add: q_http_respond_def)
  moreover have "q_ws_handshake sask hs w = (True, log_event (Sent (resp_101 (accept_of ?key))) w)"
    unfolding hs_def by (rule server_answers [OF assms(20) b64_16 [OF ask(8)] own(2-4)])
  ultimately show ?thesis using client_accepts [of ?key] \<open>open_request ask (Some s) request = Inr (u, bs, accept_of ?key)\<close> by metis
qed

definition calm_hs :: hs_ask where
  "calm_hs = \<lparr>hs_str = True, hs_sha1 = True, hs_btoa = True, hs_send = True, hs_send_body = True\<rparr>"

definition calm_open :: open_ask where
  "calm_open = \<lparr>oa_restricted = False, oa_raw = replicate 16 7, oa_keyin = True, oa_key = True, oa_hs = calm_hs,
     oa_user = True, oa_enc = True, oa_req = True\<rparr>"

theorem handshake_agrees_witness:
  "\<exists>bs accept resp.
    open_request calm_open (Some (lit '':ws://u:p@h.org:81'')) (QCharv (lit ''GET / HTTP/1.1'' @ CRLF @ lit ''Host: h.org'' @ CRLF @ CRLF)) =
      Inr (\<lparr>hu_scheme = False, hu_host = lit ''h.org'', hu_port = 81, hu_path = lit ''/'', hu_userinfo = lit ''u:p''\<rparr>, bs, accept) \<and>
    q_http_respond calm_hs False None (\<lambda>_ _ _ w. w) bs \<lparr>ww_rng = 0, ww_log = []\<rparr> = (True, log_event (Sent resp) \<lparr>ww_rng = 0, ww_log = []\<rparr>) \<and>
    open_finish True True accept resp = OpenedWs (q_ws_conn_new_role True) resp"
proof (rule handshake_agrees [where blank_line = True and target = "lit ''/''" and uh = "[(Some (lit ''Host''), lit ''h.org'')]"])
  show "client_url (lit '':ws://u:p@h.org:81'') =
      Inr \<lparr>hu_scheme = False, hu_host = lit ''h.org'', hu_port = 81, hu_path = lit ''/'', hu_userinfo = lit ''u:p''\<rparr>"
    by (simp add: client_url_def q_http_client_url_parse_def scan_ok_def ctl_def scheme_of_def auth_end_def url_user_def
        url_hostport_def url_path_def is_digit_def lit_def Let_def)
  show "q_str_text_bytes (QCharv (lit ''GET / HTTP/1.1'' @ CRLF @ lit ''Host: h.org'' @ CRLF @ CRLF)) =
      Some (lit ''GET / HTTP/1.1'' @ CRLF @ lit ''Host: h.org'' @ CRLF @ CRLF)" by code_simp
  show "list_all hdr_ok [(Some (lit ''Host''), lit ''h.org'')]" by code_simp
  show "list_all (\<lambda>c. 32 < c \<and> c \<noteq> 127) (lit ''/'')" by code_simp
qed (simp_all add: calm_open_def calm_hs_def hs_good_def request_line_def hdr_lines_def hdr_find_def tok_ieq_def lit_def)

text \<open>
  C30. The client reads the handshake's response byte by byte and stops right behind the first blank line, so that
  nothing of the first frame is lost; a header that does not end within 64 KiB is refused as too large, and a peer
  that stops earlier as a lost connection.
\<close>

theorem read_response_exact:
  assumes "\<forall>n. mem n"
  shows "(hdr_ends (take n s) \<and> n \<le> length s \<and> n \<le> 65536 \<and> (\<forall>m<n. \<not> hdr_ends (take m s)) \<longrightarrow>
      ws_read_response mem (map Arrives s @ evs) = Inr (take n s, map Arrives (drop n s) @ evs)) \<and>
    ((\<forall>m\<le>65536. \<not> hdr_ends (take m s)) \<longrightarrow>
      ws_read_response mem (map Arrives s) = Inl (if length s > 65536 then QE_WSFULL else QE_CONN))"
proof (intro conjI impI)
  have mem: "mem = (\<lambda>_. True)" using assms by auto
  assume "hdr_ends (take n s) \<and> n \<le> length s \<and> n \<le> 65536 \<and> (\<forall>m<n. \<not> hdr_ends (take m s))"
  moreover from this have "0 < n" by (cases n) (auto simp: hdr_ends_def)
  ultimately show "ws_read_response mem (map Arrives s @ evs) = Inr (take n s, map Arrives (drop n s) @ evs)"
    using read_found [of "\<lambda>_. True" 0 "[]" n s evs] unfolding mem by (simp add: ws_read_response_def)
next
  have mem: "mem = (\<lambda>_. True)" using assms by auto
  assume "\<forall>m\<le>65536. \<not> hdr_ends (take m s)"
  then show "ws_read_response mem (map Arrives s) = Inl (if length s > 65536 then QE_WSFULL else QE_CONN)"
    using read_missing [of "\<lambda>_. True" 0 "[]" s] unfolding mem by (simp add: ws_read_response_def)
qed

theorem read_response_exact_witness:
  "ws_read_response (\<lambda>_. True) (map Arrives ([65] @ CRLF @ CRLF @ [129, 0])) = Inr ([65] @ CRLF @ CRLF, map Arrives [129, 0])"
proof -
  have "\<not> hdr_ends (take m ([65] @ CRLF @ CRLF @ [129, 0]))" if "m < 5" for m
  proof -
    have "m \<in> {0, 1, 2, 3, 4}" using that by auto
    then show ?thesis by (auto simp: hdr_ends_def CRLF_def)
  qed
  moreover have "hdr_ends (take 5 ([65] @ CRLF @ CRLF @ [129, 0]))" by (simp add: hdr_ends_def CRLF_def)
  ultimately show ?thesis using read_response_exact [of "\<lambda>_. True" 5 "[65] @ CRLF @ CRLF @ [129, 0]" "[]"] by (simp add: CRLF_def)
qed

end
