(* ===== verification/NumParse.thy ===== *)
theory NumParse
  imports Prelude
begin

text \<open>
  The integer parsers of \<^verbatim>\<open>src/core/numparse.c\<close>: eight digits at a time in a 64-bit word, then one by one. A text with its
  length is the list of its bytes; \<open>memcpy\<close> into a word is the little-endian load of the machines the code runs on.

  Shown: the parallel digit test and the parallel accumulation agree with their definitions byte by byte, and
  \<open>ray_parse_i64\<close> is the decimal parser of its documentation: sign, longest run of digits, nothing on overflow.
\<close>

fun le_load :: "bytes \<Rightarrow> 'a :: len word" where
  "le_load [] = 0"
| "le_load (b # bs) = ucast b + 256 * le_load bs"

definition ray_is_8_digits :: "bytes \<Rightarrow> bool" where
  "ray_is_8_digits p =
    (let chunk = le_load (take 8 p) :: u64;
         under = chunk - 0x3030303030303030;
         over = chunk + 0x4646464646464646
     in (under OR over) AND 0x8080808080808080 = 0)"

definition ray_is_4_digits :: "bytes \<Rightarrow> bool" where
  "ray_is_4_digits p =
    (let chunk = le_load (take 4 p) :: u32;
         under = chunk - 0x30303030;
         over = chunk + 0x46464646
     in (under OR over) AND 0x80808080 = 0)"

definition ray_parse_8_digits :: "bytes \<Rightarrow> u64" where
  "ray_parse_8_digits p =
    (let chunk = le_load (take 8 p) - 0x3030303030303030;
         tens = chunk AND 0x000F000F000F000F;
         ones = drop_bit 8 chunk AND 0x000F000F000F000F;
         pairs = tens * 10 + ones;
         p_hi = pairs AND 0x000000FF000000FF;
         p_lo = drop_bit 16 pairs AND 0x000000FF000000FF;
         quads = p_hi * 100 + p_lo
     in (quads AND 0xFFFFFFFF) * 10000 + drop_bit 32 quads)"

definition ray_parse_4_digits :: "bytes \<Rightarrow> u32" where
  "ray_parse_4_digits p =
    (let chunk = le_load (take 4 p) - 0x30303030;
         tens = chunk AND 0x000F000F;
         ones = drop_bit 8 chunk AND 0x000F000F;
         pairs = tens * 10 + ones
     in (pairs AND 0xFFFF) * 100 + drop_bit 16 pairs)"

text \<open>The digits the parallel steps take off the front, and their value.\<close>

definition swar_front :: "bytes \<Rightarrow> nat \<times> u64" where
  "swar_front s =
    (if 8 \<le> length s \<and> ray_is_8_digits s
     then (let result = ray_parse_8_digits s
           in if 16 \<le> length s \<and> result \<le> 922337203 \<and> ray_is_8_digits (drop 8 s)
              then (16, result * 100000000 + ray_parse_8_digits (drop 8 s))
              else (8, result))
     else (0, 0))"

text \<open>The scalar tail: \<open>k\<close> significant digits are behind.\<close>

fun i64_tail :: "nat \<Rightarrow> u64 \<Rightarrow> bytes \<Rightarrow> (nat \<times> u64) option" where
  "i64_tail k result [] = Some (k, result)"
| "i64_tail k result (c # cs) =
    (if \<not> is_digit c then Some (k, result)
     else if k \<ge> 19 then None
     else (let prev = result; result = result * 10 + (ucast c - 48)
           in if result < prev then None else i64_tail (k + 1) result cs))"

text \<open>The bytes used and the value, \<open>None\<close> for the return value 0.\<close>

definition ray_parse_i64 :: "bytes \<Rightarrow> (nat \<times> int) option" where
  "ray_parse_i64 src =
    (if src = [] then None
     else (let neg = src ! 0 = 45;
               i = (if src ! 0 = 45 \<or> src ! 0 = 43 then 1 else 0)
           in if i = length src then None
              else (let body = drop i src;
                        zeros = length (takeWhile (\<lambda>c. c = 48) body);
                        sig = drop zeros body;
                        (k0, result0) = swar_front sig
                    in case i64_tail k0 result0 (drop k0 sig) of
                         None \<Rightarrow> None
                       | Some (k, result) \<Rightarrow>
                           if zeros + k = 0 then None
                           else if neg
                           then (if result > 0x8000000000000000 then None else Some (i + zeros + k, sint (0 - result)))
                           else (if result > 0x7FFFFFFFFFFFFFFF then None else Some (i + zeros + k, sint result)))))"

section \<open>Lanes\<close>

text \<open>A number as its bytes, least significant first.\<close>

fun le_nat :: "nat list \<Rightarrow> nat" where
  "le_nat [] = 0"
| "le_nat (b # bs) = b + 256 * le_nat bs"

lemma le_load_nat: "le_load bs = of_nat (le_nat (map unat bs))"
  by (induction bs) (simp_all add: of_nat_unat)

lemma le_nat_less: "\<forall>x\<in>set xs. x < 256 \<Longrightarrow> le_nat xs < 256 ^ length xs"
proof (induction xs)
  case (Cons x xs)
  then have "x + 256 * le_nat xs < 256 * (le_nat xs + 1)" "le_nat xs + 1 \<le> 256 ^ length xs" by auto
  then show ?case by simp
qed simp

lemma lane_and:
  assumes "a < 256" "b < 256"
  shows "(a + 256 * x) AND (b + 256 * y) = (a AND b) + 256 * (x AND y :: nat)"
proof -
  have split: "(m :: nat) = take_bit 8 m + 256 * drop_bit 8 m" for m by (simp add: take_bit_eq_mod drop_bit_eq_div)
  have "take_bit 8 (a + 256 * x) = a" "drop_bit 8 (a + 256 * x) = x" "take_bit 8 (b + 256 * y) = b" "drop_bit 8 (b + 256 * y) = y"
    using assms by (simp_all add: take_bit_eq_mod drop_bit_eq_div)
  then show ?thesis using split [of "(a + 256 * x) AND (b + 256 * y)"] by simp
qed

lemma lane_or:
  assumes "a < 256" "b < 256"
  shows "(a + 256 * x) OR (b + 256 * y) = (a OR b) + 256 * (x OR y :: nat)"
proof -
  have split: "(m :: nat) = take_bit 8 m + 256 * drop_bit 8 m" for m by (simp add: take_bit_eq_mod drop_bit_eq_div)
  have "take_bit 8 (a + 256 * x) = a" "drop_bit 8 (a + 256 * x) = x" "take_bit 8 (b + 256 * y) = b" "drop_bit 8 (b + 256 * y) = y"
    using assms by (simp_all add: take_bit_eq_mod drop_bit_eq_div)
  then show ?thesis using split [of "(a + 256 * x) OR (b + 256 * y)"] by simp
qed

text \<open>The lanes of a sum, with the carry between them.\<close>

fun add_lanes :: "nat \<Rightarrow> nat \<Rightarrow> nat list \<Rightarrow> nat list" where
  "add_lanes k c [] = []"
| "add_lanes k c (b # bs) = (b + k + c) mod 256 # add_lanes k ((b + k + c) div 256) bs"

lemma add_lanes_sum: "\<exists>e. le_nat bs + le_nat (replicate (length bs) k) + c = le_nat (add_lanes k c bs) + 256 ^ length bs * e"
proof (induction bs arbitrary: c)
  case Nil
  show ?case by (rule exI [of _ c]) simp
next
  case (Cons b bs)
  obtain e where e: "le_nat bs + le_nat (replicate (length bs) k) + (b + k + c) div 256 =
      le_nat (add_lanes k ((b + k + c) div 256) bs) + 256 ^ length bs * e" using Cons.IH by blast
  have "le_nat (b # bs) + le_nat (replicate (length (b # bs)) k) + c =
      (b + k + c) mod 256 + 256 * (le_nat bs + le_nat (replicate (length bs) k) + (b + k + c) div 256)" by (simp add: algebra_simps)
  also have "\<dots> = (b + k + c) mod 256 + 256 * (le_nat (add_lanes k ((b + k + c) div 256) bs) + 256 ^ length bs * e)" by (simp only: e)
  also have "\<dots> = le_nat (add_lanes k c (b # bs)) + 256 ^ length (b # bs) * e" by (simp add: algebra_simps)
  finally show ?case by blast
qed

lemma test_lanes: "(list_all (\<lambda>x. x < 128) (add_lanes 207 1 bs) \<and> list_all (\<lambda>x. x < 128) (add_lanes 70 0 bs)) =
    list_all (\<lambda>b. 48 \<le> b \<and> b \<le> 57) bs" if "list_all (\<lambda>b. b < 256) bs"
  using that
proof (induction bs)
  case (Cons b bs)
  show ?case
  proof (cases "48 \<le> b \<and> b \<le> 57")
    case True
    then obtain d where d: "b = 48 + d" "d \<le> 9" by (metis add_le_cancel_left le_Suc_ex numeral_plus_numeral add_num_simps)
    then have "(256 + d) div 256 = Suc 0" by (simp add: div_add_self1)
    then show ?thesis using Cons d by simp
  next
    case False
    have "b < 256" using Cons.prems by simp
    then consider "b < 48" | "58 \<le> b" "b < 186" | "186 \<le> b" using False by linarith
    then have "\<not> ((b + 207 + 1) mod 256 < 128 \<and> (b + 70 + 0) mod 256 < 128)"
      using \<open>b < 256\<close> by cases (auto simp: mod_if)
    then show ?thesis using False by auto
  qed
qed simp

lemma add_lanes_small: "x \<in> set (add_lanes k c bs) \<Longrightarrow> x < 256"
  by (induction bs arbitrary: c) auto

lemma add_lanes_length [simp]: "length (add_lanes k c bs) = length bs"
  by (induction bs arbitrary: c) auto

text \<open>A sum in a word of as many lanes.\<close>

lemma word_add_lanes:
  assumes "LENGTH('a) = 8 * length bs"
  shows "of_nat (le_nat bs) + of_nat (le_nat (replicate (length bs) k)) + of_nat c = (of_nat (le_nat (add_lanes k c bs)) :: 'a :: len word)"
proof -
  obtain e where e: "le_nat bs + le_nat (replicate (length bs) k) + c = le_nat (add_lanes k c bs) + 256 ^ length bs * e"
    using add_lanes_sum by blast
  have "(of_nat (256 ^ length bs) :: 'a word) = of_nat (2 ^ LENGTH('a))" by (simp add: assms power_mult)
  also have "\<dots> = 0" by (simp only: word_exp_length_eq_0 of_nat_power of_nat_numeral)
  finally show ?thesis using arg_cong [OF e, of "of_nat :: nat \<Rightarrow> 'a word"] by (simp del: of_nat_power)
qed

lemma msb_free:
  assumes "\<forall>x\<in>set xs. x < 256" "\<forall>y\<in>set ys. y < 256" "length xs = length ys"
  shows "(le_nat xs OR le_nat ys) AND le_nat (replicate (length ys) 128) = 0 \<longleftrightarrow> list_all (\<lambda>x. x < 128) xs \<and> list_all (\<lambda>x. x < 128) ys"
  using assms(3,1,2)
proof (induction rule: list_induct2)
  case (Cons x xs y ys)
  have bit7: "bit a 7 \<longleftrightarrow> 128 \<le> a" if "a < 256" for a :: nat
  proof -
    have "a div 128 = (if 128 \<le> a then 1 else 0)" using that by (simp add: div_nat_eqI)
    then show ?thesis by (simp add: bit_iff_odd)
  qed
  have "take_bit 8 (x OR y) = x OR y" using Cons.prems by (simp add: take_bit_nat_eq_self)
  then have "x OR y < 256" unfolding take_bit_nat_eq_self_iff by simp
  then have "(le_nat (x # xs) OR le_nat (y # ys)) AND le_nat (replicate (length (y # ys)) 128) =
      ((x OR y) AND 128) + 256 * ((le_nat xs OR le_nat ys) AND le_nat (replicate (length ys) 128))"
    using Cons.prems by (simp add: lane_or lane_and)
  moreover have "(x OR y) AND 128 = 0 \<longleftrightarrow> x < 128 \<and> y < 128"
    using and_exp_eq_0_iff_not_bit [of "x OR y" 7] bit7 [of x] bit7 [of y] Cons.prems by (auto simp: bit_or_iff)
  ultimately show ?case using Cons by auto
qed simp

lemma msb_clear:
  assumes "LENGTH('a) = 8 * length xs" "length xs = length ys" "\<forall>x\<in>set xs. x < 256" "\<forall>y\<in>set ys. y < 256"
  shows "((of_nat (le_nat xs) OR of_nat (le_nat ys)) AND of_nat (le_nat (replicate (length ys) 128)) = (0 :: 'a :: len word)) \<longleftrightarrow>
    list_all (\<lambda>x. x < 128) xs \<and> list_all (\<lambda>x. x < 128) ys"
proof -
  let ?r = "le_nat (replicate (length ys) 128)"
  have r: "?r < 2 ^ LENGTH('a)" using le_nat_less [of "replicate (length ys) 128"] assms(1,2) by (simp add: power_mult)
  have "m AND ?r \<le> ?r" for m :: nat using AND_upper2 [of "int ?r" "int m"] by (simp flip: of_nat_and_eq)
  then have "(le_nat xs OR le_nat ys) AND ?r < 2 ^ LENGTH('a)" using r le_less_trans by blast
  then have "(of_nat ((le_nat xs OR le_nat ys) AND ?r) = (0 :: 'a word)) \<longleftrightarrow> (le_nat xs OR le_nat ys) AND ?r = 0"
    using nat_dvd_not_less [of "(le_nat xs OR le_nat ys) AND ?r" "2 ^ LENGTH('a)"] by (auto simp: word_of_nat_eq_0_iff)
  then show ?thesis using msb_free [OF assms(3,4,2)] by (simp only: of_nat_and_eq of_nat_or_eq)
qed

lemma swar_digits:
  assumes n: "LENGTH('a) = 8 * length bs" and K: "K = of_nat (le_nat (replicate (length bs) 48))" "L = of_nat (le_nat (replicate (length bs) 70))"
    "M = of_nat (le_nat (replicate (length bs) 128))"
  shows "(((le_load bs - K) OR (le_load bs + L)) AND M = (0 :: 'a :: len word)) \<longleftrightarrow> list_all is_digit bs"
proof -
  let ?xs = "map unat bs"
  have b: "list_all (\<lambda>b. b < 256) ?xs" using unsigned_less [where ?'a = nat and ?'b = 8] by (auto simp: list_all_iff)
  have z: "le_nat (replicate n 48) + le_nat (replicate n 207) + 1 = 256 ^ n" for n by (induction n) simp_all
  have "(of_nat (256 ^ length bs) :: 'a word) = of_nat (2 ^ LENGTH('a))" by (simp add: n power_mult)
  also have "\<dots> = 0" by (simp only: word_exp_length_eq_0 of_nat_power of_nat_numeral)
  finally have z0: "K + of_nat (le_nat (replicate (length bs) 207)) + 1 = 0"
    using arg_cong [OF z [of "length bs"], of "of_nat :: nat \<Rightarrow> 'a word"] by (simp add: K(1) add.commute del: of_nat_power)
  have "le_load bs + of_nat (le_nat (replicate (length bs) 207)) + 1 =
      le_load bs + (K + of_nat (le_nat (replicate (length bs) 207)) + 1) - K" by simp
  then have "le_load bs - K = le_load bs + of_nat (le_nat (replicate (length bs) 207)) + 1" by (simp only: z0 add_0_right)
  also have "\<dots> = of_nat (le_nat (add_lanes 207 1 ?xs))"
    using word_add_lanes [where ?'a = 'a, of ?xs 207 1] n by (simp add: le_load_nat)
  finally have "le_load bs - K = of_nat (le_nat (add_lanes 207 1 ?xs))" .
  moreover have "le_load bs + L = of_nat (le_nat (add_lanes 70 0 ?xs))"
    using word_add_lanes [where ?'a = 'a, of ?xs 70 0] n by (simp add: le_load_nat K(2))
  moreover have "list_all is_digit bs \<longleftrightarrow> list_all (\<lambda>b. 48 \<le> b \<and> b \<le> 57) ?xs" by (simp add: list_all_iff is_digit_unat)
  ultimately show ?thesis
    using msb_clear [where ?'a = 'a, of "add_lanes 207 1 ?xs" "add_lanes 70 0 ?xs"] add_lanes_small test_lanes [OF b] n
    by (simp add: K(3))
qed

lemma rep8: "replicate 8 x = [x, x, x, x, x, x, x, x]"
  by (simp add: numeral_eq_Suc)

lemma is_8_digits:
  assumes "8 \<le> length s"
  shows "ray_is_8_digits s \<longleftrightarrow> list_all is_digit (take 8 s)"
proof -
  have "length (take 8 s) = 8" using assms by simp
  then show ?thesis unfolding ray_is_8_digits_def Let_def by (intro swar_digits) (simp_all add: rep8)
qed

lemma is_4_digits:
  assumes "4 \<le> length s"
  shows "ray_is_4_digits s \<longleftrightarrow> list_all is_digit (take 4 s)"
proof -
  have "length (take 4 s) = 4" "replicate 4 x = [x, x, x, x]" for x :: nat using assms by (simp_all add: numeral_eq_Suc)
  then show ?thesis unfolding ray_is_4_digits_def Let_def by (intro swar_digits) simp_all
qed

section \<open>Accumulation\<close>

lemma lanes_and [simp]: "x < 256 \<Longrightarrow> y < 256 \<Longrightarrow> le_nat (x # xs) AND le_nat (y # ys) = le_nat [x AND y] + 256 * (le_nat xs AND le_nat ys)"
  by (simp add: lane_and)

lemma and15: "d < 10 \<Longrightarrow> d AND 15 = (d :: nat)"
proof -
  assume "d < 10"
  then have "take_bit 4 d = d" by (simp add: take_bit_nat_eq_self)
  then show ?thesis by (simp add: take_bit_eq_mask mask_eq_exp_minus_1)
qed

lemma and255: "d < 256 \<Longrightarrow> d AND 255 = (d :: nat)"
proof -
  assume "d < 256"
  then have "take_bit 8 d = d" by (simp add: take_bit_nat_eq_self)
  then show ?thesis by (simp add: take_bit_eq_mask mask_eq_exp_minus_1)
qed

lemma drop_of_nat: "m < 2 ^ LENGTH('a) \<Longrightarrow> drop_bit n (of_nat m :: 'a :: len word) = of_nat (m div 2 ^ n)"
proof -
  assume m: "m < 2 ^ LENGTH('a)"
  then have "unat (drop_bit n (of_nat m :: 'a word)) = m div 2 ^ n" 
    by (simp only: unat_drop_bit_eq) (simp add: unat_of_nat take_bit_nat_eq_self drop_bit_eq_div)
  then show ?thesis by (metis of_nat_unat ucast_id)
qed

lemma list_8:
  assumes "8 \<le> length s"
  obtains a b c d e f g h where "take 8 s = [a, b, c, d, e, f, g, h]"
proof -
  have "length (take 8 s) = Suc (Suc (Suc (Suc (Suc (Suc (Suc (Suc 0)))))))" using assms by simp
  then show thesis using that unfolding length_Suc_conv by blast
qed

lemma len64: "LENGTH(64) = 64"
  by simp

text \<open>The three folds, on the digits of a number to base 256.\<close>

lemma fold_tens:
  assumes "\<forall>d\<in>{d0, d1, d2, d3, d4, d5, d6, d7}. d < 10"
  shows "le_nat [d0, d1, d2, d3, d4, d5, d6, d7] AND 0x000F000F000F000F = le_nat [d0, 0, d2, 0, d4, 0, d6]"
proof -
  have "le_nat [d0, d1, d2, d3, d4, d5, d6, d7] AND le_nat [15, 0, 15, 0, 15, 0, 15, 0] = le_nat [d0, 0, d2, 0, d4, 0, d6]"
    using assms by (simp add: and15 del: le_nat.simps(2)) simp
  moreover have "le_nat [15, 0, 15, 0, 15, 0, 15, 0] = 0x000F000F000F000F" by simp
  ultimately show ?thesis by (simp only:)
qed

lemma fold_pairs:
  assumes "\<forall>p\<in>{p0, p1, p2, p3}. p < 100"
  shows "le_nat [p0, 0, p1, 0, p2, 0, p3, 0] AND 0x000000FF000000FF = le_nat [p0, 0, 0, 0, p2]"
proof -
  have "le_nat [p0, 0, p1, 0, p2, 0, p3, 0] AND le_nat [255, 0, 0, 0, 255, 0, 0, 0] = le_nat [p0, 0, 0, 0, p2]"
    using assms by (simp add: and255 del: le_nat.simps(2)) simp
  moreover have "le_nat [255, 0, 0, 0, 255, 0, 0, 0] = 0x000000FF000000FF" by simp
  ultimately show ?thesis by (simp only:)
qed

lemma fold_word:
  assumes d: "\<forall>d\<in>{d0, d1, d2, d3, d4, d5, d6, d7}. d < 10"
    and chunk: "chunk = (of_nat (le_nat [d0, d1, d2, d3, d4, d5, d6, d7]) :: u64)"
  shows "(chunk AND 0x000F000F000F000F) * 10 + (drop_bit 8 chunk AND 0x000F000F000F000F) =
    of_nat (le_nat [d0 * 10 + d1, 0, d2 * 10 + d3, 0, d4 * 10 + d5, 0, d6 * 10 + d7, 0])"
proof -
  have tens: "chunk AND 0x000F000F000F000F = of_nat (le_nat [d0, 0, d2, 0, d4, 0, d6])"
    unfolding chunk fold_tens [OF d, symmetric] by (simp only: of_nat_and_eq of_nat_numeral)
  have "le_nat [d0, d1, d2, d3, d4, d5, d6, d7] < 2 ^ 64"
    using le_nat_less [of "[d0, d1, d2, d3, d4, d5, d6, d7]"] d by auto
  moreover have "le_nat [d0, d1, d2, d3, d4, d5, d6, d7] = d0 + 256 * le_nat [d1, d2, d3, d4, d5, d6, d7, 0]" by simp
  moreover have "(d0 + 256 * n) div 2 ^ 8 = n" for n using d by simp
  ultimately have dr: "drop_bit 8 chunk = of_nat (le_nat [d1, d2, d3, d4, d5, d6, d7, 0])"
    unfolding chunk by (simp only: drop_of_nat len64)
  have an: "le_nat [d1, d2, d3, d4, d5, d6, d7, 0] AND 0x000F000F000F000F = le_nat [d1, 0, d3, 0, d5, 0, d7]"
    using d by (intro fold_tens) simp
  have "drop_bit 8 chunk AND 0x000F000F000F000F = of_nat (le_nat [d1, 0, d3, 0, d5, 0, d7])"
    unfolding dr an [symmetric] by (simp only: of_nat_and_eq of_nat_numeral)
  then have "(chunk AND 0x000F000F000F000F) * 10 + (drop_bit 8 chunk AND 0x000F000F000F000F) =
      of_nat (le_nat [d0, 0, d2, 0, d4, 0, d6] * 10 + le_nat [d1, 0, d3, 0, d5, 0, d7])" by (simp only: tens of_nat_add of_nat_mult of_nat_numeral)
  also have "le_nat [d0, 0, d2, 0, d4, 0, d6] * 10 + le_nat [d1, 0, d3, 0, d5, 0, d7] =
      le_nat [d0 * 10 + d1, 0, d2 * 10 + d3, 0, d4 * 10 + d5, 0, d6 * 10 + d7, 0]" by simp
  finally show ?thesis .
qed

lemma fold_word_pairs:
  assumes p: "\<forall>p\<in>{p0, p1, p2, p3}. p < 100"
    and pairs: "pairs = (of_nat (le_nat [p0, 0, p1, 0, p2, 0, p3, 0]) :: u64)"
  shows "(pairs AND 0x000000FF000000FF) * 100 + (drop_bit 16 pairs AND 0x000000FF000000FF) =
    of_nat ((p0 * 100 + p1) + 2 ^ 32 * (p2 * 100 + p3))"
proof -
  have hi: "pairs AND 0x000000FF000000FF = of_nat (le_nat [p0, 0, 0, 0, p2])"
    unfolding pairs fold_pairs [OF p, symmetric] by (simp only: of_nat_and_eq of_nat_numeral)
  have "le_nat [p0, 0, p1, 0, p2, 0, p3, 0] < 2 ^ 64"
    using le_nat_less [of "[p0, 0, p1, 0, p2, 0, p3, 0]"] p by auto
  moreover have "le_nat [p0, 0, p1, 0, p2, 0, p3, 0] = p0 + 65536 * le_nat [p1, 0, p2, 0, p3, 0, 0, 0]" by simp
  moreover have "(p0 + 65536 * n) div 2 ^ 16 = n" for n using p by simp
  ultimately have dr: "drop_bit 16 pairs = of_nat (le_nat [p1, 0, p2, 0, p3, 0, 0, 0])"
    unfolding pairs by (simp only: drop_of_nat len64)
  have an: "le_nat [p1, 0, p2, 0, p3, 0, 0, 0] AND 0x000000FF000000FF = le_nat [p1, 0, 0, 0, p3]"
    using p by (intro fold_pairs) simp
  have "drop_bit 16 pairs AND 0x000000FF000000FF = of_nat (le_nat [p1, 0, 0, 0, p3])"
    unfolding dr an [symmetric] by (simp only: of_nat_and_eq of_nat_numeral)
  then have "(pairs AND 0x000000FF000000FF) * 100 + (drop_bit 16 pairs AND 0x000000FF000000FF) =
      of_nat (le_nat [p0, 0, 0, 0, p2] * 100 + le_nat [p1, 0, 0, 0, p3])" by (simp only: hi of_nat_add of_nat_mult of_nat_numeral)
  also have "le_nat [p0, 0, 0, 0, p2] * 100 + le_nat [p1, 0, 0, 0, p3] = (p0 * 100 + p1) + 2 ^ 32 * (p2 * 100 + p3)" by simp
  finally show ?thesis .
qed

lemma fold_word_quads:
  assumes q: "q0 < 10000" "q1 < 10000" and quads: "quads = (of_nat (q0 + 2 ^ 32 * q1) :: u64)"
  shows "(quads AND 0xFFFFFFFF) * 10000 + drop_bit 32 quads = of_nat (q0 * 10000 + q1)"
proof -
  have "quads AND 0xFFFFFFFF = take_bit 32 quads" unfolding take_bit_eq_mask mask_eq_exp_minus_1 by simp
  also have "\<dots> = of_nat (take_bit 32 (q0 + 2 ^ 32 * q1))" by (simp only: quads of_nat_take_bit)
  also have "take_bit 32 (q0 + 2 ^ 32 * q1) = q0" using q by (simp add: take_bit_eq_mod)
  finally have lo: "quads AND 0xFFFFFFFF = of_nat q0" .
  have "q0 + 2 ^ 32 * q1 < 2 ^ 64" "(q0 + 2 ^ 32 * q1) div 2 ^ 32 = q1" using q by simp_all
  then have "drop_bit 32 quads = of_nat q1" unfolding quads by (simp only: drop_of_nat len64)
  then show ?thesis by (simp only: lo of_nat_add of_nat_mult of_nat_numeral)
qed

lemma parse_8_digits:
  assumes "8 \<le> length s" "list_all is_digit (take 8 s)"
  shows "ray_parse_8_digits s = of_nat (dec_val (take 8 s))"
proof -
  obtain c0 c1 c2 c3 c4 c5 c6 c7 where t: "take 8 s = [c0, c1, c2, c3, c4, c5, c6, c7]" using list_8 [OF assms(1)] .
  define d where "d c = unat c - 48" for c :: u8
  have c: "unat x = 48 + d x" "d x < 10" if "x \<in> set (take 8 s)" for x
    using that assms(2) by (auto simp: list_all_iff is_digit_unat d_def)
  note C = c [unfolded t]
  have small: "\<forall>x\<in>{d c0, d c1, d c2, d c3, d c4, d c5, d c6, d c7}. x < 10" using C by simp
  let ?chunk = "le_load (take 8 s) - 0x3030303030303030 :: u64"
  have "le_load (take 8 s) = (of_nat (le_nat [d c0, d c1, d c2, d c3, d c4, d c5, d c6, d c7] + 0x3030303030303030) :: u64)"
    by (simp add: t le_load_nat C)
  then have "?chunk = of_nat (le_nat [d c0, d c1, d c2, d c3, d c4, d c5, d c6, d c7])" by simp
  note F = fold_word [OF small this]
  have p: "\<forall>p\<in>{d c0 * 10 + d c1, d c2 * 10 + d c3, d c4 * 10 + d c5, d c6 * 10 + d c7}. p < 100" using small by simp
  have q: "(d c0 * 10 + d c1) * 100 + (d c2 * 10 + d c3) < 10000" "(d c4 * 10 + d c5) * 100 + (d c6 * 10 + d c7) < 10000"
    using small by simp_all
  have "ray_parse_8_digits s = of_nat (((d c0 * 10 + d c1) * 100 + (d c2 * 10 + d c3)) * 10000 + ((d c4 * 10 + d c5) * 100 + (d c6 * 10 + d c7)))"
    unfolding ray_parse_8_digits_def Let_def by (rule fold_word_quads [OF q fold_word_pairs [OF p F]])
  also have "((d c0 * 10 + d c1) * 100 + (d c2 * 10 + d c3)) * 10000 + ((d c4 * 10 + d c5) * 100 + (d c6 * 10 + d c7)) = dec_val (take 8 s)"
    by (simp add: t dec_val_def d_def)
  finally show ?thesis .
qed

text \<open>The same with four lanes.\<close>

lemma fold_tens4:
  assumes "\<forall>d\<in>{d0, d1, d2, d3}. d < 10"
  shows "le_nat [d0, d1, d2, d3] AND 0x000F000F = le_nat [d0, 0, d2]"
proof -
  have "le_nat [d0, d1, d2, d3] AND le_nat [15, 0, 15, 0] = le_nat [d0, 0, d2]"
    using assms by (simp add: and15 del: le_nat.simps(2)) simp
  moreover have "le_nat [15, 0, 15, 0] = 0x000F000F" by simp
  ultimately show ?thesis by (simp only:)
qed

lemma fold_word4:
  assumes d: "\<forall>d\<in>{d0, d1, d2, d3}. d < 10" and chunk: "chunk = (of_nat (le_nat [d0, d1, d2, d3]) :: u32)"
  shows "(chunk AND 0x000F000F) * 10 + (drop_bit 8 chunk AND 0x000F000F) = of_nat ((d0 * 10 + d1) + 2 ^ 16 * (d2 * 10 + d3))"
proof -
  have tens: "chunk AND 0x000F000F = of_nat (le_nat [d0, 0, d2])"
    unfolding chunk fold_tens4 [OF d, symmetric] by (simp only: of_nat_and_eq of_nat_numeral)
  have "le_nat [d0, d1, d2, d3] < 2 ^ LENGTH(32)" using le_nat_less [of "[d0, d1, d2, d3]"] d by auto
  moreover have "le_nat [d0, d1, d2, d3] = d0 + 256 * le_nat [d1, d2, d3, 0]" by simp
  moreover have "(d0 + 256 * n) div 2 ^ 8 = n" for n using d by simp
  ultimately have dr: "drop_bit 8 chunk = of_nat (le_nat [d1, d2, d3, 0])" unfolding chunk by (simp only: drop_of_nat)
  have an: "le_nat [d1, d2, d3, 0] AND 0x000F000F = le_nat [d1, 0, d3]" using d by (intro fold_tens4) simp
  have "drop_bit 8 chunk AND 0x000F000F = of_nat (le_nat [d1, 0, d3])"
    unfolding dr an [symmetric] by (simp only: of_nat_and_eq of_nat_numeral)
  then have "(chunk AND 0x000F000F) * 10 + (drop_bit 8 chunk AND 0x000F000F) = of_nat (le_nat [d0, 0, d2] * 10 + le_nat [d1, 0, d3])"
    by (simp only: tens of_nat_add of_nat_mult of_nat_numeral)
  also have "le_nat [d0, 0, d2] * 10 + le_nat [d1, 0, d3] = (d0 * 10 + d1) + 2 ^ 16 * (d2 * 10 + d3)" by simp
  finally show ?thesis .
qed

lemma parse_4_digits:
  assumes "4 \<le> length s" "list_all is_digit (take 4 s)"
  shows "ray_parse_4_digits s = of_nat (dec_val (take 4 s))"
proof -
  have "length (take 4 s) = Suc (Suc (Suc (Suc 0)))" using assms by simp
  then obtain c0 c1 c2 c3 where t: "take 4 s = [c0, c1, c2, c3]" unfolding length_Suc_conv by blast
  define d where "d c = unat c - 48" for c :: u8
  have c: "unat x = 48 + d x" "d x < 10" if "x \<in> set (take 4 s)" for x
    using that assms(2) by (auto simp: list_all_iff is_digit_unat d_def)
  note C = c [unfolded t]
  have small: "\<forall>x\<in>{d c0, d c1, d c2, d c3}. x < 10" using C by simp
  let ?q = "(d c0 * 10 + d c1) + 2 ^ 16 * (d c2 * 10 + d c3)"
  have "le_load (take 4 s) = (of_nat (le_nat [d c0, d c1, d c2, d c3] + 0x30303030) :: u32)" by (simp add: t le_load_nat C)
  then have "le_load (take 4 s) - 0x30303030 = (of_nat (le_nat [d c0, d c1, d c2, d c3]) :: u32)" by simp
  note F = fold_word4 [OF small this]
  have "(of_nat ?q :: u32) AND 0xFFFF = take_bit 16 (of_nat ?q)" unfolding take_bit_eq_mask mask_eq_exp_minus_1 by simp
  also have "\<dots> = of_nat (take_bit 16 ?q)" by (simp only: of_nat_take_bit)
  also have "take_bit 16 ?q = d c0 * 10 + d c1"
  proof -
    have "take_bit 16 (a + 2 ^ 16 * b) = a" if "a < 100" for a b :: nat using that by (simp add: take_bit_eq_mod)
    moreover have "d c0 * 10 + d c1 < 100" using small by simp
    ultimately show ?thesis by blast
  qed
  finally have lo: "(of_nat ?q :: u32) AND 0xFFFF = of_nat (d c0 * 10 + d c1)" .
  have "?q < 2 ^ LENGTH(32)" using small by simp
  moreover have "(a + 2 ^ 16 * b) div 2 ^ 16 = b" if "a < 100" for a b :: nat using that by simp
  moreover have "d c0 * 10 + d c1 < 100" using small by simp
  ultimately have "?q < 2 ^ LENGTH(32)" "?q div 2 ^ 16 = d c2 * 10 + d c3" by blast+
  then have hi: "drop_bit 16 (of_nat ?q :: u32) = of_nat (d c2 * 10 + d c3)" by (simp only: drop_of_nat)
  have "ray_parse_4_digits s = of_nat ((d c0 * 10 + d c1) * 100 + (d c2 * 10 + d c3))"
    unfolding ray_parse_4_digits_def Let_def F lo hi by (simp only: of_nat_add of_nat_mult of_nat_numeral)
  also have "(d c0 * 10 + d c1) * 100 + (d c2 * 10 + d c3) = dec_val (take 4 s)" by (simp add: t dec_val_def d_def)
  finally show ?thesis .
qed

section \<open>The integer parser\<close>

lemma dec_val_lead: "ds \<noteq> [] \<Longrightarrow> \<forall>c\<in>set ds. is_digit c \<Longrightarrow> hd ds \<noteq> 48 \<Longrightarrow> 10 ^ (length ds - 1) \<le> dec_val ds"
proof -
  assume a: "ds \<noteq> []" "\<forall>c\<in>set ds. is_digit c" "hd ds \<noteq> 48"
  then have "48 \<le> unat (hd ds)" "unat (hd ds) \<noteq> 48" by (simp_all add: is_digit_unat word_eq_iff_unsigned [where ?'a = nat])
  then have "1 \<le> dec_val [hd ds]" by (simp add: dec_val_def)
  then have "10 ^ length (tl ds) \<le> dec_val [hd ds] * 10 ^ length (tl ds) + dec_val (tl ds)" by (simp add: trans_le_add1)
  then show ?thesis using dec_val_append [of "[hd ds]" "tl ds"] a(1) by simp
qed

lemma tail_value:
  assumes "\<forall>c\<in>set pre. is_digit c" "length pre \<le> 19"
  shows "i64_tail (length pre) (of_nat (dec_val pre)) s =
    (let ds = pre @ takeWhile is_digit s in if length ds \<le> 19 then Some (length ds, of_nat (dec_val ds)) else None)"
  using assms
proof (induction s arbitrary: pre)
  case (Cons c s)
  show ?case
  proof (cases "is_digit c \<and> length pre < 19")
    case True
    have d: "\<forall>x\<in>set (pre @ [c]). is_digit x" using Cons.prems(1) True by simp
    have "(of_nat (dec_val pre) :: u64) * 10 + (ucast c - 48) = of_nat (dec_val (pre @ [c]))"
      using True by (simp add: is_digit_unat of_nat_diff)
    moreover have "\<not> (of_nat (dec_val (pre @ [c])) :: u64) < of_nat (dec_val pre)"
    proof -
      have "dec_val (pre @ [c]) < 10 ^ length (pre @ [c])" using dec_val_less [OF d] .
      also have "\<dots> \<le> 10 ^ 19" using True by (intro power_increasing) simp_all
      finally have "dec_val (pre @ [c]) < 2 ^ 64" by simp
      moreover have "dec_val pre \<le> dec_val (pre @ [c])" by simp
      ultimately show ?thesis by (simp add: word_less_nat_alt unat_of_nat take_bit_nat_eq_self del: dec_val_snoc)
    qed
    ultimately show ?thesis using True Cons.IH [OF d] by simp
  next
    case False
    then show ?thesis using Cons.prems by auto
  qed
qed simp

lemma front_value:
  "\<exists>n. swar_front s = (n, of_nat (dec_val (take n s))) \<and> n \<le> 16 \<and> n \<le> length s \<and> list_all is_digit (take n s)"
proof (cases "8 \<le> length s \<and> ray_is_8_digits s")
  case True
  then have d: "list_all is_digit (take 8 s)" and v: "ray_parse_8_digits s = of_nat (dec_val (take 8 s))"
    using is_8_digits parse_8_digits by blast+
  show ?thesis
  proof (cases "16 \<le> length s \<and> ray_parse_8_digits s \<le> 922337203 \<and> ray_is_8_digits (drop 8 s)")
    case second: True
    have l: "8 \<le> length (drop 8 s)" using second by (simp add: le_diff_conv2)
    have d2: "list_all is_digit (take 8 (drop 8 s))" using is_8_digits [OF l] second by blast
    have t: "take 16 s = take 8 s @ take 8 (drop 8 s)" using take_add [of 8 8 s] by simp
    have "dec_val (take 16 s) = dec_val (take 8 s) * 100000000 + dec_val (take 8 (drop 8 s))"
      using l by (simp add: t dec_val_append)
    then have "swar_front s = (16, of_nat (dec_val (take 16 s)))"
      using True second v parse_8_digits [OF l d2] by (simp add: swar_front_def)
    then show ?thesis using d d2 second by (intro exI [of _ 16]) (simp add: t)
  next
    case False
    then show ?thesis using True d v by (intro exI [of _ 8]) (auto simp: swar_front_def)
  qed
qed (auto simp: swar_front_def)

text \<open>The digits behind the leading zeros, read by the parallel steps and the tail together.\<close>

lemma significant_value:
  "(case swar_front s of (k0, r0) \<Rightarrow> i64_tail k0 r0 (drop k0 s)) =
    (let ds = takeWhile is_digit s in if length ds \<le> 19 then Some (length ds, of_nat (dec_val ds)) else None)"
proof -
  obtain n where n: "swar_front s = (n, of_nat (dec_val (take n s)))" "n \<le> 16" "n \<le> length s" "list_all is_digit (take n s)"
    using front_value by blast
  have "takeWhile is_digit s = take n s @ takeWhile is_digit (drop n s)"
    using n(4) takeWhile_append2 [of "take n s" is_digit "drop n s"] by (simp add: list_all_iff)
  then show ?thesis using n tail_value [of "take n s" "drop n s"] by (simp add: list_all_iff)
qed

definition i64_spec :: "bytes \<Rightarrow> (nat \<times> int) option" where
  "i64_spec src =
    (let neg = src \<noteq> [] \<and> hd src = 45;
         i = (if src \<noteq> [] \<and> (hd src = 45 \<or> hd src = 43) then 1 else 0);
         ds = takeWhile is_digit (drop i src);
         v = (if neg then - int (dec_val ds) else int (dec_val ds))
     in if ds = [] \<or> v < - (2 ^ 63) \<or> 2 ^ 63 \<le> v then None else Some (i + length ds, v))"

lemma zeros_split:
  fixes body :: bytes
  defines "z \<equiv> takeWhile (\<lambda>c. c = 48) body"
  shows "takeWhile is_digit body = z @ takeWhile is_digit (drop (length z) body)" "dec_val (z @ ds) = dec_val ds"
    "drop (length z) body \<noteq> [] \<Longrightarrow> hd (drop (length z) body) \<noteq> 48"
proof -
  have z: "z = replicate (length z) 48" unfolding z_def by (induction body) auto
  have "\<forall>c\<in>set z. is_digit c" unfolding z_def by (auto dest!: set_takeWhileD simp: is_digit_def word_le_nat_alt)
  then show "takeWhile is_digit body = z @ takeWhile is_digit (drop (length z) body)"
    using takeWhile_append2 [of z is_digit "drop (length z) body"] by (simp add: z_def flip: dropWhile_eq_drop)
  have "dec_val (replicate n 48) = 0" for n by (induction n) (simp_all flip: replicate_append_same)
  then show "dec_val (z @ ds) = dec_val ds" by (subst z) (simp add: dec_val_append)
  show "drop (length z) body \<noteq> [] \<Longrightarrow> hd (drop (length z) body) \<noteq> 48"
    unfolding z_def dropWhile_eq_drop [symmetric] using hd_dropWhile [of "\<lambda>c. c = 48" body] by simp
qed

lemma fits_positive: "v < 10 ^ 19 \<Longrightarrow> (of_nat v :: u64) > 0x7FFFFFFFFFFFFFFF \<longleftrightarrow> 2 ^ 63 \<le> v"
  "v < 2 ^ 63 \<Longrightarrow> sint (of_nat v :: u64) = int v"
  by (auto simp: word_less_nat_alt unat_of_nat take_bit_nat_eq_self sint_uint unsigned_of_nat signed_take_bit_int_eq_self)

lemma fits_negative: "v < 10 ^ 19 \<Longrightarrow> (of_nat v :: u64) > 0x8000000000000000 \<longleftrightarrow> 2 ^ 63 < v"
  "v \<le> 2 ^ 63 \<Longrightarrow> sint (0 - of_nat v :: u64) = - int v"
proof -
  show "v < 10 ^ 19 \<Longrightarrow> (of_nat v :: u64) > 0x8000000000000000 \<longleftrightarrow> 2 ^ 63 < v"
    by (simp add: word_less_nat_alt unat_of_nat take_bit_nat_eq_self)
  assume "v \<le> 2 ^ 63"
  then have "signed_take_bit 63 (- int v) = - int v" by (simp add: signed_take_bit_int_eq_self)
  moreover have "(0 - of_nat v :: u64) = word_of_int (- int v)" by simp
  ultimately show "sint (0 - of_nat v :: u64) = - int v" by (simp only: signed_of_int) simp
qed

text \<open>
  C32. \<open>ray_parse_i64\<close> is the decimal parser it is documented to be: an optional sign, then the longest run of digits;
  it answers the bytes used and the exact value when there is a digit and the value fits 64 bits, and 0 otherwise.
  The words of eight digits, the skipped zeros and the cap of 19 digits make no difference, also at the two ends
  of the range.
\<close>

theorem parse_i64_exact: "ray_parse_i64 src = i64_spec src"
proof (cases "src = []")
  case False
  define i :: nat where "i = (if src ! 0 = 45 \<or> src ! 0 = 43 then 1 else 0)"
  let ?body = "drop i src"
  let ?z = "takeWhile (\<lambda>c. c = 48) ?body"
  let ?sig = "drop (length ?z) ?body"
  let ?ds = "takeWhile is_digit ?sig"
  have ds: "takeWhile is_digit ?body = ?z @ ?ds" "dec_val (takeWhile is_digit ?body) = dec_val ?ds"
    using zeros_split [of ?body] by simp_all
  have dig: "\<forall>c\<in>set ?ds. is_digit c" by (auto dest: set_takeWhileD)
  obtain k0 r0 where sw: "swar_front ?sig = (k0, r0)" by (cases "swar_front ?sig")
  have tl: "i64_tail k0 r0 (drop k0 ?sig) = (if length ?ds \<le> 19 then Some (length ?ds, of_nat (dec_val ?ds)) else None)"
    using significant_value [of ?sig] unfolding sw Let_def prod.case .
  have E: "ray_parse_i64 src = (if i = length src then None
      else case (if length ?ds \<le> 19 then Some (length ?ds, of_nat (dec_val ?ds) :: u64) else None) of
             None \<Rightarrow> None
           | Some (k, result) \<Rightarrow>
               if length ?z + k = 0 then None
               else if src ! 0 = 45
               then (if result > 0x8000000000000000 then None else Some (i + length ?z + k, sint (0 - result)))
               else (if result > 0x7FFFFFFFFFFFFFFF then None else Some (i + length ?z + k, sint result)))"
    unfolding ray_parse_i64_def Let_def i_def [symmetric] sw prod.case tl by (simp only: False if_False)
  have S: "i64_spec src = (let v = (if src ! 0 = 45 then - int (dec_val ?ds) else int (dec_val ?ds))
      in if length ?z + length ?ds = 0 \<or> v < - (2 ^ 63) \<or> 2 ^ 63 \<le> v then None else Some (i + length ?z + length ?ds, v))"
  proof -
    have "(if src \<noteq> [] \<and> (hd src = 45 \<or> hd src = 43) then 1 else 0) = i" "(src \<noteq> [] \<and> hd src = 45) = (src ! 0 = 45)"
      using False by (simp_all add: i_def hd_conv_nth)
    then show ?thesis unfolding i64_spec_def Let_def ds(1) zeros_split(2)
      by (simp only: ds(1) zeros_split(2) append_is_Nil_conv length_append add_is_0 length_0_conv add.assoc)
  qed
  show ?thesis
  proof (cases "length ?ds \<le> 19")
    case True
    have "dec_val ?ds < 10 ^ length ?ds" using dec_val_less [OF dig] .
    also have "\<dots> \<le> 10 ^ 19" using True by (intro power_increasing) simp_all
    finally have small: "dec_val ?ds < 10 ^ 19" .
    show ?thesis
    proof (cases "i = length src")
      case True
      then show ?thesis unfolding E S by simp
    next
      case False
      then show ?thesis unfolding E S Let_def using True fits_positive [of "dec_val ?ds"] fits_negative [of "dec_val ?ds"] small by auto
    qed
  next
    case long: False
    then have "?ds \<noteq> []" by auto
    then have "?sig \<noteq> []" "hd ?ds = hd ?sig" by (cases ?sig; auto split: if_splits)+
    then have "10 ^ (length ?ds - 1) \<le> dec_val ?ds" using dec_val_lead [OF \<open>?ds \<noteq> []\<close> dig] zeros_split(3) [of ?body] by simp
    moreover have "(10 :: nat) ^ 19 \<le> 10 ^ (length ?ds - 1)" using long by (intro power_increasing) simp_all
    ultimately have "10 ^ 19 \<le> dec_val ?ds" by linarith
    then have "2 ^ 63 < int (dec_val ?ds)" by simp
    then show ?thesis unfolding E S Let_def using long by simp
  qed
qed (simp add: ray_parse_i64_def i64_spec_def)

end
