(* ===== verification/StableSort.thy ===== *)
theory StableSort
  imports Prelude "HOL-Library.Product_Lexorder" "HOL-Library.Multiset"
begin

text \<open>
  Facts about the library's stable sort \<open>sort_key\<close>, the specification of the sorting kernels: two stable sorts one after
  the other are a sort by both keys, keys with the same order give the same sort, and equal keys leave a list as it is.
\<close>

lemma lex_sorted:
  fixes f :: "'a \<Rightarrow> 'k :: linorder" and g :: "'a \<Rightarrow> 'l :: linorder"
  assumes "sorted_wrt (\<lambda>x y. f x \<le> f y) ys" "\<And>v. sorted_wrt (\<lambda>x y. g x \<le> g y) (filter (\<lambda>x. f x = v) ys)"
  shows "sorted_wrt (\<lambda>x y. (f x, g x) \<le> (f y, g y)) ys"
  using assms
proof (induction ys)
  case (Cons x ys)
  have "(f x, g x) \<le> (f y, g y)" if "y \<in> set ys" for y
  proof (cases "f y = f x")
    case True
    then have "y \<in> set (filter (\<lambda>z. f z = f x) ys)" using that by simp
    then have "g x \<le> g y" using Cons.prems(2) [of "f x"] by auto
    then show ?thesis using True by simp
  next
    case False
    then show ?thesis using Cons.prems(1) that by (auto simp: less_le)
  qed
  moreover have "sorted_wrt (\<lambda>x y. g x \<le> g y) (filter (\<lambda>x. f x = v) ys)" for v
    using Cons.prems(2) [of v] by (auto split: if_splits)
  ultimately show ?case using Cons by simp
qed simp

lemma sort_key_twice: "sort_key f (sort_key g xs) = sort_key (\<lambda>x. (f x, g x)) xs"
  for f :: "'a \<Rightarrow> 'k :: linorder" and g :: "'a \<Rightarrow> 'l :: linorder"
proof (rule properties_for_sort_key [symmetric])
  let ?ys = "sort_key f (sort_key g xs)"
  show "mset ?ys = mset xs" by simp
  show "filter (\<lambda>x. (f k, g k) = (f x, g x)) ?ys = filter (\<lambda>x. (f k, g k) = (f x, g x)) xs" for k
  proof -
    have both: "filter (\<lambda>x. (f k, g k) = (f x, g x)) zs = filter (\<lambda>x. g x = g k) (filter (\<lambda>x. f x = f k) zs)" for zs
      unfolding filter_filter by (rule filter_cong) auto
    have other: "filter P (filter Q zs) = filter Q (filter P zs)" for P Q and zs :: "'a list" by (simp add: conj_commute)
    show ?thesis unfolding both sort_key_stable unfolding other [of "\<lambda>x. g x = g k"] sort_key_stable by (rule refl)
  qed
  have "sorted_wrt (\<lambda>x y. f x \<le> f y) ?ys" using sorted_sort_key [of f "sort_key g xs"] by (simp add: sorted_map)
  moreover have "sorted_wrt (\<lambda>x y. g x \<le> g y) (filter (\<lambda>x. f x = v) ?ys)" for v
  proof -
    have "sorted (map g (sort_key g xs))" by simp
    then have "sorted (map g (filter (\<lambda>x. f x = v) (sort_key g xs)))" by (rule sorted_filter)
    then show ?thesis by (simp add: sort_key_stable sorted_map)
  qed
  ultimately show "sorted (map (\<lambda>x. (f x, g x)) ?ys)" using lex_sorted [of f ?ys g] by (simp add: sorted_map)
qed

lemma sort_key_same:
  fixes f :: "'a \<Rightarrow> 'k :: linorder" and g :: "'a \<Rightarrow> 'l :: linorder"
  assumes le: "\<And>x y. x \<in> set xs \<Longrightarrow> y \<in> set xs \<Longrightarrow> (f x \<le> f y) = (g x \<le> g y)"
  shows "sort_key f xs = sort_key g xs"
proof (rule properties_for_sort_key)
  let ?ys = "sort_key g xs"
  show "mset ?ys = mset xs" by simp
  have eq: "f x = f y \<longleftrightarrow> g x = g y" if "x \<in> set xs" "y \<in> set xs" for x y
    using le [OF that] le [OF that(2,1)] by (auto simp: eq_iff)
  show "filter (\<lambda>x. f k = f x) ?ys = filter (\<lambda>x. f k = f x) xs" if "k \<in> set ?ys" for k
  proof -
    have "filter (\<lambda>x. f k = f x) zs = filter (\<lambda>x. g x = g k) zs" if "set zs \<subseteq> set xs" for zs
      using \<open>k \<in> set ?ys\<close> that eq by (intro filter_cong) auto
    then show ?thesis by (simp add: sort_key_stable)
  qed
  have "sorted_wrt (\<lambda>x y. g x \<le> g y) ?ys" using sorted_sort_key [of g xs] by (simp add: sorted_map)
  then have "sorted_wrt (\<lambda>x y. f x \<le> f y) ?ys" using le by (auto elim!: sorted_wrt_mono_rel [rotated])
  then show "sorted (map f ?ys)" by (simp add: sorted_map)
qed

lemma sort_key_const: "(\<And>x. x \<in> set xs \<Longrightarrow> f x = c) \<Longrightarrow> sort_key f xs = xs"
proof -
  assume "\<And>x. x \<in> set xs \<Longrightarrow> f x = c"
  then have "sorted (map f xs)" by (simp add: sorted_iff_nth_mono)
  then show ?thesis by (rule sort_key_id_if_sorted)
qed

end
