(* ===== verification/KeySort.thy ===== *)
theory KeySort
  imports Prelude "HOL-Library.Product_Lexorder" "HOL-Library.Multiset"
begin

text \<open>
  The comparison sort of \<^verbatim>\<open>src/ops/sort.c\<close> for small inputs: introsort on encoded keys and row indices. The two arrays
  are always moved together, so they are one list of pairs; a part of an array that is handed on by pointer and
  length is the list of its elements.

  Shown: insertion sort, heapsort and introsort, whatever its depth, all return the sorted list, that is the rows in
  key order with ties in row order.
\<close>

section \<open>The sorts\<close>

type_synonym kv = "u64 \<times> int"

definition key_lt :: "kv \<Rightarrow> kv \<Rightarrow> bool" where
  "key_lt x y \<longleftrightarrow> fst x < fst y \<or> (fst x = fst y \<and> snd x < snd y)"

definition swap :: "'a list \<Rightarrow> nat \<Rightarrow> nat \<Rightarrow> 'a list" where
  "swap a i j = a[i := a ! j, j := a ! i]"

definition largest :: "nat \<Rightarrow> nat \<Rightarrow> kv list \<Rightarrow> nat" where
  "largest n i a =
    (let l = 2 * i + 1; r = 2 * i + 2;
         g = (if l < n \<and> key_lt (a ! i) (a ! l) then l else i)
     in if r < n \<and> key_lt (a ! g) (a ! r) then r else g)"

lemma largest_range: "largest n i a \<noteq> i \<Longrightarrow> i < largest n i a \<and> largest n i a < n"
  by (auto simp: largest_def Let_def split: if_splits)

function key_sift_down :: "nat \<Rightarrow> nat \<Rightarrow> kv list \<Rightarrow> kv list" where
  "key_sift_down n i a =
    (let g = largest n i a in if g = i then a else key_sift_down n g (swap a i g))"
  by pat_completeness auto
termination by (relation "measure (\<lambda>(n, i, a). n - i)") (auto dest: largest_range)

declare key_sift_down.simps [simp del]

definition key_heapsort :: "kv list \<Rightarrow> kv list" where
  "key_heapsort a =
    (let n = length a;
         a = fold (key_sift_down n) (rev [0..<n div 2]) a
     in fold (\<lambda>i a. key_sift_down i 0 (swap a 0 i)) (rev [1..<n]) a)"

text \<open>The inner loop: \<open>m\<close> is \<open>j + 1\<close>.\<close>

fun ins_loop :: "kv \<Rightarrow> kv list \<Rightarrow> nat \<Rightarrow> kv list" where
  "ins_loop x a 0 = a[0 := x]"
| "ins_loop x a (Suc j) = (if key_lt x (a ! j) then ins_loop x (a[Suc j := a ! j]) j else a[Suc j := x])"

definition key_insertion_sort :: "kv list \<Rightarrow> kv list" where
  "key_insertion_sort a = fold (\<lambda>i a. ins_loop (a ! i) a i) [1..<length a] a"

definition pivot_index :: "kv list \<Rightarrow> nat" where
  "pivot_index xs =
    (let n = length xs; mid = n div 2; a = xs ! 0; b = xs ! mid; c = xs ! (n - 1)
     in if key_lt a b
        then (if key_lt b c then mid else if key_lt a c then n - 1 else 0)
        else (if key_lt a c then 0 else if key_lt b c then n - 1 else mid))"

definition part_step :: "kv \<Rightarrow> nat \<Rightarrow> kv list \<times> nat \<Rightarrow> kv list \<times> nat" where
  "part_step p i s = (let (a, lo) = s in if key_lt (a ! i) p then (swap a i lo, lo + 1) else (a, lo))"

text \<open>The pivot is moved to the end, the rest is partitioned, the pivot put between the parts.\<close>

definition partition_kv :: "kv list \<Rightarrow> kv list \<times> nat" where
  "partition_kv xs =
    (let n = length xs; pi = pivot_index xs; p = xs ! pi;
         (a, lo) = fold (part_step p) [0..<n - 1] (swap xs pi (n - 1), 0)
     in (a[n - 1 := a ! lo, lo := p], lo))"

fun key_introsort_impl :: "nat \<Rightarrow> kv list \<Rightarrow> kv list" where
  "key_introsort_impl 0 xs = (if length xs > 32 then key_heapsort xs else key_insertion_sort xs)"
| "key_introsort_impl (Suc depth) xs =
    (if length xs > 32
     then (let (a, lo) = partition_kv xs
           in key_introsort_impl depth (take lo a) @ [a ! lo] @ key_introsort_impl depth (drop (lo + 1) a))
     else key_insertion_sort xs)"

fun log_depth :: "nat \<Rightarrow> nat" where
  "log_depth nn = (if nn > 1 then Suc (log_depth (nn div 2)) else 0)"

declare log_depth.simps [simp del]

definition key_introsort :: "kv list \<Rightarrow> kv list" where
  "key_introsort xs = (if length xs \<le> 1 then xs else key_introsort_impl (log_depth (length xs) * 2) xs)"

section \<open>Swaps\<close>

lemma key_lt_less [simp]: "key_lt x y \<longleftrightarrow> x < y"
  by (cases x; cases y) (auto simp: key_lt_def)

lemma kv_swap_length [simp]: "length (swap a i j) = length a"
  by (simp add: swap_def)

lemma kv_swap_nth: "i < length a \<Longrightarrow> j < length a \<Longrightarrow> swap a i j ! k = (if k = j then a ! i else if k = i then a ! j else a ! k)"
  by (simp add: swap_def nth_list_update)

lemma kv_swap_mset [simp]: "i < length a \<Longrightarrow> j < length a \<Longrightarrow> mset (swap a i j) = mset a"
  by (simp add: swap_def mset_swap)

lemma swap_drop: "i < m \<Longrightarrow> j < m \<Longrightarrow> drop m (swap a i j) = drop m a"
  by (simp add: swap_def)

lemma nth_in_take: "i < n \<Longrightarrow> i < length a \<Longrightarrow> a ! i \<in> set (take n a)"
  by (auto simp: in_set_conv_nth)

section \<open>Heaps\<close>

text \<open>Every node from \<open>lo\<close> on is at least its children below \<open>n\<close>; \<open>heap_but\<close> leaves out the node \<open>i\<close>.\<close>

definition child :: "nat \<Rightarrow> nat \<Rightarrow> bool" where
  "child k c \<longleftrightarrow> c = 2 * k + 1 \<or> c = 2 * k + 2"

definition max_heap :: "nat \<Rightarrow> nat \<Rightarrow> kv list \<Rightarrow> bool" where
  "max_heap lo n a \<longleftrightarrow> (\<forall>k c. lo \<le> k \<and> child k c \<and> c < n \<longrightarrow> a ! c \<le> a ! k)"

definition heap_but :: "nat \<Rightarrow> nat \<Rightarrow> nat \<Rightarrow> kv list \<Rightarrow> bool" where
  "heap_but lo n i a \<longleftrightarrow>
    (\<forall>k c. lo \<le> k \<and> k \<noteq> i \<and> child k c \<and> c < n \<longrightarrow> a ! c \<le> a ! k) \<and>
    (\<forall>k c. lo \<le> k \<and> child k i \<and> child i c \<and> c < n \<longrightarrow> a ! c \<le> a ! k)"

lemma child_unique: "child k c \<Longrightarrow> child k' c \<Longrightarrow> k = k'"
  by (auto simp: child_def)

lemma child_less: "child k c \<Longrightarrow> k < c"
  by (auto simp: child_def)

lemma largest_child: "largest n i a \<noteq> i \<Longrightarrow> child i (largest n i a)"
  by (auto simp: largest_def child_def Let_def split: if_splits)

lemma largest_max: "child i c \<Longrightarrow> c < n \<Longrightarrow> a ! c \<le> a ! largest n i a"
  by (auto simp: largest_def child_def Let_def split: if_splits)

lemma largest_gt: "largest n i a \<noteq> i \<Longrightarrow> a ! i < a ! largest n i a"
  by (auto simp: largest_def Let_def split: if_splits)

lemma sift_heap:
  assumes "heap_but lo n i a" "lo \<le> i" "n \<le> length a" "i < length a"
  shows "max_heap lo n (key_sift_down n i a)"
  using assms
proof (induction n i a rule: key_sift_down.induct)
  case (1 n i a)
  define g where "g = largest n i a"
  show ?case
  proof (cases "g = i")
    case True
    have "a ! c \<le> a ! i" if "child i c" "c < n" for c using largest_max [OF that, of a] True by (simp add: g_def)
    then have "max_heap lo n a" using 1(2) unfolding max_heap_def heap_but_def by blast
    then show ?thesis using True by (simp add: key_sift_down.simps [of n i a] g_def)
  next
    case False
    note g = largest_child [of n i a, folded g_def, OF False] largest_range [of n i a, folded g_def, OF False] largest_gt [of n i a, folded g_def, OF False]
    have len: "i < length a" "g < length a" using 1(4,5) g(2) by auto
    let ?a = "swap a i g"
    have hole: "?a ! c \<le> ?a ! k" if k: "lo \<le> k" "k \<noteq> g" "child k c" "c < n" for k c
    proof (cases "k = i")
      case True
      then have "c \<noteq> i" using k(3) child_less by blast
      moreover have "a ! c \<le> a ! g" using largest_max [of i c n a] k True by (simp add: g_def)
      ultimately show ?thesis using len True False g(3) by (auto simp: kv_swap_nth)
    next
      case ki: False
      show ?thesis
      proof (cases "c = i")
        case True
        have "a ! g \<le> a ! k" using 1(2) k True g(1,2) unfolding heap_but_def by blast
        then show ?thesis using True ki k(2) False len by (simp add: kv_swap_nth)
      next
        case ci: False
        have "c \<noteq> g" using child_unique [OF k(3)] g(1) ki by blast
        moreover have "a ! c \<le> a ! k" using 1(2) k ki unfolding heap_but_def by blast
        ultimately show ?thesis using ki k(2) ci len by (simp add: kv_swap_nth)
      qed
    qed
    have gp: "?a ! c \<le> ?a ! k" if k: "lo \<le> k" "child k g" "child g c" "c < n" for k c
    proof -
      have "k = i" using child_unique [OF k(2) g(1)] .
      moreover have "a ! c \<le> a ! g" using 1(2) k(3,4) False \<open>lo \<le> i\<close> g(2) unfolding heap_but_def by (metis less_imp_le le_trans)
      moreover have "c \<noteq> g" "c \<noteq> i" using child_less [OF k(3)] g(2) by auto
      ultimately show ?thesis using len False by (simp add: kv_swap_nth)
    qed
    have "heap_but lo n g ?a" unfolding heap_but_def using hole gp by blast
    then have "max_heap lo n (key_sift_down n g ?a)" using 1(1) [OF g_def False] 1(3,4) g(2) len by simp
    then show ?thesis using False by (simp add: key_sift_down.simps [of n i a] g_def Let_def)
  qed
qed

lemma sift_keeps:
  assumes "n \<le> length a" "i < n"
  shows "length (key_sift_down n i a) = length a \<and> mset (key_sift_down n i a) = mset a \<and> drop n (key_sift_down n i a) = drop n a"
  using assms
proof (induction n i a rule: key_sift_down.induct)
  case (1 n i a)
  define g where "g = largest n i a"
  show ?case
  proof (cases "g = i")
    case True
    then show ?thesis by (simp add: key_sift_down.simps [of n i a] g_def)
  next
    case False
    have g: "g < n" using largest_range [of n i a] False by (simp add: g_def)
    then show ?thesis using 1(1) [OF g_def False] 1(2,3) False by (simp add: key_sift_down.simps [of n i a] g_def Let_def swap_drop)
  qed
qed

lemmas sift_length = sift_keeps [THEN conjunct1] and sift_mset = sift_keeps [THEN conjunct2, THEN conjunct1]
  and sift_drop = sift_keeps [THEN conjunct2, THEN conjunct2]

lemma sift_take: "n \<le> length a \<Longrightarrow> i < n \<Longrightarrow> mset (take n (key_sift_down n i a)) = mset (take n a)"
  using sift_keeps [of n a i] by (metis append_take_drop_id mset_append add_right_cancel)

lemma root_max: "max_heap 0 n a \<Longrightarrow> c < n \<Longrightarrow> a ! c \<le> a ! 0"
proof (induction c rule: less_induct)
  case (less c)
  show ?case
  proof (cases "c = 0")
    case False
    then have "child ((c - 1) div 2) c" by (auto simp: child_def)
    then have "a ! c \<le> a ! ((c - 1) div 2)" using less.prems by (simp add: max_heap_def)
    also have "\<dots> \<le> a ! 0" using less False by simp
    finally show ?thesis .
  qed simp
qed

lemma build_heap:
  assumes "n = length a" "max_heap m n a" "m \<le> n div 2"
  shows "max_heap 0 n (fold (key_sift_down n) (rev [0..<m]) a) \<and> mset (fold (key_sift_down n) (rev [0..<m]) a) = mset a"
  using assms
proof (induction m arbitrary: a)
  case (Suc m)
  have m: "m < n" using Suc.prems(3) by simp
  have "heap_but m n m a" using Suc.prems(2) unfolding heap_but_def max_heap_def
    by (auto dest: child_less)
  then have "max_heap m n (key_sift_down n m a)" using sift_heap m Suc.prems(1) by simp
  then show ?case using Suc.IH [of "key_sift_down n m a"] Suc.prems sift_length [of n a m] sift_mset [of n a m] m by simp
qed simp

text \<open>The second phase: the first \<open>m\<close> elements are a heap below the sorted rest.\<close>

definition sorting :: "nat \<Rightarrow> kv list \<Rightarrow> bool" where
  "sorting m a \<longleftrightarrow> m \<le> length a \<and> max_heap 0 m a \<and> sorted (drop m a) \<and> (\<forall>x\<in>set (take m a). \<forall>y\<in>set (drop m a). x \<le> y)"

lemma sorting_step:
  assumes "sorting (Suc m) a" "0 < m"
  shows "sorting m (key_sift_down m 0 (swap a 0 m))"
proof -
  have a: "Suc m \<le> length a" "max_heap 0 (Suc m) a" "sorted (drop (Suc m) a)" "\<forall>x\<in>set (take (Suc m) a). \<forall>y\<in>set (drop (Suc m) a). x \<le> y"
    using assms(1) by (simp_all add: sorting_def)
  let ?a = "swap a 0 m" and ?b = "key_sift_down m 0 (swap a 0 m)"
  have ne: "a \<noteq> []" using a(1) by auto
  have "?a ! c \<le> ?a ! k" if "k \<noteq> 0" "child k c" "c < m" for k c
    using that a(1,2) ne child_less [of k c] by (simp add: kv_swap_nth max_heap_def)
  then have "heap_but 0 m 0 ?a" by (auto simp: heap_but_def child_def)
  then have heap: "max_heap 0 m ?b" using a(1) assms(2) by (intro sift_heap) auto
  have d: "drop m ?b = a ! 0 # drop (Suc m) a"
  proof -
    have "drop m ?b = drop m ?a" using a(1) assms(2) by (intro sift_drop) auto
    also have "\<dots> = ?a ! m # drop (Suc m) ?a" using a(1) by (intro Cons_nth_drop_Suc [symmetric]) simp
    finally show ?thesis using a(1) ne swap_drop [of 0 "Suc m" m a] by (simp add: kv_swap_nth)
  qed
  have t: "set (take m ?b) \<subseteq> set (take (Suc m) a)"
  proof -
    have "mset (take m ?b) = mset (take m ?a)" using a(1) assms(2) by (intro sift_take) auto
    then have "set (take m ?b) = set (take m ?a)" by (metis mset_eq_setD)
    moreover have "set (take m ?a) \<subseteq> set (take (Suc m) a)"
    proof
      fix x assume "x \<in> set (take m ?a)"
      then obtain i where i: "i < m" "x = ?a ! i" using a(1) by (auto simp: in_set_conv_nth)
      then have "x = a ! (if i = 0 then m else i)" using a(1) ne by (simp add: kv_swap_nth)
      then show "x \<in> set (take (Suc m) a)" using nth_in_take [of "if i = 0 then m else i" "Suc m" a] i a(1) by auto
    qed
    ultimately show ?thesis by simp
  qed
  have r: "x \<le> a ! 0" if "x \<in> set (take (Suc m) a)" for x
    using that root_max [OF a(2)] a(1) by (auto simp: in_set_conv_nth)
  have "a ! 0 \<in> set (take (Suc m) a)" using a(1) by (cases a) auto
  then have "sorted (drop m ?b)" "\<forall>x\<in>set (take m ?b). \<forall>y\<in>set (drop m ?b). x \<le> y"
    using d a(3,4) t r by auto
  then show ?thesis using heap sift_length [of m ?a 0] a(1) assms(2) by (simp add: sorting_def)
qed

lemma sorting_end: "sorting m a \<Longrightarrow> m \<noteq> 0 \<Longrightarrow>
    sorted (fold (\<lambda>i a. key_sift_down i 0 (swap a 0 i)) (rev [1..<m]) a) \<and>
    mset (fold (\<lambda>i a. key_sift_down i 0 (swap a 0 i)) (rev [1..<m]) a) = mset a"
proof (induction m arbitrary: a)
  case (Suc m)
  show ?case
  proof (cases "m = 0")
    case True
    then obtain x r where "a = x # r" using Suc.prems(1) by (cases a) (auto simp: sorting_def)
    then show ?thesis using Suc.prems(1) True by (simp add: sorting_def)
  next
    case False
    let ?b = "key_sift_down m 0 (swap a 0 m)"
    have "Suc m \<le> length a" using Suc.prems(1) by (simp add: sorting_def)
    moreover from this have "a \<noteq> []" by auto
    ultimately have "mset ?b = mset a" using sift_mset [of m "swap a 0 m" 0] False kv_swap_mset [of 0 a m] by simp
    then show ?thesis using Suc.IH [OF sorting_step [OF Suc.prems(1)]] False by simp
  qed
qed simp

lemma heapsort_sorts: "key_heapsort a = sort a"
proof (cases "a = []")
  case False
  let ?n = "length a" and ?b = "fold (key_sift_down (length a)) (rev [0..<length a div 2]) a"
  have "max_heap (?n div 2) ?n a" by (auto simp: max_heap_def child_def)
  then have b: "max_heap 0 ?n ?b" "mset ?b = mset a" using build_heap [of ?n a "?n div 2"] by simp_all
  then have "length ?b = ?n" by (metis size_mset)
  then have "sorting ?n ?b" using b by (simp add: sorting_def)
  from sorting_end [OF this] False b(2) have "mset (key_heapsort a) = mset a" "sorted (key_heapsort a)"
    unfolding key_heapsort_def Let_def by simp_all
  then show ?thesis by (rule properties_for_sort [symmetric])
qed (simp add: key_heapsort_def)

section \<open>Insertion sort\<close>

lemma insort_last: "sorted p \<Longrightarrow> \<forall>y\<in>set p. y \<le> x \<Longrightarrow> insort x p = p @ [x]" for x :: "'a :: linorder"
  using properties_for_sort [of "p @ [x]" "p @ [x]"] properties_for_sort [of "insort x p" "p @ [x]"]
  by (simp add: sorted_append sorted_insort)

lemma insort_before: "x < y \<Longrightarrow> insort x (p @ [y]) = insort x p @ [y]" for x :: "'a :: linorder"
  by (induction p) auto

lemma ins_loop_insort:
  assumes "m < length a" "sorted (take m a)"
  shows "ins_loop x a m = insort x (take m a) @ drop (Suc m) a"
  using assms
proof (induction m arbitrary: a)
  case 0
  then show ?case by (cases a) auto
next
  case (Suc j)
  have t: "take (Suc j) a = take j a @ [a ! j]" using Suc.prems(1) by (simp add: take_Suc_conv_app_nth)
  show ?case
  proof (cases "x < a ! j")
    case True
    have "sorted (take j a)" using Suc.prems(2) t by (simp add: sorted_append)
    then have "ins_loop x (a[Suc j := a ! j]) j = insort x (take j a) @ drop (Suc j) (a[Suc j := a ! j])"
      using Suc.IH [of "a[Suc j := a ! j]"] Suc.prems(1) by simp
    also have "drop (Suc j) (a[Suc j := a ! j]) = a ! j # drop (Suc (Suc j)) a"
      using Suc.prems(1) by (subst Cons_nth_drop_Suc [symmetric]) simp_all
    finally show ?thesis using True by (simp add: t insort_before)
  next
    case False
    have "\<forall>y\<in>set (take (Suc j) a). y \<le> x" using Suc.prems(2) False unfolding t by (auto simp: sorted_append)
    then show ?thesis using False Suc.prems by (simp add: insort_last upd_conv_take_nth_drop)
  qed
qed

lemma insertion_prefix: "m \<le> length a \<Longrightarrow> 0 < m \<Longrightarrow> fold (\<lambda>i a. ins_loop (a ! i) a i) [1..<m] a = sort (take m a) @ drop m a"
proof (induction m)
  case (Suc m)
  show ?case
  proof (cases "m = 0")
    case True
    then show ?thesis using Suc.prems by (cases a) auto
  next
    case False
    let ?b = "sort (take m a) @ drop m a"
    have b: "?b ! m = a ! m" "m < length ?b" "take m ?b = sort (take m a)" "drop (Suc m) ?b = drop (Suc m) a"
      using Suc.prems by (simp_all add: nth_append)
    have "fold (\<lambda>i a. ins_loop (a ! i) a i) [1..<Suc m] a = ins_loop (?b ! m) ?b m"
      using Suc False by (simp add: fold_append)
    also have "\<dots> = insort (a ! m) (sort (take m a)) @ drop (Suc m) a"
      using ins_loop_insort [OF b(2), of "a ! m"] b by simp
    also have "insort (a ! m) (sort (take m a)) = sort (take (Suc m) a)"
      using Suc.prems by (intro properties_for_sort [symmetric]) (simp_all add: take_Suc_conv_app_nth sorted_insort)
    finally show ?thesis .
  qed
qed simp

lemma insertion_sorts: "key_insertion_sort a = sort a"
  using insertion_prefix [of "length a" a] by (cases "a = []") (simp_all add: key_insertion_sort_def)

section \<open>Partition\<close>

definition parted :: "kv \<Rightarrow> nat \<Rightarrow> kv list \<times> nat \<Rightarrow> bool" where
  "parted p i s \<longleftrightarrow> snd s \<le> i \<and> (\<forall>k. k < snd s \<longrightarrow> fst s ! k < p) \<and> (\<forall>k. snd s \<le> k \<and> k < i \<longrightarrow> p \<le> fst s ! k)"

lemma part_loop:
  assumes "m < length a" "a ! m' = p" "m \<le> m'" "m' < length a"
  shows "let s = fold (part_step p) [0..<m] (a, 0) in parted p m s \<and> mset (fst s) = mset a \<and> fst s ! m' = p"
  using assms(1,3)
proof (induction m)
  case 0
  then show ?case using assms(2) by (simp add: parted_def)
next
  case (Suc m)
  obtain b lo where s: "fold (part_step p) [0..<m] (a, 0) = (b, lo)" by fastforce
  have b: "parted p m (b, lo)" "mset b = mset a" "b ! m' = p" using Suc by (simp_all add: s Let_def)
  have len: "length b = length a" using b(2) by (metis size_mset)
  have lo: "lo \<le> m" using b(1) by (simp add: parted_def)
  have f: "fold (part_step p) [0..<Suc m] (a, 0) = part_step p m (b, lo)" by (simp add: s)
  show ?case
  proof (cases "b ! m < p")
    case True
    then have f': "part_step p m (b, lo) = (swap b m lo, Suc lo)" by (simp add: part_step_def)
    have "parted p (Suc m) (swap b m lo, Suc lo)"
      using b(1) True lo Suc.prems len unfolding parted_def by (auto simp: kv_swap_nth less_Suc_eq)
    then show ?thesis unfolding f f' using b lo Suc.prems len by (simp add: kv_swap_nth Let_def)
  next
    case False
    then have "parted p (Suc m) (b, lo)" using b(1) lo by (auto simp: parted_def less_Suc_eq)
    moreover have "part_step p m (b, lo) = (b, lo)" using False by (simp add: part_step_def)
    ultimately show ?thesis unfolding f using b by (simp add: Let_def)
  qed
qed

lemma pivot_range: "xs \<noteq> [] \<Longrightarrow> pivot_index xs < length xs"
proof -
  assume "xs \<noteq> []"
  then have "0 < length xs" "length xs div 2 < length xs" "length xs - 1 < length xs" by (simp_all add: div_less_dividend)
  then show ?thesis by (simp add: pivot_index_def Let_def)
qed

lemma partition_facts:
  assumes "partition_kv xs = (a, lo)" "1 < length xs"
  shows "lo < length a" "mset a = mset xs" "\<forall>x\<in>set (take lo a). x \<le> a ! lo" "\<forall>x\<in>set (drop (lo + 1) a). a ! lo \<le> x"
proof -
  let ?n = "length xs" and ?pi = "pivot_index xs"
  let ?p = "xs ! ?pi" and ?xs = "swap xs ?pi (length xs - 1)"
  have pi: "?pi < ?n" "?n - 1 < ?n" using assms(2) pivot_range [of xs] by (cases xs; simp)+
  have "?xs ! (?n - 1) = ?p" using pi by (simp add: kv_swap_nth)
  obtain b where s: "fold (part_step ?p) [0..<?n - 1] (?xs, 0) = (b, lo)" "a = b[?n - 1 := b ! lo, lo := ?p]"
    using assms(1) by (auto simp: partition_kv_def Let_def split: prod.splits)
  have b: "parted ?p (?n - 1) (b, lo)" "mset b = mset ?xs" "b ! (?n - 1) = ?p"
    using part_loop [of "?n - 1" ?xs "?n - 1" ?p] pi \<open>?xs ! (?n - 1) = ?p\<close> unfolding s(1) Let_def by simp_all
  have len: "length b = ?n" using b(2) pi by (metis size_mset kv_swap_length)
  have lo: "lo \<le> ?n - 1" using b(1) by (simp add: parted_def)
  have a: "a = swap b (?n - 1) lo" using b(3) by (simp add: s(2) swap_def)
  show "lo < length a" using lo len pi by (simp add: a)
  show "mset a = mset xs" using b(2) lo len pi by (simp add: a)
  have nth: "a ! k = (if k = lo then ?p else if k = ?n - 1 then b ! lo else b ! k)" for k
    using lo len pi b(3) by (simp add: a kv_swap_nth)
  show "\<forall>x\<in>set (take lo a). x \<le> a ! lo"
  proof
    fix x assume "x \<in> set (take lo a)"
    then obtain k where k: "k < lo" "x = a ! k" by (auto simp: in_set_conv_nth)
    then have "x = b ! k" using lo by (simp add: nth)
    moreover have "b ! k < ?p" using k b(1) by (simp add: parted_def)
    ultimately show "x \<le> a ! lo" by (simp add: nth)
  qed
  show "\<forall>x\<in>set (drop (lo + 1) a). a ! lo \<le> x"
  proof
    fix x assume "x \<in> set (drop (lo + 1) a)"
    then obtain k where k: "k < ?n - (lo + 1)" "x = a ! (lo + 1 + k)" using len by (auto simp: in_set_conv_nth a)
    show "a ! lo \<le> x"
    proof (cases "lo + 1 + k = ?n - 1")
      case True
      then have "lo < ?n - 1" by simp
      then have "?p \<le> b ! lo" using b(1) by (simp add: parted_def)
      then show ?thesis using k True by (simp add: nth)
    next
      case False
      then have "?p \<le> b ! (lo + 1 + k)" using b(1) k by (simp add: parted_def)
      then show ?thesis using k False by (simp add: nth)
    qed
  qed
qed

lemma impl_sorts: "key_introsort_impl depth xs = sort xs"
proof (induction depth arbitrary: xs)
  case (Suc depth)
  show ?case
  proof (cases "32 < length xs")
    case True
    obtain a lo where p: "partition_kv xs = (a, lo)" by fastforce
    have "1 < length xs" using True by simp
    note f = partition_facts [OF p this]
    have split: "a = take lo a @ [a ! lo] @ drop (lo + 1) a" using f(1) True by (simp add: id_take_nth_drop)
    have "mset (sort (take lo a) @ [a ! lo] @ sort (drop (lo + 1) a)) = mset xs"
    proof -
      have "mset (sort (take lo a) @ [a ! lo] @ sort (drop (lo + 1) a)) = mset (take lo a @ [a ! lo] @ drop (lo + 1) a)" by simp
      also have "\<dots> = mset xs" using f(2) True by (simp only: split [symmetric])
      finally show ?thesis .
    qed
    moreover have "sorted (sort (take lo a) @ [a ! lo] @ sort (drop (lo + 1) a))"
      proof -
      have "\<forall>x\<in>set (take lo a). \<forall>y\<in>set (drop (lo + 1) a). x \<le> y" using f(3,4) order_trans by blast
      then show ?thesis using f(3,4) by (simp add: sorted_append)
    qed
    ultimately have "sort xs = sort (take lo a) @ [a ! lo] @ sort (drop (lo + 1) a)" by (rule properties_for_sort)
    then show ?thesis using True by (simp add: p Suc.IH)
  qed (simp add: insertion_sorts)
qed (simp add: insertion_sorts heapsort_sorts)

lemma introsort_sorts: "key_introsort xs = sort xs"
proof (cases "length xs \<le> 1")
  case True
  then show ?thesis by (cases xs) (auto simp: key_introsort_def)
qed (simp add: key_introsort_def impl_sorts)

end
