(* ===== verification/Radix.thy ===== *)
theory Radix
  imports StableSort KeySort
begin

text \<open>
  The parallel radix sort of \<^verbatim>\<open>src/ops/sort.c\<close>: least significant byte first, each pass a histogram per task, a prefix sum
  and a scatter through small write-combining buffers. Histogram and offsets are arrays with a slice per task; a task
  only touches its own slices, so the histogram is a map over tasks, while the scatters, which share the output, run
  in any order \<open>sched\<close> of the tasks and advance the shared table of offsets in place: a task that ran twice would write
  behind its slices. Counters are 32 bits wide as in the code.

  Shown: for every number of tasks and every order of their scatters a run is the stable sort by the bytes it looks
  at. The passes are verified for any digit below 256, the interface \<open>radix_digit\<close>, and instantiated for the keys of rows
  and for packed words.
\<close>

section \<open>One pass\<close>

definition byte_at :: "nat \<Rightarrow> u64 \<Rightarrow> nat" where
  "byte_at shift k = unat (drop_bit shift k AND 0xFF)"

text \<open>The rows of a task.\<close>

definition task_rows :: "nat \<Rightarrow> nat \<Rightarrow> nat \<Rightarrow> nat list" where
  "task_rows n n_tasks task =
    (let chunk = (n + n_tasks - 1) div n_tasks; lo = task * chunk; hi = min (lo + chunk) n
     in if lo \<ge> hi then [] else [lo..<hi])"

definition hist_task :: "('a \<Rightarrow> nat) \<Rightarrow> nat \<Rightarrow> 'a list \<Rightarrow> nat \<Rightarrow> u32 list" where
  "hist_task dig n_tasks xs task =
    fold (\<lambda>i h. let b = dig (xs ! i) in h[b := h ! b + 1]) (task_rows (length xs) n_tasks task) (replicate 256 0)"

definition uniform :: "nat \<Rightarrow> nat \<Rightarrow> u32 list list \<Rightarrow> bool" where
  "uniform n n_tasks hist \<longleftrightarrow> list_ex (\<lambda>b. sum_list (map (\<lambda>t. hist ! t ! b) [0..<n_tasks]) = of_nat n) [0..<256]"

text \<open>The offsets, by bucket and then by task.\<close>

definition off_step :: "(nat \<times> nat \<Rightarrow> nat) \<Rightarrow> nat \<times> nat \<Rightarrow> (nat \<Rightarrow> nat \<Rightarrow> nat) \<times> nat \<Rightarrow> (nat \<Rightarrow> nat \<Rightarrow> nat) \<times> nat" where
  "off_step cnt l s = (let (b, t) = l; (off, running) = s in (off(t := (off t)(b := running)), running + cnt (b, t)))"

definition prefix_sum :: "nat \<Rightarrow> u32 list list \<Rightarrow> nat \<Rightarrow> nat \<Rightarrow> nat" where
  "prefix_sum n_tasks hist =
    fst (fold (off_step (\<lambda>l. unat (hist ! snd l ! fst l))) (List.product [0..<256] [0..<n_tasks]) (\<lambda>t b. 0, 0))"

definition write_run :: "'a list \<Rightarrow> nat \<Rightarrow> 'a list \<Rightarrow> 'a list" where
  "write_run out pos vs = fold (\<lambda>j out. out[pos + j := vs ! j]) [0..<length vs] out"

record 'a scatter =
  sc_out :: "'a list"
  sc_off :: "nat \<Rightarrow> nat"
  sc_buf :: "nat \<Rightarrow> 'a list"

definition scatter_step :: "('a \<Rightarrow> nat) \<Rightarrow> 'a \<Rightarrow> 'a scatter \<Rightarrow> 'a scatter" where
  "scatter_step dig x s =
    (let b = dig x; buf = sc_buf s b @ [x]; pos = sc_off s b
     in if length buf = 8
        then s\<lparr>sc_out := write_run (sc_out s) pos buf, sc_off := (sc_off s)(b := pos + 8), sc_buf := (sc_buf s)(b := [])\<rparr>
        else s\<lparr>sc_buf := (sc_buf s)(b := buf)\<rparr>)"

definition flush_step :: "nat \<Rightarrow> 'a scatter \<Rightarrow> 'a scatter" where
  "flush_step b s =
    s\<lparr>sc_out := write_run (sc_out s) (sc_off s b) (sc_buf s b), sc_off := (sc_off s)(b := sc_off s b + length (sc_buf s b))\<rparr>"

text \<open>A task leaves its slice of the offsets where its buckets end.\<close>

definition scatter_task ::
  "('a \<Rightarrow> nat) \<Rightarrow> nat \<Rightarrow> 'a list \<Rightarrow> nat \<Rightarrow> 'a list \<times> (nat \<Rightarrow> nat \<Rightarrow> nat) \<Rightarrow> 'a list \<times> (nat \<Rightarrow> nat \<Rightarrow> nat)" where
  "scatter_task dig n_tasks xs task st =
    (let (out, offsets) = st;
         s = fold flush_step [0..<256]
               (fold (\<lambda>i. scatter_step dig (xs ! i)) (task_rows (length xs) n_tasks task)
                 \<lparr>sc_out = out, sc_off = offsets task, sc_buf = (\<lambda>b. [])\<rparr>)
     in (sc_out s, offsets(task := sc_off s)))"

definition radix_scatter_fn ::
  "nat \<Rightarrow> nat \<Rightarrow> kv list \<Rightarrow> nat \<Rightarrow> kv list \<times> (nat \<Rightarrow> nat \<Rightarrow> nat) \<Rightarrow> kv list \<times> (nat \<Rightarrow> nat \<Rightarrow> nat)" where
  "radix_scatter_fn shift = scatter_task (\<lambda>x. byte_at shift (fst x))"

definition packed_scatter_fn ::
  "nat \<Rightarrow> nat \<Rightarrow> u64 list \<Rightarrow> nat \<Rightarrow> u64 list \<times> (nat \<Rightarrow> nat \<Rightarrow> nat) \<Rightarrow> u64 list \<times> (nat \<Rightarrow> nat \<Rightarrow> nat)" where
  "packed_scatter_fn shift = scatter_task (byte_at shift)"

text \<open>Source and destination buffers; a pass that is not skipped exchanges them.\<close>

definition radix_pass :: "('a \<Rightarrow> nat) \<Rightarrow>
    (nat \<Rightarrow> 'a list \<Rightarrow> nat \<Rightarrow> 'a list \<times> (nat \<Rightarrow> nat \<Rightarrow> nat) \<Rightarrow> 'a list \<times> (nat \<Rightarrow> nat \<Rightarrow> nat)) \<Rightarrow>
    nat \<Rightarrow> nat list \<Rightarrow> 'a list \<times> 'a list \<Rightarrow> 'a list \<times> 'a list" where
  "radix_pass dig scatter_fn n_tasks sched bufs =
    (let (src, dst) = bufs; hist = map (hist_task dig n_tasks src) [0..<n_tasks]
     in if uniform (length src) n_tasks hist then (src, dst)
        else (fst (fold (scatter_fn n_tasks src) sched (dst, prefix_sum n_tasks hist)), src))"

text \<open>Result and the other buffer, or None when the scratch arrays cannot be allocated.\<close>

definition radix_sort_run :: "bool \<Rightarrow> nat \<Rightarrow> (nat \<Rightarrow> nat list) \<Rightarrow> nat \<Rightarrow> kv list \<times> kv list \<Rightarrow> (kv list \<times> kv list) option" where
  "radix_sort_run mem n_tasks sched n_bytes bufs =
    (if \<not> mem then None
     else Some (fold (\<lambda>bp. radix_pass (\<lambda>x. byte_at (bp * 8) (fst x)) (radix_scatter_fn (bp * 8)) n_tasks (sched bp)) [0..<n_bytes] bufs))"

definition packed_radix_sort_run :: "bool \<Rightarrow> nat \<Rightarrow> (nat \<Rightarrow> nat list) \<Rightarrow> nat \<Rightarrow> u64 list \<times> u64 list \<Rightarrow> (u64 list \<times> u64 list) option" where
  "packed_radix_sort_run mem n_tasks sched n_bytes bufs =
    (if \<not> mem then None
     else Some (fold (\<lambda>bp. radix_pass (byte_at (bp * 8)) (packed_scatter_fn (bp * 8)) n_tasks (sched bp)) [0..<n_bytes] bufs))"

section \<open>Runs written side by side\<close>

lemma write_run_nth:
  assumes "pos + length vs \<le> length out"
  shows "length (write_run out pos vs) = length out"
    "write_run out pos vs ! p = (if pos \<le> p \<and> p < pos + length vs then vs ! (p - pos) else out ! p)"
proof -
  have "length (fold (\<lambda>j out. out[pos + j := vs ! j]) [0..<m] out) = length out \<and>
      (\<forall>p. fold (\<lambda>j out. out[pos + j := vs ! j]) [0..<m] out ! p = (if pos \<le> p \<and> p < pos + m then vs ! (p - pos) else out ! p))"
    if "m \<le> length vs" for m
    using that
  proof (induction m)
    case (Suc m)
    then show ?case using assms by (auto simp: nth_list_update)
  qed auto
  then show "length (write_run out pos vs) = length out"
      "write_run out pos vs ! p = (if pos \<le> p \<and> p < pos + length vs then vs ! (p - pos) else out ! p)"
    by (simp_all add: write_run_def)
qed

text \<open>Where the run of a label starts when the runs of a list of labels follow each other.\<close>

fun run_start :: "('l \<Rightarrow> 'a list) \<Rightarrow> 'l list \<Rightarrow> 'l \<Rightarrow> nat" where
  "run_start seg [] l = 0"
| "run_start seg (k # ks) l = (if k = l then 0 else length (seg k) + run_start seg ks l)"

lemma run_inside: "l \<in> set ls \<Longrightarrow> run_start seg ls l + length (seg l) \<le> length (concat (map seg ls))"
  by (induction ls) auto

lemma runs_apart:
  assumes "l \<in> set ls" "l' \<in> set ls" "l \<noteq> l'"
  shows "run_start seg ls l + length (seg l) \<le> run_start seg ls l' \<or> run_start seg ls l' + length (seg l') \<le> run_start seg ls l"
  using assms by (induction ls) auto

lemma runs_concat:
  assumes "length out = length (concat (map seg ls))" "distinct ls"
    and "\<And>l j. l \<in> set ls \<Longrightarrow> j < length (seg l) \<Longrightarrow> out ! (run_start seg ls l + j) = seg l ! j"
  shows "out = concat (map seg ls)"
  using assms
proof (induction ls arbitrary: out)
  case (Cons l ls)
  have "take (length (seg l)) out = seg l"
    using Cons.prems(1) Cons.prems(3) [of l] by (intro nth_equalityI) auto
  moreover have "drop (length (seg l)) out = concat (map seg ls)"
  proof (rule Cons.IH)
    show "drop (length (seg l)) out ! (run_start seg ls k + j) = seg k ! j" if "k \<in> set ls" "j < length (seg k)" for k j
    proof -
      have "k \<noteq> l" using that Cons.prems(2) by auto
      then show ?thesis using Cons.prems(3) [of k j] that Cons.prems(1) by (auto simp: add.assoc)
    qed
  qed (use Cons.prems in auto)
  ultimately show ?case by (metis append_take_drop_id concat.simps(2) list.simps(9))
qed simp

section \<open>Histogram and offsets\<close>

lemma rows_upt: "task_rows n n_tasks t = [t * ((n + n_tasks - 1) div n_tasks)..<min (t * ((n + n_tasks - 1) div n_tasks) + (n + n_tasks - 1) div n_tasks) n]"
  by (simp add: task_rows_def Let_def)

lemma upt_split: "i \<le> j \<Longrightarrow> j \<le> k \<Longrightarrow> [i..<j] @ [j..<k] = [i..<k]"
  by (metis le_Suc_ex upt_add_eq_append)

lemma task_rows_all:
  assumes "0 < n_tasks"
  shows "concat (map (task_rows n n_tasks) [0..<n_tasks]) = [0..<n]"
proof -
  define c where "c = (n + n_tasks - 1) div n_tasks"
  have rows: "task_rows n n_tasks t = [t * c..<min (t * c + c) n]" for t unfolding rows_upt c_def by (rule refl)
  have "concat (map (task_rows n n_tasks) [0..<m]) = [0..<min (m * c) n]" for m
  proof (induction m)
    case (Suc m)
    show ?case
    proof (cases "m * c \<le> n")
      case True
      then show ?thesis using Suc upt_split [of 0 "m * c" "min (m * c + c) n"] by (simp add: rows add.commute min_def)
    next
      case False
      then show ?thesis using Suc by (simp add: rows min_def)
    qed
  qed simp
  moreover have "n \<le> n_tasks * c"
  proof -
    have "n + n_tasks - 1 < n_tasks * (c + 1)" unfolding c_def using assms dividend_less_times_div [of n_tasks "n + n_tasks - 1"] by (simp add: algebra_simps)
    then show ?thesis using assms by (simp add: algebra_simps)
  qed
  ultimately show ?thesis by (simp add: min_def)
qed

lemma prefix_keeps: "l \<notin> set ls \<Longrightarrow> fst (fold (off_step w) ls s) (snd l) (fst l) = fst s (snd l) (fst l)"
proof (induction ls arbitrary: s)
  case (Cons k ls)
  then show ?case by (cases k; cases s; cases l) (auto simp: off_step_def)
qed simp

lemma prefix_fold:
  assumes "distinct ls" "l \<in> set ls"
  shows "fst (fold (off_step w) ls (off, r)) (snd l) (fst l) = r + run_start (\<lambda>l. replicate (w l) ()) ls l"
  using assms
proof (induction ls arbitrary: off r)
  case (Cons k ls)
  obtain b t where k: "k = (b, t)" by (cases k)
  have s: "off_step w k (off, r) = (off(t := (off t)(b := r)), r + w k)" by (simp add: off_step_def k)
  show ?case
  proof (cases "k = l")
    case True
    moreover have "fst (off_step w k (off, r)) (snd k) (fst k) = r" by (simp add: off_step_def k)
    ultimately show ?thesis using prefix_keeps [of k ls w "off_step w k (off, r)"] Cons.prems(1) by simp
  next
    case False
    then show ?thesis using Cons.IH [of "off(t := (off t)(b := r))" "r + w k"] Cons.prems unfolding s [symmetric] by simp
  qed
qed simp

lemma run_start_lengths: "(\<And>l. l \<in> set ls \<Longrightarrow> length (f l) = length (g l)) \<Longrightarrow> run_start f ls l = run_start g ls l"
  by (induction ls) auto

lemma bucket_sort:
  fixes f :: "'a \<Rightarrow> nat"
  shows "concat (map (\<lambda>b. filter (\<lambda>x. f x = b) xs) [0..<m]) = sort_key f (filter (\<lambda>x. f x < m) xs)"
proof (induction m)
  case (Suc m)
  let ?ys = "sort_key f (filter (\<lambda>x. f x < m) xs) @ filter (\<lambda>x. f x = m) xs"
  have "sort_key f (filter (\<lambda>x. f x < Suc m) xs) = ?ys"
  proof (rule properties_for_sort_key)
    show "mset ?ys = mset (filter (\<lambda>x. f x < Suc m) xs)" by (induction xs) (auto simp: less_Suc_eq)
    show "filter (\<lambda>x. f k = f x) ?ys = filter (\<lambda>x. f k = f x) (filter (\<lambda>x. f x < Suc m) xs)" if "k \<in> set ?ys" for k
    proof -
      have c: "(\<lambda>x. f k = f x) = (\<lambda>x. f x = f k)" by auto
      show ?thesis unfolding c filter_append sort_key_stable filter_filter using that
        by (cases "f k = m") (auto intro!: filter_cong simp: less_Suc_eq)
    qed
    have "sorted (map f (filter (\<lambda>x. f x = m) xs))" by (induction xs) auto
    then show "sorted (map f ?ys)" by (auto simp: sorted_append)
  qed
  then show ?case using Suc by simp
qed simp

section \<open>Each task once\<close>

text \<open>The output of a task whose slice of the offsets is as the prefix sum left it.\<close>

definition scatter_out :: "('a \<Rightarrow> nat) \<Rightarrow> nat \<Rightarrow> 'a list \<Rightarrow> (nat \<Rightarrow> nat \<Rightarrow> nat) \<Rightarrow> nat \<Rightarrow> 'a list \<Rightarrow> 'a list" where
  "scatter_out dig n_tasks xs offsets task out =
    sc_out (fold flush_step [0..<256]
      (fold (\<lambda>i. scatter_step dig (xs ! i)) (task_rows (length xs) n_tasks task)
        \<lparr>sc_out = out, sc_off = offsets task, sc_buf = (\<lambda>b. [])\<rparr>))"

text \<open>When no task runs twice, every task finds its slice untouched.\<close>

lemma scatter_once:
  assumes "distinct ts"
  shows "fst (fold (scatter_task dig n_tasks xs) ts (out, off)) = fold (scatter_out dig n_tasks xs off) ts out \<and>
    (\<forall>t. t \<notin> set ts \<longrightarrow> snd (fold (scatter_task dig n_tasks xs) ts (out, off)) t = off t)"
  using assms
proof (induction ts rule: rev_induct)
  case (snoc u ts)
  obtain o' off' where st: "fold (scatter_task dig n_tasks xs) ts (out, off) = (o', off')" by fastforce
  then have "o' = fold (scatter_out dig n_tasks xs off) ts out" "\<forall>t. t \<notin> set ts \<longrightarrow> off' t = off t" using snoc by auto
  moreover from this have "off' u = off u" using snoc.prems by simp
  then have "fst (scatter_task dig n_tasks xs u (o', off')) = scatter_out dig n_tasks xs off u o'"
    "t \<noteq> u \<Longrightarrow> snd (scatter_task dig n_tasks xs u (o', off')) t = off' t" for t
    by (simp_all add: scatter_task_def scatter_out_def Let_def)
  ultimately show ?case by (simp add: st)
qed simp

lemma order_once: "mset sched = mset [0..<n] \<Longrightarrow> distinct sched \<and> set sched = {..<n}"
  by (metis atLeast0LessThan distinct_upt mset_eq_imp_distinct_iff set_mset_mset set_upt)

section \<open>A pass over any digit\<close>

abbreviation chunk :: "nat \<Rightarrow> 'a list \<Rightarrow> nat \<Rightarrow> 'a list" where
  "chunk n_tasks xs t \<equiv> map ((!) xs) (task_rows (length xs) n_tasks t)"

definition seg :: "('a \<Rightarrow> nat) \<Rightarrow> nat \<Rightarrow> 'a list \<Rightarrow> nat \<times> nat \<Rightarrow> 'a list" where
  "seg dig n_tasks xs l = filter (\<lambda>x. dig x = fst l) (chunk n_tasks xs (snd l))"

abbreviation labels :: "nat \<Rightarrow> (nat \<times> nat) list" where
  "labels n_tasks \<equiv> List.product [0..<256] [0..<n_tasks]"

text \<open>
  After the elements \<open>pre\<close> of a task whose buckets start at \<open>start\<close>: per bucket, whole buffers of eight are in the
  output, the rest is in the buffer; positions outside the task's buckets are as they were.
\<close>

abbreviation bucket :: "('a \<Rightarrow> nat) \<Rightarrow> nat \<Rightarrow> 'a list \<Rightarrow> 'a list" where
  "bucket dig b xs \<equiv> filter (\<lambda>x. dig x = b) xs"

definition flushed :: "nat \<Rightarrow> nat" where
  "flushed n = 8 * (n div 8)"

definition owns :: "('a \<Rightarrow> nat) \<Rightarrow> (nat \<Rightarrow> nat) \<Rightarrow> 'a list \<Rightarrow> nat \<Rightarrow> bool" where
  "owns dig start vs p \<longleftrightarrow> (\<exists>b<256. start b \<le> p \<and> p < start b + length (bucket dig b vs))"

definition laid_out :: "('a \<Rightarrow> nat) \<Rightarrow> (nat \<Rightarrow> nat) \<Rightarrow> 'a list \<Rightarrow> nat \<Rightarrow> bool" where
  "laid_out dig start vs n \<longleftrightarrow> (\<forall>b<256. start b + length (bucket dig b vs) \<le> n) \<and>
    (\<forall>b<256. \<forall>c<256. b \<noteq> c \<longrightarrow> start b + length (bucket dig b vs) \<le> start c \<or> start c + length (bucket dig c vs) \<le> start b)"

definition bucket_inv :: "('a \<Rightarrow> nat) \<Rightarrow> (nat \<Rightarrow> nat) \<Rightarrow> 'a list \<Rightarrow> 'a scatter \<Rightarrow> nat \<Rightarrow> bool" where
  "bucket_inv dig start pre s b \<longleftrightarrow>
    sc_off s b = start b + flushed (length (bucket dig b pre)) \<and>
    sc_buf s b = drop (flushed (length (bucket dig b pre))) (bucket dig b pre) \<and>
    (\<forall>j<flushed (length (bucket dig b pre)). sc_out s ! (start b + j) = bucket dig b pre ! j)"

definition scatter_inv :: "('a \<Rightarrow> nat) \<Rightarrow> (nat \<Rightarrow> nat) \<Rightarrow> 'a list \<Rightarrow> 'a list \<Rightarrow> 'a list \<Rightarrow> 'a scatter \<Rightarrow> bool" where
  "scatter_inv dig start vs out pre s \<longleftrightarrow> length (sc_out s) = length out \<and>
    (\<forall>p. \<not> owns dig start vs p \<longrightarrow> sc_out s ! p = out ! p) \<and> (\<forall>b<256. bucket_inv dig start pre s b)"

text \<open>Flushing the buffers below \<open>m\<close> puts their whole buckets into the output and leaves the other ones alone.\<close>

definition flush_inv :: "('a \<Rightarrow> nat) \<Rightarrow> (nat \<Rightarrow> nat) \<Rightarrow> 'a list \<Rightarrow> 'a list \<Rightarrow> nat \<Rightarrow> 'a scatter \<Rightarrow> bool" where
  "flush_inv dig start vs out m s \<longleftrightarrow> length (sc_out s) = length out \<and>
    (\<forall>p. \<not> owns dig start vs p \<longrightarrow> sc_out s ! p = out ! p) \<and>
    (\<forall>b<256. (if b < m then \<forall>j<length (bucket dig b vs). sc_out s ! (start b + j) = bucket dig b vs ! j
      else bucket_inv dig start vs s b))"

lemma flushed_Suc: "flushed (Suc n) = (if Suc (n - flushed n) = 8 then Suc n else flushed n)" "flushed n \<le> n" "n - flushed n < 8"
proof -
  have n: "n = 8 * (n div 8) + n mod 8" by simp
  have "n mod 8 < 8" by simp
  then show "flushed n \<le> n" "n - flushed n < 8" by (simp_all add: flushed_def minus_mult_div_eq_mod)
  show "flushed (Suc n) = (if Suc (n - flushed n) = 8 then Suc n else flushed n)"
    by (simp add: flushed_def minus_mult_div_eq_mod div_Suc mod_Suc) (use n in presburger)
qed

lemma counts: "(\<And>x. f x < 256) \<Longrightarrow> b < 256 \<Longrightarrow>
    fold (\<lambda>x h. h[f x := h ! f x + 1]) vs (replicate 256 0) ! b = (of_nat (length (filter (\<lambda>x. f x = b) vs)) :: u32)"
proof (induction vs rule: rev_induct)
  case (snoc v vs)
  have "length (fold (\<lambda>x h. h[f x := h ! f x + 1]) vs (replicate 256 (0 :: u32))) = 256" by (induction vs rule: rev_induct) simp_all
  then show ?case using snoc by (auto simp: nth_list_update)
qed simp

lemma chunks_all: "0 < n_tasks \<Longrightarrow> concat (map (chunk n_tasks xs) [0..<n_tasks]) = xs"
proof -
  assume "0 < n_tasks"
  have "concat (map (chunk n_tasks xs) [0..<n_tasks]) = map ((!) xs) (concat (map (task_rows (length xs) n_tasks) [0..<n_tasks]))"
    by (simp add: map_concat comp_def)
  then show ?thesis by (simp only: task_rows_all [OF \<open>0 < n_tasks\<close>] map_nth)
qed

text \<open>A pass sorts by a digit below 256: the interface between the passes and the keys they look at.\<close>

locale radix_digit =
  fixes dig :: "'a \<Rightarrow> nat"
  assumes dig_less: "dig x < 256"
begin

lemma hist_count: "b < 256 \<Longrightarrow> hist_task dig n_tasks xs t ! b = of_nat (length (seg dig n_tasks xs (b, t)))"
  using counts [of "\<lambda>x. dig x" b "chunk n_tasks xs t"]
  by (simp add: hist_task_def seg_def Let_def dig_less fold_map comp_def)

lemma prefix_sum_start:
  assumes "length xs < 2 ^ 32" "b < 256" "t < n_tasks"
  shows "prefix_sum n_tasks (map (hist_task dig n_tasks xs) [0..<n_tasks]) t b =
    run_start (seg dig n_tasks xs) (List.product [0..<256] [0..<n_tasks]) (b, t)"
proof -
  let ?L = "List.product [0..<256] [0..<n_tasks]" and ?h = "map (hist_task dig n_tasks xs) [0..<n_tasks]"
  have "length (chunk n_tasks xs u) \<le> length xs" for u by (simp add: rows_upt)
  then have "length (seg dig n_tasks xs l) < 2 ^ 32" for l
    unfolding seg_def using assms(1) by (meson le_less_trans length_filter_le)
  then have w: "unat (?h ! snd l ! fst l) = length (seg dig n_tasks xs l)" if "l \<in> set ?L" for l
    using that hist_count [of "fst l" n_tasks xs "snd l"] by (auto simp: unat_of_nat take_bit_nat_eq_self)
  have "distinct ?L" by (simp add: distinct_product)
  then have "prefix_sum n_tasks ?h t b = run_start (\<lambda>l. replicate (unat (?h ! snd l ! fst l)) ()) ?L (b, t)"
    using prefix_fold [of ?L "(b, t)" "\<lambda>l. unat (?h ! snd l ! fst l)" "\<lambda>t b. 0" 0] assms(2,3) unfolding prefix_sum_def by auto
  also have "\<dots> = run_start (seg dig n_tasks xs) ?L (b, t)" using w by (intro run_start_lengths) simp
  finally show ?thesis .
qed

lemma scatter_step_inv:
  assumes inv: "scatter_inv dig start vs out pre s" and lay: "laid_out dig start vs (length out)" and vs: "vs = pre @ x # post"
  shows "scatter_inv dig start vs out (pre @ [x]) (scatter_step dig x s)"
proof -
  define b where "b = dig x"
  have b: "b < 256" by (simp add: b_def dig_less)
  let ?F = "bucket dig b pre" and ?f = "flushed (length (bucket dig b pre))"
  have F: "bucket dig b (pre @ [x]) = ?F @ [x]" "\<And>c. c \<noteq> b \<Longrightarrow> bucket dig c (pre @ [x]) = bucket dig c pre"
    by (auto simp: b_def)
  have s: "sc_off s b = start b + ?f" "sc_buf s b = drop ?f ?F" "\<forall>j<?f. sc_out s ! (start b + j) = ?F ! j" "length (sc_out s) = length out"
    using inv b by (simp_all add: scatter_inv_def bucket_inv_def)
  have old: "bucket_inv dig start pre s c" if "c < 256" for c using inv that by (simp add: scatter_inv_def)
  have in_vs: "length ?F + 1 \<le> length (bucket dig b vs)" by (simp add: vs b_def)
  have inside: "start b + length (bucket dig b vs) \<le> length out" using lay b by (simp add: laid_out_def)
  have fl: "?f \<le> length ?F" by (rule flushed_Suc)
  show ?thesis
  proof (cases "length (drop ?f ?F @ [x]) = 8")
    case False
    then have f': "flushed (Suc (length ?F)) = ?f" using flushed_Suc(1) [of "length ?F"] by simp
    have step: "scatter_step dig x s = s\<lparr>sc_buf := (sc_buf s)(b := drop ?f ?F @ [x])\<rparr>"
      using False by (simp add: scatter_step_def b_def [symmetric] s(2) Let_def)
    have "bucket_inv dig start (pre @ [x]) (scatter_step dig x s) c" if "c < 256" for c
    proof (cases "c = b")
      case True
      then show ?thesis using s fl f' by (simp add: bucket_inv_def step F(1) nth_append del: filter_append)
    next
      case False
      then show ?thesis using old [OF that] by (simp add: bucket_inv_def step F(2) del: filter_append)
    qed
    then show ?thesis using inv by (simp add: scatter_inv_def step)
  next
    case True
    then have f': "flushed (Suc (length ?F)) = Suc (length ?F)" using flushed_Suc(1) [of "length ?F"] by simp
    let ?run = "drop ?f ?F @ [x]"
    have len: "start b + ?f + length ?run = start b + Suc (length ?F)" using fl by simp
    have room: "start b + ?f + length ?run \<le> length (sc_out s)" using len in_vs inside s(4) by simp
    note W = write_run_nth [OF room, unfolded len]
    have step: "scatter_step dig x s = s\<lparr>sc_out := write_run (sc_out s) (start b + ?f) ?run,
        sc_off := (sc_off s)(b := start b + ?f + 8), sc_buf := (sc_buf s)(b := [])\<rparr>"
      using True by (simp add: scatter_step_def b_def [symmetric] s(1,2) Let_def)
    have "bucket_inv dig start (pre @ [x]) (scatter_step dig x s) c" if "c < 256" for c
    proof (cases "c = b")
      case eq: True
      have "write_run (sc_out s) (start b + ?f) ?run ! (start b + j) = (?F @ [x]) ! j" if "j < Suc (length ?F)" for j
      proof (cases "j < ?f")
        case True
        then show ?thesis using s(3) fl by (simp add: W nth_append)
      next
        case False
        then have "?run ! (j - ?f) = (drop ?f (?F @ [x])) ! (j - ?f)" using fl by simp
        also have "\<dots> = (?F @ [x]) ! j" using False fl that by (subst nth_drop) simp_all
        finally show ?thesis using False that by (simp only: W) simp
      qed
      moreover have "start b + ?f + 8 = start b + Suc (length ?F)" using True fl by simp
      ultimately show ?thesis using eq f' by (simp add: bucket_inv_def step F(1) del: filter_append)
    next
      case False
      have c: "length (bucket dig c pre) \<le> length (bucket dig c vs)" by (simp add: vs)
      have apart: "start b + length (bucket dig b vs) \<le> start c \<or> start c + length (bucket dig c vs) \<le> start b"
        using lay b that False by (auto simp: laid_out_def)
      have "write_run (sc_out s) (start b + ?f) ?run ! (start c + j) = sc_out s ! (start c + j)"
        if "j < flushed (length (bucket dig c pre))" for j
      proof -
        have "j < length (bucket dig c vs)" using that c flushed_Suc(2) [of "length (bucket dig c pre)"] by linarith
        then have "\<not> (start b + ?f \<le> start c + j \<and> start c + j < start b + Suc (length ?F))" using apart in_vs by linarith
        then show ?thesis by (simp only: W if_False)
      qed
      then show ?thesis using old [OF that] False by (simp add: bucket_inv_def step F(2) del: filter_append)
    qed
    moreover have "write_run (sc_out s) (start b + ?f) ?run ! p = out ! p" if "\<not> owns dig start vs p" for p
    proof -
      have "\<not> (start b \<le> p \<and> p < start b + length (bucket dig b vs))" using that b unfolding owns_def by blast
      then have "\<not> (start b + ?f \<le> p \<and> p < start b + Suc (length ?F))" using in_vs by linarith
      then show ?thesis using inv that by (simp only: W if_False) (simp add: scatter_inv_def)
    qed
    ultimately show ?thesis using s(4) W(1) by (simp add: scatter_inv_def step)
  qed
qed

lemma scatter_loop_inv:
  assumes lay: "laid_out dig start vs (length out)" and vs: "vs = pre @ post"
  shows "scatter_inv dig start vs out pre (fold (scatter_step dig) pre \<lparr>sc_out = out, sc_off = start, sc_buf = (\<lambda>b. [])\<rparr>)"
  using vs
proof (induction pre arbitrary: post rule: rev_induct)
  case Nil
  show ?case by (simp add: scatter_inv_def bucket_inv_def flushed_def)
next
  case (snoc x pre)
  then show ?case using scatter_step_inv [OF snoc.IH [of "x # post"] lay, of x post] by simp
qed

lemma flush_step_inv:
  assumes inv: "flush_inv dig start vs out m s" and lay: "laid_out dig start vs (length out)" and m: "m < 256"
  shows "flush_inv dig start vs out (Suc m) (flush_step m s)"
proof -
  let ?F = "bucket dig m vs" and ?f = "flushed (length (bucket dig m vs))"
  have s: "sc_off s m = start m + ?f" "sc_buf s m = drop ?f ?F" "\<forall>j<?f. sc_out s ! (start m + j) = ?F ! j" "length (sc_out s) = length out"
    using inv m by (auto simp: flush_inv_def bucket_inv_def)
  have fl: "?f \<le> length ?F" by (rule flushed_Suc)
  have inside: "start m + length ?F \<le> length out" using lay m by (simp add: laid_out_def)
  have len: "start m + ?f + length (drop ?f ?F) = start m + length ?F" using fl by simp
  have room: "start m + ?f + length (drop ?f ?F) \<le> length (sc_out s)" using len inside s(4) by simp
  note W = write_run_nth [OF room, unfolded len]
  have out': "sc_out (flush_step m s) = write_run (sc_out s) (start m + ?f) (drop ?f ?F)" by (simp add: flush_step_def s(1,2))
  have same: "sc_out (flush_step m s) ! p = sc_out s ! p" if "\<not> (start m \<le> p \<and> p < start m + length ?F)" for p
    using that unfolding out' W by auto
  have "sc_out (flush_step m s) ! (start m + j) = ?F ! j" if "j < length ?F" for j
    using that s(3) fl unfolding out' W by auto
  moreover have "sc_out (flush_step m s) ! (start c + j) = sc_out s ! (start c + j)" if "c < 256" "c \<noteq> m" "j < length (bucket dig c vs)" for c j
  proof -
    have "start m + length ?F \<le> start c \<or> start c + length (bucket dig c vs) \<le> start m"
      using lay m that by (auto simp: laid_out_def)
    then show ?thesis using that by (intro same) linarith
  qed
  moreover have "sc_out (flush_step m s) ! p = out ! p" if "\<not> owns dig start vs p" for p
    using same [of p] inv that m unfolding flush_inv_def owns_def by auto
  moreover have "bucket_inv dig start vs (flush_step m s) c" if "c < 256" "c \<noteq> m" "bucket_inv dig start vs s c" for c
  proof -
    have "sc_out (flush_step m s) ! (start c + j) = sc_out s ! (start c + j)" if "j < flushed (length (bucket dig c vs))" for j
      using calculation(2) [OF \<open>c < 256\<close> \<open>c \<noteq> m\<close>, of j] that flushed_Suc(2) [of "length (bucket dig c vs)"] by simp
    then show ?thesis using that by (simp add: bucket_inv_def flush_step_def)
  qed
  ultimately show ?thesis using inv m W(1) s(4) unfolding flush_inv_def out' [symmetric] by (auto simp: less_Suc_eq)
qed

lemma scatter_fn_result:
  fixes offsets :: "nat \<Rightarrow> nat \<Rightarrow> nat"
  assumes lay: "laid_out dig (offsets t) (chunk n_tasks xs t) (length out)"
  defines "out' \<equiv> scatter_out dig n_tasks xs offsets t out"
  shows "length out' = length out" "\<And>p. \<not> owns dig (offsets t) (chunk n_tasks xs t) p \<Longrightarrow> out' ! p = out ! p"
    "\<And>b j. b < 256 \<Longrightarrow> j < length (bucket dig b (chunk n_tasks xs t)) \<Longrightarrow> out' ! (offsets t b + j) = bucket dig b (chunk n_tasks xs t) ! j"
proof -
  let ?vs = "chunk n_tasks xs t" and ?start = "offsets t"
  let ?s = "fold (scatter_step dig) ?vs \<lparr>sc_out = out, sc_off = ?start, sc_buf = (\<lambda>b. [])\<rparr>"
  have "scatter_inv dig ?start ?vs out ?vs ?s" using lay by (intro scatter_loop_inv) simp_all
  then have "flush_inv dig ?start ?vs out 0 ?s" by (simp add: scatter_inv_def flush_inv_def)
  moreover have "flush_inv dig ?start ?vs out m (fold flush_step [0..<m] ?s)"
    if "flush_inv dig ?start ?vs out 0 ?s" "m \<le> 256" for m
    using that by (induction m) (simp_all add: flush_step_inv [OF _ lay])
  ultimately have "flush_inv dig ?start ?vs out 256 (fold flush_step [0..<256] ?s)" by blast
  moreover have "out' = sc_out (fold flush_step [0..<256] ?s)" by (simp add: out'_def scatter_out_def fold_map comp_def)
  ultimately show "length out' = length out" "\<And>p. \<not> owns dig (offsets t) ?vs p \<Longrightarrow> out' ! p = out ! p"
    "\<And>b j. b < 256 \<Longrightarrow> j < length (bucket dig b ?vs) \<Longrightarrow> out' ! (offsets t b + j) = bucket dig b ?vs ! j"
    by (auto simp: flush_inv_def)
qed

lemma segs_sorted:
  assumes "0 < n_tasks"
  shows "concat (map (seg dig n_tasks xs) (labels n_tasks)) = sort_key dig xs"
proof -
  have product: "concat (map f (List.product bs ts)) = concat (map (\<lambda>b. concat (map (\<lambda>t. f (b, t)) ts)) bs)" for f :: "nat \<times> nat \<Rightarrow> 'a list" and bs ts
    by (induction bs) (simp_all add: comp_def)
  have "concat (map (\<lambda>t. seg dig n_tasks xs (b, t)) ts) = filter (\<lambda>x. dig x = b) (concat (map (chunk n_tasks xs) ts))" for b ts
    by (induction ts) (simp_all add: seg_def)
  then have "concat (map (\<lambda>t. seg dig n_tasks xs (b, t)) [0..<n_tasks]) = bucket dig b xs" for b
    by (simp only: chunks_all [OF assms])
  then have "concat (map (seg dig n_tasks xs) (labels n_tasks)) = concat (map (\<lambda>b. bucket dig b xs) [0..<256])"
    by (simp only: product)
  also have "\<dots> = sort_key dig xs" using bucket_sort [of dig xs 256] by (simp add: dig_less)
  finally show ?thesis .
qed

lemma scatter_all:
  assumes n: "0 < n_tasks" "length xs < 2 ^ 32" and sched: "set sched = {..<n_tasks}" and out: "length out = length xs"
  shows "fold (scatter_out dig n_tasks xs (prefix_sum n_tasks (map (hist_task dig n_tasks xs) [0..<n_tasks]))) sched out =
    sort_key dig xs"
proof -
  let ?L = "labels n_tasks" and ?seg = "seg dig n_tasks xs"
  define off where "off = prefix_sum n_tasks (map (hist_task dig n_tasks xs) [0..<n_tasks])"
  have off: "off t b = run_start ?seg ?L (b, t)" if "b < 256" "t < n_tasks" for b t
    using prefix_sum_start [OF n(2) that] by (simp add: off_def)
  have buckets: "bucket dig b (chunk n_tasks xs t) = ?seg (b, t)" for b t by (simp add: seg_def)
  have mem: "(b, t) \<in> set ?L" if "b < 256" "t < n_tasks" for b t using that by simp
  have total: "length (concat (map ?seg ?L)) = length xs" by (simp only: segs_sorted [OF n(1)] length_sort)
  have lay: "laid_out dig (off t) (chunk n_tasks xs t) (length xs)" if t: "t < n_tasks" for t
  proof -
    have "off t b + length (?seg (b, t)) \<le> length xs" if "b < 256" for b
      using run_inside [OF mem [OF that t], of ?seg] total off [OF that t] by simp
    moreover have "off t b + length (?seg (b, t)) \<le> off t c \<or> off t c + length (?seg (c, t)) \<le> off t b" if "b < 256" "c < 256" "b \<noteq> c" for b c
      using runs_apart [OF mem [OF that(1) t] mem [OF that(2) t], of ?seg] that off t by simp
    ultimately show ?thesis unfolding laid_out_def buckets by blast
  qed
  have "length (fold (scatter_out dig n_tasks xs off) ts out) = length xs \<and>
      (\<forall>t\<in>set ts. \<forall>b<256. \<forall>j<length (?seg (b, t)). fold (scatter_out dig n_tasks xs off) ts out ! (off t b + j) = ?seg (b, t) ! j)"
    if "set ts \<subseteq> {..<n_tasks}" for ts
    using that
  proof (induction ts rule: rev_induct)
    case (snoc u ts)
    let ?o = "fold (scatter_out dig n_tasks xs off) ts out"
    have u: "u < n_tasks" and IH: "length ?o = length xs"
        "\<And>t b j. t \<in> set ts \<Longrightarrow> b < 256 \<Longrightarrow> j < length (?seg (b, t)) \<Longrightarrow> ?o ! (off t b + j) = ?seg (b, t) ! j"
      using snoc by auto
    note R = scatter_fn_result [where t = u and out = ?o and offsets = off and n_tasks = n_tasks and xs = xs, unfolded IH(1), OF lay [OF u]]
    have "scatter_out dig n_tasks xs off u ?o ! (off t b + j) = ?seg (b, t) ! j"
      if "t \<in> set (ts @ [u])" and b: "b < 256" and j: "j < length (?seg (b, t))" for t b j
    proof (cases "t = u")
      case True
      then show ?thesis using R(3) [of b j, unfolded buckets] b j by simp
    next
      case False
      then have t: "t \<in> set ts" "t < n_tasks" using that snoc.prems by auto
      have "\<not> owns dig (off u) (chunk n_tasks xs u) (off t b + j)"
      proof
        assume "owns dig (off u) (chunk n_tasks xs u) (off t b + j)"
        then obtain c where c: "c < 256" "off u c \<le> off t b + j" "off t b + j < off u c + length (?seg (c, u))"
          unfolding owns_def buckets by blast
        have "off u c + length (?seg (c, u)) \<le> off t b \<or> off t b + length (?seg (b, t)) \<le> off u c"
          using runs_apart [OF mem [OF c(1) u] mem [OF b t(2)], of ?seg] False off c(1) b u t(2) by auto
        then show False using c j by linarith
      qed
      then show ?thesis using R(2) IH(2) [OF t(1) b j] by simp
    qed
    then show ?case using R(1) by simp
  qed (simp add: out)
  then have filled: "length (fold (scatter_out dig n_tasks xs off) sched out) = length xs"
      "\<And>t b j. t < n_tasks \<Longrightarrow> b < 256 \<Longrightarrow> j < length (?seg (b, t)) \<Longrightarrow> fold (scatter_out dig n_tasks xs off) sched out ! (off t b + j) = ?seg (b, t) ! j"
    using sched by auto
  have "fold (scatter_out dig n_tasks xs off) sched out = concat (map ?seg ?L)"
  proof (rule runs_concat)
    show "fold (scatter_out dig n_tasks xs off) sched out ! (run_start ?seg ?L l + j) = ?seg l ! j" if "l \<in> set ?L" "j < length (?seg l)" for l j
      using that filled(2) [of "snd l" "fst l" j] off [of "fst l" "snd l"] by auto
  qed (use filled total in \<open>simp_all add: distinct_product\<close>)
  then show ?thesis by (simp only: segs_sorted [OF n(1)] off_def [symmetric])
qed

lemma uniform_same:
  assumes n: "0 < n_tasks" "length xs < 2 ^ 32"
    and u: "uniform (length xs) n_tasks (map (hist_task dig n_tasks xs) [0..<n_tasks])"
  shows "\<exists>b. \<forall>x\<in>set xs. dig x = b"
proof -
  obtain b where b: "b < 256" "sum_list (map (\<lambda>t. map (hist_task dig n_tasks xs) [0..<n_tasks] ! t ! b) [0..<n_tasks]) = (of_nat (length xs) :: u32)"
    using u by (auto simp: uniform_def list_ex_iff)
  have "sum_list (map (\<lambda>t. map (hist_task dig n_tasks xs) [0..<n_tasks] ! t ! b) ts) =
      (of_nat (sum_list (map (\<lambda>t. length (seg dig n_tasks xs (b, t))) ts)) :: u32)" if "set ts \<subseteq> {..<n_tasks}" for ts
    using that b(1) by (induction ts) (simp_all add: hist_count)
  then have "sum_list (map (\<lambda>t. map (hist_task dig n_tasks xs) [0..<n_tasks] ! t ! b) [0..<n_tasks]) =
      (of_nat (sum_list (map (\<lambda>t. length (seg dig n_tasks xs (b, t))) [0..<n_tasks])) :: u32)" by (simp add: atLeast0LessThan)
  also have "sum_list (map (\<lambda>t. length (seg dig n_tasks xs (b, t))) ts) = length (bucket dig b (concat (map (chunk n_tasks xs) ts)))" for ts
    by (induction ts) (simp_all add: seg_def)
  finally have eq: "(of_nat (length (bucket dig b xs)) :: u32) = of_nat (length xs)" using b(2) by (simp only: chunks_all [OF n(1)])
  have small: "unat (of_nat m :: u32) = m" if "m < 2 ^ 32" for m using that by (simp add: unat_of_nat take_bit_nat_eq_self)
  have "length (bucket dig b xs) < 2 ^ 32" using n(2) by (rule le_less_trans [OF length_filter_le])
  then have "length (bucket dig b xs) = length xs" using arg_cong [OF eq, of unat] by (simp only: small n(2))
  then have "\<forall>x\<in>set xs. dig x = b" using length_filter_less [of _ xs "\<lambda>x. dig x = b"] by auto
  then show ?thesis by blast
qed

lemma scatter_tasks:
  assumes "0 < n_tasks" "length xs < 2 ^ 32" "mset sched = mset [0..<n_tasks]" "length out = length xs"
  shows "fst (fold (scatter_task dig n_tasks xs) sched (out, prefix_sum n_tasks (map (hist_task dig n_tasks xs) [0..<n_tasks]))) =
    sort_key dig xs"
  using scatter_once [of sched dig n_tasks xs out] scatter_all [OF assms(1,2) _ assms(4)] order_once [OF assms(3)] by simp

lemma radix_pass_sorts:
  assumes "0 < n_tasks" "length xs < 2 ^ 32" "mset sched = mset [0..<n_tasks]" "length tmp = length xs"
  defines "r \<equiv> radix_pass dig (scatter_task dig) n_tasks sched (xs, tmp)"
  shows "fst r = sort_key dig xs" "length (snd r) = length xs"
proof -
  show "fst r = sort_key dig xs"
  proof (cases "uniform (length xs) n_tasks (map (hist_task dig n_tasks xs) [0..<n_tasks])")
    case True
    then obtain b where "\<forall>x\<in>set xs. dig x = b" using uniform_same assms by blast
    then show ?thesis using True sort_key_const [of xs dig b] by (simp add: r_def radix_pass_def)
  next
    case False
    then show ?thesis using scatter_tasks [OF assms(1-4)] by (simp add: r_def radix_pass_def)
  qed
  show "length (snd r) = length xs" using assms(4) by (simp add: r_def radix_pass_def Let_def)
qed

end

section \<open>The bytes of the keys\<close>

lemma byte_at_div: "byte_at shift k = unat k div 2 ^ shift mod 256"
proof -
  have "drop_bit shift k AND 0xFF = take_bit 8 (drop_bit shift k)" unfolding take_bit_eq_mask mask_eq_exp_minus_1 by simp
  then have "byte_at shift k = take_bit 8 (drop_bit shift (unat k))"
    unfolding byte_at_def by (simp only: unsigned_take_bit_eq unat_drop_bit_eq)
  then show ?thesis by (simp add: take_bit_eq_mod drop_bit_eq_div)
qed

lemma byte_less: "byte_at shift k < 256"
  by (simp add: byte_at_div)

interpretation kvd: radix_digit "\<lambda>x :: kv. byte_at shift (fst x)" for shift
  by unfold_locales (rule byte_less)

interpretation pkd: radix_digit "byte_at shift" for shift
  by unfold_locales (rule byte_less)

lemma digits_le:
  assumes "l < B" "l' < (B :: nat)"
  shows "(h, l) \<le> (h', l') \<longleftrightarrow> B * h + l \<le> B * h' + l'"
proof -
  have "B * h + l < B * h' + l'" if "h < h'"
  proof -
    have "B * Suc h \<le> B * h'" using that by (intro mult_le_mono2) simp
    then show ?thesis using assms by simp
  qed
  moreover have "B * h' + l' < B * h + l" if "h' < h"
  proof -
    have "B * Suc h' \<le> B * h" using that by (intro mult_le_mono2) simp
    then show ?thesis using assms by simp
  qed
  ultimately show ?thesis by (cases h h' rule: linorder_cases) auto
qed

lemma low_bytes_twice:
  "sort_key (\<lambda>x. byte_at (m * 8) (kf x)) (sort_key (\<lambda>x. unat (kf x) mod 2 ^ (8 * m)) xs) = sort_key (\<lambda>x. unat (kf x) mod 2 ^ (8 * Suc m)) xs"
proof -
  let ?low = "\<lambda>x. unat (kf x) mod 2 ^ (8 * m)" and ?hi = "\<lambda>x. byte_at (m * 8) (kf x)"
  have split: "unat (kf x) mod 2 ^ (8 * Suc m) = 2 ^ (8 * m) * ?hi x + ?low x" for x
    using mod_mult2_eq [of "unat (kf x)" "2 ^ (8 * m)" 256] by (simp add: byte_at_div power_add mult.commute)
  have "?low x < 2 ^ (8 * m)" for x by simp
  then have "sort_key (\<lambda>x. (?hi x, ?low x)) xs = sort_key (\<lambda>x. unat (kf x) mod 2 ^ (8 * Suc m)) xs"
    unfolding split by (intro sort_key_same digits_le)
  then show ?thesis by (simp only: sort_key_twice)
qed

text \<open>Passes over the bytes from the lowest up, whatever the keys are stored in.\<close>

lemma passes_sort:
  fixes pass :: "nat \<Rightarrow> 'a list \<times> 'a list \<Rightarrow> 'a list \<times> 'a list"
  assumes pass: "\<And>bp src dst. length src = length xs \<Longrightarrow> length dst = length xs \<Longrightarrow>
      fst (pass bp (src, dst)) = sort_key (\<lambda>x. byte_at (bp * 8) (kf x)) src \<and> length (snd (pass bp (src, dst))) = length xs"
    and tmp: "length tmp = length xs"
  shows "fst (fold pass [0..<m] (xs, tmp)) = sort_key (\<lambda>x. unat (kf x) mod 2 ^ (8 * m)) xs \<and> length (snd (fold pass [0..<m] (xs, tmp))) = length xs"
proof (induction m)
  case 0
  show ?case using tmp sort_key_const [of xs "\<lambda>x. 0" "0 :: nat"] by simp
next
  case (Suc m)
  obtain src dst where s: "fold pass [0..<m] (xs, tmp) = (src, dst)" by fastforce
  then show ?case using Suc pass [of src dst m] low_bytes_twice [of m kf xs] by simp
qed

lemma radix_run:
  assumes "0 < n_tasks" "length xs < 2 ^ 32" "\<And>bp. mset (sched bp) = mset [0..<n_tasks]" "length tmp = length xs"
  shows "map_option fst (radix_sort_run True n_tasks sched n_bytes (xs, tmp)) = Some (sort_key (\<lambda>x. unat (fst x) mod 2 ^ (8 * n_bytes)) xs)"
  using passes_sort [of xs "\<lambda>bp. radix_pass (\<lambda>x. byte_at (bp * 8) (fst x)) (radix_scatter_fn (bp * 8)) n_tasks (sched bp)" fst tmp n_bytes]
    kvd.radix_pass_sorts assms
  by (simp add: radix_sort_run_def radix_scatter_fn_def)

lemma packed_run:
  assumes "0 < n_tasks" "length xs < 2 ^ 32" "\<And>bp. mset (sched bp) = mset [0..<n_tasks]" "length tmp = length xs"
  shows "map_option fst (packed_radix_sort_run True n_tasks sched n_bytes (xs, tmp)) = Some (sort_key (\<lambda>x. unat x mod 2 ^ (8 * n_bytes)) xs)"
  using passes_sort [of xs "\<lambda>bp. radix_pass (byte_at (bp * 8)) (packed_scatter_fn (bp * 8)) n_tasks (sched bp)" "\<lambda>x. x" tmp n_bytes]
    pkd.radix_pass_sorts assms
  by (simp add: packed_radix_sort_run_def packed_scatter_fn_def)

text \<open>
  The byte-wise radix sorts, on pairs of key and row and on packed words, return the stable sort by the bytes they look
  at, for every number of tasks and every order of the scatters, passes that are skipped included.
\<close>

theorem radix_runs_stable:
  assumes "0 < n_tasks" "\<And>bp. mset (sched bp) = mset [0..<n_tasks]" "length xs < 2 ^ 32" "length tmp = length xs" "length ys < 2 ^ 32" "length ytmp = length ys"
  shows "map_option fst (radix_sort_run True n_tasks sched n_bytes (xs, tmp)) = Some (sort_key (\<lambda>x. unat (fst x) mod 2 ^ (8 * n_bytes)) xs) \<and>
    map_option fst (packed_radix_sort_run True n_tasks sched n_bytes (ys, ytmp)) = Some (sort_key (\<lambda>x. unat x mod 2 ^ (8 * n_bytes)) ys)"
  by (intro conjI radix_run packed_run assms)

theorem radix_runs_stable_witness:
  "map_option fst (radix_sort_run True 2 (\<lambda>bp. [1, 0]) 2 ([(513, 0), (258, 1), (513, 2)], [(0, 0), (0, 0), (0, 0)])) =
     Some (sort_key (\<lambda>x. unat (fst x) mod 2 ^ (8 * 2)) [(513, 0), (258, 1), (513, 2)]) \<and>
   map_option fst (packed_radix_sort_run True 2 (\<lambda>bp. [1, 0]) 2 ([7, 3], [0, 0])) = Some (sort_key (\<lambda>x. unat x mod 2 ^ (8 * 2)) [7, 3])"
  by (rule radix_runs_stable) (simp_all add: upt_rec add_mset_commute)

end
