(* ===== verification/Pool.thy ===== *)
theory Pool
  imports Prelude "HOL-Library.Multiset"
begin

text \<open>
  The thread pool of \<^verbatim>\<open>src/core/pool.c\<close> as an interleaving of the atomic steps of its threads. Thread 0 is the main
  thread, which dispatches and then works as worker 0; the others run \<open>worker_loop\<close>. Each atomic operation of the
  code, each ring slot filled and each task called is one step, the atomics being sequentially consistent; a weak
  compare-and-swap may fail for no reason. Tickets are 64-bit and never wrap, so they are natural numbers.

  Shown: in every reachable state each ticket claimed is the next one of the window, no ring slot is overwritten
  while its task is outstanding, and the barrier counts what is left; when the barrier opens every task of the
  dispatch has been called exactly once and no thread is in a task; from every state the dispatch can be completed;
  the tasks cover the rows.
\<close>

section \<open>The ring and a dispatch\<close>

record ptask =
  t_fn :: nat
  t_start :: nat
  t_end :: nat

definition TASK_GRAIN :: nat where
  "TASK_GRAIN = 8 * 1024"

definition MAX_RING_CAP :: nat where
  "MAX_RING_CAP = 65536"

text \<open>The doubling of the capacity, which is never zero.\<close>

function ring_cap :: "nat \<Rightarrow> nat \<Rightarrow> nat" where
  "ring_cap cap n = (if 0 < cap \<and> cap < n \<and> cap < MAX_RING_CAP then ring_cap (2 * cap) n else cap)"
  by pat_completeness auto

termination
  by (relation "measure (\<lambda>(cap, n). MAX_RING_CAP - cap)") auto

declare ring_cap.simps [simp del]

definition ring_grow :: "bool \<Rightarrow> nat \<Rightarrow> ptask list \<Rightarrow> ptask list" where
  "ring_grow mem n ring =
    (let new_cap = ring_cap (length ring) n
     in if length ring < n \<and> length ring < new_cap \<and> mem
        then ring @ replicate (new_cap - length ring) \<lparr>t_fn = 0, t_start = 0, t_end = 0\<rparr>
        else ring)"

text \<open>The tasks of a dispatch over \<open>rows\<close> rows on a ring of capacity \<open>cap\<close>.\<close>

definition row_tasks :: "nat \<Rightarrow> nat \<Rightarrow> nat \<Rightarrow> ptask list" where
  "row_tasks cap fn rows =
    (let n_tasks = (rows + TASK_GRAIN - 1) div TASK_GRAIN mod 2 ^ 32;
         n = min n_tasks cap;
         grain = (if n_tasks > cap then (rows + n - 1) div n else TASK_GRAIN)
     in map (\<lambda>i. \<lparr>t_fn = fn, t_start = i * grain, t_end = min (i * grain + grain) rows\<rparr>) [0..<n])"

definition part_tasks :: "nat \<Rightarrow> nat \<Rightarrow> nat \<Rightarrow> ptask list" where
  "part_tasks cap fn n_tasks = map (\<lambda>i. \<lparr>t_fn = fn, t_start = i, t_end = i + 1\<rparr>) [0..<min n_tasks cap]"

section \<open>The state and the steps\<close>

text \<open>
  Where a thread stands. Workers: asleep on the semaphore, woken, refused admission, in the claim loop, leaving it,
  gone. Claim loop: before the load of the cursor, before the load of the limit, before the compare-and-swap, with a
  ticket, before the call, after it. Main: between dispatches, filling slot \<open>i\<close>, before the stores of the barrier, the
  limit and the parallel flag, waking workers, spinning on the barrier.
\<close>

datatype pc = Asleep | Woken | Refused | Load | Lim nat | Cas nat | Got nat | Call nat | Done | Leave | Exited |
  Idle | Fill nat | Pend | Publish | Flag | Wake nat | Spin

text \<open>
  The pool. \<open>p_job\<close> and \<open>p_base\<close> are the locals of the dispatch; \<open>p_log\<close> records the calls (worker, ticket, task) and
  \<open>p_skip\<close> the tickets passed over after a cancel.
\<close>

record pool =
  p_tasks :: "ptask list"
  p_claim :: nat
  p_limit :: nat
  p_pending :: nat
  p_sem :: nat
  p_running :: nat
  p_active :: nat
  p_shutdown :: bool
  p_cancelled :: bool
  p_parallel :: bool
  p_pcs :: "pc list"
  p_job :: "ptask list"
  p_base :: nat
  p_log :: "(nat \<times> nat \<times> ptask) list"
  p_skip :: "nat list"

definition ray_pool_create :: "nat \<Rightarrow> pool" where
  "ray_pool_create n_workers =
    \<lparr>p_tasks = replicate 1024 \<lparr>t_fn = 0, t_start = 0, t_end = 0\<rparr>, p_claim = 0, p_limit = 0, p_pending = 0, p_sem = 0, p_running = 0,
     p_active = n_workers, p_shutdown = False, p_cancelled = False, p_parallel = False, p_pcs = Idle # replicate n_workers Asleep,
     p_job = [], p_base = 0, p_log = [], p_skip = []\<rparr>"

definition goto :: "nat \<Rightarrow> pc \<Rightarrow> pool \<Rightarrow> pool" where
  "goto w p s = s\<lparr>p_pcs := (p_pcs s)[w := p]\<rparr>"

definition slot_of :: "pool \<Rightarrow> nat \<Rightarrow> nat" where
  "slot_of s ticket = ticket AND (length (p_tasks s) - 1)"

text \<open>The loads and the compare-and-swap of \<open>pool_claim\<close>; \<open>weak\<close> is a failure of the exchange without a reason.\<close>

definition claim_step :: "bool \<Rightarrow> nat \<Rightarrow> pc \<Rightarrow> pool \<Rightarrow> pool" where
  "claim_step weak w at s =
    (case at of
       Load \<Rightarrow> goto w (Lim (p_claim s)) s
     | Lim cur \<Rightarrow> if cur \<ge> p_limit s then goto w (if w = 0 then Spin else Leave) s else goto w (Cas cur) s
     | Cas cur \<Rightarrow> if p_claim s = cur \<and> \<not> weak then goto w (Got cur) (s\<lparr>p_claim := cur + 1\<rparr>) else goto w (Lim (p_claim s)) s
     | _ \<Rightarrow> s)"

definition task_step :: "nat \<Rightarrow> pc \<Rightarrow> pool \<Rightarrow> pool" where
  "task_step w at s =
    (case at of
       Got idx \<Rightarrow> if p_cancelled s then goto w Done (s\<lparr>p_skip := p_skip s @ [idx]\<rparr>) else goto w (Call idx) s
     | Call idx \<Rightarrow> goto w Done (s\<lparr>p_log := p_log s @ [(w, idx, p_tasks s ! slot_of s idx)]\<rparr>)
     | Done \<Rightarrow> goto w Load (s\<lparr>p_pending := p_pending s - 1\<rparr>)
     | _ \<Rightarrow> s)"

text \<open>
  The rest of \<open>worker_loop\<close>; None where the thread has to wait. The look at the shutdown flag after a wake-up, the increment of
  the running count and the load of the limit it is compared with are one step.
\<close>

definition worker_step :: "nat \<Rightarrow> pc \<Rightarrow> pool \<Rightarrow> pool option" where
  "worker_step w at s =
    (case at of
       Asleep \<Rightarrow> if p_sem s = 0 then None else Some (goto w Woken (s\<lparr>p_sem := p_sem s - 1\<rparr>))
     | Woken \<Rightarrow> Some (if p_shutdown s then goto w Exited s
         else goto w (if p_running s \<ge> p_active s then Refused else Load) (s\<lparr>p_running := p_running s + 1\<rparr>))
     | Refused \<Rightarrow> Some (goto w Asleep (s\<lparr>p_running := p_running s - 1\<rparr>))
     | Leave \<Rightarrow> Some (goto w Asleep (s\<lparr>p_running := p_running s - 1\<rparr>))
     | _ \<Rightarrow> None)"

text \<open>The rest of a dispatch on the main thread.\<close>

definition main_step :: "pc \<Rightarrow> pool \<Rightarrow> pool option" where
  "main_step at s =
    (case at of
       Fill i \<Rightarrow> Some (if i < length (p_job s)
         then goto 0 (Fill (i + 1)) (s\<lparr>p_tasks := (p_tasks s)[slot_of s (p_base s + i) := p_job s ! i]\<rparr>) else goto 0 Pend s)
     | Pend \<Rightarrow> Some (goto 0 Publish (s\<lparr>p_pending := length (p_job s)\<rparr>))
     | Publish \<Rightarrow> Some (goto 0 Flag (s\<lparr>p_limit := p_base s + length (p_job s)\<rparr>))
     | Flag \<Rightarrow> Some (goto 0 (Wake (p_active s)) (s\<lparr>p_parallel := True\<rparr>))
     | Wake k \<Rightarrow> Some (if k = 0 then goto 0 Load s else goto 0 (Wake (k - 1)) (s\<lparr>p_sem := p_sem s + 1\<rparr>))
     | Spin \<Rightarrow> if p_pending s > 0 then None else Some (goto 0 Idle (s\<lparr>p_parallel := False\<rparr>))
     | _ \<Rightarrow> None)"

definition thread_step :: "bool \<Rightarrow> nat \<Rightarrow> pool \<Rightarrow> pool option" where
  "thread_step weak w s =
    (if w \<ge> length (p_pcs s) then None
     else let at = p_pcs s ! w in
       case at of
         Load \<Rightarrow> Some (claim_step weak w at s) | Lim _ \<Rightarrow> Some (claim_step weak w at s) | Cas _ \<Rightarrow> Some (claim_step weak w at s)
       | Got _ \<Rightarrow> Some (task_step w at s) | Call _ \<Rightarrow> Some (task_step w at s) | Done \<Rightarrow> Some (task_step w at s)
       | _ \<Rightarrow> if w = 0 then main_step at s else worker_step w at s)"

text \<open>
  A call of a dispatch by the main thread, up to where it starts to fill the ring; the calls between dispatches
  (cancellation and its reset, \<^verbatim>\<open>\s\<close>, the shutdown of \<open>ray_pool_free\<close>).
\<close>

definition start_dispatch :: "bool \<Rightarrow> nat \<Rightarrow> (nat \<Rightarrow> ptask list) \<Rightarrow> pool \<Rightarrow> pool" where
  "start_dispatch mem n_tasks tasks_of s =
    (let ring = ring_grow mem n_tasks (p_tasks s)
     in goto 0 (Fill 0) (s\<lparr>p_tasks := ring, p_job := tasks_of (length ring), p_base := p_limit s, p_log := [], p_skip := []\<rparr>))"

datatype event = Act bool nat | Dispatch bool nat nat | Dispatch_n bool nat nat | Cancel | Resume | Set_active nat | Shutdown

definition ray_pool_dispatch :: "bool \<Rightarrow> nat \<Rightarrow> nat \<Rightarrow> pool \<Rightarrow> pool" where
  "ray_pool_dispatch mem fn total_elems s =
    (if total_elems = 0 then s
     else let rows = min total_elems (2 ^ 63 - 1 - TASK_GRAIN + 1)
          in start_dispatch mem ((rows + TASK_GRAIN - 1) div TASK_GRAIN mod 2 ^ 32) (\<lambda>cap. row_tasks cap fn rows) s)"

definition ray_pool_dispatch_n :: "bool \<Rightarrow> nat \<Rightarrow> nat \<Rightarrow> pool \<Rightarrow> pool" where
  "ray_pool_dispatch_n mem fn n_tasks s =
    (if n_tasks = 0 then s else start_dispatch mem n_tasks (\<lambda>cap. part_tasks cap fn n_tasks) s)"

definition pool_step :: "event \<Rightarrow> pool \<Rightarrow> pool option" where
  "pool_step e s =
    (case e of
       Act weak w \<Rightarrow> thread_step weak w s
     | Cancel \<Rightarrow> Some (s\<lparr>p_cancelled := True\<rparr>)
     | _ \<Rightarrow> if p_pcs s ! 0 \<noteq> Idle then None
        else case e of
          Dispatch mem fn rows \<Rightarrow> Some (ray_pool_dispatch mem fn rows s)
        | Dispatch_n mem fn n \<Rightarrow> Some (ray_pool_dispatch_n mem fn n s)
        | Resume \<Rightarrow> Some (s\<lparr>p_cancelled := False\<rparr>)
        | Set_active n \<Rightarrow> Some (s\<lparr>p_active := n\<rparr>)
        | Shutdown \<Rightarrow> Some (s\<lparr>p_shutdown := True, p_sem := p_sem s + (length (p_pcs s) - 1)\<rparr>)
        | _ \<Rightarrow> None)"

inductive pool_reachable :: "nat \<Rightarrow> pool \<Rightarrow> bool" where
  create: "pool_reachable n (ray_pool_create n)"
| step: "pool_reachable n s \<Longrightarrow> pool_step e s = Some s' \<Longrightarrow> pool_reachable n s'"

fun pool_run :: "event list \<Rightarrow> pool \<Rightarrow> pool option" where
  "pool_run [] s = Some s"
| "pool_run (e # es) s = (case pool_step e s of None \<Rightarrow> None | Some s' \<Rightarrow> pool_run es s')"

section \<open>What holds in every state\<close>

text \<open>Threads with a ticket, the tickets not yet called, and the phases of the main thread.\<close>

fun busy :: "pc \<Rightarrow> bool" where
  "busy (Got _) = True" | "busy (Call _) = True" | "busy Done = True" | "busy _ = False"

fun ticket :: "pc \<Rightarrow> nat list" where
  "ticket (Got i) = [i]" | "ticket (Call i) = [i]" | "ticket _ = []"

fun preparing :: "pc \<Rightarrow> bool" where
  "preparing (Fill _) = True" | "preparing Pend = True" | "preparing Publish = True" | "preparing _ = False"

fun main_pc :: "pc \<Rightarrow> bool" where
  "main_pc Asleep = False" | "main_pc Woken = False" | "main_pc Refused = False" | "main_pc Leave = False" | "main_pc Exited = False" | "main_pc _ = True"

fun worker_pc :: "pc \<Rightarrow> bool" where
  "worker_pc Idle = False" | "worker_pc (Fill _) = False" | "worker_pc Pend = False" | "worker_pc Publish = False" | "worker_pc Flag = False" |
  "worker_pc (Wake _) = False" | "worker_pc Spin = False" | "worker_pc _ = True"

fun cursor_ok :: "nat \<Rightarrow> nat \<Rightarrow> pc \<Rightarrow> bool" where
  "cursor_ok claim limit (Lim c) \<longleftrightarrow> c \<le> claim"
| "cursor_ok claim limit (Cas c) \<longleftrightarrow> c \<le> claim \<and> c < limit"
| "cursor_ok claim limit Spin \<longleftrightarrow> claim = limit"
| "cursor_ok claim limit _ \<longleftrightarrow> True"

fun slots_filled :: "nat \<Rightarrow> pc \<Rightarrow> nat" where
  "slots_filled n (Fill i) = i" | "slots_filled n _ = n"

definition filled :: "pool \<Rightarrow> nat \<Rightarrow> bool" where
  "filled s m \<longleftrightarrow> m \<le> length (p_job s) \<and> (\<forall>j<m. p_tasks s ! slot_of s (p_base s + j) = p_job s ! j)"

definition ring_ok :: "pool \<Rightarrow> bool" where
  "ring_ok s \<longleftrightarrow> (\<exists>k. length (p_tasks s) = 2 ^ k) \<and> length (p_job s) \<le> length (p_tasks s)"

definition threads_ok :: "pool \<Rightarrow> bool" where
  "threads_ok s \<longleftrightarrow> p_pcs s \<noteq> [] \<and> main_pc (p_pcs s ! 0) \<and> (\<forall>w<length (p_pcs s). w \<noteq> 0 \<longrightarrow> worker_pc (p_pcs s ! w)) \<and>
    (\<forall>p\<in>set (p_pcs s). cursor_ok (p_claim s) (p_limit s) p) \<and> p_claim s \<le> p_limit s"

definition window_ok :: "pool \<Rightarrow> bool" where
  "window_ok s \<longleftrightarrow>
    (if preparing (p_pcs s ! 0)
     then p_base s = p_limit s \<and> p_claim s = p_limit s \<and> filter busy (p_pcs s) = [] \<and> p_log s = [] \<and> p_skip s = [] \<and>
       p_pending s = (if p_pcs s ! 0 = Publish then length (p_job s) else 0) \<and>
       filled s (slots_filled (length (p_job s)) (p_pcs s ! 0))
     else p_base s + length (p_job s) = p_limit s \<and> p_base s \<le> p_claim s \<and> filled s (length (p_job s)) \<and>
       p_pending s = p_limit s - p_claim s + length (filter busy (p_pcs s)) \<and>
       (p_pcs s ! 0 = Idle \<longrightarrow> p_pending s = 0))"

definition log_ok :: "pool \<Rightarrow> bool" where
  "log_ok s \<longleftrightarrow> mset (map (\<lambda>l. fst (snd l)) (p_log s)) + mset (p_skip s) + mset (concat (map ticket (p_pcs s))) = mset [p_base s..<p_claim s] \<and>
    (\<forall>(w, t, task)\<in>set (p_log s). w < length (p_pcs s) \<and> p_base s \<le> t \<and> task = p_job s ! (t - p_base s))"

definition pool_inv :: "pool \<Rightarrow> bool" where
  "pool_inv s \<longleftrightarrow> ring_ok s \<and> threads_ok s \<and> window_ok s \<and> log_ok s"

text \<open>The slot arithmetic: in a window no longer than the ring, different tickets have different slots.\<close>

lemma slot_mod: "length (p_tasks s) = 2 ^ k \<Longrightarrow> slot_of s t = t mod length (p_tasks s)"
proof -
  assume k: "length (p_tasks s) = 2 ^ k"
  have "t AND (2 ^ k - 1) = take_bit k t" by (simp add: take_bit_eq_mask mask_eq_exp_minus_1)
  then show ?thesis by (simp add: slot_of_def k take_bit_eq_mod)
qed

lemma slot_less: "ring_ok s \<Longrightarrow> slot_of s t < length (p_tasks s)"
  by (auto simp: ring_ok_def slot_mod)

lemma slots_differ:
  assumes "ring_ok s" "i < length (p_job s)" "j < length (p_job s)" "i \<noteq> j"
  shows "slot_of s (b + i) \<noteq> slot_of s (b + j)"
proof -
  obtain k where k: "length (p_tasks s) = 2 ^ k" using assms by (auto simp: ring_ok_def)
  let ?n = "length (p_tasks s)"
  have "i < ?n" "j < ?n" using assms by (auto simp: ring_ok_def)
  moreover have "i mod ?n = j mod ?n" if "(b + i) mod ?n = (b + j) mod ?n"
    using that by (simp add: nat_mod_eq_iff)
  ultimately show ?thesis using assms(4) by (auto simp: slot_mod [OF k])
qed

lemma busy_update:
  "w < length ps \<Longrightarrow> length (filter busy (ps[w := p])) + of_bool (busy (ps ! w)) = length (filter busy ps) + of_bool (busy p)"
proof (induction ps arbitrary: w)
  case (Cons q ps)
  then show ?case by (cases w) auto
qed simp

lemma ticket_update:
  "w < length ps \<Longrightarrow> mset (concat (map ticket (ps[w := p]))) + mset (ticket (ps ! w)) = mset (concat (map ticket ps)) + mset (ticket p)"
proof (induction ps arbitrary: w)
  case (Cons q ps)
  then show ?case by (cases w) (auto simp: ac_simps)
qed simp

lemma not_busy: "filter busy ps = [] \<Longrightarrow> w < length ps \<Longrightarrow> \<not> busy (ps ! w)"
  by (auto simp: filter_empty_conv)

text \<open>Fields the invariant does not look at.\<close>

lemma inv_other [simp]:
  "pool_inv (s\<lparr>p_sem := a\<rparr>) = pool_inv s" "pool_inv (s\<lparr>p_running := a\<rparr>) = pool_inv s" "pool_inv (s\<lparr>p_active := a\<rparr>) = pool_inv s"
  "pool_inv (s\<lparr>p_shutdown := b\<rparr>) = pool_inv s" "pool_inv (s\<lparr>p_cancelled := b\<rparr>) = pool_inv s" "pool_inv (s\<lparr>p_parallel := b\<rparr>) = pool_inv s"
  by (simp_all add: pool_inv_def ring_ok_def threads_ok_def window_ok_def log_ok_def filled_def slot_of_def)

lemma goto_fields [simp]:
  "p_tasks (goto w p s) = p_tasks s" "p_claim (goto w p s) = p_claim s" "p_limit (goto w p s) = p_limit s" "p_pending (goto w p s) = p_pending s"
  "p_pcs (goto w p s) = (p_pcs s)[w := p]" "p_job (goto w p s) = p_job s" "p_base (goto w p s) = p_base s" "p_log (goto w p s) = p_log s"
  "p_skip (goto w p s) = p_skip s" "slot_of (goto w p s) = slot_of s" "filled (goto w p s) = filled s" "ring_ok (goto w p s) = ring_ok s"
  by (simp_all add: goto_def slot_of_def filled_def ring_ok_def fun_eq_iff)

text \<open>A step that only moves a thread, without giving or taking a ticket.\<close>

definition moves :: "nat \<Rightarrow> pc \<Rightarrow> pool \<Rightarrow> bool" where
  "moves w p s \<longleftrightarrow> w < length (p_pcs s) \<and> busy p = busy (p_pcs s ! w) \<and> ticket p = ticket (p_pcs s ! w) \<and> cursor_ok (p_claim s) (p_limit s) p \<and>
    (if w = 0 then main_pc p \<and> \<not> preparing p \<and> \<not> preparing (p_pcs s ! w) \<and> p \<noteq> Idle else worker_pc p)"

lemma moves_other [simp]:
  "moves w p (s\<lparr>p_sem := x0\<rparr>) = moves w p s"
  "moves w p (s\<lparr>p_running := x1\<rparr>) = moves w p s"
  "moves w p (s\<lparr>p_active := x2\<rparr>) = moves w p s"
  "moves w p (s\<lparr>p_shutdown := x3\<rparr>) = moves w p s"
  "moves w p (s\<lparr>p_cancelled := x4\<rparr>) = moves w p s"
  "moves w p (s\<lparr>p_parallel := x5\<rparr>) = moves w p s"
  by (simp_all add: moves_def)

lemma filled_other [simp]:
  "filled (s\<lparr>p_pending := a\<rparr>) = filled s" "filled (s\<lparr>p_limit := a\<rparr>) = filled s" "filled (s\<lparr>p_claim := a\<rparr>) = filled s"
  "filled (s\<lparr>p_log := l\<rparr>) = filled s" "filled (s\<lparr>p_skip := k\<rparr>) = filled s"
  by (simp_all add: filled_def slot_of_def fun_eq_iff)

lemma threads_goto:
  assumes "threads_ok s" "w < length (p_pcs s)" "cursor_ok (p_claim s) (p_limit s) p" "if w = 0 then main_pc p else worker_pc p"
  shows "threads_ok (goto w p s)"
  using assms set_update_subset_insert [of "p_pcs s" w p] by (auto simp: threads_ok_def nth_list_update split: if_splits)

lemma window_goto:
  assumes "window_ok s" "moves w p s"
  shows "window_ok (goto w p s)"
proof -
  have w: "w < length (p_pcs s)" and len: "length (filter busy ((p_pcs s)[w := p])) = length (filter busy (p_pcs s))"
    using busy_update [of w "p_pcs s" p] assms(2) by (auto simp: moves_def)
  show ?thesis
  proof (cases "w = 0")
    case True
    then show ?thesis using assms w len by (simp add: window_ok_def moves_def)
  next
    case False
    moreover have "filter busy ((p_pcs s)[w := p]) = []" if "filter busy (p_pcs s) = []" using len that by simp
    ultimately show ?thesis using assms(1) len by (auto simp: window_ok_def split: if_splits)
  qed
qed

lemma goto_inv:
  assumes "pool_inv s" "moves w p s"
  shows "pool_inv (goto w p s)"
proof -
  have "mset (concat (map ticket ((p_pcs s)[w := p]))) = mset (concat (map ticket (p_pcs s)))"
    using ticket_update [of w "p_pcs s" p] assms(2) by (simp add: moves_def)
  then have "log_ok (goto w p s)" using assms(1) by (simp add: pool_inv_def log_ok_def)
  moreover have "threads_ok (goto w p s)" using assms by (intro threads_goto) (auto simp: pool_inv_def moves_def split: if_splits)
  ultimately show ?thesis using assms window_goto by (simp add: pool_inv_def)
qed

lemma no_ticket: "\<not> busy p \<Longrightarrow> ticket p = []"
  by (cases p) auto

lemma cursor_mono: "cursor_ok c l p \<Longrightarrow> p \<noteq> Spin \<Longrightarrow> c \<le> c' \<Longrightarrow> l \<le> l' \<Longrightarrow> cursor_ok c' l' p"
  by (cases p) auto

text \<open>A thread with a ticket, or one that takes one, is not there while the ring is filled.\<close>

lemma open_window:
  assumes "pool_inv s" "w < length (p_pcs s)" "busy (p_pcs s ! w)"
  shows "\<not> preparing (p_pcs s ! 0)"
  using assms not_busy [of "p_pcs s" w] by (auto simp: pool_inv_def window_ok_def)

lemma open_counts:
  assumes "pool_inv s" "\<not> preparing (p_pcs s ! 0)"
  shows "p_pending s = p_limit s - p_claim s + length (filter busy (p_pcs s))" "p_base s + length (p_job s) = p_limit s" "p_claim s \<le> p_limit s"
  using assms by (simp_all add: pool_inv_def window_ok_def threads_ok_def)

lemma drained:
  assumes "pool_inv s" "\<not> preparing (p_pcs s ! 0)" "p_pending s = 0"
  shows "p_claim s = p_limit s" "filter busy (p_pcs s) = []"
proof -
  have "p_limit s - p_claim s = 0" "length (filter busy (p_pcs s)) = 0" using open_counts [OF assms(1,2)] assms(3) by linarith+
  then show "p_claim s = p_limit s" "filter busy (p_pcs s) = []" using open_counts(3) [OF assms(1,2)] by simp_all
qed

lemma cas_inv:
  assumes inv: "pool_inv s" and w: "w < length (p_pcs s)" "p_pcs s ! w = Cas (p_claim s)"
  shows "pool_inv (goto w (Got (p_claim s)) (s\<lparr>p_claim := p_claim s + 1\<rparr>))" (is "pool_inv ?s")
proof -
  have below: "p_claim s < p_limit s" using inv w by (auto simp: pool_inv_def threads_ok_def dest!: nth_mem)
  then have opened: "\<not> preparing (p_pcs s ! 0)" using inv by (auto simp: pool_inv_def window_ok_def)
  have main: "main_pc (p_pcs s ! 0)" "p_pcs s ! 0 \<noteq> Spin" "p_pcs s ! 0 \<noteq> Idle"
  proof -
    have "p_pcs s ! 0 \<in> set (p_pcs s)" using w by (intro nth_mem) auto
    then have "cursor_ok (p_claim s) (p_limit s) (p_pcs s ! 0)" using inv by (simp add: pool_inv_def threads_ok_def)
    then show "p_pcs s ! 0 \<noteq> Spin" using below by auto
    show "main_pc (p_pcs s ! 0)" "p_pcs s ! 0 \<noteq> Idle"
      using inv below opened by (auto simp: pool_inv_def threads_ok_def window_ok_def)
  qed
  have nospin: "p \<noteq> Spin" if "p \<in> set (p_pcs s)" for p using that inv below by (auto simp: pool_inv_def threads_ok_def)
  have cur: "cursor_ok (p_claim s + 1) (p_limit s) p" if "p \<in> set (p_pcs s)" for p
    using that inv nospin [OF that] cursor_mono [of "p_claim s" "p_limit s" p] by (auto simp: pool_inv_def threads_ok_def)
  have "threads_ok (s\<lparr>p_claim := p_claim s + 1\<rparr>)" using inv below cur by (auto simp: pool_inv_def threads_ok_def)
  then have "threads_ok ?s" using w(1) by (intro threads_goto) auto
  moreover have "window_ok ?s"
  proof -
    have "length (filter busy ((p_pcs s)[w := Got (p_claim s)])) = length (filter busy (p_pcs s)) + 1"
      using busy_update [OF w(1), of "Got (p_claim s)"] w(2) by simp
    moreover have "\<not> preparing ((p_pcs s)[w := Got (p_claim s)] ! 0)" "(p_pcs s)[w := Got (p_claim s)] ! 0 \<noteq> Idle"
      using opened main w(1) by (auto simp: nth_list_update)
    ultimately show ?thesis using inv opened below by (simp add: pool_inv_def window_ok_def)
  qed
  moreover have "log_ok ?s"
  proof -
    have "mset (concat (map ticket ((p_pcs s)[w := Got (p_claim s)]))) = add_mset (p_claim s) (mset (concat (map ticket (p_pcs s))))"
      using ticket_update [OF w(1), of "Got (p_claim s)"] w(2) by simp
    then show ?thesis using inv opened by (simp add: pool_inv_def log_ok_def window_ok_def)
  qed
  moreover have "ring_ok ?s" using inv by (simp add: pool_inv_def ring_ok_def)
  ultimately show ?thesis by (simp add: pool_inv_def)
qed

lemma claim_tickets:
  assumes "pool_inv s" "w < length (p_pcs s)" "t \<in> set (ticket (p_pcs s ! w))"
  shows "p_base s \<le> t" "t < p_claim s" "p_tasks s ! slot_of s t = p_job s ! (t - p_base s)"
proof -
  have "t \<in># mset (concat (map ticket (p_pcs s)))" using assms(2,3) by auto
  then have "t \<in># mset [p_base s..<p_claim s]" using assms(1) unfolding pool_inv_def log_ok_def by (metis union_iff)
  then show t: "p_base s \<le> t" "t < p_claim s" by auto
  have "busy (p_pcs s ! w)" using assms(3) by (cases "p_pcs s ! w") auto
  then have "\<not> preparing (p_pcs s ! 0)" using open_window assms by blast
  then have "filled s (length (p_job s))" "p_base s + length (p_job s) = p_limit s" "p_claim s \<le> p_limit s"
    using assms(1) by (auto simp: pool_inv_def window_ok_def threads_ok_def)
  then show "p_tasks s ! slot_of s t = p_job s ! (t - p_base s)"
    using t by (auto simp: filled_def dest!: spec [of _ "t - p_base s"])
qed

text \<open>The ticket leaves the thread for the log or, after a cancel, for the skipped ones.\<close>

lemma served_inv:
  assumes inv: "pool_inv s" and w: "w < length (p_pcs s)" "ticket (p_pcs s ! w) = [t]"
    and entry: "ys = [] \<and> zs = [t] \<or> ys = [(w, t, p_tasks s ! slot_of s t)] \<and> zs = []"
  shows "pool_inv (goto w Done (s\<lparr>p_log := p_log s @ ys, p_skip := p_skip s @ zs\<rparr>))" (is "pool_inv ?s")
proof -
  have b: "busy (p_pcs s ! w)" using w(2) by (cases "p_pcs s ! w") auto
  note opened = open_window [OF inv w(1) b]
  let ?u = "s\<lparr>p_log := p_log s @ ys, p_skip := p_skip s @ zs\<rparr>"
  have "threads_ok ?s" using inv w(1) by (intro threads_goto) (auto simp: pool_inv_def threads_ok_def)
  moreover have "window_ok ?s"
  proof -
    have "length (filter busy ((p_pcs s)[w := Done])) = length (filter busy (p_pcs s))" using busy_update [OF w(1), of Done] b by simp
    moreover have "\<not> preparing ((p_pcs s)[w := Done] ! 0)" using opened w(1) by (auto simp: nth_list_update)
    moreover have "(p_pcs s)[w := Done] ! 0 = Idle \<Longrightarrow> p_pcs s ! 0 = Idle" using w(1) by (auto simp: nth_list_update split: if_splits)
    ultimately show ?thesis using inv opened by (auto simp: pool_inv_def window_ok_def)
  qed
  moreover have "log_ok ?s"
  proof -
    have "add_mset t (mset (concat (map ticket ((p_pcs s)[w := Done])))) = mset (concat (map ticket (p_pcs s)))"
      using ticket_update [OF w(1), of Done] w(2) by simp
    then show ?thesis using inv entry claim_tickets [OF inv w(1), of t] w unfolding pool_inv_def log_ok_def
      by (auto simp flip: \<open>add_mset t _ = _\<close> simp: ac_simps)
  qed
  moreover have "ring_ok ?s" using inv by (simp add: pool_inv_def ring_ok_def)
  ultimately show ?thesis by (simp add: pool_inv_def)
qed

lemma done_inv:
  assumes inv: "pool_inv s" and w: "w < length (p_pcs s)" "p_pcs s ! w = Done"
  shows "pool_inv (goto w Load (s\<lparr>p_pending := p_pending s - 1\<rparr>))" (is "pool_inv ?s")
proof -
  have opened: "\<not> preparing (p_pcs s ! 0)" using open_window [OF inv w(1)] w(2) by simp
  have len: "length (filter busy (p_pcs s)) = length (filter busy ((p_pcs s)[w := Load])) + 1"
    using busy_update [OF w(1), of Load] w(2) by simp
  have "threads_ok ?s" using inv w(1) by (intro threads_goto) (auto simp: pool_inv_def threads_ok_def)
  moreover have "window_ok ?s"
  proof -
    have "\<not> preparing ((p_pcs s)[w := Load] ! 0)" "(p_pcs s)[w := Load] ! 0 = Idle \<Longrightarrow> p_pcs s ! 0 = Idle"
      using opened w(1) by (auto simp: nth_list_update split: if_splits)
    then show ?thesis using inv opened len by (auto simp: pool_inv_def window_ok_def)
  qed
  moreover have "log_ok ?s" using inv ticket_update [OF w(1), of Load] w(2) by (simp add: pool_inv_def log_ok_def)
  moreover have "ring_ok ?s" using inv by (simp add: pool_inv_def ring_ok_def)
  ultimately show ?thesis by (simp add: pool_inv_def)
qed

text \<open>The main thread prepares a window while nobody holds a ticket, and returns when the barrier is down.\<close>

lemma main_lt: "pool_inv s \<Longrightarrow> 0 < length (p_pcs s)"
  by (simp add: pool_inv_def threads_ok_def)

lemma only_main_spins:
  assumes "threads_ok s" "Spin \<in> set (p_pcs s)"
  shows "p_pcs s ! 0 = Spin"
proof -
  obtain w where w: "w < length (p_pcs s)" "p_pcs s ! w = Spin" using assms(2) by (auto simp: in_set_conv_nth)
  have "w = 0"
  proof (rule ccontr)
    assume "w \<noteq> 0"
    then have "worker_pc (p_pcs s ! w)" using assms(1) w(1) by (simp add: threads_ok_def)
    then show False using w(2) by simp
  qed
  then show ?thesis using w by simp
qed

lemma fill_inv:
  assumes inv: "pool_inv s" and at: "p_pcs s ! 0 = Fill i" and i: "i < length (p_job s)"
  shows "pool_inv (goto 0 (Fill (i + 1)) (s\<lparr>p_tasks := (p_tasks s)[slot_of s (p_base s + i) := p_job s ! i]\<rparr>))" (is "pool_inv ?s")
proof -
  note lt = main_lt [OF inv]
  let ?u = "s\<lparr>p_tasks := (p_tasks s)[slot_of s (p_base s + i) := p_job s ! i]\<rparr>"
  have slots: "slot_of ?u = slot_of s" by (simp add: slot_of_def fun_eq_iff)
  have ring: "ring_ok s" and old: "filled s i" using inv at by (auto simp: pool_inv_def window_ok_def)
  have "p_tasks ?u ! slot_of ?u (p_base s + j) = p_job s ! j" if "j < i + 1" for j
  proof (cases "j = i")
    case True
    then show ?thesis using slot_less [OF ring] by (simp add: slots)
  next
    case False
    then have j: "j < i" using that by simp
    then have "slot_of s (p_base s + i) \<noteq> slot_of s (p_base s + j)" using slots_differ [OF ring i] i by simp
    then show ?thesis using old j by (simp add: slots filled_def)
  qed
  then have "filled ?u (i + 1)" using i by (simp add: filled_def)
  moreover have "length (filter busy ((p_pcs s)[0 := Fill (i + 1)])) = length (filter busy (p_pcs s))" using busy_update [OF lt, of "Fill (i + 1)"] at by simp
  ultimately have "window_ok ?s" using inv at lt by (simp add: pool_inv_def window_ok_def)
  moreover have "threads_ok ?s" using inv lt by (intro threads_goto) (auto simp: pool_inv_def threads_ok_def)
  moreover have "log_ok ?s" using inv ticket_update [OF lt, of "Fill (i + 1)"] at by (simp add: pool_inv_def log_ok_def)
  moreover have "ring_ok ?s" using inv by (simp add: pool_inv_def ring_ok_def)
  ultimately show ?thesis by (simp add: pool_inv_def)
qed

text \<open>From the last slot to the published window.\<close>

lemma publish_inv:
  assumes inv: "pool_inv s"
  shows "p_pcs s ! 0 = Fill i \<Longrightarrow> \<not> i < length (p_job s) \<Longrightarrow> pool_inv (goto 0 Pend s)"
    and "p_pcs s ! 0 = Pend \<Longrightarrow> pool_inv (goto 0 Publish (s\<lparr>p_pending := length (p_job s)\<rparr>))"
    and "p_pcs s ! 0 = Publish \<Longrightarrow> pool_inv (goto 0 Flag (s\<lparr>p_limit := p_base s + length (p_job s)\<rparr>))"
proof -
  note lt = main_lt [OF inv]
  have busy: "length (filter busy ((p_pcs s)[0 := p])) = length (filter busy (p_pcs s))" and
    tick: "mset (concat (map ticket ((p_pcs s)[0 := p]))) = mset (concat (map ticket (p_pcs s)))"
    if "\<not> busy p" "\<not> busy (p_pcs s ! 0)" for p
    using that busy_update [OF lt, of p] ticket_update [OF lt, of p] by (simp_all add: no_ticket)
  note inv' = inv [unfolded pool_inv_def log_ok_def window_ok_def]
  show "pool_inv (goto 0 Pend s)" if at: "p_pcs s ! 0 = Fill i" "\<not> i < length (p_job s)"
  proof -
    have "i = length (p_job s)" using inv' at by (simp add: filled_def)
    then have "window_ok (goto 0 Pend s)" using inv' at lt busy [of Pend] by (simp add: window_ok_def)
    moreover have "threads_ok (goto 0 Pend s)" using inv lt by (intro threads_goto) (auto simp: pool_inv_def threads_ok_def)
    moreover have "log_ok (goto 0 Pend s)" using inv at tick [of Pend] unfolding pool_inv_def log_ok_def by simp
    ultimately show ?thesis using inv by (simp add: pool_inv_def)
  qed
  show "pool_inv (goto 0 Publish (s\<lparr>p_pending := length (p_job s)\<rparr>))" (is "pool_inv ?s") if at: "p_pcs s ! 0 = Pend"
  proof -
    have "window_ok ?s" using inv' at lt busy [of Publish] by (simp add: window_ok_def)
    moreover have "threads_ok ?s" using inv lt by (intro threads_goto) (auto simp: pool_inv_def threads_ok_def)
    moreover have "log_ok ?s" using inv at tick [of Publish] unfolding pool_inv_def log_ok_def by simp
    moreover have "ring_ok ?s" using inv by (simp add: pool_inv_def ring_ok_def)
    ultimately show ?thesis by (simp add: pool_inv_def)
  qed
  show "pool_inv (goto 0 Flag (s\<lparr>p_limit := p_base s + length (p_job s)\<rparr>))" (is "pool_inv ?s") if at: "p_pcs s ! 0 = Publish"
  proof -
    have "window_ok ?s" using inv' at lt busy [of Flag] by (simp add: window_ok_def)
    moreover have "threads_ok ?s"
    proof (rule threads_goto)
      have t: "threads_ok s" "p_claim s = p_limit s" "p_base s = p_limit s" using inv at by (auto simp: pool_inv_def window_ok_def)
      have "Spin \<notin> set (p_pcs s)" using only_main_spins [OF t(1)] at by auto
      have "cursor_ok (p_claim s) (p_limit s + length (p_job s)) p" if "p \<in> set (p_pcs s)" for p
      proof (rule cursor_mono)
        show "cursor_ok (p_claim s) (p_limit s) p" "p \<noteq> Spin" using that t(1) \<open>Spin \<notin> set (p_pcs s)\<close> by (auto simp: threads_ok_def)
      qed simp_all
      then show "threads_ok (s\<lparr>p_limit := p_base s + length (p_job s)\<rparr>)" using t by (simp add: threads_ok_def)
    qed (use lt in simp_all)
    moreover have "log_ok ?s" using inv at tick [of Flag] unfolding pool_inv_def log_ok_def by simp
    moreover have "ring_ok ?s" using inv by (simp add: pool_inv_def ring_ok_def)
    ultimately show ?thesis by (simp add: pool_inv_def)
  qed
qed

lemma return_inv:
  assumes inv: "pool_inv s" and at: "p_pcs s ! 0 = Spin" and "p_pending s = 0"
  shows "pool_inv (goto 0 Idle s)"
proof -
  note lt = main_lt [OF inv]
  have "window_ok (goto 0 Idle s)" using inv at assms(3) lt busy_update [OF lt, of Idle] by (simp add: pool_inv_def window_ok_def)
  moreover have "threads_ok (goto 0 Idle s)" using inv lt by (intro threads_goto) (auto simp: pool_inv_def)
  moreover have "log_ok (goto 0 Idle s)" using inv ticket_update [OF lt, of Idle] at by (simp add: pool_inv_def log_ok_def)
  ultimately show ?thesis using inv by (simp add: pool_inv_def)
qed

text \<open>The start of a dispatch: a ring that is a power of two and holds the tasks.\<close>

lemma ring_cap_power: "\<exists>j. ring_cap cap n = cap * 2 ^ j"
proof (induction cap n rule: ring_cap.induct)
  case (1 cap n)
  show ?case
  proof (cases "0 < cap \<and> cap < n \<and> cap < MAX_RING_CAP")
    case True
    then obtain j where "ring_cap (2 * cap) n = 2 * cap * 2 ^ j" using 1 by blast
    then have "ring_cap cap n = cap * 2 ^ Suc j" using True by (simp add: ring_cap.simps [of cap n])
    then show ?thesis by blast
  next
    case False
    then show ?thesis by (auto simp: ring_cap.simps [of cap n] intro: exI [of _ 0])
  qed
qed

lemma ring_grow_power: "length ring = 2 ^ k \<Longrightarrow> \<exists>j. length (ring_grow mem n ring) = 2 ^ j"
  using ring_cap_power [of "length ring" n] by (auto simp: ring_grow_def Let_def power_add [symmetric] intro: exI)

lemma start_inv:
  assumes inv: "pool_inv s" and at: "p_pcs s ! 0 = Idle" and fits: "\<And>cap. length (tasks_of cap) \<le> cap"
  shows "pool_inv (start_dispatch mem n tasks_of s)"
proof -
  note lt = main_lt [OF inv]
  let ?s = "start_dispatch mem n tasks_of s"
  have "window_ok s" using inv by (simp add: pool_inv_def)
  then have "p_pending s = 0" unfolding window_ok_def at by auto
  then have clean: "p_claim s = p_limit s" "filter busy (p_pcs s) = []" "p_pending s = 0" using drained [OF inv] at by simp_all
  then have "ticket p = []" if "p \<in> set (p_pcs s)" for p using that no_ticket by (auto simp: filter_empty_conv)
  then have tick: "concat (map ticket ((p_pcs s)[0 := Fill 0])) = []"
    using set_update_subset_insert [of "p_pcs s" 0 "Fill 0"] by fastforce
  have busy: "filter busy ((p_pcs s)[0 := Fill 0]) = []"
    using busy_update [OF lt, of "Fill 0"] at clean(2) by (simp del: list_update_code)
  have "ring_ok ?s" using inv ring_grow_power fits by (auto simp: pool_inv_def ring_ok_def start_dispatch_def Let_def)
  moreover have "threads_ok ?s" unfolding start_dispatch_def Let_def using inv lt by (intro threads_goto) (auto simp: pool_inv_def threads_ok_def)
  moreover have "window_ok ?s" using clean busy lt by (simp add: window_ok_def start_dispatch_def Let_def filled_def)
  moreover have "log_ok ?s" using tick clean(1) by (simp add: log_ok_def start_dispatch_def Let_def)
  ultimately show ?thesis by (simp add: pool_inv_def)
qed

lemma claim_step_inv:
  assumes inv: "pool_inv s" and w: "w < length (p_pcs s)" "p_pcs s ! w = at" "at = Load \<or> at = Lim c \<or> at = Cas c"
  shows "pool_inv (claim_step weak w at s)"
proof (cases "at = Cas c \<and> p_claim s = c \<and> \<not> weak")
  case True
  then show ?thesis using cas_inv [OF inv w(1)] w(2) by (auto simp: claim_step_def)
next
  case False
  have "at \<in> set (p_pcs s)" using nth_mem [OF w(1)] w(2) by simp
  then have cur: "cursor_ok (p_claim s) (p_limit s) at" "p_claim s \<le> p_limit s" using inv by (auto simp: pool_inv_def threads_ok_def)
  have mv: "moves w p s" if "p = Lim (p_claim s) \<or> p = (if w = 0 then Spin else Leave) \<and> p_limit s \<le> p_claim s \<or> p = Cas c \<and> c < p_limit s \<and> at = Lim c" for p
    using that w cur by (auto simp: moves_def)
  note go = mv [THEN goto_inv [OF inv]]
  from w(3) show ?thesis
  proof (elim disjE)
    assume "at = Load"
    then show ?thesis using go [of "Lim (p_claim s)"] by (simp add: claim_step_def)
  next
    assume "at = Lim c"
    then show ?thesis using go [of "if w = 0 then Spin else Leave"] go [of "Cas c"] cur by (simp add: claim_step_def)
  next
    assume "at = Cas c"
    moreover have "\<not> (p_claim s = c \<and> \<not> weak)" using False calculation by blast
    ultimately show ?thesis using go [of "Lim (p_claim s)", OF disjI1] by (simp only: claim_step_def pc.case if_False)
  qed
qed

lemma task_step_inv:
  assumes inv: "pool_inv s" and w: "w < length (p_pcs s)" "p_pcs s ! w = at" and b: "busy at"
  shows "pool_inv (task_step w at s)"
proof (cases at)
  case (Got i)
  moreover have "moves w (Call i) s" using w Got by (auto simp: moves_def)
  moreover have "p_skip s @ [i] = p_skip s @ [i]" "s\<lparr>p_skip := p_skip s @ [i]\<rparr> = s\<lparr>p_log := p_log s @ [], p_skip := p_skip s @ [i]\<rparr>" by simp_all
  ultimately show ?thesis using goto_inv [OF inv] served_inv [OF inv w(1), of i "[]" "[i]"] w(2) by (simp add: task_step_def)
next
  case (Call i)
  have "s\<lparr>p_log := p_log s @ l\<rparr> = s\<lparr>p_log := p_log s @ l, p_skip := p_skip s @ []\<rparr>" for l by simp
  then show ?thesis using Call served_inv [OF inv w(1), of i "[(w, i, p_tasks s ! slot_of s i)]" "[]"] w(2) by (simp add: task_step_def)
next
  case Done
  then show ?thesis using done_inv [OF inv w(1)] w(2) by (simp add: task_step_def)
qed (use b in simp_all)

lemma main_step_inv:
  assumes inv: "pool_inv s" and at: "p_pcs s ! 0 = at" and st: "main_step at s = Some s'"
  shows "pool_inv s'"
proof (cases at)
  case (Fill i)
  then show ?thesis using fill_inv [OF inv] publish_inv(1) [OF inv] at st by (auto simp: main_step_def split: if_splits)
next
  case (Wake k)
  have "moves 0 (Wake j) s" "moves 0 Load s" for j using Wake at main_lt [OF inv] by (auto simp: moves_def)
  then show ?thesis using Wake st inv by (auto simp: main_step_def intro!: goto_inv split: if_splits)
next
  case Flag
  have "moves 0 (Wake j) s" for j using Flag at main_lt [OF inv] by (auto simp: moves_def)
  then show ?thesis using Flag st inv by (auto simp: main_step_def intro!: goto_inv)
next
  case Spin
  then show ?thesis using return_inv [of "s\<lparr>p_parallel := False\<rparr>"] inv at st by (auto simp: main_step_def split: if_splits)
qed (use publish_inv [OF inv] at st in \<open>auto simp: main_step_def\<close>)

lemma worker_step_inv:
  assumes inv: "pool_inv s" and w: "w < length (p_pcs s)" "p_pcs s ! w = at" "w \<noteq> 0" and st: "worker_step w at s = Some s'"
  shows "pool_inv s'"
proof -
  have "moves w p s" if "\<not> busy at" "p \<in> {Woken, Exited, Refused, Load, Asleep}" for p
    using that w no_ticket by (auto simp: moves_def)
  then have go: "pool_inv (goto w p s)" "pool_inv (goto w p (s\<lparr>p_sem := a\<rparr>))" "pool_inv (goto w p (s\<lparr>p_running := a\<rparr>))"
    if "\<not> busy at" "p \<in> {Woken, Exited, Refused, Load, Asleep}" for p a
    using that inv goto_inv [of _ w p] by simp_all
  then show ?thesis using st by (cases at) (auto simp: worker_step_def split: if_splits)
qed

lemma thread_step_inv:
  assumes inv: "pool_inv s" and st: "thread_step weak w s = Some s'"
  shows "pool_inv s'"
proof -
  have w: "w < length (p_pcs s)" using st by (simp add: thread_step_def split: if_splits)
  note cl = claim_step_inv [OF inv w refl] and tk = task_step_inv [OF inv w refl] and mn = main_step_inv [OF inv refl] and wk = worker_step_inv [OF inv w refl]
  show ?thesis using w st cl tk mn wk
    by (cases "p_pcs s ! w") (auto simp: thread_step_def Let_def split: if_splits)
qed

lemma row_tasks_fit: "length (row_tasks cap fn rows) \<le> cap" and part_tasks_fit: "length (part_tasks cap fn n) \<le> cap"
  by (simp_all add: row_tasks_def part_tasks_def Let_def)

lemma pool_step_inv:
  assumes inv: "pool_inv s" and st: "pool_step e s = Some s'"
  shows "pool_inv s'"
proof -
  note start = start_inv [OF inv, of "\<lambda>cap. row_tasks cap f n" for f n, OF _ row_tasks_fit] start_inv [OF inv, of "\<lambda>cap. part_tasks cap f n" for f n, OF _ part_tasks_fit]
  show ?thesis using st inv start thread_step_inv [OF inv]
    by (cases e) (auto simp: pool_step_def ray_pool_dispatch_def ray_pool_dispatch_n_def Let_def split: if_splits)
qed

lemma create_inv: "pool_inv (ray_pool_create n)"
proof -
  have "concat (map ticket (Idle # replicate n Asleep)) = []" by simp
  moreover have "(1024 :: nat) = 2 ^ 10" by simp
  ultimately show ?thesis
    by (auto simp: pool_inv_def ray_pool_create_def ring_ok_def threads_ok_def window_ok_def log_ok_def filled_def nth_Cons' simp del: concat.simps intro: exI [of _ 10])
qed

lemma reachable_inv: "pool_reachable n s \<Longrightarrow> pool_inv s"
  by (induction rule: pool_reachable.induct) (auto intro: create_inv pool_step_inv)

section \<open>The barrier\<close>

text \<open>Nothing is skipped unless the query is cancelled.\<close>

lemma skip_only_cancelled:
  assumes "pool_reachable n s" "p_pcs s ! 0 \<noteq> Idle" "\<not> p_cancelled s"
  shows "p_skip s = []"
  using assms
proof (induction rule: pool_reachable.induct)
  case (step n s e s')
  note inv = reachable_inv [OF step.hyps(1)]
  have lt: "0 < length (p_pcs s)" by (rule main_lt [OF inv])
  show ?case
  proof (cases e)
    case (Act weak w)
    then have st: "thread_step weak w s = Some s'" using step.hyps(2) by (simp add: pool_step_def)
    then have w: "w < length (p_pcs s)" by (simp add: thread_step_def split: if_splits)
    show ?thesis using st w step.IH step.prems lt
      by (cases "p_pcs s ! w"; cases "p_pcs s ! 0 = Idle")
        (auto simp: thread_step_def Let_def claim_step_def task_step_def main_step_def worker_step_def goto_def nth_list_update split: if_splits)
  qed (use step.hyps(2) step.IH step.prems lt in \<open>auto simp: pool_step_def ray_pool_dispatch_def ray_pool_dispatch_n_def start_dispatch_def Let_def split: if_splits\<close>)
qed (simp add: ray_pool_create_def)

lemma barrier:
  assumes inv: "pool_inv s" and at: "p_pcs s ! 0 = Spin" "p_pending s = 0"
  shows "filter busy (p_pcs s) = []" "p_claim s = p_limit s" "p_base s + length (p_job s) = p_claim s"
    "mset (map (\<lambda>l. fst (snd l)) (p_log s)) + mset (p_skip s) = mset [p_base s..<p_claim s]"
proof -
  have opened: "\<not> preparing (p_pcs s ! 0)" using at by simp
  show f: "filter busy (p_pcs s) = []" "p_claim s = p_limit s" "p_base s + length (p_job s) = p_claim s"
    using drained [OF inv opened at(2)] open_counts [OF inv opened] by simp_all
  have "concat (map ticket (p_pcs s)) = []" using f(1) no_ticket by (auto simp: filter_empty_conv)
  then have none: "mset (concat (map ticket (p_pcs s))) = {#}" by (simp only: mset.simps)
  have "mset (map (\<lambda>l. fst (snd l)) (p_log s)) + mset (p_skip s) + mset (concat (map ticket (p_pcs s))) = mset [p_base s..<p_claim s]"
    using inv unfolding pool_inv_def log_ok_def by blast
  then show "mset (map (\<lambda>l. fst (snd l)) (p_log s)) + mset (p_skip s) = mset [p_base s..<p_claim s]"
    unfolding none add_0_right .
qed

lemma served_tasks:
  assumes inv: "pool_inv s" and at: "p_pcs s ! 0 = Spin" "p_pending s = 0" and all: "p_skip s = []"
  shows "mset (map (\<lambda>l. snd (snd l)) (p_log s)) = mset (p_job s)"
proof -
  note b = barrier [OF inv at]
  let ?task = "\<lambda>t. p_job s ! (t - p_base s)"
  have "snd (snd l) = ?task (fst (snd l))" if "l \<in> set (p_log s)" for l using that inv by (fastforce simp: pool_inv_def log_ok_def)
  then have "map (\<lambda>l. snd (snd l)) (p_log s) = map ?task (map (\<lambda>l. fst (snd l)) (p_log s))" by simp
  then have "mset (map (\<lambda>l. snd (snd l)) (p_log s)) = image_mset ?task (mset (map (\<lambda>l. fst (snd l)) (p_log s)))" by (metis mset_map)
  also have "mset (map (\<lambda>l. fst (snd l)) (p_log s)) = mset [p_base s..<p_claim s]" using b(4) all by simp
  also have "image_mset ?task (mset [p_base s..<p_claim s]) = mset (map ?task [p_base s..<p_base s + length (p_job s)])" by (simp only: mset_map b(3))
  also have "map ?task [p_base s..<p_base s + length (p_job s)] = p_job s" by (rule nth_equalityI) simp_all
  finally show ?thesis .
qed

lemma reachable_run: "pool_reachable n s \<Longrightarrow> pool_run es s = Some s' \<Longrightarrow> pool_reachable n s'"
proof (induction es arbitrary: s)
  case (Cons e es)
  then show ?case by (auto split: option.splits intro: pool_reachable.step)
qed simp

text \<open>The tasks of a dispatch over rows are consecutive ranges of them.\<close>

lemma ranges_upt: "concat (map (\<lambda>i. [i * g..<min (i * g + g) m]) [0..<n]) = [0..<min (n * g) m]"
proof (induction n)
  case (Suc n)
  show ?case
  proof (cases "n * g \<le> m")
    case True
    then have "[0..<n * g] @ [n * g..<min (n * g + g) m] = [0..<min (n * g + g) m]" by (metis le_add1 le_add_same_cancel1 min.bounded_iff upt_add_eq_append zero_le add_0 le_Suc_ex)
    then show ?thesis using Suc True by (simp add: add.commute)
  next
    case False
    then show ?thesis using Suc by (simp add: min_def)
  qed
qed simp

lemma ceil_covers: "0 < g \<Longrightarrow> m \<le> (m + g - 1) div g * (g :: nat)"
proof -
  assume "0 < g"
  then have "m + g - 1 < ((m + g - 1) div g + 1) * g" using dividend_less_div_times [of g "m + g - 1"] by (simp add: algebra_simps)
  then show ?thesis using \<open>0 < g\<close> by (simp add: algebra_simps)
qed

lemma row_tasks_cover:
  assumes "0 < cap" "rows < 2 ^ 44"
  shows "concat (map (\<lambda>t. [t_start t..<t_end t]) (row_tasks cap fn rows)) = [0..<rows]"
proof -
  define k where "k = (rows + TASK_GRAIN - 1) div TASK_GRAIN"
  have "k < 2 ^ 32" using assms(2) unfolding k_def TASK_GRAIN_def by (simp add: less_mult_imp_div_less)
  then have k: "k mod 2 ^ 32 = k" by simp
  show ?thesis
  proof (cases "cap < k")
    case True
    then have "row_tasks cap fn rows = map (\<lambda>i. \<lparr>t_fn = fn, t_start = i * ((rows + cap - 1) div cap), t_end = min (i * ((rows + cap - 1) div cap) + (rows + cap - 1) div cap) rows\<rparr>) [0..<cap]"
      unfolding row_tasks_def k_def [symmetric] k Let_def by (simp add: min_def)
    then show ?thesis using ceil_covers [OF assms(1), of rows] by (simp add: comp_def ranges_upt mult.commute)
  next
    case False
    then have "row_tasks cap fn rows = map (\<lambda>i. \<lparr>t_fn = fn, t_start = i * TASK_GRAIN, t_end = min (i * TASK_GRAIN + TASK_GRAIN) rows\<rparr>) [0..<k]"
      unfolding row_tasks_def k_def [symmetric] k Let_def by (simp add: min_def)
    moreover have "rows \<le> k * TASK_GRAIN" unfolding k_def by (rule ceil_covers) (simp add: TASK_GRAIN_def)
    ultimately show ?thesis by (simp add: comp_def ranges_upt)
  qed
qed

section \<open>Progress\<close>

text \<open>What is left of a dispatch when only the main thread and the workers inside a task move.\<close>

fun busy_rank :: "pc \<Rightarrow> nat" where
  "busy_rank (Got _) = 3" | "busy_rank (Call _) = 2" | "busy_rank Done = 1" | "busy_rank _ = 0"

fun main_rank :: "nat \<Rightarrow> nat \<Rightarrow> nat \<Rightarrow> pc \<Rightarrow> nat" where
  "main_rank active n claim (Fill i) = 14 + active + (n - i)"
| "main_rank active n claim Pend = 13 + active"
| "main_rank active n claim Publish = 12 + active"
| "main_rank active n claim Flag = 11 + active"
| "main_rank active n claim (Wake k) = 10 + k"
| "main_rank active n claim (Got _) = 9"
| "main_rank active n claim (Call _) = 8"
| "main_rank active n claim Done = 7"
| "main_rank active n claim Load = 5"
| "main_rank active n claim (Lim c) = (if c = claim then 2 else 4)"
| "main_rank active n claim (Cas c) = (if c = claim then 1 else 3)"
| "main_rank active n claim Spin = 1"
| "main_rank active n claim _ = 0"

definition pool_rank :: "pool \<Rightarrow> nat" where
  "pool_rank s = 10 * (if preparing (p_pcs s ! 0) then length (p_job s) else p_limit s - p_claim s) +
    main_rank (p_active s) (length (p_job s)) (p_claim s) (p_pcs s ! 0) + sum_list (map busy_rank (tl (p_pcs s)))"

lemma busy_worker_step:
  assumes w: "w < length (p_pcs s)" "w \<noteq> 0" "busy (p_pcs s ! w)"
  shows "\<exists>s'. thread_step False w s = Some s' \<and> pool_rank s' < pool_rank s"
proof -
  have sums: "sum_list (map busy_rank (tl ((p_pcs s)[w := p]))) < sum_list (map busy_rank (tl (p_pcs s)))" if "busy_rank p < busy_rank (p_pcs s ! w)" for p
  proof -
    have "i < length qs \<Longrightarrow> busy_rank p < busy_rank (qs ! i) \<Longrightarrow> sum_list (map busy_rank (qs[i := p])) < sum_list (map busy_rank qs)" for i qs
    proof (induction qs arbitrary: i)
      case (Cons q qs)
      then show ?case by (cases i) auto
    qed simp
    then have "sum_list (map busy_rank ((tl (p_pcs s))[w - 1 := p])) < sum_list (map busy_rank (tl (p_pcs s)))"
      using that w(1,2) by (simp add: nth_tl)
    moreover have "tl ((p_pcs s)[w := p]) = (tl (p_pcs s))[w - 1 := p]" using w by (cases "p_pcs s"; cases w) auto
    ultimately show ?thesis by simp
  qed
  have main: "(p_pcs s)[w := p] ! 0 = p_pcs s ! 0" for p using w(2) by simp
  show ?thesis using w sums main
    by (cases "p_pcs s ! w") (auto simp: thread_step_def Let_def task_step_def pool_rank_def goto_def split: if_splits)
qed

lemma main_thread_step:
  assumes inv: "pool_inv s" and at: "p_pcs s ! 0 \<noteq> Idle" "p_pcs s ! 0 = Spin \<longrightarrow> p_pending s = 0"
  shows "\<exists>s'. thread_step False 0 s = Some s' \<and> pool_rank s' < pool_rank s"
proof -
  note lt = main_lt [OF inv]
  have rest: "tl ((p_pcs s)[0 := p]) = tl (p_pcs s)" for p by (cases "p_pcs s") auto
  have main: "main_pc (p_pcs s ! 0)" and cur: "cursor_ok (p_claim s) (p_limit s) (p_pcs s ! 0)"
    using inv nth_mem [OF lt] by (auto simp: pool_inv_def threads_ok_def)
  have prep: "p_base s = p_limit s \<and> p_claim s = p_limit s" if "preparing (p_pcs s ! 0)" using that inv by (simp add: pool_inv_def window_ok_def)
  have fill: "i \<le> length (p_job s)" if "p_pcs s ! 0 = Fill i" using that inv by (simp add: pool_inv_def window_ok_def filled_def)
  show ?thesis using lt at main cur prep fill
    by (cases "p_pcs s ! 0")
      (auto simp: thread_step_def Let_def task_step_def claim_step_def main_step_def pool_rank_def goto_def rest split: if_splits)
qed

lemma rank_step:
  assumes inv: "pool_inv s" and at: "p_pcs s ! 0 \<noteq> Idle"
  shows "\<exists>w s'. pool_step (Act False w) s = Some s' \<and> pool_rank s' < pool_rank s"
proof (cases "p_pcs s ! 0 = Spin \<and> p_pending s > 0")
  case True
  have "cursor_ok (p_claim s) (p_limit s) Spin" using inv nth_mem [OF main_lt [OF inv]] True by (auto simp: pool_inv_def threads_ok_def)
  then have "filter busy (p_pcs s) \<noteq> []" using open_counts(1) [OF inv] True by auto
  then obtain w where w: "w < length (p_pcs s)" "busy (p_pcs s ! w)" by (auto simp: filter_empty_conv in_set_conv_nth)
  then have "w \<noteq> 0" using True by (metis busy.simps(18))
  then show ?thesis using busy_worker_step [OF w(1) _ w(2)] by (auto simp: pool_step_def)
next
  case False
  then show ?thesis using main_thread_step [OF inv at] by (auto simp: pool_step_def)
qed

lemma completes: "pool_inv s \<Longrightarrow> \<exists>es s'. set es \<subseteq> range (Act False) \<and> pool_run es s = Some s' \<and> p_pcs s' ! 0 = Idle"
proof (induction "pool_rank s" arbitrary: s rule: less_induct)
  case less
  show ?case
  proof (cases "p_pcs s ! 0 = Idle")
    case True
    then show ?thesis by (auto intro: exI [of _ "[]"])
  next
    case False
    then obtain w u where u: "pool_step (Act False w) s = Some u" "pool_rank u < pool_rank s" using rank_step less.prems by blast
    then obtain es s' where "set es \<subseteq> range (Act False)" "pool_run es u = Some s'" "p_pcs s' ! 0 = Idle"
      using less.hyps [OF u(2)] pool_step_inv [OF less.prems u(1)] by blast
    then show ?thesis using u(1) by (auto intro!: exI [of _ "Act False w # es"])
  qed
qed

section \<open>Admission\<close>

text \<open>Workers that were counted in, and those of them that may claim.\<close>

fun counted :: "pc \<Rightarrow> bool" where
  "counted Asleep = False" | "counted Woken = False" | "counted Exited = False" | "counted _ = True"

definition admitted :: "pool \<Rightarrow> nat" where
  "admitted s = length (filter (\<lambda>p. counted p \<and> p \<noteq> Refused) (tl (p_pcs s)))"

lemma count_update:
  "0 < w \<Longrightarrow> w < length ps \<Longrightarrow> length (filter P (tl (ps[w := p]))) + of_bool (P (ps ! w)) = length (filter P (tl ps)) + of_bool (P p)"
proof (induction ps arbitrary: w)
  case (Cons q ps)
  have "i < length qs \<Longrightarrow> length (filter P (qs[i := p])) + of_bool (P (qs ! i)) = length (filter P qs) + of_bool (P p)" for i qs
  proof (induction qs arbitrary: i)
    case (Cons q qs)
    then show ?case by (cases i) auto
  qed simp
  then show ?case using Cons by (cases w) auto
qed simp

lemma running_counts:
  assumes "pool_reachable n s"
  shows "p_running s = length (filter counted (tl (p_pcs s)))"
  using assms
proof (induction rule: pool_reachable.induct)
  case (create n)
  show ?case by (simp add: ray_pool_create_def)
next
  case (step n s e s')
  note inv = reachable_inv [OF step.hyps(1)]
  have rest: "tl ((p_pcs s)[0 := p]) = tl (p_pcs s)" for p by (cases "p_pcs s") auto
  show ?case
  proof (cases e)
    case (Act weak w)
    then have st: "thread_step weak w s = Some s'" using step.hyps(2) by (simp add: pool_step_def)
    then have w: "w < length (p_pcs s)" by (simp add: thread_step_def split: if_splits)
    show ?thesis
    proof (cases "w = 0")
      case True
      then show ?thesis using st w step.IH inv
        by (cases "p_pcs s ! 0")
          (auto simp: thread_step_def Let_def claim_step_def task_step_def main_step_def goto_def rest split: if_splits)
    next
      case False
      then have "worker_pc (p_pcs s ! w)" using inv w by (simp add: pool_inv_def threads_ok_def)
      moreover have "length (filter counted (tl ((p_pcs s)[w := p]))) = p_running s + of_bool (counted p) - of_bool (counted (p_pcs s ! w))" for p
        using count_update [of w "p_pcs s" counted p] False w step.IH by linarith
      ultimately show ?thesis using st w step.IH False
        by (cases "p_pcs s ! w")
          (auto simp: thread_step_def Let_def claim_step_def task_step_def worker_step_def goto_def split: if_splits)
    qed
  qed (use step.hyps(2) step.IH rest in \<open>auto simp: pool_step_def ray_pool_dispatch_def ray_pool_dispatch_n_def start_dispatch_def goto_def Let_def split: if_splits\<close>)
qed

lemma admits_within:
  assumes r: "pool_reachable n s" and at: "w \<noteq> 0" "p_pcs s ! w = Woken" and st: "thread_step weak w s = Some s'" and "p_pcs s' ! w = Load"
  shows "admitted s' \<le> p_active s'"
proof -
  have w: "w < length (p_pcs s)" using st by (simp add: thread_step_def split: if_splits)
  have s': "\<not> p_shutdown s" "p_running s < p_active s" "s' = goto w Load (s\<lparr>p_running := p_running s + 1\<rparr>)"
    using st at w assms(5) by (auto simp: thread_step_def worker_step_def Let_def split: if_splits)
  let ?P = "\<lambda>p. counted p \<and> p \<noteq> Refused"
  have "length (filter ?P (tl ((p_pcs s)[w := Load]))) = admitted s + 1" using count_update [of w "p_pcs s" ?P Load] w at by (simp add: admitted_def)
  moreover have "length (filter ?P ps) \<le> length (filter counted ps)" for ps by (induction ps) auto
  then have "admitted s \<le> length (filter counted (tl (p_pcs s)))" unfolding admitted_def .
  ultimately show ?thesis using running_counts [OF r] s'(2) by (simp add: admitted_def s'(3)) (simp add: goto_def)
qed

section \<open>The parallel flag\<close>

text \<open>
  The flag goes up after the window is published. A worker still awake from an earlier dispatch can take a ticket in
  between, so it runs a task while the flag says that the workers are idle.
\<close>

definition late_worker :: "event list" where
  "late_worker = (let main = Act False 0; w = Act False 1 in
    [Dispatch_n True 1 1] @ replicate 7 main @ [w, w] @ replicate 9 main @
    [Dispatch_n True 2 1] @ replicate 4 main @ [w, w, w, w, w])"

lemma late_worker_flag:
  "case pool_run late_worker (ray_pool_create 1) of None \<Rightarrow> False
   | Some s \<Rightarrow> p_log s = [(1, 1, \<lparr>t_fn = 2, t_start = 0, t_end = 1\<rparr>)] \<and> p_pcs s ! 1 = Done \<and> \<not> p_parallel s"
  by code_simp

section \<open>The contract of a dispatch\<close>

text \<open>A dispatch over 100 rows on a pool with one worker, which stays asleep.\<close>

definition sample_run :: "event list" where
  "sample_run = Dispatch True 1 100 # replicate 15 (Act False 0)"

lemma sample_job: "row_tasks 1024 1 100 = [\<lparr>t_fn = 1, t_start = 0, t_end = 100\<rparr>]"
  by (simp add: row_tasks_def TASK_GRAIN_def)

lemma sample_reaches:
  "\<exists>s. pool_run sample_run (ray_pool_create 1) = Some s \<and> pool_reachable 1 s \<and> p_pcs s ! 0 = Spin \<and> p_pending s = 0 \<and> \<not> p_cancelled s \<and>
    p_job s = row_tasks 1024 1 100"
proof -
  have ring: "ring_grow True 1 (replicate 1024 t) = replicate 1024 t" for t by (simp add: ring_grow_def)
  have "ray_pool_dispatch True 1 100 (ray_pool_create 1) = start_dispatch True 1 (\<lambda>cap. row_tasks cap 1 100) (ray_pool_create 1)"
    by (simp add: ray_pool_dispatch_def TASK_GRAIN_def)
  also have "\<dots> = start_dispatch True 1 (\<lambda>cap. [\<lparr>t_fn = 1, t_start = 0, t_end = 100\<rparr>]) (ray_pool_create 1)"
    by (simp add: start_dispatch_def ray_pool_create_def ring [unfolded One_nat_def] sample_job [unfolded One_nat_def])
  finally have first: "pool_step (Dispatch True 1 100) (ray_pool_create 1) = Some \<dots>" by (simp add: pool_step_def ray_pool_create_def)
  have "case pool_run (replicate 15 (Act False 0)) (start_dispatch True 1 (\<lambda>cap. [\<lparr>t_fn = 1, t_start = 0, t_end = 100\<rparr>]) (ray_pool_create 1)) of None \<Rightarrow> False
    | Some s \<Rightarrow> p_pcs s ! 0 = Spin \<and> p_pending s = 0 \<and> \<not> p_cancelled s \<and> p_job s = [\<lparr>t_fn = 1, t_start = 0, t_end = 100\<rparr>]" by code_simp
  then obtain s where s: "pool_run sample_run (ray_pool_create 1) = Some s" "p_pcs s ! 0 = Spin" "p_pending s = 0" "\<not> p_cancelled s"
    "p_job s = row_tasks 1024 1 100" by (auto simp: sample_run_def first [unfolded One_nat_def] sample_job [unfolded One_nat_def] split: option.splits)
  then show ?thesis using reachable_run [OF pool_reachable.create] by blast
qed

text \<open>
  C33. When the barrier of an uncancelled dispatch is down, in any interleaving of the threads, every task of the
  dispatch has been called exactly once, and no thread holds a ticket or is inside a task.
\<close>

theorem pool_exactly_once:
  assumes "pool_reachable n s" "p_pcs s ! 0 = Spin" "p_pending s = 0" "\<not> p_cancelled s"
  shows "mset (map (\<lambda>l. snd (snd l)) (p_log s)) = mset (p_job s) \<and> filter busy (p_pcs s) = []"
  using served_tasks [OF reachable_inv] barrier(1) [OF reachable_inv] skip_only_cancelled assms by simp

theorem pool_exactly_once_witness:
  "\<exists>s. pool_run sample_run (ray_pool_create 1) = Some s \<and> mset (map (\<lambda>l. snd (snd l)) (p_log s)) = {#\<lparr>t_fn = 1, t_start = 0, t_end = 100\<rparr>#}"
proof -
  obtain s where s: "pool_run sample_run (ray_pool_create 1) = Some s" "pool_reachable 1 s" "p_pcs s ! 0 = Spin" "p_pending s = 0" "\<not> p_cancelled s"
    "p_job s = row_tasks 1024 1 100" using sample_reaches by blast
  then show ?thesis using pool_exactly_once [OF s(2-5)] by (simp add: sample_job [unfolded One_nat_def])
qed

text \<open>
  A dispatch over rows hands every row below the count to the callback exactly once, also when the ring is too
  small and the tasks are stretched.
\<close>

theorem pool_rows_once:
  assumes "pool_reachable n s" "p_pcs s ! 0 = Spin" "p_pending s = 0" "\<not> p_cancelled s"
    and "p_job s = row_tasks cap fn rows" "0 < cap" "rows < 2 ^ 44"
  shows "mset (concat (map (\<lambda>l. [t_start (snd (snd l))..<t_end (snd (snd l))]) (p_log s))) = mset [0..<rows]"
proof -
  let ?r = "\<lambda>t. [t_start t..<t_end t]"
  have flat: "mset (concat (map f xs)) = (\<Sum>x\<in>#mset xs. mset (f x))" for f :: "'x \<Rightarrow> nat list" and xs by (induction xs) simp_all
  have "mset (map (\<lambda>l. snd (snd l)) (p_log s)) = mset (p_job s)"
    using served_tasks [OF reachable_inv] skip_only_cancelled assms(1-4) by simp
  then have "mset (concat (map ?r (map (\<lambda>l. snd (snd l)) (p_log s)))) = mset (concat (map ?r (p_job s)))" by (simp only: flat)
  then show ?thesis using row_tasks_cover [OF assms(6,7), of fn] assms(5) by (simp add: comp_def)
qed

theorem pool_rows_once_witness:
  "\<exists>s. pool_run sample_run (ray_pool_create 1) = Some s \<and>
    mset (concat (map (\<lambda>l. [t_start (snd (snd l))..<t_end (snd (snd l))]) (p_log s))) = mset [0..<100]"
proof -
  obtain s where s: "pool_run sample_run (ray_pool_create 1) = Some s" "pool_reachable 1 s" "p_pcs s ! 0 = Spin" "p_pending s = 0" "\<not> p_cancelled s"
    "p_job s = row_tasks 1024 1 100" using sample_reaches by blast
  then show ?thesis using pool_rows_once [OF s(2-6)] by simp
qed

text \<open>
  C34. No interleaving gets stuck: from every reachable state the threads can finish the dispatch that is under way,
  without any further event from outside.
\<close>

theorem pool_completes:
  assumes "pool_reachable n s"
  shows "\<exists>es s'. set es \<subseteq> range (Act False) \<and> pool_run es s = Some s' \<and> p_pcs s' ! 0 = Idle"
  using completes [OF reachable_inv [OF assms]] .

theorem pool_completes_witness:
  "\<exists>s es s'. pool_run late_worker (ray_pool_create 1) = Some s \<and> p_pcs s ! 0 = Flag \<and>
    set es \<subseteq> range (Act False) \<and> pool_run es s = Some s' \<and> p_pcs s' ! 0 = Idle"
proof -
  have "case pool_run late_worker (ray_pool_create 1) of None \<Rightarrow> False | Some s \<Rightarrow> p_pcs s ! 0 = Flag" by code_simp
  then obtain s where s: "pool_run late_worker (ray_pool_create 1) = Some s" "p_pcs s ! 0 = Flag" by (auto split: option.splits)
  then show ?thesis using pool_completes [of 1 s] reachable_run [OF pool_reachable.create] by blast
qed

end
