(* ===== verification/SortRun.thy ===== *)
theory SortRun
  imports Complex_Main Radix Pool
begin

text \<open>
  The sort of a single encoded key in \<^verbatim>\<open>src/ops/sort.c\<close>: how many bytes of the keys matter, whether they are sorted
  already, the sort of one bucket, the hybrid that first splits by the top byte, the packed form with key and row in
  one word, and the choice between them in \<open>sort_indices_ex\<close>. A pool is given by its number of workers and by the calls
  its dispatches make, in the order they happen; the laws of the pool are those of theory \<open>Pool\<close>.

  Shown: every path returns the rows in the stable order of their keys, except that the packed path turns a
  descending column around without looking at ties, which is stated as well.
\<close>

section \<open>The bytes that matter\<close>

text \<open>Number of workers and the calls (worker, start, end) of a dispatch.\<close>

type_synonym calls = "nat \<times> (nat \<times> nat \<times> nat) list"

definition SMALL_POOL_THRESHOLD :: nat where
  "SMALL_POOL_THRESHOLD = 8192"

definition key_range_fn :: "u64 list \<Rightarrow> nat \<times> nat \<times> nat \<Rightarrow> u64 list \<Rightarrow> u64 list" where
  "key_range_fn keys call pw_or =
    (case call of (wid, start, stop) \<Rightarrow> pw_or[wid := fold (\<lambda>i d. d OR (keys ! i XOR keys ! 0)) [start..<stop] (pw_or ! wid)])"

function byte_count :: "u64 \<Rightarrow> nat" where
  "byte_count diff = (if diff = 0 then 0 else Suc (byte_count (drop_bit 8 diff)))"
  by pat_completeness auto

termination
proof (relation "measure unat")
  fix diff :: u64
  assume "diff \<noteq> 0"
  then have "0 < unat diff" by (simp add: unat_gt_0)
  moreover have "unat (drop_bit 8 diff) = unat diff div 256" unfolding unat_drop_bit_eq by (simp add: drop_bit_eq_div)
  ultimately show "(drop_bit 8 diff, diff) \<in> measure unat" by simp
qed simp

declare byte_count.simps [simp del]

definition key_diff :: "calls option \<Rightarrow> u64 list \<Rightarrow> u64" where
  "key_diff pool keys =
    (case pool of
       Some (nw, cs) \<Rightarrow>
         if length keys > SMALL_POOL_THRESHOLD then fold (\<lambda>w d. d OR w) (fold (key_range_fn keys) cs (replicate nw 0)) 0
         else fold (\<lambda>i d. d OR (keys ! i XOR keys ! 0)) [1..<length keys] 0
     | None \<Rightarrow> fold (\<lambda>i d. d OR (keys ! i XOR keys ! 0)) [1..<length keys] 0)"

definition compute_key_nbytes :: "calls option \<Rightarrow> u64 list \<Rightarrow> nat \<Rightarrow> nat" where
  "compute_key_nbytes pool keys type_max =
    (if length keys \<le> 1 then 1
     else let nb = byte_count (key_diff pool keys); nb = (if nb < 1 then 1 else nb) in if nb < type_max then nb else type_max)"

text \<open>What a dispatch over \<open>n\<close> rows promises: workers in range, every row handed out.\<close>

definition covers :: "calls option \<Rightarrow> nat \<Rightarrow> bool" where
  "covers pool n \<longleftrightarrow> (case pool of None \<Rightarrow> True
    | Some (nw, cs) \<Rightarrow> (\<forall>(wid, start, stop)\<in>set cs. wid < nw \<and> stop \<le> n) \<and> mset (concat (map (\<lambda>(wid, start, stop). [start..<stop]) cs)) = mset [0..<n])"

lemma high_or: "drop_bit m (fold (\<lambda>i d. d OR f i) is d) = (0 :: u64) \<longleftrightarrow> drop_bit m d = 0 \<and> (\<forall>i\<in>set is. drop_bit m (f i) = 0)"
  by (induction "is" arbitrary: d) (auto simp: drop_bit_or or_eq_0_iff)

lemma range_calls:
  assumes "\<forall>(wid, start, stop)\<in>set cs. wid < length pw"
    and "\<forall>w<length pw. drop_bit m (fold (key_range_fn keys) cs pw ! w) = 0"
  shows "(\<forall>w<length pw. drop_bit m (pw ! w) = 0) \<and> (\<forall>(wid, start, stop)\<in>set cs. \<forall>i\<in>{start..<stop}. drop_bit m (keys ! i XOR keys ! 0) = 0)"
  using assms
proof (induction cs arbitrary: pw)
  case (Cons c cs)
  obtain wid start stop where c: "c = (wid, start, stop)" by (cases c)
  let ?pw = "key_range_fn keys c pw"
  have wid: "wid < length pw" using Cons.prems(1) by (simp add: c)
  have len: "length ?pw = length pw" by (simp add: c key_range_fn_def)
  have IH: "\<forall>w<length pw. drop_bit m (?pw ! w) = 0" "\<forall>(wid, start, stop)\<in>set cs. \<forall>i\<in>{start..<stop}. drop_bit m (keys ! i XOR keys ! 0) = 0"
    using Cons.IH [of ?pw] Cons.prems unfolding len by simp_all
  have "drop_bit m (?pw ! wid) = 0" using IH(1) wid by blast
  then have "drop_bit m (pw ! wid) = 0 \<and> (\<forall>i\<in>set [start..<stop]. drop_bit m (keys ! i XOR keys ! 0) = 0)"
    using wid by (simp add: c key_range_fn_def high_or del: set_upt)
  moreover have "drop_bit m (pw ! w) = 0" if "w < length pw" "w \<noteq> wid" for w
    using IH(1) that by (auto simp: c key_range_fn_def dest!: spec [of _ w])
  ultimately show ?case using IH(2) by (auto simp: c)
qed simp

lemma key_diff_high:
  assumes "covers pool (length keys)" "drop_bit m (key_diff pool keys) = 0" "i < length keys"
  shows "drop_bit m (keys ! i) = drop_bit m (keys ! 0)"
proof -
  have "drop_bit m (keys ! i XOR keys ! 0) = 0"
  proof (cases "\<exists>nw cs. pool = Some (nw, cs) \<and> length keys > SMALL_POOL_THRESHOLD")
    case True
    then obtain nw cs where p: "pool = Some (nw, cs)" "length keys > SMALL_POOL_THRESHOLD" by blast
    have wids: "\<forall>(wid, start, stop)\<in>set cs. wid < length (replicate nw (0 :: u64))" using assms(1) by (auto simp: covers_def p)
    have len: "length (fold (key_range_fn keys) cs pw) = length pw" for pw by (induction cs arbitrary: pw) (auto simp: key_range_fn_def)
    have "\<forall>d\<in>set (fold (key_range_fn keys) cs (replicate nw 0)). drop_bit m d = 0"
      using assms(2) p high_or [of m "\<lambda>w. w" _ 0] by (simp add: key_diff_def)
    then have "\<forall>w<length (replicate nw (0 :: u64)). drop_bit m (fold (key_range_fn keys) cs (replicate nw 0) ! w) = 0"
      by (simp add: len)
    note seen = range_calls [OF wids this, THEN conjunct2]
    have "mset (concat (map (\<lambda>(wid, start, stop). [start..<stop]) cs)) = mset [0..<length keys]" using assms(1) by (simp add: covers_def p)
    then have "i \<in> set (concat (map (\<lambda>(wid, start, stop). [start..<stop]) cs))" using assms(3) by (metis atLeastLessThan_iff mset_eq_setD set_upt zero_le)
    then show ?thesis using seen by fastforce
  next
    case False
    then have "key_diff pool keys = fold (\<lambda>i d. d OR (keys ! i XOR keys ! 0)) [1..<length keys] 0"
      by (auto simp: key_diff_def split: option.splits)
    then show ?thesis using assms(2,3) high_or [of m "\<lambda>i. keys ! i XOR keys ! 0" "[1..<length keys]" 0] by (cases i) auto
  qed
  then have "drop_bit m (keys ! i) XOR drop_bit m (keys ! 0) = 0" by (simp only: drop_bit_xor)
  moreover have "drop_bit m (keys ! i) = (drop_bit m (keys ! i) XOR drop_bit m (keys ! 0)) XOR drop_bit m (keys ! 0)" by (simp only: xor.assoc xor_self_eq xor.right_neutral)
  ultimately show ?thesis by (simp only: xor.left_neutral)
qed

lemma byte_count_high: "drop_bit (8 * byte_count d) d = 0"
proof (induction d rule: byte_count.induct)
  case (1 d)
  then show ?case by (cases "d = 0") (simp_all add: byte_count.simps [of d] drop_bit_drop_bit add.commute)
qed

lemma high_bytes_agree:
  assumes "covers pool (length keys)" "\<And>k. k \<in> set keys \<Longrightarrow> drop_bit (8 * type_max) k = drop_bit (8 * type_max) (keys ! 0)" "k \<in> set keys"
  shows "unat k div 2 ^ (8 * compute_key_nbytes pool keys type_max) = unat (keys ! 0) div 2 ^ (8 * compute_key_nbytes pool keys type_max)"
proof -
  let ?nb = "compute_key_nbytes pool keys type_max"
  obtain i where i: "i < length keys" "k = keys ! i" using assms(3) by (auto simp: in_set_conv_nth)
  have "drop_bit (8 * ?nb) k = drop_bit (8 * ?nb) (keys ! 0)"
  proof (cases "length keys \<le> 1")
    case True
    then have "i = 0" using i by simp
    then show ?thesis using i by simp
  next
    case False
    let ?d = "key_diff pool keys"
    have up: "drop_bit (8 * m) ?d = 0" if le: "byte_count ?d \<le> m" for m
    proof -
      obtain j where "m = byte_count ?d + j" using le_Suc_ex [OF le] by (elim exE)
      then have "8 * m = 8 * j + 8 * byte_count ?d" by simp
      then have "drop_bit (8 * m) ?d = drop_bit (8 * j) (drop_bit (8 * byte_count ?d) ?d)" by (simp only: drop_bit_drop_bit)
      then show ?thesis by (simp only: byte_count_high drop_bit_of_0)
    qed
    have "?nb = type_max \<or> byte_count ?d \<le> ?nb" using False by (auto simp: compute_key_nbytes_def Let_def)
    then show ?thesis using assms(2,3) key_diff_high [OF assms(1) up i(1)] i(2) by auto
  qed
  from arg_cong [OF this, of unat] have "drop_bit (8 * ?nb) (unat k) = drop_bit (8 * ?nb) (unat (keys ! 0))" by (simp only: unat_drop_bit_eq)
  then show ?thesis by (simp only: drop_bit_eq_div)
qed

text \<open>So the order of the low bytes is the order of the keys.\<close>

lemma low_bytes_order:
  assumes "\<And>x. x \<in> set xs \<Longrightarrow> unat (kf x) div 2 ^ m = c"
  shows "sort_key (\<lambda>x. unat (kf x) mod 2 ^ m) xs = sort_key kf xs"
proof (rule sort_key_same)
  fix x y
  assume "x \<in> set xs" "y \<in> set xs"
  then have "unat (kf x) = c * 2 ^ m + unat (kf x) mod 2 ^ m" "unat (kf y) = c * 2 ^ m + unat (kf y) mod 2 ^ m"
    using div_mult_mod_eq [of "unat (kf x)" "2 ^ m"] div_mult_mod_eq [of "unat (kf y)" "2 ^ m"] assms by simp_all
  then show "(unat (kf x) mod 2 ^ m \<le> unat (kf y) mod 2 ^ m) = (kf x \<le> kf y)" by (metis nat_add_left_cancel_le word_le_nat_alt)
qed

section \<open>The sort of one bucket\<close>

definition bucket_scatter :: "('a \<Rightarrow> nat) \<Rightarrow> 'a list \<Rightarrow> 'a list \<times> (nat \<Rightarrow> nat) \<Rightarrow> 'a list \<times> (nat \<Rightarrow> nat)" where
  "bucket_scatter dig = fold (\<lambda>x s. let b = dig x in ((fst s)[snd s b := x], (snd s)(b := snd s b + 1)))"

definition bucket_pass :: "('a \<Rightarrow> nat) \<Rightarrow> 'a list \<times> 'a list \<Rightarrow> 'a list \<times> 'a list" where
  "bucket_pass dig bufs =
    (let (src, dst) = bufs; hist = fold (\<lambda>x h. h[dig x := h ! dig x + 1]) src (replicate 256 (0 :: u32))
     in if list_ex (\<lambda>b. hist ! b = of_nat (length src)) [0..<256] then (src, dst)
        else let off = fold (\<lambda>b off. off(b := off (b - 1) + unat (hist ! (b - 1)))) [1..<256] (\<lambda>b. 0)
             in (fst (bucket_scatter dig src (dst, off)), src))"

definition bucket_lsb_sort :: "nat \<Rightarrow> kv list \<times> kv list \<Rightarrow> kv list" where
  "bucket_lsb_sort n_bytes bufs =
    (if length (fst bufs) \<le> 64 then key_introsort (fst bufs)
     else fst (fold (\<lambda>bp. bucket_pass (\<lambda>x. byte_at (bp * 8) (fst x))) [0..<n_bytes] bufs))"

lemma starts_fold:
  "k \<le> 256 \<Longrightarrow> b < k \<Longrightarrow> fold (\<lambda>b off. off(b := off (b - 1) + w (b - 1))) [1..<k] (\<lambda>b. 0) b = run_start (\<lambda>b. replicate (w b) ()) [0..<256] b"
proof (induction k arbitrary: b)
  case (Suc k)
  have start: "run_start (\<lambda>b. replicate (w b) ()) [0..<256] b = (\<Sum>c<b. w c)" if "b < 256" for b
  proof -
    have "b < m \<Longrightarrow> run_start (\<lambda>b. replicate (w b) ()) [i..<i + m] (i + b) = (\<Sum>c<b. w (i + c))" for i m
    proof (induction b arbitrary: i m)
      case 0
      then show ?case by (simp add: upt_rec)
    next
      case (Suc b)
      then show ?case using Suc.IH [of "m - 1" "Suc i"] by (simp add: upt_rec [of i] sum.lessThan_Suc_shift del: sum.lessThan_Suc)
    qed
    from this [where m = 256 and i = 0] show ?thesis using that by simp
  qed
  show ?case
  proof (cases "k = 0 \<or> b < k")
    case True
    then show ?thesis using Suc by (cases k) (auto simp: start)
  next
    case False
    then show ?thesis using Suc.IH [of "k - 1"] Suc.prems by (cases k) (auto simp: start less_Suc_eq)
  qed
qed simp

context radix_digit
begin

lemma bucket_scatter_result:
  assumes lay: "laid_out dig start vs (length out)" and vs: "vs = pre @ post"
  defines "r \<equiv> bucket_scatter dig pre (out, start)"
  shows "length (fst r) = length out \<and> (\<forall>b<256. snd r b = start b + length (bucket dig b pre) \<and> (\<forall>j<length (bucket dig b pre). fst r ! (start b + j) = bucket dig b pre ! j))"
  using vs unfolding r_def
proof (induction pre arbitrary: post rule: rev_induct)
  case Nil
  show ?case by (simp add: bucket_scatter_def)
next
  case (snoc x pre)
  let ?s = "bucket_scatter dig pre (out, start)" and ?b = "dig x"
  have IH: "length (fst ?s) = length out" "\<And>b. b < 256 \<Longrightarrow> snd ?s b = start b + length (bucket dig b pre)"
      "\<And>b j. b < 256 \<Longrightarrow> j < length (bucket dig b pre) \<Longrightarrow> fst ?s ! (start b + j) = bucket dig b pre ! j"
    using snoc.IH [of "x # post"] snoc.prems by auto
  have step: "bucket_scatter dig (pre @ [x]) (out, start) = ((fst ?s)[snd ?s ?b := x], (snd ?s)(?b := snd ?s ?b + 1))"
    by (simp add: bucket_scatter_def Let_def)
  have off: "snd ?s ?b = start ?b + length (bucket dig ?b pre)" using IH(2) dig_less by blast
  have size: "length (bucket dig c pre) + of_bool (c = ?b) \<le> length (bucket dig c vs)" for c using snoc.prems by auto
  have lt: "start ?b + length (bucket dig ?b pre) < length out" using lay size [of ?b] dig_less [of x] by (auto simp: laid_out_def dest!: spec [of _ ?b])
  have "fst (bucket_scatter dig (pre @ [x]) (out, start)) ! (start b + j) = bucket dig b (pre @ [x]) ! j" if b: "b < 256" and j: "j < length (bucket dig b (pre @ [x]))" for b j
  proof (cases "b = ?b")
    case True
    then show ?thesis using j IH(1) IH(3) [OF dig_less, of j x] lt off by (auto simp: step nth_list_update nth_append less_Suc_eq)
  next
    case False
    then have "start b + length (bucket dig b vs) \<le> start ?b \<or> start ?b + length (bucket dig ?b vs) \<le> start b"
      using lay b dig_less by (auto simp: laid_out_def)
    moreover have "j < length (bucket dig b vs)" using j False size [of b] by auto
    ultimately have "start b + j \<noteq> snd ?s ?b" using size [of ?b] off by auto
    then show ?thesis using j False b IH(3) by (auto simp: step)
  qed
  then show ?case using IH(1,2) off by (auto simp: step)
qed

lemma bucket_pass_sorts:
  assumes n: "length xs < 2 ^ 32" "length tmp = length xs"
  defines "r \<equiv> bucket_pass dig (xs, tmp)"
  shows "fst r = sort_key dig xs" "length (snd r) = length xs"
proof -
  define hist where "hist = fold (\<lambda>x h. h[dig x := h ! dig x + 1]) xs (replicate 256 (0 :: u32))"
  have small: "unat (of_nat m :: u32) = m" if "m < 2 ^ 32" for m using that by (simp add: unat_of_nat take_bit_nat_eq_self)
  have len: "length (bucket dig b xs) < 2 ^ 32" for b using n(1) by (rule le_less_trans [OF length_filter_le])
  have hist: "hist ! b = of_nat (length (bucket dig b xs))" if "b < 256" for b unfolding hist_def using counts dig_less that by blast
  have w: "unat (hist ! b) = length (bucket dig b xs)" if "b < 256" for b by (simp only: hist [OF that] small [OF len])
  show "fst r = sort_key dig xs"
  proof (cases "list_ex (\<lambda>b. hist ! b = of_nat (length xs)) [0..<256]")
    case True
    then obtain b where "b < 256" "hist ! b = of_nat (length xs)" by (auto simp: list_ex_iff)
    then have "length (bucket dig b xs) = length xs" using w [of b] small [OF n(1)] by simp
    then have "\<forall>x\<in>set xs. dig x = b" using length_filter_less [of _ xs "\<lambda>x. dig x = b"] by auto
    then show ?thesis using True sort_key_const [of xs dig b] by (simp add: r_def bucket_pass_def hist_def)
  next
    case False
    define off where "off = fold (\<lambda>b off. off(b := off (b - 1) + unat (hist ! (b - 1)))) [1..<256] (\<lambda>b. 0 :: nat)"
    let ?L = "[0..<256]" and ?seg = "\<lambda>b. bucket dig b xs"
    have off: "off b = run_start ?seg ?L b" if "b < 256" for b
    proof -
      have "off b = run_start (\<lambda>b. replicate (unat (hist ! b)) ()) ?L b"
        using starts_fold [of 256 b "\<lambda>b. unat (hist ! b)"] that by (simp add: off_def)
      also have "\<dots> = run_start ?seg ?L b" by (rule run_start_lengths) (simp add: w)
      finally show ?thesis .
    qed
    have sorted: "concat (map ?seg ?L) = sort_key dig xs" using bucket_sort [of dig xs 256] by (simp add: dig_less)
    have total: "length (concat (map ?seg ?L)) = length xs" by (simp only: sorted length_sort)
    have lay: "laid_out dig off xs (length tmp)"
      using run_inside [of _ ?L ?seg] runs_apart [of _ ?L _ ?seg] total off n(2) by (auto simp: laid_out_def)
    note R = bucket_scatter_result [OF lay, of xs "[]", simplified]
    have "fst (bucket_scatter dig xs (tmp, off)) = concat (map ?seg ?L)"
      using R total n(2) off by (intro runs_concat) auto
    then show ?thesis using False by (simp add: r_def bucket_pass_def Let_def sorted off_def hist_def)
  qed
  show "length (snd r) = length xs" using n by (simp add: r_def bucket_pass_def Let_def)
qed

end

lemma sort_is_sort_key:
  assumes "sorted (map snd xs)"
  shows "sort xs = sort_key fst (xs :: kv list)"
proof -
  have "sort_key fst (sort_key snd xs) = sort_key (\<lambda>x. (fst x, snd x)) xs" by (rule sort_key_twice)
  then show ?thesis using sort_key_id_if_sorted [OF assms] by simp
qed

lemma bucket_lsb_sorts:
  assumes n: "length xs < 2 ^ 32" "length tmp = length xs" and asc: "sorted (map snd xs)" and high: "\<And>x. x \<in> set xs \<Longrightarrow> unat (fst x) div 2 ^ (8 * n_bytes) = c"
  shows "bucket_lsb_sort n_bytes (xs, tmp) = sort_key fst xs"
proof (cases "length xs \<le> 64")
  case True
  then show ?thesis using asc by (simp add: bucket_lsb_sort_def introsort_sorts sort_is_sort_key)
next
  case False
  have "fst (fold (\<lambda>bp. bucket_pass (\<lambda>x. byte_at (bp * 8) (fst x))) [0..<n_bytes] (xs, tmp)) = sort_key (\<lambda>x. unat (fst x) mod 2 ^ (8 * n_bytes)) xs"
    using passes_sort [of xs "\<lambda>bp. bucket_pass (\<lambda>x. byte_at (bp * 8) (fst x))" fst tmp n_bytes] kvd.bucket_pass_sorts n by simp
  also have "\<dots> = sort_key fst xs" using high by (rule low_bytes_order)
  finally show ?thesis using False by (simp add: bucket_lsb_sort_def)
qed

section \<open>The hybrid sort\<close>

definition bucket_offsets :: "nat \<Rightarrow> u32 list list \<Rightarrow> nat \<Rightarrow> nat" where
  "bucket_offsets n_tasks hist b = sum_list (map (\<lambda>l. unat (hist ! snd l ! fst l)) (List.product [0..<b] [0..<n_tasks]))"

definition msd_bucket_sort_fn :: "(nat \<Rightarrow> nat) \<Rightarrow> nat \<Rightarrow> kv list \<Rightarrow> nat \<Rightarrow> kv list \<Rightarrow> kv list" where
  "msd_bucket_sort_fn offs n_bytes tmp b data =
    (let off = offs b; cnt = offs (b + 1) - off
     in if cnt \<le> 1 then data
        else write_run data off (bucket_lsb_sort n_bytes (take cnt (drop off data), take cnt (drop off tmp))))"

text \<open>
  \<open>mem\<close> and \<open>mem'\<close> are the outcomes of the allocations here and in the fallback, \<open>sched\<close> the order of the tasks of a
  pass over byte \<open>bp\<close>, \<open>bsched\<close> that of the buckets.
\<close>

fun msd_radix_sort_run :: "bool \<Rightarrow> bool \<Rightarrow> nat \<Rightarrow> (nat \<Rightarrow> nat list) \<Rightarrow> nat list \<Rightarrow> nat \<Rightarrow> kv list \<Rightarrow> kv list \<Rightarrow> kv list option" where
  "msd_radix_sort_run mem mem' n_tasks sched bsched n_bytes xs tmp =
    (if n_bytes \<le> 5 \<or> length xs \<le> 1000000 \<or> \<not> mem then map_option fst (radix_sort_run mem' n_tasks sched n_bytes (xs, tmp))
     else let msd_byte = n_bytes - 1; dig = (\<lambda>x. byte_at (msd_byte * 8) (fst x));
              hist = map (hist_task dig n_tasks xs) [0..<n_tasks]
          in if uniform (length xs) n_tasks hist then msd_radix_sort_run mem mem' n_tasks sched bsched (n_bytes - 1) xs tmp
             else let part = fst (fold (radix_scatter_fn (msd_byte * 8) n_tasks xs) (sched msd_byte) (tmp, prefix_sum n_tasks hist))
                  in Some (fold (msd_bucket_sort_fn (bucket_offsets n_tasks hist) msd_byte xs) bsched part))"

declare msd_radix_sort_run.simps [simp del]

lemma run_start_sum: "b < n \<Longrightarrow> run_start f [0..<n] b = (\<Sum>c<b. length (f c))"
proof -
  assume b: "b < n"
  have "run_start f (ks @ [b] @ ls) b = sum_list (map (\<lambda>c. length (f c)) ks)" if "b \<notin> set ks" for ks ls using that by (induction ks) auto
  moreover have "[0..<n] = [0..<b] @ [b] @ [Suc b..<n]" using b by (metis append_Cons append_Nil le_Suc_ex less_imp_le_nat upt_add_eq_append upt_conv_Cons zero_le add_0)
  ultimately show ?thesis by (simp add: sum_list_map_eq_sum_count2 sum.list_conv_set_nth atLeast0LessThan interv_sum_list_conv_sum_set_nat)
qed

text \<open>Sorting slices of an array in any order, each one once.\<close>

lemma slices_sorted:
  fixes B S :: "nat \<Rightarrow> 'a list" and step :: "nat \<Rightarrow> 'a list \<Rightarrow> 'a list"
  assumes step: "\<And>b data. b < m \<Longrightarrow> length data = length (concat (map B [0..<m])) \<Longrightarrow>
      take (length (B b)) (drop (run_start B [0..<m] b) data) = B b \<Longrightarrow> step b data = write_run data (run_start B [0..<m] b) (S b)"
    and len: "\<And>b. b < m \<Longrightarrow> length (S b) = length (B b)" and order: "mset order = mset [0..<m]"
  shows "fold step order (concat (map B [0..<m])) = concat (map S [0..<m])"
proof -
  let ?L = "[0..<m]" and ?start = "run_start B [0..<m]"
  have B_at: "concat (map B ?L) ! (?start b + j) = B b ! j" if "b < m" "j < length (B b)" for b j
  proof -
    have "run_start f ls b + j < length (concat (map f ls)) \<and> concat (map f ls) ! (run_start f ls b + j) = f b ! j" if "b \<in> set ls" "j < length (f b)" for ls and f :: "nat \<Rightarrow> 'a list"
      using that by (induction ls) (auto simp: nth_append)
    then show ?thesis using that by simp
  qed
  have dist: "distinct order" "set order = {..<m}" using order mset_eq_imp_distinct_iff [of order "[0..<m]"] mset_eq_setD [of order "[0..<m]"] by (auto simp: atLeast0LessThan)
  have "length (fold step os (concat (map B ?L))) = length (concat (map B ?L)) \<and>
      (\<forall>b<m. \<forall>j<length (B b). fold step os (concat (map B ?L)) ! (?start b + j) = (if b \<in> set os then S b ! j else B b ! j))"
    if "distinct os" "set os \<subseteq> {..<m}" for os
    using that
  proof (induction os rule: rev_induct)
    case Nil
    then show ?case using B_at by simp
  next
    case (snoc b os)
    let ?d = "fold step os (concat (map B ?L))"
    have b: "b < m" "b \<notin> set os" and IH: "length ?d = length (concat (map B ?L))"
        "\<And>c j. c < m \<Longrightarrow> j < length (B c) \<Longrightarrow> ?d ! (?start c + j) = (if c \<in> set os then S c ! j else B c ! j)"
      using snoc by auto
    have inside: "?start b + length (B b) \<le> length ?d" using run_inside [of b ?L B] b(1) IH(1) by simp
    have slice: "take (length (B b)) (drop (?start b) ?d) = B b"
      using inside IH(2) [OF b(1)] b(2) by (intro nth_equalityI) auto
    have room: "?start b + length (S b) \<le> length ?d" using inside len b by simp
    note W = write_run_nth [OF room]
    have "write_run ?d (?start b) (S b) ! (?start c + j) = (if c \<in> set (os @ [b]) then S c ! j else B c ! j)" if "c < m" "j < length (B c)" for c j
    proof (cases "c = b")
      case True
      then show ?thesis using that len b by (simp add: W)
    next
      case False
      then have "?start b + length (B b) \<le> ?start c \<or> ?start c + length (B c) \<le> ?start b" using runs_apart [of b ?L c B] b that by auto
      then show ?thesis using that False IH(2) [OF that] len [OF b(1)] unfolding W(2) by auto
    qed
    then show ?case using step [OF b(1) IH(1) slice] IH(1) W(1) by simp
  qed
  from this [OF dist(1)] have final: "length (fold step order (concat (map B ?L))) = length (concat (map B ?L))"
      "\<And>b j. b < m \<Longrightarrow> j < length (B b) \<Longrightarrow> fold step order (concat (map B ?L)) ! (?start b + j) = S b ! j"
    using dist(2) by auto
  have starts: "run_start S ?L = ?start" by (intro ext run_start_lengths) (simp add: len)
  have "map (length \<circ> S) ?L = map (length \<circ> B) ?L" using len by simp
  then have "length (concat (map S ?L)) = length (concat (map B ?L))" by (simp only: length_concat map_map)
  then show ?thesis using final len by (intro runs_concat) (auto simp: starts)
qed

lemma high_split:
  assumes "unat k div 2 ^ (8 * Suc m) = c"
  shows "unat k div 2 ^ (8 * m) = 256 * c + byte_at (m * 8) k"
proof -
  have "2 ^ (8 * Suc m) = 2 ^ (8 * m) * (256 :: nat)" by (simp add: power_add)
  then have "unat k div 2 ^ (8 * m) div 256 = c" using assms by (simp only: div_mult2_eq)
  then have "256 * c + unat k div 2 ^ (8 * m) mod 256 = unat k div 2 ^ (8 * m)" using mult_div_mod_eq [of 256 "unat k div 2 ^ (8 * m)"] by simp
  then show ?thesis by (simp add: byte_at_div mult.commute)
qed

lemma hist_small:
  assumes "length xs < 2 ^ 32" "b < 256" "t < n_tasks"
  shows "unat (map (hist_task (\<lambda>x :: kv. byte_at shift (fst x)) n_tasks xs) [0..<n_tasks] ! t ! b) = length (seg (\<lambda>x. byte_at shift (fst x)) n_tasks xs (b, t))"
proof -
  have "length (chunk n_tasks xs t) \<le> length xs" by (simp add: rows_upt)
  then have "length (chunk n_tasks xs t) < 2 ^ 32" using assms(1) by (rule le_less_trans)
  then have "length (seg (\<lambda>x. byte_at shift (fst x)) n_tasks xs (b, t)) < 2 ^ 32"
    unfolding seg_def snd_conv by (rule le_less_trans [OF length_filter_le])
  then show ?thesis using kvd.hist_count [OF assms(2)] assms(3) by (simp add: unat_of_nat take_bit_nat_eq_self)
qed

lemma bucket_offsets_start:
  fixes xs :: "kv list" and shift :: nat
  assumes n: "0 < n_tasks" "length xs < 2 ^ 32" and b: "b \<le> 256"
  defines "hist \<equiv> map (hist_task (\<lambda>x. byte_at shift (fst x)) n_tasks xs) [0..<n_tasks]"
  shows "bucket_offsets n_tasks hist b = (\<Sum>c<b. length (bucket (\<lambda>x. byte_at shift (fst x)) c xs))"
  using b
proof (induction b)
  case (Suc b)
  let ?dig = "\<lambda>x :: kv. byte_at shift (fst x)"
  have "bucket_offsets n_tasks hist (Suc b) = bucket_offsets n_tasks hist b + sum_list (map (\<lambda>t. unat (hist ! t ! b)) [0..<n_tasks])"
  proof -
    have "List.product (ks @ [b]) ts = List.product ks ts @ map (Pair b) ts" for ks ts :: "nat list" by (induction ks) simp_all
    then show ?thesis by (simp add: bucket_offsets_def comp_def)
  qed
  also have "map (\<lambda>t. unat (hist ! t ! b)) [0..<n_tasks] = map (\<lambda>t. length (seg ?dig n_tasks xs (b, t))) [0..<n_tasks]"
    using hist_small [OF n(2)] Suc.prems by (simp add: hist_def)
  also have "sum_list (map (\<lambda>t. length (seg ?dig n_tasks xs (b, t))) ts) = length (bucket ?dig b (concat (map (chunk n_tasks xs) ts)))" for ts
    by (induction ts) (simp_all add: seg_def)
  finally show ?case using Suc by (simp only: chunks_all [OF n(1)]) simp
qed (simp add: bucket_offsets_def)

lemma msd_split_sorts:
  fixes xs tmp :: "kv list"
  assumes n: "0 < n_tasks" "length xs < 2 ^ 32" "length tmp = length xs" and sched: "mset sched = mset [0..<n_tasks]" and bsched: "mset bsched = mset [0..<256]"
    and asc: "sorted (map snd xs)" and high: "\<And>x. x \<in> set xs \<Longrightarrow> unat (fst x) div 2 ^ (8 * Suc m) = c"
  defines "dig \<equiv> \<lambda>x :: kv. byte_at (m * 8) (fst x)"
  defines "hist \<equiv> map (hist_task dig n_tasks xs) [0..<n_tasks]"
  shows "fold (msd_bucket_sort_fn (bucket_offsets n_tasks hist) m xs) bsched (fst (fold (radix_scatter_fn (m * 8) n_tasks xs) sched (tmp, prefix_sum n_tasks hist))) = sort_key fst xs"
proof -
  let ?B = "\<lambda>b. bucket dig b xs" and ?L = "[0..<256]"
  have dig: "dig x < 256" for x by (simp add: dig_def byte_less)
  have "fst (fold (radix_scatter_fn (m * 8) n_tasks xs) sched (tmp, prefix_sum n_tasks hist)) = sort_key dig xs"
    using kvd.scatter_tasks [OF n(1,2) sched n(3)] by (simp add: radix_scatter_fn_def dig_def hist_def)
  also have "\<dots> = concat (map ?B ?L)" using bucket_sort [of dig xs 256] by (simp add: dig)
  finally have part: "fst (fold (radix_scatter_fn (m * 8) n_tasks xs) sched (tmp, prefix_sum n_tasks hist)) = concat (map ?B ?L)" .
  have off: "bucket_offsets n_tasks hist b = (\<Sum>d<b. length (?B d))" if "b \<le> 256" for b
    using bucket_offsets_start [OF n(1,2) that, of "m * 8"] by (simp add: hist_def dig_def)
  have step: "msd_bucket_sort_fn (bucket_offsets n_tasks hist) m xs b data = write_run data (run_start ?B ?L b) (sort_key fst (?B b))"
    if b: "b < 256" and data: "length data = length (concat (map ?B ?L))" and slice: "take (length (?B b)) (drop (run_start ?B ?L b) data) = ?B b" for b data
  proof -
    have o: "bucket_offsets n_tasks hist b = run_start ?B ?L b" "bucket_offsets n_tasks hist (Suc b) - run_start ?B ?L b = length (?B b)"
      using off [of b] off [of "Suc b"] b run_start_sum [OF b, of ?B] by simp_all
    have inside: "run_start ?B ?L b + length (?B b) \<le> length data" using run_inside [of b ?L ?B] b data by simp
    show ?thesis
    proof (cases "length (?B b) \<le> 1")
      case True
      then have "sort_key fst (?B b) = ?B b" by (cases "?B b") auto
      moreover have "write_run data (run_start ?B ?L b) (?B b) = data"
      proof (rule nth_equalityI)
        show "write_run data (run_start ?B ?L b) (?B b) ! p = data ! p" for p
        proof (cases "run_start ?B ?L b \<le> p \<and> p < run_start ?B ?L b + length (?B b)")
          case True
          then have "?B b ! (p - run_start ?B ?L b) = take (length (?B b)) (drop (run_start ?B ?L b) data) ! (p - run_start ?B ?L b)" by (simp only: slice)
          also have "\<dots> = data ! p"
          proof -
            have "p - run_start ?B ?L b < length (?B b)" "run_start ?B ?L b + (p - run_start ?B ?L b) = p" "run_start ?B ?L b \<le> length data"
              using True inside by linarith+
            then show ?thesis by (simp only: nth_take nth_drop)
          qed
          finally show ?thesis using True by (simp add: write_run_nth [OF inside])
        qed (auto simp: write_run_nth [OF inside])
      qed (simp add: write_run_nth [OF inside])
      ultimately show ?thesis using True by (simp add: msd_bucket_sort_fn_def Let_def o)
    next
      case False
      have "bucket_lsb_sort m (?B b, take (length (?B b)) (drop (run_start ?B ?L b) xs)) = sort_key fst (?B b)"
      proof (rule bucket_lsb_sorts)
        show "length (?B b) < 2 ^ 32" using n(2) by (rule le_less_trans [OF length_filter_le])
        have "length (concat (map ?B ?L)) = length xs" using arg_cong [OF bucket_sort [of dig xs 256], of length] by (simp add: dig)
        then have "length data = length xs" using data by simp
        then show "length (take (length (?B b)) (drop (run_start ?B ?L b) xs)) = length (?B b)" using inside by simp
        show "sorted (map snd (?B b))" using asc by (rule sorted_filter)
        show "unat (fst x) div 2 ^ (8 * m) = 256 * c + b" if "x \<in> set (?B b)" for x
          using high_split [OF high, of x] that by (simp add: dig_def)
      qed
      then show ?thesis using False slice by (simp add: msd_bucket_sort_fn_def Let_def o)
    qed
  qed
  have "fold (msd_bucket_sort_fn (bucket_offsets n_tasks hist) m xs) bsched (concat (map ?B ?L)) = concat (map (\<lambda>b. sort_key fst (?B b)) ?L)"
    by (rule slices_sorted) (use step bsched in simp_all)
  also have "\<dots> = concat (map (\<lambda>b. bucket dig b (sort_key fst xs)) ?L)" by (simp only: filter_sort)
  also have "\<dots> = sort_key (\<lambda>x. (dig x, fst x)) xs" using bucket_sort [of dig "sort_key fst xs" 256] by (simp add: dig sort_key_twice)
  also have "\<dots> = sort_key fst xs"
  proof (rule sort_key_same)
    fix x y
    assume xy: "x \<in> set xs" "y \<in> set xs"
    have hi: "unat (fst z) div 2 ^ (8 * m) = 256 * c + dig z" if "z \<in> set xs" for z
      using high_split [OF high [OF that]] by (simp add: dig_def)
    have "dig x \<le> dig y" if "fst x \<le> fst y" using div_le_mono [of "unat (fst x)" "unat (fst y)" "2 ^ (8 * m)"] that hi [OF xy(1)] hi [OF xy(2)] by (simp add: word_le_nat_alt)
    moreover have "fst x \<le> fst y" if "dig x < dig y"
      using div_le_mono [of "unat (fst y)" "unat (fst x)" "2 ^ (8 * m)"] that hi [OF xy(1)] hi [OF xy(2)]
      by (cases "unat (fst y) \<le> unat (fst x)") (auto simp: word_le_nat_alt)
    ultimately show "((dig x, fst x) \<le> (dig y, fst y)) = (fst x \<le> fst y)" by auto
  qed
  finally show ?thesis by (simp only: part)
qed

lemma msd_sorts:
  assumes n: "0 < n_tasks" "length xs < 2 ^ 32" "length tmp = length xs" and sched: "\<And>bp. mset (sched bp) = mset [0..<n_tasks]" and bsched: "mset bsched = mset [0..<256]"
    and asc: "sorted (map snd xs)" and high: "\<And>x. x \<in> set xs \<Longrightarrow> unat (fst x) div 2 ^ (8 * n_bytes) = c"
  shows "msd_radix_sort_run mem True n_tasks sched bsched n_bytes xs tmp = Some (sort_key fst xs)"
  using high
proof (induction n_bytes arbitrary: c)
  case 0
  then show ?case using radix_run [OF n(1,2) sched n(3), where n_bytes = 0] low_bytes_order [of xs fst 0 c] by (simp add: msd_radix_sort_run.simps)
next
  case (Suc m)
  let ?dig = "\<lambda>x :: kv. byte_at (m * 8) (fst x)"
  let ?hist = "map (hist_task ?dig n_tasks xs) [0..<n_tasks]"
  show ?case
  proof (cases "Suc m \<le> 5 \<or> length xs \<le> 1000000 \<or> \<not> mem")
    case True
    then show ?thesis using radix_run [OF n(1,2) sched n(3), where n_bytes = "Suc m"] low_bytes_order [of xs fst "8 * Suc m" c] Suc.prems
      by (subst msd_radix_sort_run.simps) (simp only: if_True)
  next
    case big: False
    show ?thesis
    proof (cases "uniform (length xs) n_tasks ?hist")
      case True
      then obtain b where b: "\<forall>x\<in>set xs. ?dig x = b" using kvd.uniform_same [OF n(1,2)] by blast
      have "unat (fst x) div 2 ^ (8 * m) = 256 * c + b" if "x \<in> set xs" for x
        using high_split [OF Suc.prems [OF that]] b that by simp
      then have "msd_radix_sort_run mem True n_tasks sched bsched m xs tmp = Some (sort_key fst xs)" by (rule Suc.IH)
      then show ?thesis using big True by (subst msd_radix_sort_run.simps) (simp add: Let_def)
    next
      case False
      then show ?thesis using big msd_split_sorts [OF n sched bsched asc Suc.prems]
        by (subst msd_radix_sort_run.simps) (simp add: Let_def)
    qed
  qed
qed

section \<open>Sorted already?\<close>

text \<open>Counting the rows of a call, past its first, where something holds; the rows at task boundaries are looked at after.\<close>

definition count_call :: "(nat \<Rightarrow> bool) \<Rightarrow> nat \<times> nat \<times> nat \<Rightarrow> nat list \<Rightarrow> nat list" where
  "count_call P call pw = (case call of (wid, start, stop) \<Rightarrow> pw[wid := pw ! wid + length (filter P [start + 1..<stop])])"

definition boundary_count :: "(nat \<Rightarrow> bool) \<Rightarrow> nat \<Rightarrow> nat" where
  "boundary_count P n = length (filter P (filter (\<lambda>b. TASK_GRAIN dvd b) [TASK_GRAIN..<n]))"

definition sortedness_fn :: "u64 list \<Rightarrow> nat \<times> nat \<times> nat \<Rightarrow> nat list \<Rightarrow> nat list" where
  "sortedness_fn keys = count_call (\<lambda>i. keys ! i < keys ! (i - 1))"

definition detect_sortedness :: "calls option \<Rightarrow> u64 list \<Rightarrow> real" where
  "detect_sortedness pool keys =
    (let n = length keys; down = (\<lambda>i. keys ! i < keys ! (i - 1))
     in if n \<le> 1 then 0
        else real (case pool of
            Some (nw, cs) \<Rightarrow>
              if n > SMALL_POOL_THRESHOLD then sum_list (fold (sortedness_fn keys) cs (replicate nw 0)) + boundary_count down n
              else length (filter down [1..<n])
          | None \<Rightarrow> length (filter down [1..<n])) / real (n - 1))"

text \<open>Tasks that start at multiples of the grain, as a dispatch makes them unless it had to stretch them.\<close>

definition aligned :: "calls option \<Rightarrow> bool" where
  "aligned pool \<longleftrightarrow> (case pool of None \<Rightarrow> True | Some (nw, cs) \<Rightarrow> \<forall>(wid, start, stop)\<in>set cs. TASK_GRAIN dvd start)"

lemma count_calls:
  assumes "\<forall>(wid, start, stop)\<in>set cs. wid < length pw"
  shows "sum_list (fold (count_call P) cs pw) = sum_list pw + sum_list (map (\<lambda>(wid, start, stop). length (filter P [start + 1..<stop])) cs)"
  using assms
proof (induction cs arbitrary: pw)
  case (Cons c cs)
  obtain wid start stop where c: "c = (wid, start, stop)" by (cases c)
  have "sum_list (pw[wid := pw ! wid + k]) = sum_list pw + k" if "wid < length pw" for k
    using that elem_le_sum_list [OF that] by (simp add: sum_list_update)
  then show ?case using Cons by (simp add: c count_call_def)
qed simp

lemma nothing_counted:
  assumes cov: "covers (Some (nw, cs)) n" and al: "aligned (Some (nw, cs))"
  shows "sum_list (fold (count_call P) cs (replicate nw 0)) + boundary_count P n = 0 \<longleftrightarrow> (\<forall>i\<in>{1..<n}. \<not> P i)"
proof -
  have cs: "\<forall>(wid, start, stop)\<in>set cs. wid < length (replicate nw (0 :: nat))" "\<forall>(wid, start, stop)\<in>set cs. stop \<le> n"
    using cov by (auto simp: covers_def)
  have "sum_list (map (\<lambda>(wid, start, stop). length (filter P [start + 1..<stop])) cs) = 0 \<longleftrightarrow> (\<forall>(wid, start, stop)\<in>set cs. \<forall>i\<in>{start + 1..<stop}. \<not> P i)"
    by (auto simp: filter_empty_conv)
  moreover have "boundary_count P n = 0 \<longleftrightarrow> (\<forall>i\<in>{TASK_GRAIN..<n}. TASK_GRAIN dvd i \<longrightarrow> \<not> P i)" by (auto simp: boundary_count_def filter_empty_conv)
  moreover have "(\<forall>(wid, start, stop)\<in>set cs. \<forall>i\<in>{start + 1..<stop}. \<not> P i) \<and> (\<forall>i\<in>{TASK_GRAIN..<n}. TASK_GRAIN dvd i \<longrightarrow> \<not> P i) \<longleftrightarrow> (\<forall>i\<in>{1..<n}. \<not> P i)" (is "?l \<longleftrightarrow> ?r")
  proof
    assume l: ?l
    show ?r
    proof
      fix i
      assume i: "i \<in> {1..<n}"
      have "mset (concat (map (\<lambda>(wid, start, stop). [start..<stop]) cs)) = mset [0..<n]" using cov by (simp add: covers_def)
      then have "i \<in> set (concat (map (\<lambda>(wid, start, stop). [start..<stop]) cs))" using i by (metis atLeastLessThan_iff mset_eq_setD set_upt zero_le)
      then obtain wid start stop where c: "(wid, start, stop) \<in> set cs" "start \<le> i" "i < stop" by auto
      show "\<not> P i"
      proof (cases "start = i")
        case True
        then have "TASK_GRAIN dvd i" using al c(1) by (auto simp: aligned_def)
        moreover have "TASK_GRAIN \<le> i" using calculation i by (auto intro: dvd_imp_le)
        ultimately show ?thesis using l i by auto
      next
        case False
        then have "i \<in> {start + 1..<stop}" using c by simp
        then show ?thesis using l c(1) by blast
      qed
    qed
  next
    assume r: ?r
    then show ?l using cs(2) by (fastforce simp: TASK_GRAIN_def)
  qed
  ultimately show ?thesis using count_calls [OF cs(1), of P] by (simp add: sum_list_replicate)
qed

lemma sorted_adjacent: "sorted keys \<longleftrightarrow> (\<forall>i\<in>{1..<length keys}. \<not> keys ! i < keys ! (i - 1))"
proof -
  have "sorted keys \<longleftrightarrow> (\<forall>i. Suc i < length keys \<longrightarrow> keys ! i \<le> keys ! Suc i)" by (simp add: sorted_iff_nth_Suc)
  also have "\<dots> \<longleftrightarrow> (\<forall>i\<in>{1..<length keys}. keys ! (i - 1) \<le> keys ! i)"
    by (auto simp: Ball_def) (metis One_nat_def Suc_pred' less_eq_Suc_le)
  finally show ?thesis by (auto simp: not_less)
qed

lemma detect_zero:
  assumes "covers pool (length keys)" "aligned pool"
  shows "detect_sortedness pool keys = 0 \<longleftrightarrow> sorted keys"
proof (cases "length keys \<le> 1")
  case True
  then have "\<exists>k. keys = [] \<or> keys = [k]" by (cases keys) auto
  then show ?thesis by (auto simp: detect_sortedness_def)
next
  case False
  have "length (filter (\<lambda>i. keys ! i < keys ! (i - 1)) [1..<length keys]) = 0 \<longleftrightarrow> sorted keys"
    unfolding sorted_adjacent by (auto simp: filter_empty_conv)
  then show ?thesis using False assms nothing_counted [of _ _ "length keys" "\<lambda>i. keys ! i < keys ! (i - 1)"]
    unfolding sorted_adjacent by (auto simp: detect_sortedness_def Let_def sortedness_fn_def split: option.splits)
qed

section \<open>The choice of a sort\<close>

text \<open>
  What \<open>sort_indices_ex\<close> depends on besides the keys: the calls of the dispatches, the tasks and their order in every
  pass, the outcomes of the allocations, and what the scratch buffers hold.
\<close>

record sort_env =
  e_range :: "calls option"
  e_detect :: "calls option"
  e_tasks :: nat
  e_sched :: "nat \<Rightarrow> nat list"
  e_buckets :: "nat list"
  e_mem_buf :: bool
  e_mem_hist :: bool
  e_mem_msd :: bool
  e_ptmp :: "u64 list"
  e_tmp :: "kv list"

definition RADIX_SORT_THRESHOLD :: nat where
  "RADIX_SORT_THRESHOLD = 4096"

fun idx_bits :: "nat \<Rightarrow> nat" where
  "idx_bits n = (if n = 0 then 0 else Suc (idx_bits (n div 2)))"

declare idx_bits.simps [simp del]

definition packed_detect_fn :: "nat \<Rightarrow> u64 \<Rightarrow> nat \<times> nat \<times> nat \<Rightarrow> u64 list \<times> nat list \<times> nat list \<Rightarrow> u64 list \<times> nat list \<times> nat list" where
  "packed_detect_fn kb km call s =
    (case (call, s) of ((wid, start, stop), (k, pw_unsorted, pw_not_reverse)) \<Rightarrow>
      let cur = (\<lambda>i. k ! i AND km)
      in (fold (\<lambda>i k. k[i := cur i OR push_bit kb (of_nat i)]) [start..<stop] k,
          count_call (\<lambda>i. cur i < cur (i - 1)) call pw_unsorted,
          count_call (\<lambda>i. cur i > cur (i - 1)) call pw_not_reverse))"

definition packed_unpack_fn :: "nat \<Rightarrow> u64 \<Rightarrow> u64 list \<Rightarrow> int list" where
  "packed_unpack_fn kb idx_mask sorted_words = map (\<lambda>v. uint (drop_bit kb v AND idx_mask)) sorted_words"

definition low_mask :: "nat \<Rightarrow> u64" where
  "low_mask bits = (if bits < 64 then push_bit bits 1 - 1 else NOT 0)"

definition packed_sort :: "sort_env \<Rightarrow> nat \<Rightarrow> nat \<Rightarrow> u64 list \<Rightarrow> int list option" where
  "packed_sort env key_nbytes ib keys =
    (let n = length keys; key_bits = key_nbytes * 8; km = low_mask key_bits;
         (nw, cs) = (case e_detect env of Some p \<Rightarrow> p | None \<Rightarrow> (1, [(0, 0, n)]));
         (k, un, nr) = fold (packed_detect_fn key_bits km) cs (keys, replicate nw 0, replicate nw 0);
         total_unsorted = sum_list un + boundary_count (\<lambda>b. k ! b AND km < k ! (b - 1) AND km) n;
         total_not_rev = sum_list nr + boundary_count (\<lambda>b. k ! b AND km > k ! (b - 1) AND km) n
     in if \<not> e_mem_buf env then None
        else if total_unsorted = 0 then Some (map int [0..<n])
        else if total_not_rev = 0 \<and> n > 1 then Some (map (\<lambda>i. int (n - 1 - i)) [0..<n])
        else map_option (\<lambda>r. packed_unpack_fn key_bits (low_mask ib) (fst r))
          (packed_radix_sort_run (e_mem_hist env) (e_tasks env) (e_sched env) key_nbytes (k, e_ptmp env)))"

definition sort_single_key :: "sort_env \<Rightarrow> nat \<Rightarrow> u64 list \<Rightarrow> int list option" where
  "sort_single_key env key_nbytes_max keys =
    (let n = length keys; rows = zip keys (map int [0..<n])
     in if n \<le> RADIX_SORT_THRESHOLD then Some (map snd (key_introsort rows))
        else let key_nbytes = compute_key_nbytes (e_range env) keys key_nbytes_max
             in if key_nbytes \<le> 3 \<and> key_nbytes * 8 + idx_bits n \<le> 64 then packed_sort env key_nbytes (idx_bits n) keys
                else if detect_sortedness (e_detect env) keys = 0 then Some (map int [0..<n])
                else if \<not> e_mem_buf env then None
                else map_option (map snd) (msd_radix_sort_run (e_mem_msd env) (e_mem_hist env) (e_tasks env) (e_sched env) (e_buckets env) key_nbytes rows (e_tmp env)))"

text \<open>The stable order of the rows: the specification.\<close>

definition stable_order :: "u64 list \<Rightarrow> int list" where
  "stable_order keys = map int (sort_key (\<lambda>i. keys ! i) [0..<length keys])"

definition env_ok :: "sort_env \<Rightarrow> nat \<Rightarrow> bool" where
  "env_ok env n \<longleftrightarrow> covers (e_range env) n \<and> covers (e_detect env) n \<and> aligned (e_detect env) \<and> 0 < e_tasks env \<and>
    (\<forall>bp. mset (e_sched env bp) = mset [0..<e_tasks env]) \<and> mset (e_buckets env) = mset [0..<256] \<and>
    e_mem_buf env \<and> e_mem_hist env \<and> length (e_ptmp env) = n \<and> length (e_tmp env) = n"

lemma sort_key_map: "sort_key f (map g xs) = map g (sort_key (f \<circ> g) xs)"
proof (induction xs)
  case (Cons x xs)
  have "insort_key f (g y) (map g ys) = map g (insort_key (f \<circ> g) y ys)" for y ys by (induction ys) simp_all
  then show ?case using Cons by (simp add: comp_def)
qed simp

lemma rows_of: "zip keys (map int [0..<length keys]) = map (\<lambda>i. (keys ! i, int i)) [0..<length keys]"
  by (rule nth_equalityI) simp_all

lemma sorted_rows: "sort_key fst (zip keys (map int [0..<length keys])) = map (\<lambda>i. (keys ! i, int i)) (sort_key (\<lambda>i. keys ! i) [0..<length keys])"
  by (simp add: rows_of sort_key_map comp_def)

lemma sorted_row_order: "map snd (sort_key fst (zip keys (map int [0..<length keys]))) = stable_order keys"
  by (simp add: sorted_rows stable_order_def comp_def)

lemma stable_sorted: "sorted keys \<Longrightarrow> stable_order keys = map int [0..<length keys]"
  using sort_key_id_if_sorted [of "\<lambda>i. keys ! i" "[0..<length keys]"] by (simp add: stable_order_def map_nth)

lemma stable_reverse:
  assumes "sorted (rev keys)" "distinct keys"
  shows "stable_order keys = map (\<lambda>i. int (length keys - 1 - i)) [0..<length keys]"
proof -
  let ?n = "length keys"
  have "sort_key (\<lambda>i. keys ! i) [0..<?n] = rev [0..<?n]"
  proof (rule sort_key_inj_key_eq)
    show "inj_on (\<lambda>i. keys ! i) (set [0..<?n])" using assms(2) by (auto simp: inj_on_def nth_eq_iff_index_eq)
    have "map (\<lambda>i. keys ! i) (rev [0..<?n]) = rev keys" by (simp only: rev_map [symmetric] map_nth)
    then show "sorted (map (\<lambda>i. keys ! i) (rev [0..<?n]))" using assms(1) by simp
  qed simp
  moreover have "rev [0..<?n] = map (\<lambda>i. ?n - 1 - i) [0..<?n]" by (rule nth_equalityI) (simp_all add: rev_nth)
  ultimately show ?thesis by (simp add: stable_order_def)
qed

lemma low_mask_mask: "bits < 64 \<Longrightarrow> low_mask bits = mask bits"
  by (simp add: low_mask_def mask_eq_exp_minus_1 push_bit_eq_mult)

lemma idx_bits_less: "n < 2 ^ idx_bits n"
proof (induction n rule: idx_bits.induct)
  case (1 n)
  then show ?case by (cases "n = 0") (simp_all add: idx_bits.simps [of n])
qed

lemma idx_bits_le: "m < 2 ^ j \<Longrightarrow> idx_bits m \<le> j"
proof (induction j arbitrary: m)
  case (Suc j)
  then show ?case using Suc.IH [of "m div 2"] by (cases "m = 0") (auto simp: idx_bits.simps [of m] idx_bits.simps [of 0])
qed (simp add: idx_bits.simps)

text \<open>One word with key and row.\<close>

definition pack :: "nat \<Rightarrow> u64 list \<Rightarrow> nat \<Rightarrow> u64" where
  "pack kb keys i = (keys ! i AND mask kb) OR push_bit kb (of_nat i)"

lemma pack_low: "pack kb keys i AND mask kb = keys ! i AND mask kb"
  unfolding pack_def by (rule bit_eqI) (auto simp: bit_simps)

lemma pack_high: "drop_bit kb (pack kb keys i) = take_bit (64 - kb) (of_nat i)"
  unfolding pack_def by (rule bit_eqI) (auto simp: bit_simps)

lemma pack_key: "unat (pack kb keys i) mod 2 ^ kb = unat (keys ! i) mod 2 ^ kb"
proof -
  have "take_bit kb (unat (pack kb keys i)) = take_bit kb (unat (keys ! i))"
    using arg_cong [OF pack_low [of kb keys i], of unat] by (simp only: take_bit_eq_mask [symmetric] unsigned_take_bit_eq)
  then show ?thesis by (simp only: take_bit_eq_mod)
qed

lemma pack_row:
  assumes "i < 2 ^ ib" "kb + ib \<le> 64" "ib < 64"
  shows "uint (drop_bit kb (pack kb keys i) AND low_mask ib) = int i"
proof -
  have "take_bit ib (take_bit (64 - kb) (of_nat i :: u64)) = take_bit ib (of_nat i)"
  proof -
    have "min ib (64 - kb) = ib" using assms(2) by linarith
    then show ?thesis by (simp only: take_bit_take_bit)
  qed
  then have "drop_bit kb (pack kb keys i) AND low_mask ib = take_bit ib (of_nat i)" by (simp add: pack_high low_mask_mask [OF assms(3)] take_bit_eq_mask [symmetric])
  moreover have "unat (take_bit ib (of_nat i :: u64)) = i"
  proof -
    have "i < 2 ^ 64" using assms(1,3) by (meson less_imp_le_nat less_le_trans one_le_numeral power_increasing)
    then have "unat (of_nat i :: u64) = i" by (simp add: unat_of_nat take_bit_nat_eq_self)
    then show ?thesis using assms(1) by (simp add: unsigned_take_bit_eq take_bit_nat_eq_self)
  qed
  ultimately show ?thesis by (metis uint_nat)
qed

text \<open>The packing calls: they write the packed words and count on the masked keys, in whatever order they come.\<close>

lemma write_rows: "fold (\<lambda>i k. k[i := f i]) is k = map (\<lambda>i. if i \<in> set is then f i else k ! i) [0..<length k]"
proof (induction "is" rule: rev_induct)
  case Nil
  show ?case by (simp add: map_nth)
next
  case (snoc i "is")
  show ?case
  proof (rule nth_equalityI)
    fix j
    assume "j < length (fold (\<lambda>i k. k[i := f i]) (is @ [i]) k)"
    then show "fold (\<lambda>i k. k[i := f i]) (is @ [i]) k ! j = map (\<lambda>i'. if i' \<in> set (is @ [i]) then f i' else k ! i') [0..<length k] ! j"
      using snoc by (cases "i = j") auto
  qed (use snoc in simp)
qed

lemma pack_calls:
  assumes "\<forall>(wid, start, stop)\<in>set cs. stop \<le> length keys" and "\<And>i. i < length keys \<Longrightarrow> k ! i = keys ! i \<or> k ! i = pack kb keys i" and "length k = length keys"
  shows "fold (packed_detect_fn kb (mask kb)) cs (k, un, nr) =
    (map (\<lambda>i. if i \<in> set (concat (map (\<lambda>(wid, start, stop). [start..<stop]) cs)) then pack kb keys i else k ! i) [0..<length keys],
     fold (count_call (\<lambda>i. keys ! i AND mask kb < keys ! (i - 1) AND mask kb)) cs un,
     fold (count_call (\<lambda>i. keys ! i AND mask kb > keys ! (i - 1) AND mask kb)) cs nr)"
  using assms
proof (induction cs arbitrary: k un nr)
  case Nil
  then show ?case by (auto intro: nth_equalityI)
next
  case (Cons c cs)
  obtain wid start stop where c: "c = (wid, start, stop)" by (cases c)
  have stop: "stop \<le> length keys" using Cons.prems(1) by (simp add: c)
  have cur: "k ! i AND mask kb = keys ! i AND mask kb" if "i < length keys" for i using Cons.prems(2) [OF that] pack_low [of kb keys i] by auto
  let ?k = "map (\<lambda>i. if i \<in> set [start..<stop] then pack kb keys i else k ! i) [0..<length keys]"
  have "fold (\<lambda>i k'. k'[i := (k ! i AND mask kb) OR push_bit kb (of_nat i)]) [start..<stop] k = ?k"
    unfolding write_rows Cons.prems(3) by (rule map_cong) (auto simp: cur pack_def)
  moreover have "count_call (\<lambda>i. R (k ! i AND mask kb) (k ! (i - 1) AND mask kb)) c pw = count_call (\<lambda>i. R (keys ! i AND mask kb) (keys ! (i - 1) AND mask kb)) c pw" for R pw
  proof -
    have "filter (\<lambda>i. R (k ! i AND mask kb) (k ! (i - 1) AND mask kb)) [start + 1..<stop] = filter (\<lambda>i. R (keys ! i AND mask kb) (keys ! (i - 1) AND mask kb)) [start + 1..<stop]"
      using stop by (intro filter_cong) (auto simp: cur)
    then show ?thesis by (simp add: c count_call_def)
  qed
  note same = this [of "(<)"] this [of "(>)"]
  ultimately have step: "packed_detect_fn kb (mask kb) c (k, un, nr) =
      (?k, count_call (\<lambda>i. keys ! i AND mask kb < keys ! (i - 1) AND mask kb) c un, count_call (\<lambda>i. keys ! i AND mask kb > keys ! (i - 1) AND mask kb) c nr)"
    by (simp add: packed_detect_fn_def c Let_def)
  have "?k ! i = keys ! i \<or> ?k ! i = pack kb keys i" if "i < length keys" for i using Cons.prems(2) [OF that] that by auto
  then have "fold (packed_detect_fn kb (mask kb)) cs (?k, un', nr') =
      (map (\<lambda>i. if i \<in> set (concat (map (\<lambda>(wid, start, stop). [start..<stop]) cs)) then pack kb keys i else ?k ! i) [0..<length keys],
       fold (count_call (\<lambda>i. keys ! i AND mask kb < keys ! (i - 1) AND mask kb)) cs un',
       fold (count_call (\<lambda>i. keys ! i AND mask kb > keys ! (i - 1) AND mask kb)) cs nr')" for un' nr'
    using Cons.prems(1) by (intro Cons.IH) simp_all
  then show ?case unfolding fold.simps comp_def step by (auto simp: c)
qed

lemma packed_sort_cases:
  assumes ok: "env_ok env (length keys)" and kb: "nb * 8 + ib \<le> 64" "nb \<le> 3" "ib < 64" and n: "length keys < 2 ^ ib" "length keys < 2 ^ 32" "1 < length keys"
    and high: "\<And>k. k \<in> set keys \<Longrightarrow> unat k div 2 ^ (8 * nb) = c"
  shows "packed_sort env nb ib keys =
    Some (if sorted keys then map int [0..<length keys] else if sorted (rev keys) then map (\<lambda>i. int (length keys - 1 - i)) [0..<length keys] else stable_order keys)"
proof -
  let ?n = "length keys" and ?kb = "nb * 8"
  define mk where "mk = (\<lambda>i. keys ! i AND mask ?kb)"
  obtain nw cs where call: "(case e_detect env of Some p \<Rightarrow> p | None \<Rightarrow> (1, [(0, 0, ?n)])) = (nw, cs)" by fastforce
  have cov: "covers (Some (nw, cs)) ?n" "aligned (Some (nw, cs))"
    using ok call by (cases "e_detect env"; auto simp: env_ok_def covers_def aligned_def)+
  then have all: "set (concat (map (\<lambda>(wid, start, stop). [start..<stop]) cs)) = {0..<?n}" "\<forall>(wid, start, stop)\<in>set cs. stop \<le> ?n"
    using mset_eq_setD [of "concat (map (\<lambda>(wid, start, stop). [start..<stop]) cs)" "[0..<?n]"] by (auto simp: covers_def)
  have mask: "low_mask ?kb = mask ?kb" using kb by (intro low_mask_mask) simp
  let ?K = "map (pack ?kb keys) [0..<?n]"
  have fold_eq: "fold (packed_detect_fn ?kb (low_mask ?kb)) cs (keys, replicate nw 0, replicate nw 0) =
      (?K, fold (count_call (\<lambda>i. mk i < mk (i - 1))) cs (replicate nw 0), fold (count_call (\<lambda>i. mk i > mk (i - 1))) cs (replicate nw 0))"
  proof -
    have "map (\<lambda>i. if i \<in> {0..<?n} then pack ?kb keys i else keys ! i) [0..<?n] = ?K" by simp
    then show ?thesis
      using pack_calls [OF all(2) disjI1 [OF refl] refl, of ?kb "replicate nw 0" "replicate nw 0", unfolded all(1)] by (simp only: mask mk_def)
  qed
  have bound: "boundary_count (\<lambda>b. R (?K ! b AND low_mask ?kb) (?K ! (b - 1) AND low_mask ?kb)) ?n = boundary_count (\<lambda>b. R (mk b) (mk (b - 1))) ?n" for R
    unfolding boundary_count_def by (rule arg_cong [of _ _ length]) (rule filter_cong, auto simp: pack_low mk_def mask TASK_GRAIN_def)
  have mk_le: "mk i \<le> mk j \<longleftrightarrow> keys ! i \<le> keys ! j" if "i < ?n" "j < ?n" for i j
  proof -
    have m: "unat (mk i) = unat (keys ! i) mod 2 ^ ?kb" for i
      unfolding mk_def take_bit_eq_mask [symmetric] unsigned_take_bit_eq by (simp add: take_bit_eq_mod)
    have "unat (keys ! i) = c * 2 ^ ?kb + unat (mk i)" if "i < ?n" for i
    proof -
      have h: "unat (keys ! i) div 2 ^ ?kb = c" using high [OF nth_mem [OF that]] by (simp only: mult.commute)
      show ?thesis using div_mult_mod_eq [of "unat (keys ! i)" "2 ^ ?kb"] unfolding h m by (rule sym)
    qed
    then show ?thesis using that by (simp add: word_le_nat_alt)
  qed
  have mk_lt: "mk i < mk j \<longleftrightarrow> keys ! i < keys ! j" if "i < ?n" "j < ?n" for i j using mk_le [OF that(2,1)] by (simp add: not_le [symmetric])
  have down: "(\<forall>i\<in>{1..<?n}. \<not> mk i < mk (i - 1)) \<longleftrightarrow> sorted keys"
  proof -
    have "mk i < mk (i - 1) \<longleftrightarrow> keys ! i < keys ! (i - 1)" if "i \<in> {1..<?n}" for i using that by (intro mk_lt) auto
    then show ?thesis unfolding sorted_adjacent by (intro ball_cong) blast+
  qed
  have up: "(\<forall>i\<in>{1..<?n}. \<not> mk i > mk (i - 1)) \<longleftrightarrow> sorted (rev keys)"
    unfolding sorted_rev_iff_nth_Suc by (auto simp: mk_le not_less Ball_def) (metis One_nat_def Suc_pred' less_eq_Suc_le)
  have "map_option fst (packed_radix_sort_run (e_mem_hist env) (e_tasks env) (e_sched env) nb (?K, e_ptmp env)) = Some (sort_key (\<lambda>x. unat x mod 2 ^ (8 * nb)) ?K)"
    using packed_run [of "e_tasks env" ?K "e_sched env" "e_ptmp env" nb] ok n(2) by (simp add: env_ok_def)
  then obtain r where r: "packed_radix_sort_run (e_mem_hist env) (e_tasks env) (e_sched env) nb (?K, e_ptmp env) = Some r" "fst r = sort_key (\<lambda>x. unat x mod 2 ^ (8 * nb)) ?K"
    by auto
  have "sort_key (\<lambda>x. unat x mod 2 ^ (8 * nb)) ?K = map (pack ?kb keys) (sort_key (\<lambda>i. keys ! i) [0..<?n])"
  proof -
    have "sort_key (\<lambda>i. unat (pack ?kb keys i) mod 2 ^ (8 * nb)) [0..<?n] = sort_key (\<lambda>i. unat (keys ! i) mod 2 ^ (8 * nb)) [0..<?n]"
      using pack_key [of ?kb keys] by (simp add: mult.commute)
    also have "\<dots> = sort_key (\<lambda>i. keys ! i) [0..<?n]" using high by (intro low_bytes_order) auto
    finally show ?thesis by (simp add: sort_key_map comp_def)
  qed
  moreover have "uint (drop_bit ?kb (pack ?kb keys i) AND low_mask ib) = int i" if "i < ?n" for i
    using pack_row [OF _ kb(1) kb(3), of i keys] that n(1) by simp
  ultimately have unpack: "packed_unpack_fn ?kb (low_mask ib) (fst r) = stable_order keys"
    by (simp add: r(2) packed_unpack_fn_def stable_order_def comp_def atLeast0LessThan)
  show ?thesis
    unfolding packed_sort_def Let_def call prod.case fold_eq bound [of "(<)"] bound [of "\<lambda>x y. y < x"] using ok n(3) r(1) unpack
      nothing_counted [OF cov, of "\<lambda>i. mk i < mk (i - 1)", unfolded down] nothing_counted [OF cov, of "\<lambda>i. mk i > mk (i - 1)", unfolded up]
    by (simp add: env_ok_def)
qed

text \<open>
  When the packed path takes a column for reverse-sorted: it is large, its keys differ in three bytes at most, and they
  fall weakly.
\<close>

definition taken_backwards :: "sort_env \<Rightarrow> nat \<Rightarrow> u64 list \<Rightarrow> bool" where
  "taken_backwards env type_max keys \<longleftrightarrow> RADIX_SORT_THRESHOLD < length keys \<and>
    compute_key_nbytes (e_range env) keys type_max \<le> 3 \<and> sorted (rev keys) \<and> \<not> sorted keys"

lemma rows_backwards: "map (\<lambda>i. int (n - 1 - i)) [0..<n] = rev (map int [0..<n])"
  by (rule nth_equalityI) (simp_all add: rev_nth)

lemma single_key_exact:
  assumes "env_ok env (length keys)" "length keys < 2 ^ 32"
    and "\<And>k. k \<in> set keys \<Longrightarrow> drop_bit (8 * type_max) k = drop_bit (8 * type_max) (keys ! 0)"
  shows "sort_single_key env type_max keys =
    Some (if taken_backwards env type_max keys then rev (map int [0..<length keys]) else stable_order keys)"
proof -
  let ?n = "length keys" and ?rows = "zip keys (map int [0..<length keys])"
  let ?nb = "compute_key_nbytes (e_range env) keys type_max"
  have asc: "sorted (map snd ?rows)" by (simp add: sorted_iff_nth_mono)
  show ?thesis
  proof (cases "?n \<le> RADIX_SORT_THRESHOLD")
    case True
    then show ?thesis using sorted_row_order [of keys]
      by (simp add: sort_single_key_def introsort_sorts sort_is_sort_key [OF asc] taken_backwards_def)
  next
    case big: False
    then have n: "1 < ?n" by (simp add: RADIX_SORT_THRESHOLD_def)
    have high: "unat k div 2 ^ (8 * ?nb) = unat (keys ! 0) div 2 ^ (8 * ?nb)" if "k \<in> set keys" for k
      using high_bytes_agree [OF _ assms(3) that] assms(1) by (simp add: env_ok_def)
    show ?thesis
    proof (cases "?nb \<le> 3")
      case True
      have bits: "idx_bits ?n < 64" "?nb * 8 + idx_bits ?n \<le> 64" using idx_bits_le [OF assms(2)] True by simp_all
      then have "packed_sort env ?nb (idx_bits ?n) keys =
          Some (if sorted keys then map int [0..<?n] else if sorted (rev keys) then map (\<lambda>i. int (?n - 1 - i)) [0..<?n] else stable_order keys)"
        using True assms(1,2) n high idx_bits_less [of ?n] by (intro packed_sort_cases) auto
      then show ?thesis using big True bits stable_sorted [of keys]
        unfolding rows_backwards by (auto simp: sort_single_key_def Let_def taken_backwards_def)
    next
      case False
      have "msd_radix_sort_run (e_mem_msd env) True (e_tasks env) (e_sched env) (e_buckets env) ?nb ?rows (e_tmp env) = Some (sort_key fst ?rows)"
      proof (rule msd_sorts)
        show "unat (fst x) div 2 ^ (8 * ?nb) = unat (keys ! 0) div 2 ^ (8 * ?nb)" if "x \<in> set ?rows" for x
          using that high by (metis prod.collapse set_zip_leftD)
      qed (use assms(1,2) asc in \<open>simp_all add: env_ok_def\<close>)
      then show ?thesis using big False assms(1) sorted_row_order [of keys] stable_sorted [of keys] detect_zero [of "e_detect env" keys]
        by (auto simp: sort_single_key_def Let_def env_ok_def taken_backwards_def)
    qed
  qed
qed

lemma single_key_cases:
  assumes "env_ok env (length keys)" "length keys < 2 ^ 32"
    and "\<And>k. k \<in> set keys \<Longrightarrow> drop_bit (8 * type_max) k = drop_bit (8 * type_max) (keys ! 0)"
  shows "sort_single_key env type_max keys = Some (stable_order keys) \<or>
    sorted (rev keys) \<and> sort_single_key env type_max keys = Some (map (\<lambda>i. int (length keys - 1 - i)) [0..<length keys])"
  using single_key_exact [OF assms] unfolding rows_backwards by (auto simp: taken_backwards_def simp del: rev_map)

lemma single_key_sorts:
  assumes "env_ok env (length keys)" "length keys < 2 ^ 32"
    and "\<And>k. k \<in> set keys \<Longrightarrow> drop_bit (8 * type_max) k = drop_bit (8 * type_max) (keys ! 0)"
    and "distinct keys \<or> \<not> sorted (rev keys)"
  shows "sort_single_key env type_max keys = Some (stable_order keys)"
  using single_key_cases [OF assms(1-3)] stable_reverse [of keys] assms(4) by auto

text \<open>
  C35. What the sort of one encoded key column returns, on every path: introsort, already sorted, packed radix, radix and
  hybrid, for any number of workers and any order of their tasks. It is the stable order of the rows, except for a
  column of more than 4096 rows whose keys differ in three bytes at most and fall weakly, which comes out backwards: in
  order too, but equal keys in descending row order, so not stable when there are equal keys. The condition on the
  outside world is that every task runs once, allocations succeed and the dispatch of the sortedness check does not
  stretch its tasks beyond one grain.
\<close>

theorem sort_single_key_exact:
  assumes "env_ok env (length keys)" "length keys < 2 ^ 32"
    and "\<And>k. k \<in> set keys \<Longrightarrow> drop_bit (8 * type_max) k = drop_bit (8 * type_max) (keys ! 0)"
  shows "sort_single_key env type_max keys =
    Some (if RADIX_SORT_THRESHOLD < length keys \<and> compute_key_nbytes (e_range env) keys type_max \<le> 3 \<and>
            sorted (rev keys) \<and> \<not> sorted keys
          then rev (map int [0..<length keys]) else stable_order keys)"
  using single_key_exact [OF assms] by (simp only: taken_backwards_def)

text \<open>5000 rows with alternating keys, two tasks that finish out of order.\<close>

definition sample_env :: "nat \<Rightarrow> sort_env" where
  "sample_env n = \<lparr>e_range = None, e_detect = None, e_tasks = 2, e_sched = (\<lambda>bp. [1, 0]), e_buckets = [0..<256], e_mem_buf = True, e_mem_hist = True,
    e_mem_msd = True, e_ptmp = replicate n 0, e_tmp = replicate n (0, 0)\<rparr>"

lemma sample_env_ok: "env_ok (sample_env n) n"
  by (auto simp: env_ok_def sample_env_def covers_def aligned_def upt_rec add_mset_commute)

theorem sort_single_key_exact_witness:
  "sort_single_key (sample_env 5000) 8 (map (\<lambda>i. of_nat (i mod 2)) [0..<5000]) = Some (stable_order (map (\<lambda>i. of_nat (i mod 2)) [0..<5000]))"
proof -
  let ?keys = "map (\<lambda>i. of_nat (i mod 2)) [0..<5000] :: u64 list"
  have e: "env_ok (sample_env 5000) (length ?keys)" using sample_env_ok [of 5000] by simp
  have h: "drop_bit (8 * 8) k = drop_bit (8 * 8) (?keys ! 0)" for k by (rule bit_eqI) (auto simp: bit_simps dest: bit_imp_le_length)
  have "\<not> sorted (rev ?keys)"
  proof
    assume "sorted (rev ?keys)"
    then have "?keys ! 1 \<le> ?keys ! 0" unfolding sorted_rev_iff_nth_Suc by (auto dest!: spec [of _ 0])
    then show False by simp
  qed
  with sort_single_key_exact [OF e _ h] show ?thesis by simp
qed

section \<open>Two departures\<close>

text \<open>
  The packed path takes a column for reverse-sorted when no key is above the one before it, which allows equal keys, and then
  returns the rows backwards: equal keys come out in descending row order, unlike on every other path.
\<close>

lemma byte_count_le:
  assumes "drop_bit (8 * m) d = 0"
  shows "byte_count d \<le> m"
  using assms
proof (induction m arbitrary: d)
  case (Suc m)
  have "8 * Suc m = 8 * m + 8" by simp
  then have "drop_bit (8 * m) (drop_bit 8 d) = 0" using Suc.prems by (simp only: drop_bit_drop_bit)
  then show ?case using Suc.IH by (simp add: byte_count.simps [of d])
qed (simp add: byte_count.simps)

lemma reverse_with_ties:
  assumes "env_ok env (length keys)" "RADIX_SORT_THRESHOLD < length keys" "length keys < 2 ^ 32" "e_range env = None"
    and "\<And>k. k \<in> set keys \<Longrightarrow> unat k < 2 ^ 24" "sorted (rev keys)" "\<not> sorted keys"
  shows "sort_single_key env 8 keys = Some (map (\<lambda>i. int (length keys - 1 - i)) [0..<length keys])"
proof -
  let ?n = "length keys" and ?nb = "compute_key_nbytes (e_range env) keys 8"
  have n: "1 < ?n" using assms(2) by (simp add: RADIX_SORT_THRESHOLD_def)
  have low: "drop_bit 24 k = 0" if "k \<in> set keys" for k
  proof -
    have "unat (drop_bit 24 k) = 0" unfolding unat_drop_bit_eq using assms(5) [OF that] by (simp add: drop_bit_eq_div)
    then show ?thesis by (simp only: unat_eq_zero)
  qed
  have "drop_bit 24 (key_diff None keys) = 0"
  proof -
    have z: "drop_bit 24 (keys ! i) = 0" if "i < ?n" for i using low that by simp
    have "drop_bit 24 (keys ! 0) = 0" by (rule z) (use n in linarith)
    then show ?thesis using z by (auto simp: key_diff_def high_or drop_bit_xor)
  qed
  then have nb: "?nb \<le> 3" using byte_count_le [of 3 "key_diff None keys"] by (auto simp: compute_key_nbytes_def Let_def assms(4))
  have ib: "idx_bits ?n \<le> 32" by (rule idx_bits_le [OF assms(3)])
  have high: "unat k div 2 ^ (8 * ?nb) = unat (keys ! 0) div 2 ^ (8 * ?nb)" if "k \<in> set keys" for k
    using high_bytes_agree [of "e_range env" keys 8 k] assms(1,4) that low by (auto simp: env_ok_def bit_eq_iff bit_simps dest: bit_imp_le_length)
  have "packed_sort env ?nb (idx_bits ?n) keys = Some (map (\<lambda>i. int (?n - 1 - i)) [0..<?n])"
    using packed_sort_cases [OF assms(1) _ nb _ idx_bits_less assms(3) n high] nb ib assms(6,7) by simp
  then show ?thesis using nb ib assms(2) by (simp add: sort_single_key_def Let_def)
qed

lemma reverse_ties_unstable:
  assumes "env_ok env (length keys)" "RADIX_SORT_THRESHOLD < length keys" "length keys < 2 ^ 32" "e_range env = None"
    and "\<And>k. k \<in> set keys \<Longrightarrow> unat k < 2 ^ 24" "sorted (rev keys)" "\<not> sorted keys" "\<not> distinct keys"
  shows "sort_single_key env 8 keys \<noteq> Some (stable_order keys)"
proof
  let ?n = "length keys" and ?ys = "sort_key (\<lambda>i. keys ! i) [0..<length keys]"
  assume "sort_single_key env 8 keys = Some (stable_order keys)"
  then have "map int ?ys = map (\<lambda>i. int (?n - 1 - i)) [0..<?n]" using reverse_with_ties [OF assms(1-7)] by (simp add: stable_order_def)
  moreover have "map (\<lambda>i. int (?n - 1 - i)) [0..<?n] = map int (rev [0..<?n])" by (rule nth_equalityI) (simp_all add: rev_nth)
  ultimately have ys: "?ys = rev [0..<?n]" by (metis inj_map_eq_map inj_of_nat)
  obtain i j where ij: "i < ?n" "j < ?n" "i \<noteq> j" "keys ! i = keys ! j" using assms(8) by (auto simp: distinct_conv_nth)
  let ?F = "filter (\<lambda>x. keys ! x = keys ! i) [0..<?n]"
  have "rev ?F = ?F" using sort_key_stable [of "\<lambda>i. keys ! i" "keys ! i" "[0..<?n]"] unfolding ys rev_filter [symmetric] by simp
  moreover have asc: "sorted_wrt (<) ?F" by (intro sorted_wrt_filter) (simp add: sorted_wrt_upt)
  ultimately have "sorted_wrt (\<lambda>x y. y < x) ?F" by (metis sorted_wrt_rev)
  moreover have "i \<in> set ?F" "j \<in> set ?F" using ij by auto
  then obtain a b where "a < length ?F" "b < length ?F" "?F ! a = i" "?F ! b = j" unfolding in_set_conv_nth by blast
  then have "a \<noteq> b" "a < length ?F" "b < length ?F" using ij(3) by auto
  ultimately show False using asc sorted_wrt_nth_less [of "(<)" ?F a b] sorted_wrt_nth_less [of "(<)" ?F b a]
      sorted_wrt_nth_less [of "\<lambda>x y. y < x" ?F a b] sorted_wrt_nth_less [of "\<lambda>x y. y < x" ?F b a]
    by (cases a b rule: linorder_cases) auto
qed

text \<open>
  The check for inversions between tasks looks at multiples of the grain. When a dispatch needs more tasks than the ring can
  hold it stretches them, and an inversion between two tasks is not seen: the column passes for sorted.
\<close>

lemma stretched_tasks_miss:
  fixes fn :: nat
  defines "n \<equiv> 65536 * 8192 + 1 :: nat"
  defines "keys \<equiv> map (\<lambda>i. if i < 8193 then 1 else 0) [0..<n] :: u64 list"
  defines "cs \<equiv> map (\<lambda>t. (0, t_start t, t_end t)) (row_tasks MAX_RING_CAP fn n)"
  shows "detect_sortedness (Some (1, cs)) keys = 0" "\<not> sorted keys"
proof -
  have tasks: "row_tasks MAX_RING_CAP fn n = map (\<lambda>i. \<lparr>t_fn = fn, t_start = i * 8193, t_end = min (i * 8193 + 8193) n\<rparr>) [0..<65536]"
    by (simp add: row_tasks_def MAX_RING_CAP_def TASK_GRAIN_def n_def)
  have down: "keys ! i < keys ! (i - 1) \<longleftrightarrow> i = 8193" if "1 \<le> i" "i < n" for i
    using that by (auto simp: keys_def nth_append)
  have len: "length keys = n" by (simp add: keys_def)
  have none: "filter (\<lambda>i. keys ! i < keys ! (i - 1)) [j * 8193 + 1..<min (j * 8193 + 8193) n] = []" for j
  proof -
    have "i \<noteq> 8193" if "j * 8193 + 1 \<le> i" "i < j * 8193 + 8193" for i using that by (cases "j = 0"; cases "j = 1") auto
    then show ?thesis using down by (auto simp: filter_empty_conv)
  qed
  have "sum_list (fold (sortedness_fn keys) cs (replicate 1 0)) = 0"
    using count_calls [of cs "replicate 1 0" "\<lambda>i. keys ! i < keys ! (i - 1)"] none by (simp add: sortedness_fn_def cs_def tasks comp_def)
  moreover have "boundary_count (\<lambda>i. keys ! i < keys ! (i - 1)) n = 0"
    using down by (auto simp: boundary_count_def filter_empty_conv TASK_GRAIN_def)
  ultimately show "detect_sortedness (Some (1, cs)) keys = 0"
    by (simp add: detect_sortedness_def Let_def len SMALL_POOL_THRESHOLD_def n_def)
  show "\<not> sorted keys" unfolding sorted_adjacent len using down [of 8193] by (auto simp: n_def intro!: bexI [of _ 8193])
qed

section \<open>What the pool guarantees\<close>

text \<open>The calls of a dispatch over rows that has ended are as the sort needs them.\<close>

definition pool_calls :: "pool \<Rightarrow> calls" where
  "pool_calls s = (length (p_pcs s), map (\<lambda>(w, t, task). (w, t_start task, t_end task)) (p_log s))"

lemma dispatch_calls:
  assumes r: "pool_reachable w s" and at: "p_pcs s ! 0 = Spin" "p_pending s = 0" "\<not> p_cancelled s"
    and job: "p_job s = row_tasks cap fn n" "0 < cap" "n < 2 ^ 44"
  shows "covers (Some (pool_calls s)) n" "(n + TASK_GRAIN - 1) div TASK_GRAIN \<le> cap \<Longrightarrow> aligned (Some (pool_calls s))"
proof -
  have inv: "pool_inv s" by (rule reachable_inv [OF r])
  have served: "mset (map (\<lambda>l. snd (snd l)) (p_log s)) = mset (p_job s)"
    using served_tasks [OF inv at(1,2)] skip_only_cancelled [OF r] at by simp
  have tasks: "snd (snd l) \<in> set (row_tasks cap fn n)" if "l \<in> set (p_log s)" for l
    using that mset_eq_setD [OF served] job(1) by auto
  have wid: "fst l < length (p_pcs s)" if "l \<in> set (p_log s)" for l using that inv by (fastforce simp: pool_inv_def log_ok_def)
  have stop: "t_end t \<le> n" if "t \<in> set (row_tasks cap fn n)" for t using that by (auto simp: row_tasks_def Let_def)
  have flat: "mset (concat (map f xs)) = (\<Sum>x\<in>#mset xs. mset (f x))" for f :: "ptask \<Rightarrow> nat list" and xs by (induction xs) simp_all
  have "mset (concat (map (\<lambda>t. [t_start t..<t_end t]) (map (\<lambda>l. snd (snd l)) (p_log s)))) = mset (concat (map (\<lambda>t. [t_start t..<t_end t]) (p_job s)))"
    by (simp only: flat served)
  also have "\<dots> = mset [0..<n]" by (simp only: job(1) row_tasks_cover [OF job(2,3)])
  finally show "covers (Some (pool_calls s)) n" using wid stop tasks by (fastforce simp: covers_def pool_calls_def comp_def case_prod_beta)
  show "aligned (Some (pool_calls s))" if few: "(n + TASK_GRAIN - 1) div TASK_GRAIN \<le> cap"
  proof -
    have "(n + TASK_GRAIN - 1) div TASK_GRAIN < 2 ^ 32" using job(3) by (simp add: TASK_GRAIN_def less_mult_imp_div_less)
    then have "TASK_GRAIN dvd t_start t" if "t \<in> set (row_tasks cap fn n)" for t using that few by (auto simp: row_tasks_def Let_def split: if_splits)
    then show ?thesis using tasks by (fastforce simp: aligned_def pool_calls_def)
  qed
qed

end
