(* ===== verification/MergeSort.thy ===== *)
theory MergeSort
  imports Prelude "HOL-Library.Multiset"
begin

text \<open>
  The comparison sort of \<^verbatim>\<open>src/ops/sort.c\<close>: insertion sort, the recursive merge sort, the chunks sorted by the
  workers of a pool and the passes that merge their runs. The comparator is a parameter here; theory \<open>SortCmp\<close> supplies
  \<open>sort_cmp\<close> and discharges the laws of locale \<open>row_order\<close>. Arrays are lists, stores past their end are not reached.

  Shown: every one of these sorts is stable, for any order in which the workers take their tasks, and the merge passes
  end.
\<close>

section \<open>The algorithms\<close>

text \<open>The inner loop of the insertion sort; its \<open>j\<close> is one less than the argument here.\<close>

fun shift_up :: "('a \<Rightarrow> 'a \<Rightarrow> int) \<Rightarrow> 'a \<Rightarrow> nat \<Rightarrow> 'a list \<Rightarrow> nat \<times> 'a list" where
  "shift_up cmp key 0 arr = (0, arr)"
| "shift_up cmp key (Suc j) arr = (if cmp (arr ! j) key > 0 then shift_up cmp key j (arr[Suc j := arr ! j]) else (Suc j, arr))"

definition insert_at :: "('a \<Rightarrow> 'a \<Rightarrow> int) \<Rightarrow> nat \<Rightarrow> 'a list \<Rightarrow> 'a list" where
  "insert_at cmp i arr = (let key = arr ! i; (j, arr') = shift_up cmp key i arr in arr'[j := key])"

definition sort_insertion :: "('a \<Rightarrow> 'a \<Rightarrow> int) \<Rightarrow> 'a list \<Rightarrow> 'a list" where
  "sort_insertion cmp arr = fold (insert_at cmp) [1..<length arr] arr"

text \<open>The merge loop and the two loops that copy what is left of one run.\<close>

function merge_loop :: "('a \<Rightarrow> 'a \<Rightarrow> int) \<Rightarrow> 'a list \<Rightarrow> nat \<Rightarrow> nat \<Rightarrow> nat \<Rightarrow> nat \<Rightarrow> nat \<Rightarrow> 'a list \<Rightarrow> 'a list" where
  "merge_loop cmp src mid hi i j k dst =
    (if i < mid \<and> j < hi then
       if cmp (src ! i) (src ! j) \<le> 0 then merge_loop cmp src mid hi (i + 1) j (k + 1) (dst[k := src ! i])
       else merge_loop cmp src mid hi i (j + 1) (k + 1) (dst[k := src ! j])
     else if i < mid then merge_loop cmp src mid hi (i + 1) j (k + 1) (dst[k := src ! i])
     else if j < hi then merge_loop cmp src mid hi i (j + 1) (k + 1) (dst[k := src ! j])
     else dst)"
  by pat_completeness auto

termination by (relation "measure (\<lambda>(cmp, src, mid, hi, i, j, k, dst). (mid - i) + (hi - j))") auto

declare merge_loop.simps [simp del]

definition merge_runs :: "('a \<Rightarrow> 'a \<Rightarrow> int) \<Rightarrow> 'a list \<Rightarrow> nat \<Rightarrow> nat \<Rightarrow> nat \<Rightarrow> 'a list \<Rightarrow> 'a list" where
  "merge_runs cmp src lo mid hi dst = merge_loop cmp src mid hi lo mid lo dst"

text \<open>The pointers \<open>arr + mid\<close> and \<open>tmp + mid\<close> are the tails of the lists; the result is \<open>arr\<close> and \<open>tmp\<close>.\<close>

fun sort_merge_recursive :: "('a \<Rightarrow> 'a \<Rightarrow> int) \<Rightarrow> 'a list \<Rightarrow> 'a list \<Rightarrow> 'a list \<times> 'a list" where
  "sort_merge_recursive cmp arr tmp =
    (let n = length arr
     in if n \<le> 64 then (sort_insertion cmp arr, tmp)
        else let mid = n div 2;
                 (a1, t1) = sort_merge_recursive cmp (take mid arr) (take mid tmp);
                 (a2, t2) = sort_merge_recursive cmp (drop mid arr) (drop mid tmp);
                 tmp' = merge_runs cmp (a1 @ a2) 0 mid n (t1 @ t2)
             in (take n tmp', tmp'))"

declare sort_merge_recursive.simps [simp del]

text \<open>One call of the callback of a dispatch handles the chunks, or pairs of runs, \<open>start \<dots> stop - 1\<close>.\<close>

definition sort_chunk :: "('a \<Rightarrow> 'a \<Rightarrow> int) \<Rightarrow> nat \<Rightarrow> nat \<Rightarrow> nat \<Rightarrow> 'a list \<times> 'a list \<Rightarrow> 'a list \<times> 'a list" where
  "sort_chunk cmp nrows n_chunks chunk_idx s =
    (case s of (indices, tmp) \<Rightarrow>
      let chunk_size = (nrows + n_chunks - 1) div n_chunks;
          lo = chunk_idx * chunk_size;
          hi = min (lo + chunk_size) nrows
      in if lo \<ge> hi then (indices, tmp)
         else let (a, t) = sort_merge_recursive cmp (take (hi - lo) (drop lo indices)) (take (hi - lo) (drop lo tmp))
              in (take lo indices @ a @ drop hi indices, take lo tmp @ t @ drop hi tmp))"

definition sort_phase1_fn :: "('a \<Rightarrow> 'a \<Rightarrow> int) \<Rightarrow> nat \<Rightarrow> nat \<Rightarrow> nat \<times> nat \<Rightarrow> 'a list \<times> 'a list \<Rightarrow> 'a list \<times> 'a list" where
  "sort_phase1_fn cmp nrows n_chunks call s = (case call of (start, stop) \<Rightarrow> fold (sort_chunk cmp nrows n_chunks) [start..<stop] s)"

definition merge_pair :: "('a \<Rightarrow> 'a \<Rightarrow> int) \<Rightarrow> 'a list \<Rightarrow> nat \<Rightarrow> nat \<Rightarrow> nat \<Rightarrow> 'a list \<Rightarrow> 'a list" where
  "merge_pair cmp src nrows run_size pair_idx dst =
    (let lo = pair_idx * 2 * run_size;
         mid = min (lo + run_size) nrows;
         hi = min (lo + run_size + run_size) nrows
     in if lo \<ge> nrows then dst
        else if mid \<ge> hi then take lo dst @ take (hi - lo) (drop lo src) @ drop hi dst
        else merge_runs cmp src lo mid hi dst)"

definition sort_merge_fn :: "('a \<Rightarrow> 'a \<Rightarrow> int) \<Rightarrow> 'a list \<Rightarrow> nat \<Rightarrow> nat \<Rightarrow> nat \<times> nat \<Rightarrow> 'a list \<Rightarrow> 'a list" where
  "sort_merge_fn cmp src nrows run_size call dst = (case call of (start, stop) \<Rightarrow> fold (merge_pair cmp src nrows run_size) [start..<stop] dst)"

text \<open>
  The loop over the passes. \<open>calls\<close> gives, for every run size, the calls a dispatch makes, in their order; a pass
  of one pair calls the callback itself. A sort returns, runs out of memory, refuses its arguments with the error
  \<open>nyi\<close>, or traps: a run size of 0 would divide by zero.
\<close>

datatype 'a outcome = Ret 'a | Oom | Nyi | Trap

function merge_passes :: "('a \<Rightarrow> 'a \<Rightarrow> int) \<Rightarrow> (nat \<Rightarrow> (nat \<times> nat) list) \<Rightarrow> nat \<Rightarrow> nat \<Rightarrow> 'a list \<Rightarrow> 'a list \<Rightarrow> 'a list outcome" where
  "merge_passes cmp calls nrows run_size src dst =
    (if run_size < nrows then
       if run_size = 0 then Trap
       else let n_pairs = (nrows + 2 * run_size - 1) div (2 * run_size);
                dst' = (if n_pairs > 1 then fold (sort_merge_fn cmp src nrows run_size) (calls run_size) dst
                        else sort_merge_fn cmp src nrows run_size (0, n_pairs) dst)
            in merge_passes cmp calls nrows (run_size * 2) dst' src
     else Ret src)"
  by pat_completeness auto

termination by (relation "measure (\<lambda>(cmp, calls, nrows, run_size, src, dst). nrows - run_size)") auto

declare merge_passes.simps [simp del]

text \<open>The merge sort of \<open>sort_indices_ex\<close>: a pool with its number of workers, the memory for \<open>tmp\<close>, and the calls.\<close>

record merge_env =
  m_workers :: "nat option"
  m_tmp :: "nat list option"
  m_phase1 :: "(nat \<times> nat) list"
  m_pass :: "nat \<Rightarrow> (nat \<times> nat) list"

definition merge_sort :: "(nat \<Rightarrow> nat \<Rightarrow> int) \<Rightarrow> merge_env \<Rightarrow> nat \<Rightarrow> nat list outcome" where
  "merge_sort cmp env nrows =
    (let indices = [0..<nrows]
     in if nrows \<le> 64 then Ret (sort_insertion cmp indices)
        else case m_tmp env of None \<Rightarrow> Oom
          | Some tmp \<Rightarrow>
             (case m_workers env of
                Some n_chunks \<Rightarrow>
                  if n_chunks > 1 \<and> nrows > 1024
                  then let (indices, tmp) = fold (sort_phase1_fn cmp nrows n_chunks) (m_phase1 env) (indices, tmp);
                           chunk_size = (nrows + n_chunks - 1) div n_chunks
                       in merge_passes cmp (m_pass env) nrows chunk_size indices tmp
                  else Ret (fst (sort_merge_recursive cmp indices tmp))
              | None \<Rightarrow> Ret (fst (sort_merge_recursive cmp indices tmp))))"

section \<open>What a comparator promises\<close>

text \<open>A stable sort, with the ties taken among the elements of \<open>R\<close>.\<close>

definition stable_of :: "('a \<Rightarrow> 'a \<Rightarrow> int) \<Rightarrow> 'a set \<Rightarrow> 'a list \<Rightarrow> 'a list \<Rightarrow> bool" where
  "stable_of cmp R xs ys \<longleftrightarrow> mset ys = mset xs \<and> sorted_wrt (\<lambda>a b. cmp a b \<le> 0) ys \<and>
    (\<forall>z\<in>R. filter (\<lambda>y. cmp z y = 0) ys = filter (\<lambda>y. cmp z y = 0) xs)"

fun merge_lists :: "('a \<Rightarrow> 'a \<Rightarrow> int) \<Rightarrow> 'a list \<Rightarrow> 'a list \<Rightarrow> 'a list" where
  "merge_lists cmp (x # xs) (y # ys) = (if cmp x y \<le> 0 then x # merge_lists cmp xs (y # ys) else y # merge_lists cmp (x # xs) ys)"
| "merge_lists cmp xs [] = xs"
| "merge_lists cmp [] ys = ys"

lemma mset_merge_lists [simp]: "mset (merge_lists cmp xs ys) = mset xs + mset ys"
  by (induction cmp xs ys rule: merge_lists.induct) auto

lemma set_merge_lists [simp]: "set (merge_lists cmp xs ys) = set xs \<union> set ys"
  by (induction cmp xs ys rule: merge_lists.induct) auto

lemma length_merge_lists [simp]: "length (merge_lists cmp xs ys) = length xs + length ys"
  by (induction cmp xs ys rule: merge_lists.induct) auto

lemma merge_lists_Nil [simp]: "merge_lists cmp [] ys = ys"
  by (cases ys) simp_all

lemma stable_set: "stable_of cmp R xs ys \<Longrightarrow> set ys = set xs"
  by (auto simp: stable_of_def dest: mset_eq_setD)

lemma stable_length: "stable_of cmp R xs ys \<Longrightarrow> length ys = length xs"
  by (auto simp: stable_of_def dest: mset_eq_length)

text \<open>The insertion puts the key behind the last element that is not above it.\<close>

lemma shift_up_splits:
  assumes "i < length arr"
  shows "\<exists>m\<le>i. shift_up cmp key i arr = (m, take (Suc m) arr @ drop m (take i arr) @ drop (Suc i) arr) \<and>
    (\<forall>p. m \<le> p \<longrightarrow> p < i \<longrightarrow> cmp (arr ! p) key > 0) \<and> (0 < m \<longrightarrow> cmp (arr ! (m - 1)) key \<le> 0)"
  using assms
proof (induction i arbitrary: arr)
  case 0
  then show ?case by (cases arr) auto
next
  case (Suc j)
  have at: "take (Suc (Suc j)) arr @ drop (Suc (Suc j)) arr = arr" by simp
  show ?case
  proof (cases "cmp (arr ! j) key > 0")
    case True
    let ?arr = "arr[Suc j := arr ! j]"
    have "j < length ?arr" using Suc.prems by simp
    from Suc.IH [OF this] obtain m where m: "m \<le> j" "shift_up cmp key j ?arr = (m, take (Suc m) ?arr @ drop m (take j ?arr) @ drop (Suc j) ?arr)"
        "\<And>p. m \<le> p \<Longrightarrow> p < j \<Longrightarrow> cmp (?arr ! p) key > 0" "0 < m \<Longrightarrow> cmp (?arr ! (m - 1)) key \<le> 0"
      by blast
    have "take (Suc m) ?arr @ drop m (take j ?arr) @ drop (Suc j) ?arr = take (Suc m) arr @ drop m (take (Suc j) arr) @ drop (Suc (Suc j)) arr"
      using m(1) Suc.prems by (simp add: take_Suc_conv_app_nth [of j arr] Cons_nth_drop_Suc [symmetric, of "Suc j" "arr[Suc j := arr ! j]"])
    moreover have "cmp (arr ! p) key > 0" if "m \<le> p" "p < Suc j" for p using m(3) [of p] True that by (cases "p = j") auto
    moreover have "cmp (arr ! (m - 1)) key \<le> 0" if "0 < m" using m(4) [OF that] m(1) that by simp
    ultimately show ?thesis using m(1,2) True by (intro exI [of _ m]) simp
  next
    case False
    have "take (Suc (Suc j)) arr @ drop (Suc j) (take (Suc j) arr) @ drop (Suc (Suc j)) arr = arr" by simp
    then show ?thesis using False by (intro exI [of _ "Suc j"]) simp
  qed
qed

lemma insert_at_splits:
  assumes "i < length arr"
  shows "\<exists>m\<le>i. insert_at cmp i arr = take m arr @ arr ! i # drop m (take i arr) @ drop (Suc i) arr \<and>
    (\<forall>p. m \<le> p \<longrightarrow> p < i \<longrightarrow> cmp (arr ! p) (arr ! i) > 0) \<and> (0 < m \<longrightarrow> cmp (arr ! (m - 1)) (arr ! i) \<le> 0)"
proof -
  obtain m where m: "m \<le> i" "shift_up cmp (arr ! i) i arr = (m, take (Suc m) arr @ drop m (take i arr) @ drop (Suc i) arr)"
      "\<forall>p. m \<le> p \<longrightarrow> p < i \<longrightarrow> cmp (arr ! p) (arr ! i) > 0" "0 < m \<longrightarrow> cmp (arr ! (m - 1)) (arr ! i) \<le> 0"
    using shift_up_splits [OF assms] by metis
  have "take (Suc m) arr = take m arr @ [arr ! m]" using m(1) assms by (simp add: take_Suc_conv_app_nth)
  then have "(take (Suc m) arr @ drop m (take i arr) @ drop (Suc i) arr)[m := arr ! i] = take m arr @ arr ! i # drop m (take i arr) @ drop (Suc i) arr"
    using m(1) assms by (simp add: list_update_append)
  then show ?thesis using m by (intro exI [of _ m]) (simp add: insert_at_def)
qed

text \<open>The merge loop writes the merge of the two runs.\<close>

lemma merge_loop_writes:
  assumes "mid \<le> length src" "hi \<le> length src" "k + (mid - i) + (hi - j) \<le> length dst"
  shows "merge_loop cmp src mid hi i j k dst =
    take k dst @ merge_lists cmp (drop i (take mid src)) (drop j (take hi src)) @ drop (k + (mid - i) + (hi - j)) dst"
  using assms
proof (induction cmp src mid hi i j k dst rule: merge_loop.induct)
  case (1 cmp src mid hi i j k dst)
  have run: "drop p (take q src) = src ! p # drop (Suc p) (take q src)" if "p < q" "q \<le> length src" for p q
    using that by (simp add: Cons_nth_drop_Suc [symmetric])
  have room: "k < length dst" if "i < mid \<or> j < hi" using that "1.prems" by auto
  have put: "take (Suc k) (dst[k := v]) = take k dst @ [v]" if "k < length dst" for v using that by (simp add: take_Suc_conv_app_nth)
  show ?case
  proof (cases "i < mid"; cases "j < hi")
    assume c: "i < mid" "j < hi"
    show ?thesis using 1 c put [OF room] by (subst merge_loop.simps) (auto simp: run Suc_diff_Suc)
  next
    assume c: "i < mid" "\<not> j < hi"
    show ?thesis using 1 c put [OF room] by (subst merge_loop.simps) (auto simp: run Suc_diff_Suc)
  next
    assume c: "\<not> i < mid" "j < hi"
    show ?thesis using 1 c put [OF room] by (subst merge_loop.simps) (auto simp: run Suc_diff_Suc)
  next
    assume c: "\<not> i < mid" "\<not> j < hi"
    show ?thesis using c by (subst merge_loop.simps) auto
  qed
qed

locale row_order =
  fixes cmp :: "'a \<Rightarrow> 'a \<Rightarrow> int" and R :: "'a set"
  assumes flip: "a \<in> R \<Longrightarrow> b \<in> R \<Longrightarrow> cmp a b < 0 \<longleftrightarrow> cmp b a > 0"
    and cmp_trans: "a \<in> R \<Longrightarrow> b \<in> R \<Longrightarrow> c \<in> R \<Longrightarrow> cmp a b \<le> 0 \<Longrightarrow> cmp b c \<le> 0 \<Longrightarrow> cmp a c \<le> 0"
begin

lemma cmp_self: "a \<in> R \<Longrightarrow> cmp a a = 0"
  using flip [of a a] by linarith

lemma flip_pos: "a \<in> R \<Longrightarrow> b \<in> R \<Longrightarrow> cmp a b > 0 \<longleftrightarrow> cmp b a < 0"
  using flip [of b a] by blast

lemma flip_le: "a \<in> R \<Longrightarrow> b \<in> R \<Longrightarrow> cmp a b \<le> 0 \<longleftrightarrow> cmp b a \<ge> 0"
  using flip_pos [of a b] by linarith

lemma flip_tie: "a \<in> R \<Longrightarrow> b \<in> R \<Longrightarrow> cmp a b = 0 \<longleftrightarrow> cmp b a = 0"
  using flip [of a b] flip [of b a] by linarith

text \<open>What is above an element is above everything it ties with.\<close>

lemma above_tie:
  assumes "x \<in> R" "y \<in> R" "z \<in> R" "cmp x y > 0" "cmp z y = 0"
  shows "cmp z x \<noteq> 0"
proof
  assume "cmp z x = 0"
  then have "cmp x z \<le> 0" using flip_tie assms by fastforce
  then have "cmp x y \<le> 0" using cmp_trans [of x z y] assms by simp
  then show False using assms by simp
qed

lemma merge_sorted:
  assumes "set xs \<subseteq> R" "set ys \<subseteq> R" "sorted_wrt (\<lambda>a b. cmp a b \<le> 0) xs" "sorted_wrt (\<lambda>a b. cmp a b \<le> 0) ys"
  shows "sorted_wrt (\<lambda>a b. cmp a b \<le> 0) (merge_lists cmp xs ys)"
  using assms
proof (induction xs arbitrary: ys)
  case (Cons x xs)
  note outer = Cons
  show ?case using outer(3,5)
  proof (induction ys)
    case (Cons y ys)
    have R: "x \<in> R" "y \<in> R" "set xs \<subseteq> R" "set ys \<subseteq> R" using outer(2) Cons.prems by auto
    show ?case
    proof (cases "cmp x y \<le> 0")
      case True
      then have "cmp x b \<le> 0" if "b \<in> set ys" for b using that Cons.prems R cmp_trans [of x y b] by auto
      then show ?thesis using True outer(1) [of "y # ys"] outer(2,4) Cons.prems by auto
    next
      case False
      then have "cmp y x \<le> 0" using flip_pos [of x y] R by simp
      moreover from this have "cmp y b \<le> 0" if "b \<in> set xs" for b using that outer(4) R cmp_trans [of y x b] by auto
      ultimately show ?thesis using False Cons by auto
    qed
  qed (use outer(4) in simp)
qed simp

lemma merge_ties:
  assumes "set xs \<subseteq> R" "set ys \<subseteq> R" "sorted_wrt (\<lambda>a b. cmp a b \<le> 0) xs" "z \<in> R"
  shows "filter (\<lambda>y. cmp z y = 0) (merge_lists cmp xs ys) = filter (\<lambda>y. cmp z y = 0) xs @ filter (\<lambda>y. cmp z y = 0) ys"
  using assms(1-3)
proof (induction xs arbitrary: ys)
  case (Cons x xs)
  note outer = Cons
  show ?case using outer(3)
  proof (induction ys)
    case (Cons y ys)
    have R: "x \<in> R" "y \<in> R" "set xs \<subseteq> R" using outer(2) Cons.prems by auto
    show ?case
    proof (cases "cmp x y \<le> 0")
      case True
      then show ?thesis using outer(1) [of "y # ys"] outer(2,4) Cons.prems by auto
    next
      case False
      have "cmp z b \<noteq> 0" if tie: "cmp z y = 0" and b: "b \<in> set (x # xs)" for b
      proof -
        have "b \<in> R" using b R by auto
        moreover have "cmp x b \<le> 0" using b outer(4) R cmp_self [of x] by auto
        then have "cmp b y > 0" using False cmp_trans [of x b y] R \<open>b \<in> R\<close> by linarith
        ultimately show ?thesis using above_tie [of b y z] R assms(4) tie by simp
      qed
      then have "cmp z y = 0 \<Longrightarrow> filter (\<lambda>y. cmp z y = 0) (x # xs) = []" by (auto simp: filter_empty_conv)
      then show ?thesis using False Cons by (auto split: if_splits)
    qed
  qed simp
qed simp

lemma merge_stable:
  assumes "set xs \<subseteq> R" "set us \<subseteq> R" "stable_of cmp R xs ys" "stable_of cmp R us vs"
  shows "stable_of cmp R (xs @ us) (merge_lists cmp ys vs)"
  using assms merge_sorted [of ys vs] merge_ties [of ys vs] stable_set [OF assms(3)] stable_set [OF assms(4)]
  unfolding stable_of_def by simp

lemma insert_stable:
  assumes "set xs \<subseteq> R" "x \<in> R" "stable_of cmp R xs (A @ B)" "\<And>b. b \<in> set B \<Longrightarrow> cmp b x > 0" "A \<noteq> [] \<Longrightarrow> cmp (last A) x \<le> 0"
  shows "stable_of cmp R (xs @ [x]) (A @ x # B)"
proof -
  have R: "set A \<subseteq> R" "set B \<subseteq> R" using stable_set [OF assms(3)] assms(1) by auto
  have S: "sorted_wrt (\<lambda>a b. cmp a b \<le> 0) (A @ B)" using assms(3) by (simp add: stable_of_def)
  have "cmp a x \<le> 0" if a: "a \<in> set A" for a
  proof (cases "a = last A")
    case True
    moreover have "A \<noteq> []" using a by auto
    ultimately show ?thesis using assms(5) by simp
  next
    case False
    have A: "A = butlast A @ [last A]" using a by (intro append_butlast_last_id [symmetric]) auto
    then have "a \<in> set (butlast A)" using a False by (metis Un_iff empty_iff empty_set insert_iff list.simps(15) set_append)
    moreover have "sorted_wrt (\<lambda>a b. cmp a b \<le> 0) (butlast A @ [last A])" using S unfolding A [symmetric] by (simp add: sorted_wrt_append)
    ultimately have "cmp a (last A) \<le> 0" by (simp add: sorted_wrt_append)
    moreover have "A \<noteq> []" using a by auto
    ultimately show ?thesis using cmp_trans [of a "last A" x] a R assms(2,5) last_in_set [of A] by blast
  qed
  moreover have "cmp x b \<le> 0" if "b \<in> set B" for b
  proof -
    have "b \<in> R" using that R by auto
    then show ?thesis using assms(4) [OF that] flip [of x b] assms(2) by linarith
  qed
  ultimately have "sorted_wrt (\<lambda>a b. cmp a b \<le> 0) (A @ x # B)" using S by (auto simp: sorted_wrt_append)
  moreover have "filter (\<lambda>y. cmp z y = 0) (A @ x # B) = filter (\<lambda>y. cmp z y = 0) (xs @ [x])" if z: "z \<in> R" for z
  proof -
    have "filter (\<lambda>y. cmp z y = 0) B = []" if "cmp z x = 0"
      using above_tie [of _ x z] assms(2,4) z that R by (auto simp: filter_empty_conv)
    moreover have "filter (\<lambda>y. cmp z y = 0) A @ filter (\<lambda>y. cmp z y = 0) B = filter (\<lambda>y. cmp z y = 0) xs"
      using assms(3) z by (auto simp: stable_of_def simp flip: filter_append)
    ultimately show ?thesis by auto
  qed
  ultimately show ?thesis using assms(3) by (auto simp: stable_of_def)
qed

lemma insertion_step:
  assumes "i < length arr" "set (take i xs) \<subseteq> R" "xs ! i \<in> R" "i < length xs" "stable_of cmp R (take i xs) (take i arr)" "arr ! i = xs ! i"
  shows "stable_of cmp R (take (Suc i) xs) (take (Suc i) (insert_at cmp i arr))" "length (insert_at cmp i arr) = length arr"
    "drop (Suc i) (insert_at cmp i arr) = drop (Suc i) arr"
proof -
  obtain m where m: "m \<le> i" "insert_at cmp i arr = take m arr @ arr ! i # drop m (take i arr) @ drop (Suc i) arr"
      "\<And>p. m \<le> p \<Longrightarrow> p < i \<Longrightarrow> cmp (arr ! p) (arr ! i) > 0" "m > 0 \<Longrightarrow> cmp (arr ! (m - 1)) (arr ! i) \<le> 0"
    using insert_at_splits [OF assms(1)] by metis
  have len: "length (take m arr @ arr ! i # drop m (take i arr)) = Suc i" using m(1) assms(1) by simp
  have eq: "insert_at cmp i arr = (take m arr @ arr ! i # drop m (take i arr)) @ drop (Suc i) arr" using m(2) by simp
  have parts: "take (Suc i) (insert_at cmp i arr) = take m arr @ arr ! i # drop m (take i arr)"
    "drop (Suc i) (insert_at cmp i arr) = drop (Suc i) arr" using eq len by (metis append_eq_conv_conj)+
  show "drop (Suc i) (insert_at cmp i arr) = drop (Suc i) arr" by (rule parts)
  show "length (insert_at cmp i arr) = length arr" unfolding eq using len assms(1) by simp
  have "take i arr = take m arr @ drop m (take i arr)" using m(1) by (metis append_take_drop_id min.absorb1 take_take)
  then have "stable_of cmp R (take i xs @ [xs ! i]) (take m arr @ xs ! i # drop m (take i arr))"
  proof (intro insert_stable)
    show "cmp b (xs ! i) > 0" if b: "b \<in> set (drop m (take i arr))" for b
    proof -
      obtain q where "q < length (drop m (take i arr))" "b = drop m (take i arr) ! q" using b unfolding in_set_conv_nth by blast
      then have "q < i - m" "b = arr ! (m + q)" using m(1) assms(1) by simp_all
      then show ?thesis using m(3) [of "m + q"] assms(6) by simp
    qed
    show "cmp (last (take m arr)) (xs ! i) \<le> 0" if "take m arr \<noteq> []"
      using that m(1,4) assms(1,6) by (simp add: last_conv_nth)
  qed (use assms in simp_all)
  then show "stable_of cmp R (take (Suc i) xs) (take (Suc i) (insert_at cmp i arr))"
    unfolding parts using assms(4,6) by (simp add: take_Suc_conv_app_nth)
qed

lemma insertion_stable:
  assumes "set xs \<subseteq> R"
  shows "stable_of cmp R xs (sort_insertion cmp xs)"
proof (cases "xs = []")
  case True
  then show ?thesis by (simp add: stable_of_def sort_insertion_def)
next
  case False
  have "length (fold (insert_at cmp) [1..<i] xs) = length xs \<and> drop i (fold (insert_at cmp) [1..<i] xs) = drop i xs \<and>
      stable_of cmp R (take i xs) (take i (fold (insert_at cmp) [1..<i] xs))" if "1 \<le> i" "i \<le> length xs" for i
    using that
  proof (induction i rule: nat_induct_at_least)
    case base
    then show ?case using False by (cases xs) (simp_all add: stable_of_def)
  next
    case (Suc i)
    let ?arr = "fold (insert_at cmp) [1..<i] xs"
    have IH: "length ?arr = length xs" "drop i ?arr = drop i xs" "stable_of cmp R (take i xs) (take i ?arr)" using Suc by simp_all
    have i: "i < length xs" using Suc by simp
    have at: "?arr ! i = xs ! i" using IH(1,2) i by (metis hd_drop_conv_nth)
    have sub: "set (take i xs) \<subseteq> R" "xs ! i \<in> R" using assms i by (auto dest: in_set_takeD)
    note step = insertion_step [of i ?arr xs, unfolded IH(1), OF i sub i IH(3) at]
    have "drop (Suc i) ?arr = drop (Suc i) xs" using IH(2) by (metis drop_Suc tl_drop)
    then show ?case using Suc step IH(1) by simp
  qed
  from this [of "length xs"] show ?thesis using False by (auto simp: sort_insertion_def Suc_leI)
qed

lemma recursive_stable:
  assumes "set xs \<subseteq> R" "length tmp = length xs"
  shows "stable_of cmp R xs (fst (sort_merge_recursive cmp xs tmp)) \<and> length (snd (sort_merge_recursive cmp xs tmp)) = length xs"
  using assms
proof (induction "length xs" arbitrary: xs tmp rule: less_induct)
  case less
  show ?case
  proof (cases "length xs \<le> 64")
    case True
    then show ?thesis using insertion_stable less.prems by (simp add: sort_merge_recursive.simps [of cmp xs])
  next
    case False
    let ?mid = "length xs div 2"
    have mid: "?mid < length xs" "length (drop ?mid xs) < length xs" using False by auto
    obtain a1 t1 a2 t2 where r: "sort_merge_recursive cmp (take ?mid xs) (take ?mid tmp) = (a1, t1)"
        "sort_merge_recursive cmp (drop ?mid xs) (drop ?mid tmp) = (a2, t2)" by fastforce
    have sub: "set (take ?mid xs) \<subseteq> R" "set (drop ?mid xs) \<subseteq> R" using less.prems(1) by (auto dest: in_set_takeD in_set_dropD)
    have h1: "stable_of cmp R (take ?mid xs) a1" "length t1 = ?mid" using less.hyps [of "take ?mid xs" "take ?mid tmp"] mid sub less.prems(2) r(1) by auto
    have h2: "stable_of cmp R (drop ?mid xs) a2" "length t2 = length xs - ?mid"
      using less.hyps [of "drop ?mid xs" "drop ?mid tmp"] mid sub less.prems(2) r(2) by auto
    have len: "length a1 = ?mid" "length a2 = length xs - ?mid" using stable_length [OF h1(1)] stable_length [OF h2(1)] mid(1) by simp_all
    have "merge_runs cmp (a1 @ a2) 0 ?mid (length xs) (t1 @ t2) = merge_lists cmp a1 a2"
      unfolding merge_runs_def using mid(1) len h1(2) h2(2) by (subst merge_loop_writes) simp_all
    then have "sort_merge_recursive cmp xs tmp = (merge_lists cmp a1 a2, merge_lists cmp a1 a2)"
      using False len mid(1) r by (subst sort_merge_recursive.simps) (simp add: Let_def)
    moreover have "stable_of cmp R xs (merge_lists cmp a1 a2)" using merge_stable [OF sub h1(1) h2(1)] by simp
    ultimately show ?thesis using len mid(1) by simp
  qed
qed

end

section \<open>Tasks in any order\<close>

text \<open>
  Tasks that each fill a stretch of an array of their own, in any order. What a task finds in its stretch is what was
  there at the start.
\<close>

abbreviation run_at :: "nat \<Rightarrow> nat \<Rightarrow> 'a list \<Rightarrow> 'a list" where
  "run_at sz c xs \<equiv> take sz (drop (c * sz) xs)"

lemma chunk_nth: "j < sz \<Longrightarrow> c * sz + j < length xs \<Longrightarrow> run_at sz c xs ! j = xs ! (c * sz + j)"
  by (simp add: nth_append)

lemma chunk_length: "length (run_at sz c xs) = min sz (length xs - c * sz)"
  by simp

lemma chunk_double: "run_at (2 * sz) c xs = run_at sz (2 * c) xs @ run_at sz (2 * c + 1) xs"
proof -
  have at: "2 * c * sz = c * (2 * sz)" "(2 * c + 1) * sz = sz + c * (2 * sz)" "2 * sz = sz + sz" by simp_all
  show ?thesis unfolding at(1,2) using take_add [of sz sz "drop (c * (2 * sz)) xs"] by (simp only: at(3) drop_drop)
qed

lemma chunks_eqI:
  assumes "length xs = length ys" "0 < sz" "\<And>c. run_at sz c xs = run_at sz c ys"
  shows "xs = ys"
proof (rule nth_equalityI)
  fix p assume "p < length xs"
  then show "xs ! p = ys ! p"
    using chunk_nth [of "p mod sz" sz "p div sz" xs] chunk_nth [of "p mod sz" sz "p div sz" ys] assms by simp
qed (rule assms(1))

lemma fill_chunk:
  assumes "length S = length (run_at sz b d)"
  shows "length (take (b * sz) d @ S @ drop (b * sz + sz) d) = length d"
    "run_at sz c (take (b * sz) d @ S @ drop (b * sz + sz) d) = (if c = b then S else run_at sz c d)"
proof -
  let ?d = "take (b * sz) d @ S @ drop (b * sz + sz) d"
  show len: "length ?d = length d" using assms by simp
  show "run_at sz c ?d = (if c = b then S else run_at sz c d)"
  proof (rule nth_equalityI)
    show l: "length (run_at sz c ?d) = length (if c = b then S else run_at sz c d)"
      using assms len unfolding chunk_length by (auto simp: min.commute)
    fix j assume j: "j < length (run_at sz c ?d)"
    then have j': "j < sz" "c * sz + j < length d" unfolding chunk_length len by linarith+
    have d: "run_at sz c ?d ! j = ?d ! (c * sz + j)" using j' len by (intro chunk_nth) simp_all
    show "run_at sz c ?d ! j = (if c = b then S else run_at sz c d) ! j"
    proof (cases "c = b")
      case True
      then show ?thesis using j l unfolding d by (auto simp: nth_append)
    next
      case False
      then consider "c < b" | "b < c" by linarith
      then have "?d ! (c * sz + j) = d ! (c * sz + j)"
      proof cases
        case 1
        then have "Suc c * sz \<le> b * sz" by (intro mult_le_mono1) simp
        then have "c * sz + j < b * sz" using j'(1) by simp
        then show ?thesis using j'(2) by (simp add: nth_append)
      next
        case 2
        then have "Suc b * sz \<le> c * sz" by (intro mult_le_mono1) simp
        then have past: "b * sz + sz \<le> c * sz" by simp
        then have "length S = sz" using assms j'(2) by simp
        moreover obtain q where "c * sz + j = b * sz + sz + q" using past le_Suc_ex [of "b * sz + sz" "c * sz + j"] by auto
        ultimately show ?thesis using j'(2) by (simp add: nth_append)
      qed
      then show ?thesis using False chunk_nth [of j sz c d] j' d by simp
    qed
  qed
qed

lemma tasks_fill:
  fixes out :: "'s \<Rightarrow> 'a list"
  assumes step: "\<And>b s. I s \<Longrightarrow> run_at sz b (out s) = run_at sz b (out s0) \<Longrightarrow> I (step b s) \<and>
      (\<exists>S. P b S \<and> length S = length (run_at sz b (out s)) \<and> out (step b s) = take (b * sz) (out s) @ S @ drop (b * sz + sz) (out s))"
    and start: "I s0" and "distinct order"
  shows "I (fold step order s0) \<and> length (out (fold step order s0)) = length (out s0) \<and>
    (\<forall>c. if c \<in> set order then P c (run_at sz c (out (fold step order s0))) else run_at sz c (out (fold step order s0)) = run_at sz c (out s0))"
  using assms(3)
proof (induction order rule: rev_induct)
  case (snoc b order)
  let ?s = "fold step order s0"
  have IH: "I ?s" "length (out ?s) = length (out s0)" "b \<notin> set order"
      "\<And>c. if c \<in> set order then P c (run_at sz c (out ?s)) else run_at sz c (out ?s) = run_at sz c (out s0)"
    using snoc by auto
  obtain S where S: "I (step b ?s)" "P b S" "length S = length (run_at sz b (out ?s))"
      "out (step b ?s) = take (b * sz) (out ?s) @ S @ drop (b * sz + sz) (out ?s)"
    using step [OF IH(1)] IH(3) IH(4) [of b] by auto
  have C: "run_at sz c (out (step b ?s)) = (if c = b then S else run_at sz c (out ?s))" for c
    unfolding S(4) by (rule fill_chunk(2) [OF S(3)])
  have "fold step (order @ [b]) s0 = step b ?s" by simp
  moreover have "length (out (step b ?s)) = length (out s0)" unfolding S(4) fill_chunk(1) [OF S(3)] by (rule IH(2))
  moreover have "if c \<in> set (order @ [b]) then P c (run_at sz c (out (step b ?s))) else run_at sz c (out (step b ?s)) = run_at sz c (out s0)" for c
    using IH(3) IH(4) [of c] S(2) unfolding C by (cases "c = b") simp_all
  ultimately show ?case using S(1) by metis
qed (use start in simp)

text \<open>The calls of a dispatch over \<open>m\<close> tasks.\<close>

definition call_order :: "(nat \<times> nat) list \<Rightarrow> nat list" where
  "call_order cs = concat (map (\<lambda>(start, stop). [start..<stop]) cs)"

definition calls_cover :: "(nat \<times> nat) list \<Rightarrow> nat \<Rightarrow> bool" where
  "calls_cover cs m \<longleftrightarrow> mset (call_order cs) = mset [0..<m]"

lemma fold_ranges: "fold (\<lambda>(start, stop). fold f [start..<stop]) cs s = fold f (call_order cs) s"
  unfolding call_order_def by (induction cs arbitrary: s) auto

lemma cover_order:
  assumes "calls_cover cs m"
  shows "distinct (call_order cs)" "set (call_order cs) = {..<m}"
proof -
  note e = assms [unfolded calls_cover_def]
  show "distinct (call_order cs)" using mset_eq_imp_distinct_iff [OF e] by simp
  show "set (call_order cs) = {..<m}" using mset_eq_setD [OF e] by (simp only: set_upt atLeast0LessThan)
qed

lemma chunks_cover: "0 < (m :: nat) \<Longrightarrow> m \<le> c \<Longrightarrow> n \<le> c * ((n + m - 1) div m)"
proof -
  assume m: "0 < m" "m \<le> c"
  have "n + m - 1 < ((n + m - 1) div m + 1) * m" using dividend_less_div_times [OF m(1), of "n + m - 1"] by (simp add: algebra_simps)
  then have "n \<le> m * ((n + m - 1) div m)" using m(1) by (simp add: algebra_simps)
  also have "\<dots> \<le> c * ((n + m - 1) div m)" using m(2) by simp
  finally show ?thesis .
qed

text \<open>The runs of the array are stable sorts of the runs of the input.\<close>

definition runs_ok :: "('a \<Rightarrow> 'a \<Rightarrow> int) \<Rightarrow> 'a set \<Rightarrow> nat \<Rightarrow> 'a list \<Rightarrow> 'a list \<Rightarrow> bool" where
  "runs_ok cmp R sz xs arr \<longleftrightarrow> length arr = length xs \<and> (\<forall>c. stable_of cmp R (run_at sz c xs) (run_at sz c arr))"

lemma pair_writes:
  assumes "length src = n" "length dst = n" "0 < run_size"
  shows "merge_pair cmp src n run_size c dst =
    take (c * (2 * run_size)) dst @ merge_lists cmp (run_at run_size (2 * c) src) (run_at run_size (2 * c + 1) src) @ drop (c * (2 * run_size) + 2 * run_size) dst"
proof -
  let ?lo = "c * (2 * run_size)"
  have at: "c * 2 * run_size = ?lo" "2 * c * run_size = ?lo" "(2 * c + 1) * run_size = ?lo + run_size" by simp_all
  consider "n \<le> ?lo" | "?lo < n" "n \<le> ?lo + run_size" | "?lo + run_size < n" by linarith
  then show ?thesis
  proof cases
    case 1
    then show ?thesis using assms unfolding merge_pair_def at Let_def by simp
  next
    case 2
    then show ?thesis using assms unfolding merge_pair_def at Let_def by (simp add: min_def)
  next
    case 3
    let ?hi = "min (?lo + run_size + run_size) n"
    have hi: "?lo + run_size < ?hi" "?hi \<le> n" using 3 assms(3) by auto
    have runs: "drop ?lo (take (?lo + run_size) src) = run_at run_size (2 * c) src" "drop (?lo + run_size) (take ?hi src) = run_at run_size (2 * c + 1) src"
      unfolding at using hi assms(1) 3 by (auto simp: drop_take min_def)
    have "merge_pair cmp src n run_size c dst = merge_loop cmp src (?lo + run_size) ?hi ?lo (?lo + run_size) ?lo dst"
    proof -
      have c: "\<not> n \<le> ?lo" "\<not> ?hi \<le> ?lo + run_size" "min (?lo + run_size) n = ?lo + run_size" using 3 hi(1) by linarith+
      show ?thesis unfolding merge_pair_def merge_runs_def at Let_def by (simp only: c if_False)
    qed
    also have "\<dots> = take ?lo dst @ merge_lists cmp (drop ?lo (take (?lo + run_size) src)) (drop (?lo + run_size) (take ?hi src)) @
        drop (?lo + (?lo + run_size - ?lo) + (?hi - (?lo + run_size))) dst"
      using 3 hi assms by (intro merge_loop_writes) auto
    also have "drop (?lo + (?lo + run_size - ?lo) + (?hi - (?lo + run_size))) dst = drop (?lo + 2 * run_size) dst" using hi assms by (auto simp: min_def add.commute)
    finally show ?thesis unfolding runs .
  qed
qed

text \<open>The calls of every pass cover its pairs.\<close>

definition passes_cover :: "(nat \<Rightarrow> (nat \<times> nat) list) \<Rightarrow> nat \<Rightarrow> bool" where
  "passes_cover calls n \<longleftrightarrow> (\<forall>run_size<n. 0 < run_size \<longrightarrow> calls_cover (calls run_size) ((n + 2 * run_size - 1) div (2 * run_size)))"

context row_order
begin

lemma chunk_inside: "set xs \<subseteq> R \<Longrightarrow> set (run_at sz c xs) \<subseteq> R"
  by (meson in_set_dropD in_set_takeD subset_code(1))

lemma phase1_runs:
  assumes "set xs \<subseteq> R" "length tmp = length xs" "0 < n_chunks" "calls_cover cs n_chunks"
  defines "sz \<equiv> (length xs + n_chunks - 1) div n_chunks"
  shows "runs_ok cmp R sz xs (fst (fold (sort_phase1_fn cmp (length xs) n_chunks) cs (xs, tmp))) \<and>
    length (snd (fold (sort_phase1_fn cmp (length xs) n_chunks) cs (xs, tmp))) = length xs"
proof -
  let ?step = "sort_chunk cmp (length xs) n_chunks" and ?order = "call_order cs"
  let ?s = "fold ?step ?order (xs, tmp)" and ?I = "\<lambda>s. length (fst s) = length xs \<and> length (snd s) = length xs"
  have step: "?I (?step b s) \<and> (\<exists>S. stable_of cmp R (run_at sz b xs) S \<and> length S = length (run_at sz b (fst s)) \<and>
      fst (?step b s) = take (b * sz) (fst s) @ S @ drop (b * sz + sz) (fst s))"
    if I: "?I s" and same: "run_at sz b (fst s) = run_at sz b (fst (xs, tmp))" for b s
  proof (cases "b * sz < min (b * sz + sz) (length xs)")
    case False
    then have "?step b s = s" "run_at sz b xs = []" "drop (b * sz + sz) (fst s) = drop (b * sz) (fst s)"
      using I by (auto simp: sort_chunk_def Let_def sz_def split: prod.splits)
    then show ?thesis using I same by (intro conjI exI [of _ "[]"]) (auto simp: stable_of_def)
  next
    case True
    let ?hi = "min (b * sz + sz) (length xs)"
    obtain a t where r: "sort_merge_recursive cmp (run_at sz b xs) (run_at sz b (snd s)) = (a, t)" by fastforce
    have cut: "take (?hi - b * sz) (drop (b * sz) d) = run_at sz b d" "drop ?hi d = drop (b * sz + sz) d" if "length d = length xs" for d :: "'a list"
      using that by (auto simp: min_def)
    have st: "?step b s = (take (b * sz) (fst s) @ a @ drop (b * sz + sz) (fst s), take (b * sz) (snd s) @ t @ drop (b * sz + sz) (snd s))"
      using True I same r cut [of "fst s"] cut [of "snd s"] unfolding sort_chunk_def sz_def [symmetric] Let_def by (auto simp: case_prod_beta)
    have rec: "stable_of cmp R (run_at sz b xs) a" "length t = length (run_at sz b xs)"
      using recursive_stable [OF chunk_inside [OF assms(1)], of "run_at sz b (snd s)" sz b] I r by auto
    have len: "length a = length (run_at sz b (fst s))" "length t = length (run_at sz b (snd s))" using stable_length [OF rec(1)] rec(2) I by simp_all
    show ?thesis using st rec(1) len fill_chunk(1) [OF len(1)] fill_chunk(1) [OF len(2)] I by auto
  qed
  note fill = tasks_fill [of ?I sz fst "(xs, tmp)" ?step "\<lambda>b S. stable_of cmp R (run_at sz b xs) S" ?order, OF step _ cover_order(1) [OF assms(4)]]
  have "?I ?s \<and> (\<forall>c. if c < n_chunks then stable_of cmp R (run_at sz c xs) (run_at sz c (fst ?s)) else run_at sz c (fst ?s) = run_at sz c xs)"
    using fill [unfolded cover_order(2) [OF assms(4)]] assms(2) by simp
  moreover have none: "run_at sz c xs = []" if "\<not> c < n_chunks" for c using chunks_cover [OF assms(3), of c "length xs"] that by (simp add: sz_def)
  then have "stable_of cmp R (run_at sz c xs) (run_at sz c xs)" if "\<not> c < n_chunks" for c unfolding none [OF that] by (simp add: stable_of_def)
  ultimately have "runs_ok cmp R sz xs (fst ?s) \<and> length (snd ?s) = length xs" unfolding runs_ok_def by metis
  moreover have "fold (sort_phase1_fn cmp (length xs) n_chunks) cs (xs, tmp) = ?s"
    unfolding fold_ranges [symmetric] by (rule fold_cong) (auto simp: sort_phase1_fn_def)
  ultimately show ?thesis by simp
qed

lemma pass_runs:
  assumes "set xs \<subseteq> R" "runs_ok cmp R run_size xs src" "length dst = length xs" "0 < run_size"
    and "calls_cover cs ((length xs + 2 * run_size - 1) div (2 * run_size))"
  shows "runs_ok cmp R (run_size * 2) xs (fold (sort_merge_fn cmp src (length xs) run_size) cs dst)"
proof -
  let ?n = "length xs" and ?sz = "2 * run_size" and ?order = "call_order cs"
  let ?step = "merge_pair cmp src (length xs) run_size" and ?M = "\<lambda>b. merge_lists cmp (run_at run_size (2 * b) src) (run_at run_size (2 * b + 1) src)"
  have src: "length src = ?n" using assms(2) by (simp add: runs_ok_def)
  have len: "length (?M b) = length (run_at ?sz b src)" for b unfolding chunk_double by simp
  have step: "length (?step b d) = ?n \<and> (\<exists>S. S = ?M b \<and> length S = length (run_at ?sz b d) \<and> ?step b d = take (b * ?sz) d @ S @ drop (b * ?sz + ?sz) d)"
    if I: "length d = ?n" and "run_at ?sz b d = run_at ?sz b dst" for b d
  proof -
    have "length (?M b) = length (run_at ?sz b d)" using len [of b] I src by simp
    then show ?thesis unfolding pair_writes [OF src I assms(4), of cmp b] using fill_chunk(1) [of "?M b" ?sz b d] I by metis
  qed
  note fill = tasks_fill [of "\<lambda>d. length d = ?n" ?sz "\<lambda>d. d" dst ?step "\<lambda>b S. S = ?M b" ?order, OF step assms(3) cover_order(1) [OF assms(5)]]
  let ?d = "fold ?step ?order dst"
  have d: "length ?d = ?n" "\<And>c. c < (?n + ?sz - 1) div ?sz \<Longrightarrow> run_at ?sz c ?d = ?M c"
    using fill [unfolded cover_order(2) [OF assms(5)]] by simp_all
  have "stable_of cmp R (run_at ?sz c xs) (run_at ?sz c ?d)" for c
  proof (cases "c < (?n + ?sz - 1) div ?sz")
    case True
    have "stable_of cmp R (run_at run_size (2 * c) xs @ run_at run_size (2 * c + 1) xs) (?M c)"
      using assms(2) unfolding runs_ok_def by (intro merge_stable chunk_inside assms(1)) blast+
    then show ?thesis unfolding d(2) [OF True] chunk_double [of _ _ xs] .
  next
    case False
    have "?n \<le> (?n + ?sz - 1) div ?sz * ?sz" using chunks_cover [of ?sz ?sz ?n] assms(4) by (simp add: mult.commute)
    also have "\<dots> \<le> c * ?sz" using False by (intro mult_le_mono1) simp
    finally show ?thesis using d(1) by (simp add: stable_of_def)
  qed
  then have "runs_ok cmp R (run_size * 2) xs ?d" using d(1) by (simp add: runs_ok_def mult.commute)
  moreover have "fold (sort_merge_fn cmp src (length xs) run_size) cs dst = ?d"
    unfolding fold_ranges [symmetric] by (rule fold_cong) (auto simp: sort_merge_fn_def)
  ultimately show ?thesis by simp
qed

lemma passes_stable:
  assumes "set xs \<subseteq> R" "runs_ok cmp R run_size xs src" "length dst = length xs" "0 < run_size" "passes_cover calls (length xs)"
  shows "\<exists>ys. merge_passes cmp calls (length xs) run_size src dst = Ret ys \<and> stable_of cmp R xs ys"
  using assms(2-4)
proof (induction "length xs - run_size" arbitrary: run_size src dst rule: less_induct)
  case less
  show ?case
  proof (cases "run_size < length xs")
    case True
    let ?m = "(length xs + 2 * run_size - 1) div (2 * run_size)"
    let ?cs = "if ?m > 1 then calls run_size else [(0, ?m)]"
    have "calls_cover ?cs ?m" using assms(5) True less.prems(3) by (auto simp: passes_cover_def calls_cover_def call_order_def)
    then have "runs_ok cmp R (run_size * 2) xs (fold (sort_merge_fn cmp src (length xs) run_size) ?cs dst)"
      using pass_runs [OF assms(1) less.prems] by blast
    moreover have "length src = length xs" using less.prems(1) by (simp add: runs_ok_def)
    moreover have "length xs - run_size * 2 < length xs - run_size" "0 < run_size * 2" using True less.prems(3) by simp_all
    ultimately obtain ys where ys: "merge_passes cmp calls (length xs) (run_size * 2) (fold (sort_merge_fn cmp src (length xs) run_size) ?cs dst) src = Ret ys"
        "stable_of cmp R xs ys"
      using less.hyps [of "run_size * 2"] by blast
    have "merge_passes cmp calls (length xs) run_size src dst =
        merge_passes cmp calls (length xs) (run_size * 2) (fold (sort_merge_fn cmp src (length xs) run_size) ?cs dst) src"
      using True less.prems(3) by (subst merge_passes.simps) (simp add: Let_def)
    then show ?thesis using ys by simp
  next
    case False
    then have "run_at run_size 0 ys = ys" if "length ys = length xs" for ys :: "'a list" using that by simp
    then have "stable_of cmp R xs src" using less.prems(1) unfolding runs_ok_def by metis
    then show ?thesis using False by (subst merge_passes.simps) simp
  qed
qed

end

section \<open>The order of the rows\<close>

text \<open>The specification: all rows once, by the comparator, equal ones by row number. There is one such list.\<close>

definition rows_in_order :: "(nat \<Rightarrow> nat \<Rightarrow> int) \<Rightarrow> nat \<Rightarrow> nat list \<Rightarrow> bool" where
  "rows_in_order cmp n ys \<longleftrightarrow> mset ys = mset [0..<n] \<and> sorted_wrt (\<lambda>a b. cmp a b < 0 \<or> cmp a b = 0 \<and> a < b) ys"

lemma sorted_wrt_unique:
  assumes "mset xs = mset ys" "sorted_wrt P xs" "sorted_wrt P ys" "\<And>a b. a \<in> set xs \<Longrightarrow> b \<in> set xs \<Longrightarrow> P a b \<Longrightarrow> \<not> P b a"
  shows "xs = ys"
  using assms
proof (induction xs arbitrary: ys)
  case (Cons x xs)
  obtain y ys' where ys: "ys = y # ys'" using Cons.prems(1) by (cases ys) simp_all
  have sets: "set (x # xs) = set (y # ys')" using mset_eq_setD [OF Cons.prems(1)] ys by simp
  have "x = y"
  proof (rule ccontr)
    assume "x \<noteq> y"
    then have in_tails: "y \<in> set xs" "x \<in> set ys'" using sets by auto
    then have "P x y" "P y x" using Cons.prems(2,3) ys by simp_all
    then show False using Cons.prems(4) [of x y] in_tails(1) by simp
  qed
  moreover from this have "mset xs = mset ys'" using Cons.prems(1) ys by simp
  then have "xs = ys'" using Cons.prems(2-4) ys by (intro Cons.IH) simp_all
  ultimately show ?case using ys by simp
qed simp

lemma rows_unique:
  assumes "row_order cmp R" "{..<n} \<subseteq> R" "rows_in_order cmp n xs" "rows_in_order cmp n ys"
  shows "xs = ys"
proof (rule sorted_wrt_unique)
  let ?P = "\<lambda>a b. cmp a b < 0 \<or> cmp a b = 0 \<and> a < b"
  show "mset xs = mset ys" "sorted_wrt ?P xs" "sorted_wrt ?P ys" using assms(3,4) by (simp_all add: rows_in_order_def)
  have "set xs = {..<n}" using assms(3) mset_eq_setD [of xs "[0..<n]"] by (simp add: rows_in_order_def atLeast0LessThan)
  then have "a \<in> R" if "a \<in> set xs" for a using that assms(2) by auto
  then show "\<not> ?P b a" if "a \<in> set xs" "b \<in> set xs" "?P a b" for a b
    using that row_order.flip [OF assms(1), of a b] row_order.flip [OF assms(1), of b a] by auto
qed

lemma sorted_filtered: "sorted_wrt (<) (filter P ys) \<longleftrightarrow> sorted_wrt (\<lambda>a b. P a \<and> P b \<longrightarrow> a < b) ys"
  by (induction ys) auto

lemma stable_rows:
  assumes "row_order cmp R" "{..<n} \<subseteq> R" "stable_of cmp R [0..<n] ys"
  shows "rows_in_order cmp n ys"
proof -
  have "cmp (ys ! p) (ys ! q) < 0 \<or> cmp (ys ! p) (ys ! q) = 0 \<and> ys ! p < ys ! q" if pq: "p < q" "q < length ys" for p q
  proof -
    have z: "ys ! p \<in> R" using stable_set [OF assms(3)] assms(2) pq nth_mem [of p ys] by auto
    have "sorted_wrt (<) (filter (\<lambda>y. cmp (ys ! p) y = 0) [0..<n])" by (intro sorted_wrt_filter) (simp add: sorted_wrt_upt)
    then have "sorted_wrt (\<lambda>a b. cmp (ys ! p) a = 0 \<and> cmp (ys ! p) b = 0 \<longrightarrow> a < b) ys"
      using assms(3) z by (simp add: stable_of_def flip: sorted_filtered)
    then have "cmp (ys ! p) (ys ! q) = 0 \<Longrightarrow> ys ! p < ys ! q"
      using sorted_wrt_nth_less [OF _ pq] row_order.cmp_self [OF assms(1) z] by fastforce
    moreover have "cmp (ys ! p) (ys ! q) \<le> 0" using assms(3) sorted_wrt_nth_less [OF _ pq] by (fastforce simp: stable_of_def)
    ultimately show ?thesis by auto
  qed
  then show ?thesis using assms(3) by (simp add: rows_in_order_def stable_of_def sorted_wrt_iff_nth_less)
qed

text \<open>What the memory and the pool owe the sort.\<close>

definition merge_env_ok :: "merge_env \<Rightarrow> nat \<Rightarrow> bool" where
  "merge_env_ok env n \<longleftrightarrow> (\<exists>tmp. m_tmp env = Some tmp \<and> length tmp = n) \<and> passes_cover (m_pass env) n \<and>
    (\<forall>w. m_workers env = Some w \<longrightarrow> calls_cover (m_phase1 env) w)"

lemma merge_sort_stable_rows:
  assumes "row_order cmp R" "{..<n} \<subseteq> R" "merge_env_ok env n"
  shows "\<exists>ys. merge_sort cmp env n = Ret ys \<and> rows_in_order cmp n ys"
proof -
  obtain tmp where tmp: "m_tmp env = Some tmp" "length tmp = n" using assms(3) by (auto simp: merge_env_ok_def)
  have rows: "set [0..<n] \<subseteq> R" using assms(2) by (simp add: atLeast0LessThan)
  note ins = stable_rows [OF assms(1,2) row_order.insertion_stable [OF assms(1) rows]]
  have rec: "rows_in_order cmp n (fst (sort_merge_recursive cmp [0..<n] tmp))"
    using row_order.recursive_stable [OF assms(1) rows, of tmp] tmp(2) by (intro stable_rows [OF assms(1,2)]) simp
  show ?thesis
  proof (cases "n > 64 \<and> n > 1024 \<and> (\<exists>w. m_workers env = Some w \<and> w > 1)")
    case False
    then show ?thesis using ins rec tmp(1) by (auto simp: merge_sort_def Let_def split: option.splits)
  next
    case True
    then obtain w where w: "m_workers env = Some w" "w > 1" "n > 1024" by auto
    let ?sz = "(n + w - 1) div w" and ?s = "fold (sort_phase1_fn cmp n w) (m_phase1 env) ([0..<n], tmp)"
    have runs: "runs_ok cmp R ?sz [0..<n] (fst ?s)" "length (snd ?s) = n"
      using row_order.phase1_runs [OF assms(1) rows, of tmp w "m_phase1 env"] tmp(2) w assms(3) by (simp_all add: merge_env_ok_def)
    have "0 < ?sz" using w by (simp add: div_greater_zero_iff)
    then obtain ys where "merge_passes cmp (m_pass env) n ?sz (fst ?s) (snd ?s) = Ret ys" "stable_of cmp R [0..<n] ys"
      using row_order.passes_stable [OF assms(1) rows runs(1), of "snd ?s" "m_pass env"] runs(2) assms(3) by (auto simp: merge_env_ok_def)
    then show ?thesis using w tmp(1) stable_rows [OF assms(1,2)] by (auto simp: merge_sort_def Let_def case_prod_beta)
  qed
qed

text \<open>Without memory for \<open>tmp\<close> only the short columns are sorted.\<close>

lemma merge_sort_oom: "m_tmp env = None \<Longrightarrow> 64 < n \<Longrightarrow> merge_sort cmp env n = Oom"
  by (simp add: merge_sort_def)

lemma passes_one_call: "passes_cover (\<lambda>w. [(0, (n + 2 * w - 1) div (2 * w))]) n"
  by (simp add: passes_cover_def calls_cover_def call_order_def)

text \<open>Four workers that take two tasks each.\<close>

definition sample_merge_env :: "nat \<Rightarrow> merge_env" where
  "sample_merge_env n = \<lparr>m_workers = Some 4, m_tmp = Some (replicate n 0), m_phase1 = [(2, 4), (0, 2)],
    m_pass = (\<lambda>run_size. [(0, (n + 2 * run_size - 1) div (2 * run_size))])\<rparr>"

lemma sample_merge_env_ok: "merge_env_ok (sample_merge_env n) n"
proof -
  have "mset (call_order [(2, 4), (0, 2)]) = mset [0..<4]" by (simp add: call_order_def upt_rec eval_nat_numeral)
  then show ?thesis using passes_one_call by (simp add: merge_env_ok_def sample_merge_env_def calls_cover_def)
qed

end
