(* ===== verification/SortCmp.thy ===== *)
theory SortCmp
  imports MergeSort WireValue Pool "HOL-Library.List_Lexorder"
begin

text \<open>
  The comparator of the sort, \<open>sort_cmp\<close> of \<^verbatim>\<open>src/ops/sort.c\<close>, with the null test of \<^verbatim>\<open>src/vec/vec.c\<close> and the string
  comparisons of \<^verbatim>\<open>src/vec/str.h\<close> and \<^verbatim>\<open>src/vec/str.c\<close>. A column is its payload, by the storage the comparator reads
  (\<open>F64s\<close> for doubles and datetimes, \<open>I64s\<close> for longs, timestamps and timespans, \<open>I32s\<close> for ints and the 32-bit temporal
  types, \<open>Byte1s\<close> for booleans, bytes and chars), and the flag \<open>RAY_ATTR_HAS_NULLS\<close>. Floats are their bits. A slice is the
  column it denotes.

  Shown: the string comparisons are the lexicographic order; the comparator obeys the laws of \<open>row_order\<close> on the
  rows whose cells it can compare; so the comparison sort of a table returns the one stable order of its rows.
\<close>

section \<open>Strings\<close>

fun memcmp :: "bytes \<Rightarrow> bytes \<Rightarrow> nat \<Rightarrow> int" where
  "memcmp (x # xs) (y # ys) (Suc n) = (if x \<noteq> y then uint x - uint y else memcmp xs ys n)"
| "memcmp _ _ _ = 0"

definition ray_str_cmp :: "bytes \<Rightarrow> bytes \<Rightarrow> int" where
  "ray_str_cmp a b =
    (let alen = length a; blen = length b;
         d = (if 0 < alen \<and> 0 < blen then uint (a ! 0) - uint (b ! 0) else 0)
     in if d \<noteq> 0 then d
        else let minlen = min alen blen; cmp = (if minlen > 1 then memcmp (drop 1 a) (drop 1 b) (minlen - 1) else 0)
             in if cmp \<noteq> 0 then cmp else if alen < blen then -1 else if alen > blen then 1 else 0)"

text \<open>An element of a string vector: up to twelve bytes in place, longer ones in the pool.\<close>

record ray_str_t =
  s_len :: nat
  s_data :: bytes
  s_pool_off :: nat

definition ray_str_t_ptr :: "ray_str_t \<Rightarrow> bytes \<Rightarrow> bytes" where
  "ray_str_t_ptr s str_pool = (if s_len s = 0 then [] else if s_len s \<le> 12 then s_data s else drop (s_pool_off s) str_pool)"

definition ray_str_t_cmp :: "ray_str_t \<Rightarrow> bytes \<Rightarrow> ray_str_t \<Rightarrow> bytes \<Rightarrow> int" where
  "ray_str_t_cmp a pool_a b pool_b =
    (let r = memcmp (ray_str_t_ptr a pool_a) (ray_str_t_ptr b pool_b) (min (s_len a) (s_len b))
     in if r \<noteq> 0 then r else of_bool (s_len a > s_len b) - of_bool (s_len a < s_len b))"

text \<open>The bytes of an element, and that they lie inside its storage.\<close>

definition str_bytes :: "ray_str_t \<Rightarrow> bytes \<Rightarrow> bytes" where
  "str_bytes s str_pool = take (s_len s) (ray_str_t_ptr s str_pool)"

definition str_inside :: "ray_str_t \<Rightarrow> bytes \<Rightarrow> bool" where
  "str_inside s str_pool \<longleftrightarrow> s_len s \<le> length (ray_str_t_ptr s str_pool)"

definition cmp_of :: "'a :: linorder \<Rightarrow> 'a \<Rightarrow> int" where
  "cmp_of x y = (if x < y then -1 else if y < x then 1 else 0)"

lemma memcmp_self_len: "n \<le> length xs \<Longrightarrow> n \<le> length ys \<Longrightarrow> sgn (memcmp xs ys n) = cmp_of (take n xs) (take n ys)"
proof (induction xs ys n rule: memcmp.induct)
  case (1 x xs y ys n)
  then show ?case by (cases x y rule: linorder_cases) (auto simp: cmp_of_def sgn_if word_less_def)
qed (auto simp: cmp_of_def)

lemma cmp_of_tail:
  fixes xs ys :: "'a :: linorder list"
  assumes "m = min (length xs) (length ys)"
  shows "cmp_of xs ys = (if cmp_of (take m xs) (take m ys) \<noteq> 0 then cmp_of (take m xs) (take m ys) else cmp_of (length xs) (length ys))"
  unfolding assms
proof (induction xs arbitrary: ys)
  case Nil
  then show ?case by (cases ys) (auto simp: cmp_of_def)
next
  case (Cons x xs)
  show ?case
  proof (cases ys)
    case Nil
    then show ?thesis by (auto simp: cmp_of_def)
  next
    case (Cons y ys')
    then show ?thesis using Cons.IH [of ys'] by (auto simp: cmp_of_def split: if_splits)
  qed
qed

lemma sgn_first: "sgn (if r \<noteq> 0 then r else e) = (if sgn r \<noteq> 0 then sgn r else sgn e)" for r e :: int
  by (simp add: sgn_0_0)

lemma ray_str_t_cmp_lex:
  assumes "str_inside a pool_a" "str_inside b pool_b"
  shows "sgn (ray_str_t_cmp a pool_a b pool_b) = cmp_of (str_bytes a pool_a) (str_bytes b pool_b)"
proof -
  let ?m = "min (s_len a) (s_len b)" and ?pa = "ray_str_t_ptr a pool_a" and ?pb = "ray_str_t_ptr b pool_b"
  have "sgn (memcmp ?pa ?pb ?m) = cmp_of (take ?m (str_bytes a pool_a)) (take ?m (str_bytes b pool_b))"
    using assms memcmp_self_len [of ?m ?pa ?pb] by (simp add: str_inside_def str_bytes_def min.commute)
  moreover have "length (str_bytes a pool_a) = s_len a" "length (str_bytes b pool_b) = s_len b"
    using assms by (simp_all add: str_inside_def str_bytes_def)
  moreover have "sgn (of_bool (s_len a > s_len b) - of_bool (s_len a < s_len b)) = cmp_of (s_len a) (s_len b)" by (simp add: cmp_of_def)
  ultimately show ?thesis unfolding ray_str_t_cmp_def Let_def sgn_first using cmp_of_tail [of ?m "str_bytes a pool_a" "str_bytes b pool_b"] by simp
qed

lemma ray_str_cmp_lex: "sgn (ray_str_cmp a b) = cmp_of a b"
proof (cases "a = [] \<or> b = []")
  case True
  then show ?thesis by (cases a; cases b) (auto simp: ray_str_cmp_def cmp_of_def Let_def)
next
  case False
  then obtain x xs y ys where ab: "a = x # xs" "b = y # ys" by (auto simp: neq_Nil_conv)
  let ?m = "min (length xs) (length ys)"
  have tails: "(if min (length a) (length b) > 1 then memcmp (drop 1 a) (drop 1 b) (min (length a) (length b) - 1) else 0) = memcmp xs ys ?m"
    using ab by (cases "?m = 0") auto
  have "sgn (memcmp xs ys ?m) = cmp_of (take ?m xs) (take ?m ys)" by (rule memcmp_self_len) simp_all
  moreover have "sgn (if length a < length b then -1 else if length a > length b then 1 else 0) = cmp_of (length xs) (length ys)"
    using ab by (simp add: cmp_of_def)
  ultimately have "sgn (ray_str_cmp a b) = (if sgn (uint x - uint y) \<noteq> 0 then sgn (uint x - uint y) else cmp_of xs ys)"
    unfolding ray_str_cmp_def Let_def tails sgn_first using ab cmp_of_tail [of ?m xs ys] by (simp del: sgn_eq_0_iff)
  also have "\<dots> = cmp_of a b"
    using ab by (cases x y rule: linorder_cases) (auto simp: cmp_of_def word_less_def)
  finally show ?thesis .
qed

section \<open>Columns\<close>

text \<open>Symbols are numbers into the table of interned strings.\<close>

datatype payload =
    F64s "u64 list" | F32s "u32 list" | I64s "u64 list" | I32s "u32 list" | I16s "u16 list" | Byte1s "u8 list"
  | Guids bytes | Strs "ray_str_t list" bytes | Syms "bytes list" "int list"

record column =
  c_data :: payload
  c_nulls :: bool

definition ray_sym_str :: "bytes list \<Rightarrow> int \<Rightarrow> bytes option" where
  "ray_sym_str strings sid = (if sid < 0 \<or> int (length strings) \<le> sid then None else Some (strings ! nat sid))"

fun col_len :: "payload \<Rightarrow> nat" where
  "col_len (F64s d) = length d" | "col_len (F32s d) = length d" | "col_len (I64s d) = length d" | "col_len (I32s d) = length d"
| "col_len (I16s d) = length d" | "col_len (Byte1s d) = length d" | "col_len (Guids d) = length d div 16"
| "col_len (Strs d _) = length d" | "col_len (Syms _ d) = length d"

text \<open>The sentinels: a NaN of any bits, the least integer, sixteen zero bytes.\<close>

fun sentinel_is_null :: "payload \<Rightarrow> nat \<Rightarrow> bool" where
  "sentinel_is_null (F64s d) i \<longleftrightarrow> is_nan64 (d ! i)"
| "sentinel_is_null (F32s d) i \<longleftrightarrow> is_nan32 (d ! i)"
| "sentinel_is_null (I64s d) i \<longleftrightarrow> d ! i = push_bit 63 1"
| "sentinel_is_null (I32s d) i \<longleftrightarrow> d ! i = push_bit 31 1"
| "sentinel_is_null (I16s d) i \<longleftrightarrow> d ! i = push_bit 15 1"
| "sentinel_is_null (Guids d) i \<longleftrightarrow> memcmp (drop (i * 16) d) (replicate 16 0) 16 = 0"
| "sentinel_is_null (Strs d _) i \<longleftrightarrow> s_len (d ! i) = 0"
| "sentinel_is_null (Byte1s _) i \<longleftrightarrow> False"
| "sentinel_is_null (Syms _ _) i \<longleftrightarrow> False"

fun no_null_type :: "payload \<Rightarrow> bool" where
  "no_null_type (Strs _ _) = True" | "no_null_type (Syms _ _) = True" | "no_null_type _ = False"

definition ray_vec_is_null :: "column \<Rightarrow> nat \<Rightarrow> bool" where
  "ray_vec_is_null col i \<longleftrightarrow>
    (if i \<ge> col_len (c_data col) then False
     else if no_null_type (c_data col) then False
     else if \<not> c_nulls col then False
     else sentinel_is_null (c_data col) i)"

section \<open>The comparator\<close>

text \<open>Floats by their bits: sign and magnitude, both zeros equal, nothing below or above a NaN.\<close>

definition sign_mag :: "'a :: len word \<Rightarrow> int" where
  "sign_mag w = (if bit w (LENGTH('a) - 1) then - uint (take_bit (LENGTH('a) - 1) w) else uint w)"

definition f64_less :: "u64 \<Rightarrow> u64 \<Rightarrow> bool" where
  "f64_less a b \<longleftrightarrow> \<not> is_nan64 a \<and> \<not> is_nan64 b \<and> sign_mag a < sign_mag b"

definition f32_less :: "u32 \<Rightarrow> u32 \<Rightarrow> bool" where
  "f32_less a b \<longleftrightarrow> \<not> is_nan32 a \<and> \<not> is_nan32 b \<and> sign_mag a < sign_mag b"

fun value_cmp :: "payload \<Rightarrow> nat \<Rightarrow> nat \<Rightarrow> int" where
  "value_cmp (F64s d) a b = (if f64_less (d ! a) (d ! b) then -1 else if f64_less (d ! b) (d ! a) then 1 else 0)"
| "value_cmp (F32s d) a b = (if f32_less (d ! a) (d ! b) then -1 else if f32_less (d ! b) (d ! a) then 1 else 0)"
| "value_cmp (I64s d) a b = (if sint (d ! a) < sint (d ! b) then -1 else if sint (d ! a) > sint (d ! b) then 1 else 0)"
| "value_cmp (I32s d) a b = (if sint (d ! a) < sint (d ! b) then -1 else if sint (d ! a) > sint (d ! b) then 1 else 0)"
| "value_cmp (Syms strings d) a b =
    (case (ray_sym_str strings (d ! a), ray_sym_str strings (d ! b)) of (Some sa, Some sb) \<Rightarrow> ray_str_cmp sa sb | _ \<Rightarrow> 0)"
| "value_cmp (I16s d) a b = (if sint (d ! a) < sint (d ! b) then -1 else if sint (d ! a) > sint (d ! b) then 1 else 0)"
| "value_cmp (Byte1s d) a b = (if d ! a < d ! b then -1 else if d ! a > d ! b then 1 else 0)"
| "value_cmp (Guids d) a b = memcmp (drop (a * 16) d) (drop (b * 16) d) 16"
| "value_cmp (Strs d str_pool) a b = ray_str_t_cmp (d ! a) str_pool (d ! b) str_pool"

record sort_cmp_ctx =
  x_vecs :: "column option list"
  x_desc :: "bool list option"
  x_nulls_first :: "bool list option"

definition key_cmp :: "column \<Rightarrow> bool \<Rightarrow> bool \<Rightarrow> nat \<Rightarrow> nat \<Rightarrow> int" where
  "key_cmp col desc nf a b =
    (let a_null = ray_vec_is_null col a; b_null = ray_vec_is_null col b
     in if a_null \<or> b_null
        then if a_null \<and> b_null then 0 else if a_null then (if nf then -1 else 1) else (if nf then 1 else -1)
        else if desc then - value_cmp (c_data col) a b else value_cmp (c_data col) a b)"

definition key_desc :: "sort_cmp_ctx \<Rightarrow> nat \<Rightarrow> bool" where
  "key_desc ctx k = (case x_desc ctx of Some ds \<Rightarrow> ds ! k | None \<Rightarrow> False)"

definition key_nf :: "sort_cmp_ctx \<Rightarrow> nat \<Rightarrow> bool" where
  "key_nf ctx k = (case x_nulls_first ctx of Some ns \<Rightarrow> ns ! k | None \<Rightarrow> key_desc ctx k)"

fun cmp_keys :: "sort_cmp_ctx \<Rightarrow> nat list \<Rightarrow> nat \<Rightarrow> nat \<Rightarrow> int" where
  "cmp_keys ctx [] a b = 0"
| "cmp_keys ctx (k # ks) a b =
    (case x_vecs ctx ! k of None \<Rightarrow> cmp_keys ctx ks a b
     | Some col \<Rightarrow> let cmp = key_cmp col (key_desc ctx k) (key_nf ctx k) a b in if cmp \<noteq> 0 then cmp else cmp_keys ctx ks a b)"

definition sort_cmp :: "sort_cmp_ctx \<Rightarrow> nat \<Rightarrow> nat \<Rightarrow> int" where
  "sort_cmp ctx a b = cmp_keys ctx [0..<length (x_vecs ctx)] a b"

text \<open>
  A cell the comparator can place: inside the column, a NaN only in a column flagged for nulls, a symbol that is
  interned, a string inside its pool.
\<close>

fun value_ok :: "payload \<Rightarrow> nat \<Rightarrow> bool" where
  "value_ok (F64s d) i \<longleftrightarrow> \<not> is_nan64 (d ! i)"
| "value_ok (F32s d) i \<longleftrightarrow> \<not> is_nan32 (d ! i)"
| "value_ok (Syms strings d) i \<longleftrightarrow> ray_sym_str strings (d ! i) \<noteq> None"
| "value_ok (Strs d str_pool) i \<longleftrightarrow> str_inside (d ! i) str_pool"
| "value_ok _ i \<longleftrightarrow> True"

definition cell_ok :: "column \<Rightarrow> nat \<Rightarrow> bool" where
  "cell_ok col i \<longleftrightarrow> i < col_len (c_data col) \<and> (ray_vec_is_null col i \<or> value_ok (c_data col) i)"

definition comparable :: "sort_cmp_ctx \<Rightarrow> nat set" where
  "comparable ctx = {a. \<forall>col. Some col \<in> set (x_vecs ctx) \<longrightarrow> cell_ok col a}"

section \<open>Its laws\<close>

text \<open>Comparators by a key, turned around, with nulls set apart, and one after the other.\<close>

lemma order_by_key:
  assumes "\<And>a b. a \<in> R \<Longrightarrow> b \<in> R \<Longrightarrow> sgn (cmp a b) = cmp_of (f a) (f b)"
  shows "row_order cmp R"
proof
  have pos: "cmp a b < 0 \<longleftrightarrow> f a < f b" "cmp a b > 0 \<longleftrightarrow> f b < f a" if "a \<in> R" "b \<in> R" for a b
    using assms [OF that] by (auto simp: cmp_of_def sgn_if split: if_splits)
  show "cmp a b < 0 \<longleftrightarrow> cmp b a > 0" if "a \<in> R" "b \<in> R" for a b using pos that by blast
  show "cmp a c \<le> 0" if "a \<in> R" "b \<in> R" "c \<in> R" "cmp a b \<le> 0" "cmp b c \<le> 0" for a b c
    using that pos(2) [of a b] pos(2) [of b c] pos(2) [of a c] by (meson leD le_less_linear order_trans)
qed

lemma order_reversed: "row_order cmp R \<Longrightarrow> row_order (\<lambda>a b. - cmp a b) R"
proof -
  assume r: "row_order cmp R"
  show ?thesis
  proof
    show "- cmp a b < 0 \<longleftrightarrow> - cmp b a > 0" if "a \<in> R" "b \<in> R" for a b
      using row_order.flip [OF r, of b a] that by auto
    show "- cmp a c \<le> 0" if "a \<in> R" "b \<in> R" "c \<in> R" "- cmp a b \<le> 0" "- cmp b c \<le> 0" for a b c
      using that row_order.cmp_trans [OF r, of c b a] row_order.flip_le [OF r] by simp
  qed
qed

lemma order_apart:
  assumes "row_order cmp {a \<in> R. \<not> N a}"
  shows "row_order (\<lambda>a b. if N a \<or> N b then if N a \<and> N b then 0 else if N a then (if nf then -1 else 1) else (if nf then 1 else -1) else cmp a b) R"
proof
  fix a b assume "a \<in> R" "b \<in> R"
  then show "(if N a \<or> N b then if N a \<and> N b then 0 else if N a then (if nf then -1 else 1) else (if nf then 1 else -1) else cmp a b) < 0 \<longleftrightarrow>
      (if N b \<or> N a then if N b \<and> N a then 0 else if N b then (if nf then -1 else 1) else (if nf then 1 else -1) else cmp b a) > 0"
    using row_order.flip [OF assms, of a b] by auto
next
  fix a b c assume "a \<in> R" "b \<in> R" "c \<in> R"
    and "(if N a \<or> N b then if N a \<and> N b then 0 else if N a then (if nf then -1 else 1) else (if nf then 1 else -1) else cmp a b) \<le> 0"
    and "(if N b \<or> N c then if N b \<and> N c then 0 else if N b then (if nf then -1 else 1) else (if nf then 1 else -1) else cmp b c) \<le> 0"
  then show "(if N a \<or> N c then if N a \<and> N c then 0 else if N a then (if nf then -1 else 1) else (if nf then 1 else -1) else cmp a c) \<le> 0"
    using row_order.cmp_trans [OF assms, of a b c] by (auto split: if_splits)
qed

lemma order_then:
  assumes "row_order c1 R" "row_order c2 R"
  shows "row_order (\<lambda>a b. if c1 a b \<noteq> 0 then c1 a b else c2 a b) R"
proof
  show "(if c1 a b \<noteq> 0 then c1 a b else c2 a b) < 0 \<longleftrightarrow> (if c1 b a \<noteq> 0 then c1 b a else c2 b a) > 0" if "a \<in> R" "b \<in> R" for a b
    using that row_order.flip [OF assms(1) that] row_order.flip [OF assms(2) that] row_order.flip_tie [OF assms(1) that] by auto
  show "(if c1 a c \<noteq> 0 then c1 a c else c2 a c) \<le> 0"
    if R: "a \<in> R" "b \<in> R" "c \<in> R" and ab: "(if c1 a b \<noteq> 0 then c1 a b else c2 a b) \<le> 0" and bc: "(if c1 b c \<noteq> 0 then c1 b c else c2 b c) \<le> 0" for a b c
  proof -
    have le: "c1 a b \<le> 0" "c1 b c \<le> 0" using ab bc by (auto split: if_splits)
    then have "c1 a c \<le> 0" using row_order.cmp_trans [OF assms(1) R] by simp
    moreover have "c2 a c \<le> 0" if tie: "c1 a c = 0"
    proof -
      have "c1 c a \<le> 0" using tie row_order.flip_tie [OF assms(1) R(1,3)] by simp
      then have "c1 c b \<le> 0" "c1 b a \<le> 0" using row_order.cmp_trans [OF assms(1) R(3,1,2)] row_order.cmp_trans [OF assms(1) R(2,3,1)] le by simp_all
      then have "c1 a b = 0" "c1 b c = 0" using le row_order.flip_le [OF assms(1) R(2,1)] row_order.flip_le [OF assms(1) R(3,2)] by simp_all
      then show ?thesis using ab bc row_order.cmp_trans [OF assms(2) R] by simp
    qed
    ultimately show ?thesis by simp
  qed
qed

lemma order_on_subset: "row_order cmp R \<Longrightarrow> S \<subseteq> R \<Longrightarrow> row_order cmp S"
  unfolding row_order_def by blast

lemma order_cong:
  assumes r: "row_order c1 R" and same: "\<And>a b. a \<in> R \<Longrightarrow> b \<in> R \<Longrightarrow> c1 a b = c2 a b"
  shows "row_order c2 R"
proof
  show "c2 a b < 0 \<longleftrightarrow> c2 b a > 0" if "a \<in> R" "b \<in> R" for a b
    using row_order.flip [OF r that] same [OF that] same [OF that(2,1)] by simp
  show "c2 a c \<le> 0" if "a \<in> R" "b \<in> R" "c \<in> R" "c2 a b \<le> 0" "c2 b c \<le> 0" for a b c
    using row_order.cmp_trans [OF r that(1-3)] same [OF that(1,2)] same [OF that(2,3)] same [OF that(1,3)] that(4,5) by simp
qed

text \<open>The key a payload is compared by.\<close>

lemma value_order: "row_order (value_cmp p) {a. a < col_len p \<and> value_ok p a}"
proof (cases p)
  case (F64s d)
  then show ?thesis by (intro order_by_key [of _ _ "\<lambda>a. sign_mag (d ! a)"]) (auto simp: f64_less_def cmp_of_def)
next
  case (F32s d)
  then show ?thesis by (intro order_by_key [of _ _ "\<lambda>a. sign_mag (d ! a)"]) (auto simp: f32_less_def cmp_of_def)
next
  case (I64s d)
  then show ?thesis by (intro order_by_key [of _ _ "\<lambda>a. sint (d ! a)"]) (auto simp: cmp_of_def)
next
  case (I32s d)
  then show ?thesis by (intro order_by_key [of _ _ "\<lambda>a. sint (d ! a)"]) (auto simp: cmp_of_def)
next
  case (I16s d)
  then show ?thesis by (intro order_by_key [of _ _ "\<lambda>a. sint (d ! a)"]) (auto simp: cmp_of_def)
next
  case (Byte1s d)
  then show ?thesis by (intro order_by_key [of _ _ "\<lambda>a. d ! a"]) (auto simp: cmp_of_def)
next
  case (Guids d)
  have "16 \<le> length (drop (a * 16) d)" if "a < length d div 16" for a using that by simp
  then show ?thesis using Guids memcmp_self_len by (intro order_by_key [of _ _ "\<lambda>a. take 16 (drop (a * 16) d)"]) auto
next
  case (Strs d str_pool)
  then show ?thesis using ray_str_t_cmp_lex by (intro order_by_key [of _ _ "\<lambda>a. str_bytes (d ! a) str_pool"]) auto
next
  case (Syms strings d)
  then show ?thesis using ray_str_cmp_lex by (intro order_by_key [of _ _ "\<lambda>a. the (ray_sym_str strings (d ! a))"]) auto
qed

lemma key_order: "row_order (key_cmp col desc nf) {a. cell_ok col a}"
proof -
  let ?v = "\<lambda>a b. if desc then - value_cmp (c_data col) a b else value_cmp (c_data col) a b"
  have "row_order (value_cmp (c_data col)) {a \<in> {a. cell_ok col a}. \<not> ray_vec_is_null col a}"
    by (rule order_on_subset [OF value_order]) (auto simp: cell_ok_def)
  then have "row_order ?v {a \<in> {a. cell_ok col a}. \<not> ray_vec_is_null col a}"
    using order_reversed by (cases desc) simp_all
  from order_apart [OF this, of nf] show ?thesis by (rule order_cong) (simp add: key_cmp_def Let_def)
qed

lemma keys_order:
  assumes "\<And>k col. k \<in> set ks \<Longrightarrow> x_vecs ctx ! k = Some col \<Longrightarrow> \<forall>a\<in>R. cell_ok col a"
  shows "row_order (cmp_keys ctx ks) R"
  using assms
proof (induction ks)
  case Nil
  show ?case by (rule order_by_key [of _ _ "\<lambda>_. 0 :: nat"]) (simp add: cmp_of_def)
next
  case (Cons k ks)
  have rest: "row_order (cmp_keys ctx ks) R" by (rule Cons.IH) (use Cons.prems in auto)
  show ?case
  proof (cases "x_vecs ctx ! k")
    case None
    then show ?thesis using rest by (intro order_cong [OF rest]) simp
  next
    case (Some col)
    have "row_order (key_cmp col (key_desc ctx k) (key_nf ctx k)) R"
      by (rule order_on_subset [OF key_order]) (use Cons.prems [of k col] Some in auto)
    from order_then [OF this rest] show ?thesis by (rule order_cong) (simp add: Some Let_def)
  qed
qed

text \<open>The laws of the comparator, and with them the lemmas of \<open>row_order\<close> for it.\<close>

interpretation sc: row_order "sort_cmp ctx" "comparable ctx" for ctx
proof -
  have "row_order (cmp_keys ctx [0..<length (x_vecs ctx)]) (comparable ctx)"
  proof (rule keys_order)
    fix k col assume "k \<in> set [0..<length (x_vecs ctx)]" "x_vecs ctx ! k = Some col"
    then have "Some col \<in> set (x_vecs ctx)" by (auto simp: in_set_conv_nth)
    then show "\<forall>a\<in>comparable ctx. cell_ok col a" by (simp add: comparable_def)
  qed
  then show "row_order (sort_cmp ctx) (comparable ctx)" by (simp add: sort_cmp_def [abs_def])
qed

section \<open>The comparison sort of a table\<close>

text \<open>
  The fallback of \<open>sort_indices_ex\<close>: without flags for the nulls they come first in ascending and last in
  descending columns.
\<close>

definition fallback_ctx :: "column option list \<Rightarrow> bool list option \<Rightarrow> bool list option \<Rightarrow> sort_cmp_ctx" where
  "fallback_ctx cols descs nulls_first =
    \<lparr>x_vecs = cols, x_desc = descs,
     x_nulls_first = (case nulls_first of Some ns \<Rightarrow> Some ns
       | None \<Rightarrow> Some (map (\<lambda>k. case descs of Some ds \<Rightarrow> \<not> ds ! k | None \<Rightarrow> True) [0..<length cols]))\<rparr>"

definition sort_fallback :: "merge_env \<Rightarrow> column option list \<Rightarrow> bool list option \<Rightarrow> bool list option \<Rightarrow> nat \<Rightarrow> nat list outcome" where
  "sort_fallback env cols descs nulls_first nrows = merge_sort (sort_cmp (fallback_ctx cols descs nulls_first)) env nrows"

lemma comparable_rows: "(\<And>col a. Some col \<in> set cols \<Longrightarrow> a < n \<Longrightarrow> cell_ok col a) \<Longrightarrow> {..<n} \<subseteq> comparable (fallback_ctx cols descs nulls_first)"
  by (auto simp: comparable_def fallback_ctx_def)

text \<open>The pool's side: a dispatch of \<open>m\<close> tasks that has ended has made calls that cover them.\<close>

definition part_calls :: "pool \<Rightarrow> (nat \<times> nat) list" where
  "part_calls s = map (\<lambda>(w, t, task). (t_start task, t_end task)) (p_log s)"

lemma dispatch_n_calls:
  assumes r: "pool_reachable w s" and at: "p_pcs s ! 0 = Spin" "p_pending s = 0" "\<not> p_cancelled s"
    and job: "p_job s = part_tasks cap fn m" "m \<le> cap"
  shows "calls_cover (part_calls s) m"
proof -
  have inv: "pool_inv s" by (rule reachable_inv [OF r])
  have served: "mset (map (\<lambda>l. snd (snd l)) (p_log s)) = mset (p_job s)"
    using served_tasks [OF inv at(1,2)] skip_only_cancelled [OF r] at by simp
  have flat: "mset (concat (map f xs)) = (\<Sum>x\<in>#mset xs. mset (f x))" for f :: "ptask \<Rightarrow> nat list" and xs by (induction xs) simp_all
  have "call_order (part_calls s) = concat (map (\<lambda>t. [t_start t..<t_end t]) (map (\<lambda>l. snd (snd l)) (p_log s)))"
    by (simp add: call_order_def part_calls_def comp_def case_prod_beta)
  then have "mset (call_order (part_calls s)) = mset (concat (map (\<lambda>t. [t_start t..<t_end t]) (p_job s)))" by (simp only: flat served)
  also have "concat (map (\<lambda>t. [t_start t..<t_end t]) (p_job s)) = [0..<m]"
    using job(2) concat_map_singleton [of "\<lambda>i. i" "[0..<m]"] by (simp add: job(1) part_tasks_def comp_def)
  finally show ?thesis by (simp add: calls_cover_def)
qed

text \<open>
  C36. The comparison sort of a table returns its rows in the order of \<open>sort_cmp\<close> over the columns, equal rows by row
  number, whatever the number of workers and the order in which they take chunks and pairs of runs; without memory
  for the scratch array it reports so.
\<close>

theorem sort_fallback_stable:
  assumes "\<And>col a. Some col \<in> set cols \<Longrightarrow> a < n \<Longrightarrow> cell_ok col a" "merge_env_ok env n"
  shows "\<exists>ys. sort_fallback env cols descs nulls_first n = Ret ys \<and> rows_in_order (sort_cmp (fallback_ctx cols descs nulls_first)) n ys"
  unfolding sort_fallback_def
  by (rule merge_sort_stable_rows [OF sc.row_order_axioms comparable_rows assms(2)]) (use assms(1) in blast)

text \<open>Two thousand rows by a falling column of doubles and, descending, by strings.\<close>

theorem sort_fallback_stable_witness:
  "\<exists>ys. sort_fallback (sample_merge_env 2000) [Some \<lparr>c_data = F64s (map (\<lambda>i. if i < 1000 then 2 ^ 62 else 0) [0..<2000]), c_nulls = True\<rparr>,
      Some \<lparr>c_data = Strs (replicate 2000 \<lparr>s_len = 1, s_data = [65], s_pool_off = 0\<rparr>) [], c_nulls = False\<rparr>] (Some [False, True]) None 2000 = Ret ys \<and>
    rows_in_order (sort_cmp (fallback_ctx [Some \<lparr>c_data = F64s (map (\<lambda>i. if i < 1000 then 2 ^ 62 else 0) [0..<2000]), c_nulls = True\<rparr>,
      Some \<lparr>c_data = Strs (replicate 2000 \<lparr>s_len = 1, s_data = [65], s_pool_off = 0\<rparr>) [], c_nulls = False\<rparr>] (Some [False, True]) None)) 2000 ys"
proof (rule sort_fallback_stable [OF _ sample_merge_env_ok])
  fix col a
  assume "Some col \<in> set [Some \<lparr>c_data = F64s (map (\<lambda>i. if i < 1000 then 2 ^ 62 else 0) [0..<2000]), c_nulls = True\<rparr>,
      Some \<lparr>c_data = Strs (replicate 2000 \<lparr>s_len = 1, s_data = [65], s_pool_off = 0\<rparr>) [], c_nulls = False\<rparr>]" "a < (2000 :: nat)"
  then show "cell_ok col a" by (auto simp: cell_ok_def is_nan64_def str_inside_def ray_str_t_ptr_def)
qed

end
