(* ===== verification/EnumRank.thy ===== *)
theory EnumRank
  imports SortCmp SortRun
begin

text \<open>
  The ranks of symbols, \<open>build_enum_rank\<close> of \<^verbatim>\<open>src/ops/sort.c\<close>: the largest symbol number of a column, found by the pool in
  parallel for long columns, then a bottom-up merge sort of all numbers up to it by their strings, then the positions in
  that order. Sizes are below \<open>2 ^ 31\<close>, so that none of the 32-bit additions wraps.

  Shown: the ranks order symbols as their strings do.
\<close>

section \<open>The code\<close>

definition enum_max_fn :: "int list \<Rightarrow> nat \<times> nat \<times> nat \<Rightarrow> u32 list \<Rightarrow> u32 list" where
  "enum_max_fn ids call pw_max =
    (case call of (wid, start, stop) \<Rightarrow> pw_max[wid := fold (\<lambda>i m. let v = word_of_int (ids ! i) in if v > m then v else m) [start..<stop] (pw_max ! wid)])"

definition enum_max_id :: "calls option \<Rightarrow> int list \<Rightarrow> u32" where
  "enum_max_id pool ids =
    (case pool of
       Some (nw, cs) \<Rightarrow>
         if length ids > 100000 then fold (\<lambda>w m. if w > m then w else m) (fold (enum_max_fn ids) cs (replicate nw 0)) 0
         else fold (\<lambda>i m. let v = word_of_int (ids ! i) in if v > m then v else m) [0..<length ids] 0
     | None \<Rightarrow> fold (\<lambda>i m. let v = word_of_int (ids ! i) in if v > m then v else m) [0..<length ids] 0)"

text \<open>The strings of the numbers; one that is not interned counts as empty.\<close>

definition id_string :: "bytes list \<Rightarrow> nat \<Rightarrow> bytes" where
  "id_string strings i = (case ray_sym_str strings (int i) of Some s \<Rightarrow> s | None \<Rightarrow> [])"

definition id_cmp :: "bytes list \<Rightarrow> nat \<Rightarrow> nat \<Rightarrow> int" where
  "id_cmp strings ia ib =
    (let la = length (id_string strings ia); lb = length (id_string strings ib); ml = min la lb;
         cmp = (if ml > 0 then memcmp (id_string strings ia) (id_string strings ib) ml else 0)
     in if cmp = 0 then of_bool (la > lb) - of_bool (la < lb) else cmp)"

definition rank_block :: "(nat \<Rightarrow> nat \<Rightarrow> int) \<Rightarrow> nat list \<Rightarrow> nat \<Rightarrow> nat \<Rightarrow> nat \<Rightarrow> nat list \<Rightarrow> nat list" where
  "rank_block cmp ids n_ids width c tmp =
    (let lo = c * (2 * width); mid = min (lo + width) n_ids; hi = min (lo + 2 * width) n_ids
     in merge_loop cmp ids mid hi lo mid lo tmp)"

function rank_passes :: "(nat \<Rightarrow> nat \<Rightarrow> int) \<Rightarrow> nat \<Rightarrow> nat \<Rightarrow> nat list \<Rightarrow> nat list \<Rightarrow> nat list" where
  "rank_passes cmp n_ids width ids tmp =
    (if width < n_ids \<and> 0 < width
     then rank_passes cmp n_ids (width * 2)
       (fold (rank_block cmp ids n_ids width) [0..<(n_ids + 2 * width - 1) div (2 * width)] tmp) ids
     else ids)"
  by pat_completeness auto

termination by (relation "measure (\<lambda>(cmp, n_ids, width, ids, tmp). n_ids - width)") auto

declare rank_passes.simps [simp del]

text \<open>The result is the array of ranks, or none when an allocation fails or the numbers are too large.\<close>

definition build_enum_rank :: "bool \<Rightarrow> calls option \<Rightarrow> nat list \<Rightarrow> bytes list \<Rightarrow> int list \<Rightarrow> nat list option" where
  "build_enum_rank mem pool tmp strings ids =
    (let max_id = enum_max_id pool ids; n_ids = unat max_id + 1
     in if max_id \<ge> 4294967295 - 1 then None
        else if \<not> mem then None
        else let order = rank_passes (id_cmp strings) n_ids 1 [0..<n_ids] tmp
             in Some (fold (\<lambda>i rank. rank[order ! i := i]) [0..<n_ids] (replicate n_ids 0)))"

section \<open>The largest number\<close>

lemma fold_max_ge: "x \<le> m \<or> (\<exists>i\<in>set is. x \<le> f i) \<Longrightarrow> x \<le> fold (\<lambda>i m. let v = f i in if v > m then v else m) is (m :: u32)"
proof (induction "is" arbitrary: m)
  case (Cons i "is")
  have "x \<le> (if f i > m then f i else m) \<or> (\<exists>i\<in>set is. x \<le> f i)" using Cons.prems by (auto intro: order_trans)
  then show ?case using Cons.IH by (simp add: Let_def)
qed simp

lemma max_calls:
  assumes "length pw = nw" "\<forall>(wid, start, stop)\<in>set cs. wid < nw"
    and "(\<exists>w<nw. x \<le> pw ! w) \<or> (\<exists>(wid, start, stop)\<in>set cs. \<exists>i\<in>{start..<stop}. x \<le> word_of_int (ids ! i))"
  shows "length (fold (enum_max_fn ids) cs pw) = nw \<and> (\<exists>w<nw. x \<le> fold (enum_max_fn ids) cs pw ! w)"
  using assms
proof (induction cs arbitrary: pw)
  case (Cons c cs)
  obtain wid start stop where c: "c = (wid, start, stop)" by (cases c)
  let ?pw = "enum_max_fn ids c pw"
  have wid: "wid < nw" "length ?pw = nw" using Cons.prems c by (auto simp: enum_max_fn_def)
  have at: "?pw ! wid = fold (\<lambda>i m. let v = word_of_int (ids ! i) in if v > m then v else m) [start..<stop] (pw ! wid)"
    "\<And>w. w \<noteq> wid \<Longrightarrow> ?pw ! w = pw ! w" using wid Cons.prems(1) c by (simp_all add: enum_max_fn_def)
  have "\<exists>w<nw. x \<le> ?pw ! w" if "w < nw" "x \<le> pw ! w" for w
  proof (cases "w = wid")
    case True
    have "x \<le> ?pw ! wid" unfolding at(1) by (rule fold_max_ge) (use that True in auto)
    then show ?thesis using wid by blast
  next
    case False
    then show ?thesis using that at(2) by (intro exI [of _ w]) simp
  qed
  moreover have "\<exists>w<nw. x \<le> ?pw ! w" if "i \<in> {start..<stop}" "x \<le> word_of_int (ids ! i)" for i
  proof -
    have "x \<le> ?pw ! wid" unfolding at(1) by (rule fold_max_ge) (use that in auto)
    then show ?thesis using wid by blast
  qed
  ultimately have "(\<exists>w<nw. x \<le> ?pw ! w) \<or> (\<exists>(wid, start, stop)\<in>set cs. \<exists>i\<in>{start..<stop}. x \<le> word_of_int (ids ! i))"
    using Cons.prems(3) c by auto
  then show ?case using Cons.IH [OF wid(2)] Cons.prems(2) by simp
qed auto

lemma max_id_ge:
  assumes "covers pool (length ids)" "i < length ids"
  shows "word_of_int (ids ! i) \<le> enum_max_id pool ids"
proof (cases "\<exists>nw cs. pool = Some (nw, cs) \<and> length ids > 100000")
  case False
  then have "enum_max_id pool ids = fold (\<lambda>i m. let v = word_of_int (ids ! i) in if v > m then v else m) [0..<length ids] 0"
    by (auto simp: enum_max_id_def split: option.splits)
  moreover have "word_of_int (ids ! i) \<le> fold (\<lambda>i m. let v = word_of_int (ids ! i) in if v > m then v else m) [0..<length ids] (0 :: u32)"
    by (rule fold_max_ge) (use assms(2) in auto)
  ultimately show ?thesis by simp
next
  case True
  then obtain nw cs where p: "pool = Some (nw, cs)" "length ids > 100000" by blast
  let ?pw = "fold (enum_max_fn ids) cs (replicate nw 0)"
  have "i \<in> set (concat (map (\<lambda>(wid, start, stop). [start..<stop]) cs))"
  proof -
    have "mset (concat (map (\<lambda>(wid, start, stop). [start..<stop]) cs)) = mset [0..<length ids]" using assms(1) p unfolding covers_def by simp
    from mset_eq_setD [OF this] show ?thesis using assms(2) by (simp only: set_upt) simp
  qed
  then have "\<exists>(wid, start, stop)\<in>set cs. \<exists>j\<in>{start..<stop}. word_of_int (ids ! i) \<le> (word_of_int (ids ! j) :: u32)" by fastforce
  moreover have "\<forall>(wid, start, stop)\<in>set cs. wid < nw" using assms(1) p by (auto simp: covers_def)
  ultimately have "length ?pw = nw \<and> (\<exists>w<nw. word_of_int (ids ! i) \<le> ?pw ! w)" by (intro max_calls) simp_all
  then have "\<exists>v\<in>set ?pw. word_of_int (ids ! i) \<le> v" by (auto simp: set_conv_nth)
  then have "word_of_int (ids ! i) \<le> fold (\<lambda>v m. let v = v in if v > m then v else m) ?pw 0" by (intro fold_max_ge) simp
  then show ?thesis using p by (simp add: enum_max_id_def Let_def)
qed

section \<open>The order of the numbers\<close>

lemma id_cmp_lex: "sgn (id_cmp strings a b) = cmp_of (id_string strings a) (id_string strings b)"
proof -
  let ?a = "id_string strings a" and ?b = "id_string strings b" and ?m = "min (length (id_string strings a)) (length (id_string strings b))"
  have "sgn (memcmp ?a ?b ?m) = cmp_of (take ?m ?a) (take ?m ?b)" by (rule memcmp_self_len) simp_all
  moreover have "(if ?m > 0 then memcmp ?a ?b ?m else 0) = memcmp ?a ?b ?m" by simp
  moreover have "sgn (of_bool (length ?a > length ?b) - of_bool (length ?a < length ?b)) = cmp_of (length ?a) (length ?b)" by (simp add: cmp_of_def)
  moreover have "(if c = 0 then e else c) = (if c \<noteq> 0 then c else e)" for c e :: int by simp
  ultimately show "sgn (id_cmp strings a b) = cmp_of ?a ?b"
    using cmp_of_tail [of ?m ?a ?b] unfolding id_cmp_def Let_def by (simp only: sgn_first)
qed

lemma id_order: "row_order (id_cmp strings) UNIV"
  by (rule order_by_key [of _ _ "id_string strings"]) (rule id_cmp_lex)

lemma block_is_pair:
  assumes "length src = n" "length dst = n" "0 < width"
  shows "rank_block cmp src n width c dst = merge_pair cmp src n width c dst"
proof -
  let ?lo = "c * (2 * width)"
  have at: "c * 2 * width = ?lo" by simp
  consider "n \<le> ?lo" | "?lo < n" "n \<le> ?lo + width" | "?lo + width < n" by linarith
  then show ?thesis
  proof cases
    case 1
    then have "min (?lo + width) n = n" "min (?lo + 2 * width) n = n" by simp_all
    then show ?thesis using 1 unfolding rank_block_def merge_pair_def at Let_def by (subst merge_loop.simps) simp
  next
    case 2
    then have m: "min (?lo + width) n = n" "min (?lo + 2 * width) n = n" "min (?lo + width + width) n = n" by simp_all
    have "merge_loop cmp src n n ?lo n ?lo dst = take ?lo dst @ take (n - ?lo) (drop ?lo src) @ drop n dst"
      using 2 assms by (subst merge_loop_writes) simp_all
    then show ?thesis using 2 unfolding rank_block_def merge_pair_def at Let_def m by simp
  next
    case 3
    then have c: "\<not> n \<le> ?lo" "\<not> min (?lo + width + width) n \<le> ?lo + width" "min (?lo + width) n = ?lo + width" "?lo + 2 * width = ?lo + width + width"
      using assms(3) by linarith+
    show ?thesis unfolding rank_block_def merge_pair_def merge_runs_def at Let_def by (simp only: c if_False)
  qed
qed

lemma fold_same: "(\<And>x s. I s \<Longrightarrow> f x s = g x s) \<Longrightarrow> (\<And>x s. I s \<Longrightarrow> I (g x s)) \<Longrightarrow> I s \<Longrightarrow> fold f xs s = fold g xs s"
  by (induction xs arbitrary: s) auto

lemma pair_length:
  assumes "length src = n" "length dst = n" "0 < width"
  shows "length (merge_pair cmp src n width c dst) = n"
proof -
  let ?M = "merge_lists cmp (run_at width (2 * c) src) (run_at width (2 * c + 1) src)"
  have "length ?M = length (run_at (2 * width) c dst)" unfolding chunk_double [of width c dst] using assms(1,2) by simp
  then show ?thesis unfolding pair_writes [OF assms] using fill_chunk(1) [of ?M "2 * width" c dst] assms(2) by simp
qed

lemma rank_passes_merge:
  assumes "length ids = n_ids" "length tmp = n_ids" "0 < width"
  shows "merge_passes cmp (\<lambda>w. [(0, (n_ids + 2 * w - 1) div (2 * w))]) n_ids width ids tmp = Ret (rank_passes cmp n_ids width ids tmp)"
  using assms
proof (induction cmp n_ids width ids tmp rule: rank_passes.induct)
  case (1 cmp n_ids width ids tmp)
  let ?blocks = "[0..<(n_ids + 2 * width - 1) div (2 * width)]"
  have same: "fold (rank_block cmp ids n_ids width) ?blocks tmp = fold (merge_pair cmp ids n_ids width) ?blocks tmp"
    using 1(2-4) by (intro fold_same [of "\<lambda>t. length t = n_ids"]) (simp_all add: block_is_pair pair_length)
  have "length (fold (merge_pair cmp ids n_ids width) xs t) = n_ids" if "length t = n_ids" for xs t
    using that 1(2,4) by (induction xs arbitrary: t) (simp_all add: pair_length)
  then have len: "length (fold (rank_block cmp ids n_ids width) ?blocks tmp) = n_ids" unfolding same using 1(3) .
  show ?case
  proof (cases "width < n_ids")
    case True
    have "merge_passes cmp (\<lambda>w. [(0, (n_ids + 2 * w - 1) div (2 * w))]) n_ids width ids tmp =
        merge_passes cmp (\<lambda>w. [(0, (n_ids + 2 * w - 1) div (2 * w))]) n_ids (width * 2) (fold (rank_block cmp ids n_ids width) ?blocks tmp) ids"
      using True 1(4) same by (subst merge_passes.simps) (simp add: Let_def sort_merge_fn_def)
    also have "\<dots> = Ret (rank_passes cmp n_ids (width * 2) (fold (rank_block cmp ids n_ids width) ?blocks tmp) ids)"
      using True 1 len by simp
    finally show ?thesis using True 1(4) by (subst rank_passes.simps) simp
  next
    case False
    then show ?thesis by (subst merge_passes.simps, subst rank_passes.simps) simp
  qed
qed

lemma rank_order:
  assumes "length tmp = n"
  shows "rows_in_order (id_cmp strings) n (rank_passes (id_cmp strings) n 1 [0..<n] tmp)"
proof -
  have "stable_of (id_cmp strings) UNIV (run_at 1 c [0..<n]) (run_at 1 c [0..<n])" for c
  proof -
    have "\<exists>x. run_at 1 c [0..<n] = [] \<or> run_at 1 c [0..<n] = [x]" by (cases "drop (c * 1) [0..<n]") auto
    then show ?thesis by (auto simp: stable_of_def)
  qed
  then have "runs_ok (id_cmp strings) UNIV 1 [0..<n] [0..<n]" by (simp add: runs_ok_def)
  from row_order.passes_stable [OF id_order _ this, of tmp "\<lambda>w. [(0, (n + 2 * w - 1) div (2 * w))]"]
  have "stable_of (id_cmp strings) UNIV [0..<n] (rank_passes (id_cmp strings) n 1 [0..<n] tmp)"
    using assms rank_passes_merge [of "[0..<n]" n tmp 1 "id_cmp strings"] passes_one_call [of n] by auto
  then show ?thesis by (intro stable_rows [OF id_order]) simp_all
qed

lemma ranks_written:
  assumes "distinct order" "set order = {..<n}" "length order = n" "j < n"
  shows "fold (\<lambda>i rank. rank[order ! i := i]) [0..<n] (replicate n 0) ! (order ! j) = j"
proof -
  have "length (fold (\<lambda>i rank. rank[order ! i := i]) [0..<m] (replicate n 0)) = n \<and>
      (\<forall>j<m. fold (\<lambda>i rank. rank[order ! i := i]) [0..<m] (replicate n (0 :: nat)) ! (order ! j) = j)" if "m \<le> n" for m
    using that
  proof (induction m)
    case (Suc m)
    have "order ! m < n" using assms(2,3) Suc.prems nth_mem [of m order] by auto
    moreover have "order ! j \<noteq> order ! m" if "j < m" for j using assms(1,3) Suc.prems that by (simp add: nth_eq_iff_index_eq)
    ultimately show ?case using Suc by (auto simp: nth_list_update less_Suc_eq dest: sym)
  qed simp
  from this [of n] show ?thesis using assms(4) by simp
qed

text \<open>The ranks of two numbers are in the order of their strings, equal strings in the order of the numbers.\<close>

lemma build_enum_rank_order:
  assumes "build_enum_rank mem pool tmp strings ids = Some rank" "length tmp = unat (enum_max_id pool ids) + 1"
    and "a \<le> unat (enum_max_id pool ids)" "b \<le> unat (enum_max_id pool ids)"
  shows "rank ! a \<le> unat (enum_max_id pool ids)"
    "rank ! a < rank ! b \<longleftrightarrow> id_string strings a < id_string strings b \<or> id_string strings a = id_string strings b \<and> a < b"
proof -
  define n where "n = unat (enum_max_id pool ids) + 1"
  define order where "order = rank_passes (id_cmp strings) n 1 [0..<n] tmp"
  have r: "rank = fold (\<lambda>i rank. rank[order ! i := i]) [0..<n] (replicate n 0)"
    using assms(1) by (auto simp: build_enum_rank_def n_def order_def Let_def split: if_splits)
  have "rows_in_order (id_cmp strings) n order" unfolding order_def by (rule rank_order) (use assms(2) n_def in simp)
  then have o: "mset order = mset [0..<n]" and "sorted_wrt (\<lambda>a b. id_cmp strings a b < 0 \<or> id_cmp strings a b = 0 \<and> a < b) order"
    by (simp_all add: rows_in_order_def)
  then have lt: "id_cmp strings (order ! p) (order ! q) < 0 \<or> id_cmp strings (order ! p) (order ! q) = 0 \<and> order ! p < order ! q" if "p < q" "q < n" for p q
    using that sorted_wrt_nth_less [of _ order p q] mset_eq_length [OF o] by simp
  have ord: "distinct order" "set order = {..<n}" "length order = n"
    using mset_eq_imp_distinct_iff [OF o] mset_eq_setD [OF o] mset_eq_length [OF o] by (simp_all add: atLeast0LessThan)
  have at: "\<exists>p<n. order ! p = c \<and> rank ! c = p" if c: "c < n" for c
  proof -
    have "c \<in> set order" using c ord(2) by simp
    then obtain p where "p < n" "order ! p = c" using ord(3) by (metis in_set_conv_nth)
    then show ?thesis using ranks_written [OF ord, of p] unfolding r by blast
  qed
  obtain p q where pq: "p < n" "order ! p = a" "rank ! a = p" "q < n" "order ! q = b" "rank ! b = q"
    using at [of a] at [of b] assms(3,4) unfolding n_def by auto
  show "rank ! a \<le> unat (enum_max_id pool ids)" using pq n_def by simp
  have s: "sgn (id_cmp strings x y) = cmp_of (id_string strings x) (id_string strings y)" for x y by (rule id_cmp_lex)
  have sign: "id_cmp strings x y < 0 \<longleftrightarrow> id_string strings x < id_string strings y" "id_cmp strings x y = 0 \<longleftrightarrow> id_string strings x = id_string strings y" for x y
    using s [of x y] by (auto simp: cmp_of_def sgn_if split: if_splits)
  show "rank ! a < rank ! b \<longleftrightarrow> id_string strings a < id_string strings b \<or> id_string strings a = id_string strings b \<and> a < b"
    using lt [of p q] lt [of q p] pq unfolding sign by (cases p q rule: linorder_cases) auto
qed

end
