(* ===== verification/SortKeys.thy ===== *)
theory SortKeys
  imports EnumRank
begin

text \<open>
  The encoding of a key column into unsigned 64-bit keys, \<open>radix_encode_fn\<close> of \<^verbatim>\<open>src/ops/sort.c\<close>, its inverse
  \<open>radix_decode_into\<close>, and the sort of a single column in \<open>sort_indices_ex\<close>: encode, sort the keys, and the comparison sort
  where the type or a failed allocation rules the keys out.

  Shown: the keys are ordered as \<open>sort_cmp\<close> orders the cells, so that the sort by keys and the comparison sort return the
  same rows; where they are not is stated as well.
\<close>

section \<open>The encoding\<close>

record radix_encode_ctx =
  n_col :: column
  n_desc :: bool
  n_nulls_first :: bool
  n_rank :: "nat list"

text \<open>The test for a NaN is on the bits here.\<close>

definition nan_bits :: "u64 \<Rightarrow> bool" where
  "nan_bits b \<longleftrightarrow> b AND 0x7FF0000000000000 = 0x7FF0000000000000 \<and> b AND 0x000FFFFFFFFFFFFF \<noteq> 0"

definition null_key :: "bool \<Rightarrow> bool \<Rightarrow> u64 \<Rightarrow> u64" where
  "null_key nf desc highest = (if nf \<noteq> desc then 0 else highest)"

definition encode_value :: "radix_encode_ctx \<Rightarrow> nat \<Rightarrow> u64" where
  "encode_value c i =
    (let nulls = c_nulls (n_col c); is_null = nulls \<and> ray_vec_is_null (n_col c) i; nf = n_nulls_first c; desc = n_desc c
     in case c_data (n_col c) of
          I64s d \<Rightarrow> if is_null then null_key nf desc (NOT 0) else d ! i XOR push_bit 63 1
        | F64s d \<Rightarrow> if nan_bits (d ! i) then null_key nf desc (NOT 0) else d ! i XOR ((- drop_bit 63 (d ! i)) OR push_bit 63 1)
        | I32s d \<Rightarrow> if is_null then null_key nf desc (NOT 0) else ucast (d ! i XOR push_bit 31 1)
        | Syms strings d \<Rightarrow> of_nat (n_rank c ! unat (word_of_int (d ! i) :: u32))
        | I16s d \<Rightarrow> if nulls then if is_null then null_key nf desc 0x10001 else ucast (d ! i XOR push_bit 15 1) + 1
                  else ucast (d ! i XOR push_bit 15 1)
        | Byte1s d \<Rightarrow> if nulls then if is_null then null_key nf desc 0x101 else ucast (d ! i) + 1 else ucast (d ! i)
        | _ \<Rightarrow> 0)"

definition encode_key :: "radix_encode_ctx \<Rightarrow> nat \<Rightarrow> u64" where
  "encode_key c i = (if n_desc c then NOT (encode_value c i) else encode_value c i)"

definition radix_encode_fn :: "radix_encode_ctx \<Rightarrow> nat \<times> nat \<times> nat \<Rightarrow> u64 list \<times> nat list \<Rightarrow> u64 list \<times> nat list" where
  "radix_encode_fn c call s =
    (case (call, s) of ((wid, start, stop), (keys, indices)) \<Rightarrow>
      (fold (\<lambda>i k. k[i := encode_key c i]) [start..<stop] keys, fold (\<lambda>i x. x[i := i]) [start..<stop] indices))"

definition encode_column :: "calls option \<Rightarrow> radix_encode_ctx \<Rightarrow> nat \<Rightarrow> u64 list \<times> nat list \<Rightarrow> u64 list \<times> nat list" where
  "encode_column pool c n s =
    (case pool of Some (nw, cs) \<Rightarrow> fold (radix_encode_fn c) cs s | None \<Rightarrow> radix_encode_fn c (0, 0, n) s)"

fun radix_key_bytes :: "payload \<Rightarrow> nat" where
  "radix_key_bytes (Byte1s _) = 1" | "radix_key_bytes (I16s _) = 2" | "radix_key_bytes (I32s _) = 4" | "radix_key_bytes _ = 8"

fun narrow_int :: "payload \<Rightarrow> bool" where
  "narrow_int (Byte1s _) = True" | "narrow_int (I16s _) = True" | "narrow_int _ = False"

definition key_nbytes_max :: "column \<Rightarrow> nat" where
  "key_nbytes_max col =
    (let b = radix_key_bytes (c_data col) in if c_nulls col \<and> narrow_int (c_data col) \<and> b < 8 then b + 1 else b)"

text \<open>The values of the keys, in the order of the keys.\<close>

definition decode_f64 :: "bool \<Rightarrow> u64 \<Rightarrow> u64" where
  "decode_f64 desc key =
    (let k = (if desc then NOT key else key); m = (if drop_bit 63 k \<noteq> 0 then push_bit 63 1 else NOT 0) in k XOR m)"

fun radix_decode_into :: "payload \<Rightarrow> bool \<Rightarrow> u64 list \<Rightarrow> payload" where
  "radix_decode_into (I64s d) desc keys = I64s (map (\<lambda>k. (if desc then NOT k else k) XOR push_bit 63 1) keys)"
| "radix_decode_into (F64s d) desc keys = F64s (map (decode_f64 desc) keys)"
| "radix_decode_into (I32s d) desc keys = I32s (map (\<lambda>k. ucast (if desc then NOT k else k) XOR push_bit 31 1) keys)"
| "radix_decode_into (I16s d) desc keys = I16s (map (\<lambda>k. ucast (if desc then NOT k else k) XOR push_bit 15 1) keys)"
| "radix_decode_into (Byte1s d) desc keys = Byte1s (map (\<lambda>k. ucast (if desc then NOT k else k)) keys)"
| "radix_decode_into p desc keys = p"

section \<open>The order of the values\<close>

text \<open>Flipping the sign bit turns the signed order into the unsigned one.\<close>

lemma xor_top: "w XOR push_bit (LENGTH('a) - 1) 1 = w + push_bit (LENGTH('a) - 1) 1" for w :: "'a :: len word"
proof -
  let ?n = "LENGTH('a) - 1" and ?p = "2 ^ (LENGTH('a) - 1) :: 'a word"
  have p: "bit ?p k \<longleftrightarrow> k = ?n" for k by (auto simp: bit_exp_iff possible_bit_def)
  have add: "v + ?p = v OR ?p" if "\<not> bit v ?n" for v :: "'a word" using that by (intro disjunctive_add) (auto simp: p simp del: One_nat_def)
  have "w XOR ?p = w + ?p"
  proof (cases "bit w ?n")
    case False
    then show ?thesis unfolding add [OF False] by (intro bit_word_eqI) (auto simp: bit_or_iff bit_xor_iff p simp del: One_nat_def)
  next
    case True
    then have "\<not> bit (w XOR ?p) ?n" by (simp add: bit_xor_iff p del: One_nat_def)
    from add [OF this] have "(w XOR ?p) + ?p = w" using True by (intro bit_word_eqI) (auto simp: bit_or_iff bit_xor_iff p simp del: One_nat_def)
    then have "w + ?p = (w XOR ?p) + (?p + ?p)" by (metis add.assoc)
    also have "?p + ?p = 2 ^ LENGTH('a)" by (simp flip: mult_2 power_Suc)
    finally show ?thesis by simp
  qed
  then show ?thesis by simp
qed

lemma xor_sign_bit: "uint (w XOR push_bit (LENGTH('a) - 1) 1) = sint w + 2 ^ (LENGTH('a) - 1)" for w :: "'a :: len word"
proof -
  let ?n = "LENGTH('a) - 1"
  have "sint w = signed_take_bit ?n (uint w)" by (simp add: sint_uint)
  also have "\<dots> = take_bit (Suc ?n) (uint w + 2 ^ ?n) - 2 ^ ?n" by (rule signed_take_bit_eq_take_bit_shift)
  finally have "sint w + 2 ^ ?n = take_bit LENGTH('a) (uint w + 2 ^ ?n)" by simp
  moreover have "w + push_bit ?n 1 = word_of_int (uint w + 2 ^ ?n)" by simp
  then have "uint (w + push_bit ?n 1) = take_bit LENGTH('a) (uint w + 2 ^ ?n)" by (simp only: uint_word_of_int_eq)
  ultimately show ?thesis by (simp only: xor_top)
qed

lemma take_uint: "take_bit LENGTH('a) (uint w) = uint w" for w :: "'a :: len word"
  by (simp flip: unsigned_take_bit_eq)

lemma uint_not: "uint (NOT w) = 2 ^ LENGTH('a) - 1 - uint w" for w :: "'a :: len word"
  by (simp add: unsigned_not_eq take_bit_not_eq_mask_diff mask_eq_exp_minus_1 take_uint)

text \<open>Doubles: a set sign bit flips all bits, a clear one the sign bit.\<close>

lemma uint_top: "uint w = 2 ^ 63 * of_bool (bit w 63) + uint (take_bit 63 w)" for w :: u64
proof -
  have "take_bit (Suc 63) (uint w) = 2 ^ 63 * of_bool (bit (uint w) 63) + take_bit 63 (uint w)" by (rule take_bit_Suc_from_most)
  moreover have "take_bit (Suc 63) (uint w) = uint w" using take_uint [of w] by simp
  ultimately show ?thesis by (simp add: unsigned_take_bit_eq bit_uint_iff)
qed

lemma sign_mag_parts: "sign_mag w = (if bit w 63 then - uint (take_bit 63 w) else uint (take_bit 63 w))" for w :: u64
  using uint_top [of w] by (simp add: sign_mag_def)

lemma drop_top: "drop_bit 63 w = of_bool (bit w 63)" for w :: u64
proof (rule bit_word_eqI)
  show "bit (drop_bit 63 w) n = bit (of_bool (bit w 63) :: u64) n" for n
    using bit_imp_le_length [of w "63 + n"] by (cases "n = 0") (auto simp: bit_simps bit_1_iff)
qed

lemma f64_flip: "w XOR ((- drop_bit 63 w) OR push_bit 63 1) = (if bit w 63 then NOT w else w XOR push_bit 63 1)" for w :: u64
  by (simp add: drop_top)

lemma f64_key: "uint (w XOR ((- drop_bit 63 w) OR push_bit 63 1)) = 2 ^ 63 + sign_mag w - of_bool (bit w 63)" for w :: u64
proof -
  note u = uint_top [of w]
  show ?thesis
  proof (cases "bit w 63")
    case True
    then show ?thesis using u unfolding f64_flip by (simp add: sign_mag_def uint_not)
  next
    case False
    have "sint w = uint w" using False u by (simp add: sint_uint signed_take_bit_eq_if_positive bit_uint_iff unsigned_take_bit_eq)
    then show ?thesis using False xor_sign_bit [of w] unfolding f64_flip by (simp add: sign_mag_def)
  qed
qed

lemma number_bound: "\<not> is_nan64 w \<Longrightarrow> uint (take_bit 63 w) \<le> 2047 * 2 ^ 52"
proof -
  assume n: "\<not> is_nan64 w"
  have "unat w mod 2 ^ 63 = 2 ^ 52 * (unat w div 2 ^ 52 mod 2048) + unat w mod 2 ^ 52" using mod_mult2_eq [of "unat w" "2 ^ 52" 2048] by simp
  moreover have "unat w div 2 ^ 52 mod 2048 < 2048" "unat w mod 2 ^ 52 < 2 ^ 52" by simp_all
  ultimately have "unat w mod 2 ^ 63 \<le> 2047 * 2 ^ 52" using n unfolding is_nan64_def by (cases "unat w div 2 ^ 52 mod 2048 = 2047") auto
  moreover have "unat (take_bit 63 w) = unat w mod 2 ^ 63" unfolding unsigned_take_bit_eq by (simp add: take_bit_eq_mod)
  ultimately have "unat (take_bit 63 w) \<le> 2047 * 2 ^ 52" by simp
  then have "int (unat (take_bit 63 w)) \<le> int (2047 * 2 ^ 52)" by (simp only: of_nat_le_iff)
  then show ?thesis by (simp only: uint_nat of_nat_mult of_nat_power of_nat_numeral)
qed

lemma nan_bits_nan: "nan_bits w = is_nan64 w"
proof -
  have m: "(0x7FF0000000000000 :: u64) = push_bit 52 (mask 11)" "(0x000FFFFFFFFFFFFF :: u64) = mask 52"
    by (simp_all add: mask_eq_exp_minus_1 push_bit_eq_mult)
  have "w AND push_bit 52 (mask 11) = push_bit 52 (take_bit 11 (drop_bit 52 w))"
    by (rule bit_word_eqI) (auto simp: bit_simps)
  moreover have "drop_bit 52 (push_bit 52 (take_bit 11 v)) = take_bit 11 v" for v :: u64
    by (rule bit_word_eqI) (auto simp: bit_simps)
  then have "push_bit 52 (take_bit 11 v) = push_bit 52 (take_bit 11 v') \<longleftrightarrow> take_bit 11 v = take_bit 11 v'" for v v' :: u64 by metis
  from this [of "drop_bit 52 w" "mask 11"] have "push_bit 52 (take_bit 11 (drop_bit 52 w)) = push_bit 52 (mask 11) \<longleftrightarrow> take_bit 11 (drop_bit 52 w) = mask 11"
    by simp
  moreover have "take_bit 11 (drop_bit 52 w) = mask 11 \<longleftrightarrow> unat w div 2 ^ 52 mod 2048 = 2047"
  proof -
    have "unat (take_bit 11 (drop_bit 52 w)) = unat w div 2 ^ 52 mod 2048" unfolding unsigned_take_bit_eq unat_drop_bit_eq by (simp add: drop_bit_eq_div take_bit_eq_mod)
    moreover have "unat (mask 11 :: u64) = 2047" by (simp add: mask_eq_exp_minus_1)
    ultimately show ?thesis by (metis unsigned_word_eqI)
  qed
  moreover have "w AND mask 52 = 0 \<longleftrightarrow> unat w mod 2 ^ 52 = 0"
  proof -
    have "unat (w AND mask 52) = unat w mod 2 ^ 52" unfolding take_bit_eq_mask [symmetric] unsigned_take_bit_eq by (simp add: take_bit_eq_mod)
    then show ?thesis by (metis unat_eq_zero)
  qed
  ultimately show ?thesis unfolding nan_bits_def is_nan64_def m by simp
qed

section \<open>The order of the keys\<close>

text \<open>
  When the keys tell the cells apart as the comparator does. A double must not be a negative zero, which ties with zero
  only in the comparator. With nulls at the end of the larger values the key of a null is the largest one, which a
  column of longs may hold, and which does not fit the four bytes of an int. Symbols have distinct strings.
\<close>

definition exact_column :: "column \<Rightarrow> bool \<Rightarrow> bool \<Rightarrow> nat \<Rightarrow> bool" where
  "exact_column col desc nf n \<longleftrightarrow>
    (case c_data col of
       F64s d \<Rightarrow> \<forall>i<n. d ! i \<noteq> push_bit 63 1
     | I64s d \<Rightarrow> nf \<noteq> desc \<or> \<not> c_nulls col \<or> (\<forall>i<n. d ! i \<noteq> mask 63)
     | I32s d \<Rightarrow> nf \<noteq> desc \<or> (\<forall>i<n. \<not> ray_vec_is_null col i)
     | Syms strings d \<Rightarrow> distinct strings \<and> length strings < 2 ^ 32
     | _ \<Rightarrow> True)"

text \<open>The ranks in the context are those of its column.\<close>

definition exact_keys :: "radix_encode_ctx \<Rightarrow> nat \<Rightarrow> bool" where
  "exact_keys c n \<longleftrightarrow> exact_column (n_col c) (n_desc c) (n_nulls_first c) n \<and>
    (\<forall>strings d. c_data (n_col c) = Syms strings d \<longrightarrow>
      (\<exists>mem pool tmp. build_enum_rank mem pool tmp strings d = Some (n_rank c) \<and> covers pool (length d) \<and> length tmp = unat (enum_max_id pool d) + 1))"

lemma null_flagged: "ray_vec_is_null col i \<Longrightarrow> c_nulls col \<and> sentinel_is_null (c_data col) i"
  by (auto simp: ray_vec_is_null_def split: if_splits)

lemma value_cmp_flip: "a < col_len p \<Longrightarrow> b < col_len p \<Longrightarrow> value_ok p a \<Longrightarrow> value_ok p b \<Longrightarrow> value_cmp p a b \<le> 0 \<longleftrightarrow> value_cmp p b a \<ge> 0"
  using row_order.flip_le [OF value_order, of a p b] by simp

text \<open>Enough: values in order, nulls below or above all of them.\<close>

lemma key_order_by_value:
  assumes "cell_ok (n_col c) a" "cell_ok (n_col c) b"
    and "\<And>x y. x \<in> {a, b} \<Longrightarrow> y \<in> {a, b} \<Longrightarrow> \<not> ray_vec_is_null (n_col c) x \<Longrightarrow> \<not> ray_vec_is_null (n_col c) y \<Longrightarrow>
      encode_value c x \<le> encode_value c y \<longleftrightarrow> value_cmp (c_data (n_col c)) x y \<le> 0"
    and "\<And>x y. x \<in> {a, b} \<Longrightarrow> y \<in> {a, b} \<Longrightarrow> ray_vec_is_null (n_col c) x \<Longrightarrow> \<not> ray_vec_is_null (n_col c) y \<Longrightarrow>
      if n_nulls_first c \<noteq> n_desc c then encode_value c x < encode_value c y else encode_value c y < encode_value c x"
    and "\<And>x y. x \<in> {a, b} \<Longrightarrow> y \<in> {a, b} \<Longrightarrow> ray_vec_is_null (n_col c) x \<Longrightarrow> ray_vec_is_null (n_col c) y \<Longrightarrow> encode_value c x = encode_value c y"
  shows "encode_key c a \<le> encode_key c b \<longleftrightarrow> key_cmp (n_col c) (n_desc c) (n_nulls_first c) a b \<le> 0"
proof -
  have key: "encode_key c a \<le> encode_key c b \<longleftrightarrow> (if n_desc c then encode_value c b \<le> encode_value c a else encode_value c a \<le> encode_value c b)"
    by (simp add: encode_key_def word_le_def uint_not)
  consider "ray_vec_is_null (n_col c) a" "ray_vec_is_null (n_col c) b" | "ray_vec_is_null (n_col c) a" "\<not> ray_vec_is_null (n_col c) b"
    | "\<not> ray_vec_is_null (n_col c) a" "ray_vec_is_null (n_col c) b" | "\<not> ray_vec_is_null (n_col c) a" "\<not> ray_vec_is_null (n_col c) b" by blast
  then show ?thesis
  proof cases
    case 1
    then show ?thesis using assms(5) [of a b] unfolding key by (simp add: key_cmp_def Let_def)
  next
    case 2
    then show ?thesis using assms(4) [of a b] unfolding key by (auto simp: key_cmp_def Let_def split: if_splits)
  next
    case 3
    then show ?thesis using assms(4) [of b a] unfolding key by (auto simp: key_cmp_def Let_def split: if_splits)
  next
    case 4
    have ok: "a < col_len (c_data (n_col c))" "b < col_len (c_data (n_col c))" "value_ok (c_data (n_col c)) a" "value_ok (c_data (n_col c)) b"
      using assms(1,2) 4 by (auto simp: cell_ok_def)
    show ?thesis using 4 assms(3) [of a b] assms(3) [of b a] value_cmp_flip [OF ok] value_cmp_flip [OF ok(2,1,4,3)] unfolding key by (auto simp: key_cmp_def Let_def)
  qed
qed

lemma word_extremes: "v \<noteq> 0 \<Longrightarrow> 0 < v" "v \<noteq> NOT 0 \<Longrightarrow> v < NOT 0" for v :: u64
  by (auto simp: word_neq_0_conv [symmetric] word_order.not_eq_extremum)

lemma uint_ucast_up: "uint (ucast w :: u64) = uint w" if "LENGTH('a) \<le> 64" for w :: "'a :: len word"
  using that by (intro uint_up_ucast) (simp add: is_up)

lemma key_order_apart:
  assumes "cell_ok (n_col c) a" "cell_ok (n_col c) b"
    and "\<And>x y. x \<in> {a, b} \<Longrightarrow> y \<in> {a, b} \<Longrightarrow> \<not> ray_vec_is_null (n_col c) x \<Longrightarrow> \<not> ray_vec_is_null (n_col c) y \<Longrightarrow>
      encode_value c x \<le> encode_value c y \<longleftrightarrow> value_cmp (c_data (n_col c)) x y \<le> 0"
    and "\<And>x. ray_vec_is_null (n_col c) x \<Longrightarrow> encode_value c x = null_key (n_nulls_first c) (n_desc c) highest"
    and "\<And>y. y \<in> {a, b} \<Longrightarrow> \<not> ray_vec_is_null (n_col c) y \<Longrightarrow> ray_vec_is_null (n_col c) a \<or> ray_vec_is_null (n_col c) b \<Longrightarrow>
      (if n_nulls_first c \<noteq> n_desc c then 0 < encode_value c y else encode_value c y < highest)"
  shows "encode_key c a \<le> encode_key c b \<longleftrightarrow> key_cmp (n_col c) (n_desc c) (n_nulls_first c) a b \<le> 0"
proof (rule key_order_by_value [OF assms(1,2)])
  fix x y assume xy: "x \<in> {a, b}" "y \<in> {a, b}" "ray_vec_is_null (n_col c) x" "\<not> ray_vec_is_null (n_col c) y"
  then show "if n_nulls_first c \<noteq> n_desc c then encode_value c x < encode_value c y else encode_value c y < encode_value c x"
    using assms(5) [of y] by (auto simp: assms(4) null_key_def)
next
  fix x y assume "x \<in> {a, b}" "y \<in> {a, b}" "\<not> ray_vec_is_null (n_col c) x" "\<not> ray_vec_is_null (n_col c) y"
  then show "encode_value c x \<le> encode_value c y \<longleftrightarrow> value_cmp (c_data (n_col c)) x y \<le> 0" by (rule assms(3))
qed (simp add: assms(4))

lemma value_cmp_int:
  "(if sint x < sint y then -1 else if sint x > sint y then 1 else (0 :: int)) \<le> 0 \<longleftrightarrow> sint x \<le> sint y" by auto

lemma xor_cancel: "v XOR p = q \<longleftrightarrow> v = q XOR p" for v :: "'a :: len word"
  by (auto simp: xor.assoc)

lemma i64_keys:
  assumes "c_data (n_col c) = I64s d" "cell_ok (n_col c) a" "cell_ok (n_col c) b" "exact_keys c n" "a < n" "b < n"
  shows "encode_key c a \<le> encode_key c b \<longleftrightarrow> key_cmp (n_col c) (n_desc c) (n_nulls_first c) a b \<le> 0"
proof (rule key_order_apart [OF assms(2,3)])
  have val: "encode_value c x = d ! x XOR push_bit 63 1" if "\<not> ray_vec_is_null (n_col c) x" for x
    using that by (simp add: encode_value_def assms(1))
  show "encode_value c x \<le> encode_value c y \<longleftrightarrow> value_cmp (c_data (n_col c)) x y \<le> 0"
    if "\<not> ray_vec_is_null (n_col c) x" "\<not> ray_vec_is_null (n_col c) y" for x y
    using that xor_sign_bit [of "d ! x"] xor_sign_bit [of "d ! y"] by (simp add: val assms(1) word_le_def)
  show "encode_value c x = null_key (n_nulls_first c) (n_desc c) (NOT 0)" if "ray_vec_is_null (n_col c) x" for x
    using that null_flagged [OF that] by (simp add: encode_value_def assms(1))
  fix y assume y: "y \<in> {a, b}" "\<not> ray_vec_is_null (n_col c) y" and "ray_vec_is_null (n_col c) a \<or> ray_vec_is_null (n_col c) b"
  then have nulls: "c_nulls (n_col c)" using null_flagged by blast
  have "d ! y \<noteq> push_bit 63 1" using y nulls assms(1-3) by (auto simp: ray_vec_is_null_def cell_ok_def)
  then have "0 < d ! y XOR push_bit 63 1" by (intro word_extremes) (simp add: xor_cancel)
  moreover have "d ! y XOR push_bit 63 1 < NOT 0" if "d ! y \<noteq> mask 63"
  proof (rule word_extremes, rule notI)
    assume "d ! y XOR push_bit 63 1 = NOT 0"
    then have "d ! y = NOT 0 XOR push_bit 63 1" by (simp add: xor_cancel)
    also have "\<dots> = mask 63" by (simp add: mask_eq_exp_minus_1)
    finally show False using that by simp
  qed
  ultimately show "if n_nulls_first c \<noteq> n_desc c then 0 < encode_value c y else encode_value c y < NOT 0"
    using y nulls assms(1,4-6) unfolding val [OF y(2)] exact_keys_def exact_column_def by auto
qed

lemma f64_keys:
  assumes "c_data (n_col c) = F64s d" "cell_ok (n_col c) a" "cell_ok (n_col c) b" "exact_keys c n" "a < n" "b < n"
  shows "encode_key c a \<le> encode_key c b \<longleftrightarrow> key_cmp (n_col c) (n_desc c) (n_nulls_first c) a b \<le> 0"
proof (rule key_order_apart [OF assms(2,3)])
  have number: "\<not> is_nan64 (d ! x)" if "x \<in> {a, b}" "\<not> ray_vec_is_null (n_col c) x" for x
    using that assms(1-3) by (auto simp: cell_ok_def)
  have val: "encode_value c x = d ! x XOR ((- drop_bit 63 (d ! x)) OR push_bit 63 1)" if "x \<in> {a, b}" "\<not> ray_vec_is_null (n_col c) x" for x
    using number [OF that] by (simp add: encode_value_def assms(1) nan_bits_nan)
  show "encode_value c x = null_key (n_nulls_first c) (n_desc c) (NOT 0)" if "ray_vec_is_null (n_col c) x" for x
    using null_flagged [OF that] by (simp add: encode_value_def assms(1) nan_bits_nan)
  show "encode_value c x \<le> encode_value c y \<longleftrightarrow> value_cmp (c_data (n_col c)) x y \<le> 0"
    if xy: "x \<in> {a, b}" "y \<in> {a, b}" "\<not> ray_vec_is_null (n_col c) x" "\<not> ray_vec_is_null (n_col c) y" for x y
  proof -
    have neg: "sign_mag (d ! z) < 0 \<longleftrightarrow> bit (d ! z) 63" if "z \<in> {a, b}" for z
    proof -
      have "d ! z \<noteq> push_bit 63 1" using that assms(1,4-6) by (auto simp: exact_keys_def exact_column_def)
      then have "\<not> (bit (d ! z) 63 \<and> uint (take_bit 63 (d ! z)) = 0)" using uint_top [of "d ! z"] by (auto simp: word_uint_eq_iff)
      moreover have "0 \<le> uint (take_bit 63 (d ! z))" by simp
      ultimately show ?thesis unfolding sign_mag_parts by (auto simp: less_le)
    qed
    have "encode_value c x \<le> encode_value c y \<longleftrightarrow> sign_mag (d ! x) - of_bool (bit (d ! x) 63) \<le> sign_mag (d ! y) - of_bool (bit (d ! y) 63)"
      unfolding val [OF xy(1,3)] val [OF xy(2,4)] word_le_def f64_key by simp
    also have "\<dots> \<longleftrightarrow> sign_mag (d ! x) \<le> sign_mag (d ! y)"
      using neg [OF xy(1)] neg [OF xy(2)] by (cases "bit (d ! x) 63"; cases "bit (d ! y) 63") auto
    finally show ?thesis using number [OF xy(1,3)] number [OF xy(2,4)] by (auto simp: assms(1) f64_less_def)
  qed
  fix y assume y: "y \<in> {a, b}" "\<not> ray_vec_is_null (n_col c) y" and "ray_vec_is_null (n_col c) a \<or> ray_vec_is_null (n_col c) b"
  have "0 < uint (encode_value c y) \<and> uint (encode_value c y) < 2 ^ 64 - 1"
  proof -
    obtain m where m: "uint (take_bit 63 (d ! y)) = m" "0 \<le> m" by simp
    then show ?thesis using number_bound [OF number [OF y]] unfolding val [OF y] f64_key sign_mag_parts by (auto simp: of_bool_def)
  qed
  then show "if n_nulls_first c \<noteq> n_desc c then 0 < encode_value c y else encode_value c y < NOT 0"
    unfolding word_less_def uint_not [of "0 :: u64"] by simp
qed

lemma i32_keys:
  assumes "c_data (n_col c) = I32s d" "cell_ok (n_col c) a" "cell_ok (n_col c) b" "exact_keys c n" "a < n" "b < n"
  shows "encode_key c a \<le> encode_key c b \<longleftrightarrow> key_cmp (n_col c) (n_desc c) (n_nulls_first c) a b \<le> 0"
proof (rule key_order_apart [OF assms(2,3)])
  have val: "uint (encode_value c x) = sint (d ! x) + 2 ^ 31" if "\<not> ray_vec_is_null (n_col c) x" for x
  proof -
    have "encode_value c x = ucast (d ! x XOR push_bit 31 1)" using that by (simp add: encode_value_def assms(1))
    then show ?thesis using xor_sign_bit [of "d ! x"] uint_ucast_up [of "d ! x XOR push_bit 31 1"] by simp
  qed
  show "encode_value c x \<le> encode_value c y \<longleftrightarrow> value_cmp (c_data (n_col c)) x y \<le> 0"
    if "\<not> ray_vec_is_null (n_col c) x" "\<not> ray_vec_is_null (n_col c) y" for x y
    using that by (simp add: word_le_def val assms(1))
  show "encode_value c x = null_key (n_nulls_first c) (n_desc c) (NOT 0)" if "ray_vec_is_null (n_col c) x" for x
    using that null_flagged [OF that] by (simp add: encode_value_def assms(1))
  fix y assume y: "y \<in> {a, b}" "\<not> ray_vec_is_null (n_col c) y" and nulls: "ray_vec_is_null (n_col c) a \<or> ray_vec_is_null (n_col c) b"
  then have "c_nulls (n_col c)" using null_flagged by blast
  then have "d ! y \<noteq> push_bit 31 1" using y assms(1-3) by (auto simp: ray_vec_is_null_def cell_ok_def)
  then have "uint (d ! y XOR push_bit 31 1) \<noteq> 0" by (simp add: uint_0_iff xor_cancel)
  then have "0 < uint (encode_value c y)" using val [OF y(2)] xor_sign_bit [of "d ! y"] uint_ge_0 [of "encode_value c y"] by (simp add: less_le del: uint_ge_0)
  moreover have "n_nulls_first c \<noteq> n_desc c" using nulls assms(1,4-6) by (auto simp: exact_keys_def exact_column_def)
  ultimately show "if n_nulls_first c \<noteq> n_desc c then 0 < encode_value c y else encode_value c y < NOT 0" by (simp add: word_less_def)
qed

text \<open>The narrow types leave room for the key of a null on both sides.\<close>

lemma narrow_keys:
  assumes "cell_ok (n_col c) a" "cell_ok (n_col c) b" "uint highest = int top_val + 1" "top_val < 2 ^ 32"
    and "\<And>x. \<not> ray_vec_is_null (n_col c) x \<Longrightarrow> uint (encode_value c x) = of_bool (c_nulls (n_col c)) + v x \<and> 0 \<le> v x \<and> v x < int top_val"
    and "\<And>x y. x \<in> {a, b} \<Longrightarrow> y \<in> {a, b} \<Longrightarrow> v x \<le> v y \<longleftrightarrow> value_cmp (c_data (n_col c)) x y \<le> 0"
    and "\<And>x. ray_vec_is_null (n_col c) x \<Longrightarrow> encode_value c x = null_key (n_nulls_first c) (n_desc c) highest"
  shows "encode_key c a \<le> encode_key c b \<longleftrightarrow> key_cmp (n_col c) (n_desc c) (n_nulls_first c) a b \<le> 0"
proof (rule key_order_apart [OF assms(1,2)])
  show "encode_value c x \<le> encode_value c y \<longleftrightarrow> value_cmp (c_data (n_col c)) x y \<le> 0"
    if "x \<in> {a, b}" "y \<in> {a, b}" "\<not> ray_vec_is_null (n_col c) x" "\<not> ray_vec_is_null (n_col c) y" for x y
    using assms(5) [OF that(3)] assms(5) [OF that(4)] assms(6) [OF that(1,2)] by (simp add: word_le_def)
  show "encode_value c x = null_key (n_nulls_first c) (n_desc c) highest" if "ray_vec_is_null (n_col c) x" for x by (rule assms(7) [OF that])
  fix y assume y: "\<not> ray_vec_is_null (n_col c) y" and "ray_vec_is_null (n_col c) a \<or> ray_vec_is_null (n_col c) b"
  then have "c_nulls (n_col c)" using null_flagged by blast
  then show "if n_nulls_first c \<noteq> n_desc c then 0 < encode_value c y else encode_value c y < highest"
    using assms(3) assms(5) [OF y] by (auto simp: word_less_def)
qed

lemma i16_keys:
  assumes "c_data (n_col c) = I16s d" "cell_ok (n_col c) a" "cell_ok (n_col c) b"
  shows "encode_key c a \<le> encode_key c b \<longleftrightarrow> key_cmp (n_col c) (n_desc c) (n_nulls_first c) a b \<le> 0"
proof (rule narrow_keys [OF assms(2,3), of "0x10001" "0x10000" "\<lambda>x. sint (d ! x) + 2 ^ 15"])
  fix x assume n: "\<not> ray_vec_is_null (n_col c) x"
  let ?e = "ucast (d ! x XOR push_bit 15 1) :: u64"
  have e: "uint ?e = sint (d ! x) + 2 ^ 15" using xor_sign_bit [of "d ! x"] uint_ucast_up [of "d ! x XOR push_bit 15 1"] by simp
  moreover have bound: "0 \<le> sint (d ! x) + 2 ^ 15" "sint (d ! x) + 2 ^ 15 < 2 ^ 16" using sint_ge [of "d ! x"] sint_lt [of "d ! x"] by simp_all
  moreover have "uint (?e + 1) = uint ?e + 1" using e bound by (simp add: uint_plus_if')
  ultimately show "uint (encode_value c x) = of_bool (c_nulls (n_col c)) + (sint (d ! x) + 2 ^ 15) \<and> 0 \<le> sint (d ! x) + 2 ^ 15 \<and> sint (d ! x) + 2 ^ 15 < int 0x10000"
    using n by (simp add: encode_value_def assms(1))
qed (use null_flagged in \<open>auto simp: encode_value_def assms(1)\<close>)

lemma byte_keys:
  assumes "c_data (n_col c) = Byte1s d" "cell_ok (n_col c) a" "cell_ok (n_col c) b"
  shows "encode_key c a \<le> encode_key c b \<longleftrightarrow> key_cmp (n_col c) (n_desc c) (n_nulls_first c) a b \<le> 0"
proof (rule narrow_keys [OF assms(2,3), of "0x101" "0x100" "\<lambda>x. uint (d ! x)"])
  fix x assume n: "\<not> ray_vec_is_null (n_col c) x"
  let ?e = "ucast (d ! x) :: u64"
  have e: "uint ?e = uint (d ! x)" using uint_ucast_up [of "d ! x"] by simp
  moreover have bound: "0 \<le> uint (d ! x)" "uint (d ! x) < 2 ^ 8" using uint_lt2p [of "d ! x"] by simp_all
  moreover have "uint (?e + 1) = uint ?e + 1" using e bound by (simp add: uint_plus_if')
  ultimately show "uint (encode_value c x) = of_bool (c_nulls (n_col c)) + uint (d ! x) \<and> 0 \<le> uint (d ! x) \<and> uint (d ! x) < int 0x100"
    using n by (simp add: encode_value_def assms(1))
qed (use null_flagged in \<open>auto simp: encode_value_def assms(1) word_less_def word_le_def\<close>)

lemma sym_keys:
  assumes "c_data (n_col c) = Syms strings d" "cell_ok (n_col c) a" "cell_ok (n_col c) b" "exact_keys c n"
  shows "encode_key c a \<le> encode_key c b \<longleftrightarrow> key_cmp (n_col c) (n_desc c) (n_nulls_first c) a b \<le> 0"
proof (rule key_order_apart [OF assms(2,3)])
  have never: "\<not> ray_vec_is_null (n_col c) x" for x by (simp add: ray_vec_is_null_def assms(1))
  show "encode_value c x = null_key (n_nulls_first c) (n_desc c) 0" if "ray_vec_is_null (n_col c) x" for x using that never by blast
  show "if n_nulls_first c \<noteq> n_desc c then 0 < encode_value c y else encode_value c y < 0"
    if "ray_vec_is_null (n_col c) a \<or> ray_vec_is_null (n_col c) b" for y using that never by blast
  fix x y assume xy: "x \<in> {a, b}" "y \<in> {a, b}"
  obtain mem pool tmp where r: "build_enum_rank mem pool tmp strings d = Some (n_rank c)" "covers pool (length d)"
      "length tmp = unat (enum_max_id pool d) + 1" and st: "distinct strings" "length strings < 2 ^ 32"
    using assms(1,4) by (auto simp: exact_keys_def exact_column_def)
  let ?raw = "\<lambda>x. unat (word_of_int (d ! x) :: u32)"
  have cell: "x < length d \<and> 0 \<le> d ! x \<and> d ! x < int (length strings)" if "x \<in> {a, b}" for x
    using that assms(1-3) never by (auto simp: cell_ok_def ray_sym_str_def split: if_splits)
  have raw: "?raw x = nat (d ! x)" if "x \<in> {a, b}" for x
    using cell [OF that] st(2) by (simp add: unsigned_of_int take_bit_int_eq_self)
  have le: "?raw x \<le> unat (enum_max_id pool d)" if "x \<in> {a, b}" for x
    using max_id_ge [OF r(2)] cell [OF that] by (simp add: word_le_nat_alt)
  have str: "id_string strings (?raw x) = strings ! nat (d ! x)" "ray_sym_str strings (d ! x) = Some (strings ! nat (d ! x))" if "x \<in> {a, b}" for x
    using cell [OF that] raw [OF that] by (auto simp: id_string_def ray_sym_str_def)
  have small: "n_rank c ! ?raw x < 2 ^ 64" if "x \<in> {a, b}" for x
    using build_enum_rank_order(1) [OF r(1,3) le [OF that] le [OF that]] unsigned_less [of "enum_max_id pool d", where 'a = nat] by simp
  have "encode_value c x \<le> encode_value c y \<longleftrightarrow> \<not> n_rank c ! ?raw y < n_rank c ! ?raw x"
    using small [OF xy(1)] small [OF xy(2)] by (simp add: encode_value_def assms(1) word_le_nat_alt unat_of_nat not_less)
  also have "\<dots> \<longleftrightarrow> strings ! nat (d ! x) \<le> strings ! nat (d ! y)"
    using build_enum_rank_order(2) [OF r(1,3) le [OF xy(2)] le [OF xy(1)]] cell [OF xy(1)] cell [OF xy(2)] st(1)
    unfolding str(1) [OF xy(1)] str(1) [OF xy(2)] by (auto simp: not_less nth_eq_iff_index_eq raw [OF xy(1)] raw [OF xy(2)])
  also have "\<dots> \<longleftrightarrow> value_cmp (c_data (n_col c)) x y \<le> 0"
    using ray_str_cmp_lex [of "strings ! nat (d ! x)" "strings ! nat (d ! y)"] str(2) [OF xy(1)] str(2) [OF xy(2)]
    by (auto simp: assms(1) cmp_of_def sgn_if split: if_splits)
  finally show "encode_value c x \<le> encode_value c y \<longleftrightarrow> value_cmp (c_data (n_col c)) x y \<le> 0" .
qed

fun radix_type :: "payload \<Rightarrow> bool" where
  "radix_type (F64s _) = True" | "radix_type (I64s _) = True" | "radix_type (I32s _) = True" | "radix_type (I16s _) = True"
| "radix_type (Byte1s _) = True" | "radix_type (Syms _ _) = True" | "radix_type _ = False"

text \<open>The keys are in the order of the comparator.\<close>

lemma keys_in_order:
  assumes "radix_type (c_data (n_col c))" "cell_ok (n_col c) a" "cell_ok (n_col c) b" "exact_keys c n" "a < n" "b < n"
  shows "encode_key c a \<le> encode_key c b \<longleftrightarrow> key_cmp (n_col c) (n_desc c) (n_nulls_first c) a b \<le> 0"
  using assms i64_keys f64_keys i32_keys i16_keys byte_keys sym_keys by (cases "c_data (n_col c)") simp_all

text \<open>Above the bytes the radix sort looks at all keys agree.\<close>

lemma high_zero: "uint e < 2 ^ m \<Longrightarrow> drop_bit m e = 0 \<and> drop_bit m (NOT e) = drop_bit m (NOT 0)" for e :: u64
proof -
  assume "uint e < 2 ^ m"
  then have "take_bit m (uint e) = uint e" by (simp add: take_bit_int_eq_self)
  then have "take_bit m e = e" by (metis unsigned_take_bit_eq word_uint_eq_iff)
  then have "\<not> bit e (m + k)" for k by (metis bit_take_bit_iff not_add_less1)
  then show ?thesis by (auto intro!: bit_word_eqI simp: bit_simps)
qed

lemma value_small:
  assumes "radix_type (c_data (n_col c))" "exact_keys c n" "a < n" "key_nbytes_max (n_col c) < 8"
  shows "uint (encode_value c a) < 2 ^ (8 * key_nbytes_max (n_col c))"
proof (cases "c_data (n_col c)")
  case (I32s d)
  have "uint (ucast (d ! a XOR push_bit 31 1) :: u64) < 2 ^ 32" using uint_ucast_up [of "d ! a XOR push_bit 31 1"] uint_lt2p [of "d ! a XOR push_bit 31 1"] by simp
  then show ?thesis using I32s assms(2,3) by (auto simp: encode_value_def key_nbytes_max_def exact_keys_def exact_column_def null_key_def Let_def)
next
  case (I16s d)
  have b: "uint (ucast (d ! a XOR push_bit 15 1) :: u64) < 2 ^ 16" using uint_ucast_up [of "d ! a XOR push_bit 15 1"] uint_lt2p [of "d ! a XOR push_bit 15 1"] by simp
  moreover from b have "uint ((ucast (d ! a XOR push_bit 15 1) :: u64) + 1) < 2 ^ 24" by (simp add: uint_plus_if')
  ultimately show ?thesis using I16s by (auto simp: encode_value_def key_nbytes_max_def null_key_def Let_def)
next
  case (Byte1s d)
  have b: "uint (ucast (d ! a) :: u64) < 2 ^ 8" using uint_ucast_up [of "d ! a"] uint_lt2p [of "d ! a"] by simp
  moreover from b have "uint ((ucast (d ! a) :: u64) + 1) < 2 ^ 16" by (simp add: uint_plus_if')
  ultimately show ?thesis using Byte1s by (auto simp: encode_value_def key_nbytes_max_def null_key_def Let_def)
qed (use assms(1,4) in \<open>simp_all add: key_nbytes_max_def\<close>)

lemma keys_agree_above:
  assumes "radix_type (c_data (n_col c))" "exact_keys c n" "a < n" "b < n"
  shows "drop_bit (8 * key_nbytes_max (n_col c)) (encode_key c a) = drop_bit (8 * key_nbytes_max (n_col c)) (encode_key c b)"
proof (cases "key_nbytes_max (n_col c) < 8")
  case True
  then show ?thesis using value_small [OF assms(1,2)] assms(3,4) high_zero unfolding encode_key_def by (cases "n_desc c") simp_all
next
  case False
  then have "64 \<le> 8 * key_nbytes_max (n_col c)" by simp
  then show ?thesis by (auto intro!: bit_word_eqI simp: bit_simps dest: bit_imp_le_length)
qed

section \<open>The sort of a column\<close>

text \<open>
  What the sort of a single column meets outside: memory for ranks and keys with what it holds, the calls of the
  dispatches, and the surroundings of the two sorts. \<open>v_mem\<close> says whether the indices and the result could be
  allocated. A string column of more than 64 rows has a sort of its own, \<open>sort_str_msd_inplace\<close>, which is not modelled:
  \<open>v_str_msd\<close> stands for what it returns, \<open>None\<close> where it gives up for want of memory.
\<close>

record column_env =
  v_mem :: "bool \<times> bool"
  v_str_msd :: "column \<Rightarrow> bool \<Rightarrow> bool \<Rightarrow> nat \<Rightarrow> nat list option"
  v_rank_mem :: bool
  v_rank_pool :: "calls option"
  v_rank_tmp :: "nat list"
  v_encode :: "calls option"
  v_keys :: "u64 list option"
  v_indices :: "nat list"
  v_sort :: sort_env
  v_merge :: merge_env

definition column_rank :: "column_env \<Rightarrow> column \<Rightarrow> nat list option" where
  "column_rank env col = (case c_data col of
     Syms strings d \<Rightarrow> build_enum_rank (v_rank_mem env) (v_rank_pool env) (v_rank_tmp env) strings d | _ \<Rightarrow> Some [])"

definition takes_str_msd :: "column \<Rightarrow> nat \<Rightarrow> bool" where
  "takes_str_msd col nrows \<longleftrightarrow> nrows > 64 \<and> (case c_data col of Strs _ _ \<Rightarrow> True | _ \<Rightarrow> False)"

text \<open>The allocations around a sort: of the indices before it and of the result after it.\<close>

definition allocated :: "bool \<times> bool \<Rightarrow> 'a outcome \<Rightarrow> 'a outcome" where
  "allocated mem r = (if fst mem then case r of Ret ys \<Rightarrow> if snd mem then Ret ys else Oom | _ \<Rightarrow> r else Oom)"

definition sort_column :: "column_env \<Rightarrow> column \<Rightarrow> bool list option \<Rightarrow> bool list option \<Rightarrow> nat \<Rightarrow> nat list outcome" where
  "sort_column env col descs nulls_first nrows =
    (let desc = (case descs of Some ds \<Rightarrow> ds ! 0 | None \<Rightarrow> False);
         nf = (case nulls_first of Some ns \<Rightarrow> ns ! 0 | None \<Rightarrow> \<not> desc);
         fallback = sort_fallback (v_merge env) [Some col] descs nulls_first nrows
     in allocated (v_mem env)
       (if takes_str_msd col nrows
        then case v_str_msd env col desc nf nrows of Some idx \<Rightarrow> Ret idx | None \<Rightarrow> fallback
        else if nrows > 64 \<and> radix_type (c_data col)
        then case (column_rank env col, v_keys env) of
               (Some rank, Some keys0) \<Rightarrow>
                 let c = \<lparr>n_col = col, n_desc = desc, n_nulls_first = nf, n_rank = rank\<rparr>;
                     keys = fst (encode_column (v_encode env) c nrows (keys0, v_indices env))
                 in (case sort_single_key (v_sort env) (key_nbytes_max col) keys of
                       Some sorted_idx \<Rightarrow> Ret (map nat sorted_idx)
                     | None \<Rightarrow> fallback)
             | _ \<Rightarrow> fallback
        else fallback))"

lemma allocated_fine [simp]: "allocated (True, True) r = r"
  by (simp add: allocated_def split: outcome.split)

lemma encode_calls:
  "fold (radix_encode_fn c) cs (keys, indices) =
    (let rows = concat (map (\<lambda>(wid, start, stop). [start..<stop]) cs)
     in (fold (\<lambda>i k. k[i := encode_key c i]) rows keys, fold (\<lambda>i x. x[i := i]) rows indices))"
  by (induction cs arbitrary: keys indices) (auto simp: radix_encode_fn_def Let_def)

lemma encode_column_keys:
  assumes "covers pool n" "length keys = n" "length indices = n"
  shows "encode_column pool c n (keys, indices) = (map (encode_key c) [0..<n], [0..<n])"
proof -
  have all: "fold (\<lambda>i k. k[i := f i]) rows k = map f [0..<n]" if "set rows = {0..<n}" "length k = n" for f :: "nat \<Rightarrow> 'b" and rows k
    unfolding write_rows that by (rule map_cong) auto
  show ?thesis
  proof (cases pool)
    case None
    then show ?thesis using all [of "[0..<n]" keys] all [of "[0..<n]" indices "\<lambda>i. i"] assms by (simp add: encode_column_def radix_encode_fn_def)
  next
    case (Some p)
    then obtain nw cs where p: "pool = Some (nw, cs)" by (cases p) simp
    then have "mset (concat (map (\<lambda>(wid, start, stop). [start..<stop]) cs)) = mset [0..<n]" using assms(1) unfolding covers_def by simp
    from mset_eq_setD [OF this] have rows: "set (concat (map (\<lambda>(wid, start, stop). [start..<stop]) cs)) = {0..<n}" by (simp only: set_upt)
    show ?thesis using p all [OF rows assms(2)] all [OF rows assms(3), of "\<lambda>i. i"] by (simp add: encode_column_def encode_calls Let_def)
  qed
qed

lemma sort_key_rows:
  fixes f :: "nat \<Rightarrow> 'k :: linorder"
  assumes "row_order cmp R" "{..<n} \<subseteq> R" "\<And>a b. a < n \<Longrightarrow> b < n \<Longrightarrow> f a \<le> f b \<longleftrightarrow> cmp a b \<le> 0"
  shows "rows_in_order cmp n (sort_key f [0..<n])"
proof (rule stable_rows [OF assms(1,2)])
  let ?ys = "sort_key f [0..<n]"
  have mem: "x \<in> set ?ys \<Longrightarrow> x < n" for x by simp
  have "sorted_wrt (\<lambda>a b. f a \<le> f b) ?ys" using sorted_sort_key [of f "[0..<n]"] by (simp add: sorted_map)
  then have "sorted_wrt (\<lambda>a b. cmp a b \<le> 0) ?ys" by (rule sorted_wrt_mono_rel [rotated]) (use assms(3) mem in auto)
  moreover have "filter (\<lambda>y. cmp z y = 0) ?ys = filter (\<lambda>y. cmp z y = 0) [0..<n]" if z: "z \<in> R" for z
  proof (cases "\<exists>x<n. cmp z x = 0")
    case True
    then obtain x where x: "x < n" "cmp z x = 0" by blast
    have R: "y \<in> R" if "y < n" for y using that assms(2) by auto
    have tie: "cmp z y = 0 \<longleftrightarrow> f y = f x" if y: "y < n" for y
    proof -
      have "cmp z y = 0 \<longleftrightarrow> cmp x y = 0"
        using row_order.above_tie [OF assms(1)] row_order.flip [OF assms(1)] row_order.flip_tie [OF assms(1)] row_order.cmp_trans [OF assms(1)]
          x z y R by (metis linorder_cases order_refl order.asym le_less)
      also have "\<dots> \<longleftrightarrow> f y = f x"
        using assms(3) [OF x(1) y] assms(3) [OF y x(1)] row_order.flip_le [OF assms(1) R [OF x(1)] R [OF y]] row_order.flip_tie [OF assms(1) R [OF x(1)] R [OF y]] by auto
      finally show ?thesis .
    qed
    have "filter (\<lambda>y. cmp z y = 0) xs = filter (\<lambda>y. f y = f x) xs" if "set xs \<subseteq> {..<n}" for xs
      using that tie by (intro filter_cong) auto
    then show ?thesis using sort_key_stable [of f "f x" "[0..<n]"] by (simp add: atLeast0LessThan)
  next
    case False
    then show ?thesis by (auto simp: filter_empty_conv)
  qed
  ultimately show "stable_of cmp R [0..<n] ?ys" by (simp add: stable_of_def)
qed

text \<open>Some row is above an earlier one, or no two rows are equal.\<close>

definition not_falling :: "(nat \<Rightarrow> nat \<Rightarrow> int) \<Rightarrow> nat \<Rightarrow> bool" where
  "not_falling cmp n \<longleftrightarrow> (\<exists>a<n. \<exists>b<n. a < b \<and> cmp a b < 0) \<or> (\<forall>a<n. \<forall>b<n. a < b \<longrightarrow> cmp a b \<noteq> 0)"

lemma not_falling_keys:
  fixes f :: "nat \<Rightarrow> 'k :: linorder"
  assumes "row_order cmp R" "{..<n} \<subseteq> R" "\<And>a b. a < n \<Longrightarrow> b < n \<Longrightarrow> f a \<le> f b \<longleftrightarrow> cmp a b \<le> 0" "not_falling cmp n"
  shows "distinct (map f [0..<n]) \<or> \<not> sorted (rev (map f [0..<n]))"
proof (cases "\<exists>a<n. \<exists>b<n. a < b \<and> cmp a b < 0")
  case True
  then obtain a b where ab: "a < b" "b < n" "cmp a b < 0" by blast
  moreover from this have "a \<in> R" "b \<in> R" using assms(2) by auto
  ultimately have "\<not> f b \<le> f a" using assms(3) [of b a] row_order.flip [OF assms(1), of a b] by simp
  then show ?thesis using sorted_rev_nth_mono [of "map f [0..<n]" a b] ab by auto
next
  case False
  have "f a \<noteq> f b" if "a < b" "b < n" for a b
  proof
    assume "f a = f b"
    then have "cmp a b \<le> 0" "cmp b a \<le> 0" using assms(3) [of a b] assms(3) [of b a] that by simp_all
    moreover have "a \<in> R" "b \<in> R" using that assms(2) by auto
    ultimately have "cmp a b = 0" using row_order.flip_le [OF assms(1), of b a] by simp
    then show False using assms(4) False that by (auto simp: not_falling_def)
  qed
  then have "inj_on f {0..<n}" by (metis atLeastLessThan_iff inj_onI linorder_cases)
  then show ?thesis by (simp add: distinct_map)
qed

lemma single_key_cmp:
  "sort_cmp (fallback_ctx [Some col] descs nulls_first) a b =
    key_cmp col (case descs of Some ds \<Rightarrow> ds ! 0 | None \<Rightarrow> False)
      (case nulls_first of Some ns \<Rightarrow> ns ! 0 | None \<Rightarrow> \<not> (case descs of Some ds \<Rightarrow> ds ! 0 | None \<Rightarrow> False)) a b"
  by (auto simp: sort_cmp_def fallback_ctx_def key_desc_def key_nf_def Let_def split: option.splits)

text \<open>What memory and pool owe the sort of a column.\<close>

definition column_env_ok :: "column_env \<Rightarrow> column \<Rightarrow> bool" where
  "column_env_ok env col \<longleftrightarrow>
    (let n = col_len (c_data col)
     in v_mem env = (True, True) \<and> merge_env_ok (v_merge env) n \<and> env_ok (v_sort env) n \<and> covers (v_encode env) n \<and> length (v_indices env) = n \<and>
        (\<exists>keys. v_keys env = Some keys \<and> length keys = n) \<and>
        (\<forall>strings d. c_data col = Syms strings d \<longrightarrow> covers (v_rank_pool env) n \<and> length (v_rank_tmp env) = unat (enum_max_id (v_rank_pool env) d) + 1))"

text \<open>All rows, in the order of the comparator, ties in any order.\<close>

definition rows_sorted :: "(nat \<Rightarrow> nat \<Rightarrow> int) \<Rightarrow> nat \<Rightarrow> nat list \<Rightarrow> bool" where
  "rows_sorted cmp n idx \<longleftrightarrow> mset idx = mset [0..<n] \<and> sorted_wrt (\<lambda>a b. cmp a b \<le> 0) idx"

lemma rows_in_order_sorted: "rows_in_order cmp n ys \<Longrightarrow> rows_sorted cmp n ys"
  unfolding rows_in_order_def rows_sorted_def by (auto elim: sorted_wrt_mono_rel [rotated])

lemma reverse_rows_sorted:
  fixes f :: "nat \<Rightarrow> 'k :: linorder"
  assumes "\<And>a b. a < n \<Longrightarrow> b < n \<Longrightarrow> f a \<le> f b \<longleftrightarrow> cmp a b \<le> 0" "sorted (rev (map f [0..<n]))"
  shows "rows_sorted cmp n (map (\<lambda>i. n - 1 - i) [0..<n])"
proof -
  have r: "map (\<lambda>i. n - 1 - i) [0..<n] = rev [0..<n]" by (rule nth_equalityI) (simp_all add: rev_nth)
  have "cmp (rev [0..<n] ! p) (rev [0..<n] ! q) \<le> 0" if "p < q" "q < n" for p q
    using that sorted_rev_nth_mono [OF assms(2), of "n - Suc q" "n - Suc p"] assms(1) [of "n - Suc p" "n - Suc q"] by (simp add: rev_nth)
  then show ?thesis unfolding rows_sorted_def r by (simp add: sorted_wrt_iff_nth_less)
qed

text \<open>By keys the column is sorted on every path, ties by row number unless it falls.\<close>

lemma keys_sort_rows:
  assumes "row_order cmp R" "{..<n} \<subseteq> R" "env_ok env n" "n < 2 ^ 32"
    and le: "\<And>a b. a < n \<Longrightarrow> b < n \<Longrightarrow> f a \<le> f b \<longleftrightarrow> cmp a b \<le> 0"
    and high: "\<And>a. a < n \<Longrightarrow> drop_bit (8 * type_max) (f a) = drop_bit (8 * type_max) (f 0)"
  shows "\<exists>ys. sort_single_key env type_max (map f [0..<n]) = Some (map int ys) \<and> rows_sorted cmp n ys \<and> (not_falling cmp n \<longrightarrow> rows_in_order cmp n ys)"
proof -
  let ?keys = "map f [0..<n]" and ?st = "sort_key f [0..<n]"
  have order: "rows_in_order cmp n ?st" by (rule sort_key_rows [OF assms(1,2) le])
  have st: "stable_order ?keys = map int ?st" unfolding stable_order_def by (auto intro!: arg_cong [of _ _ "map int"] sort_key_same)
  have "drop_bit (8 * type_max) k = drop_bit (8 * type_max) (?keys ! 0)" if k: "k \<in> set ?keys" for k
  proof -
    obtain a where a: "a < n" "k = f a" using k by auto
    then have "?keys ! 0 = f 0" by simp
    then show ?thesis using high [OF a(1)] a(2) by simp
  qed
  moreover have "map (\<lambda>i. int (length ?keys - 1 - i)) [0..<length ?keys] = map int (map (\<lambda>i. n - 1 - i) [0..<n])" by simp
  moreover have "env_ok env (length ?keys)" "length ?keys < 2 ^ 32" using assms(3,4) by simp_all
  ultimately consider "sort_single_key env type_max ?keys = Some (stable_order ?keys)"
    | "sorted (rev ?keys)" "sort_single_key env type_max ?keys = Some (map int (map (\<lambda>i. n - 1 - i) [0..<n]))"
    using single_key_cases [of env ?keys type_max] by metis
  then show ?thesis
  proof cases
    case 1
    then show ?thesis using st order rows_in_order_sorted [OF order] by auto
  next
    case 2
    have "rows_in_order cmp n (map (\<lambda>i. n - 1 - i) [0..<n])" if "not_falling cmp n"
    proof -
      have "distinct ?keys" using not_falling_keys [OF assms(1,2) le that] 2(1) by blast
      then have "map int ?st = map int (map (\<lambda>i. n - 1 - i) [0..<n])" using stable_reverse [OF 2(1)] st by (simp add: comp_def)
      then show ?thesis using order by (simp only: inj_map_eq_map [OF inj_of_nat])
    qed
    then show ?thesis using 2(2) reverse_rows_sorted [OF le 2(1)] by blast
  qed
qed

lemma sort_column_rows:
  fixes col :: column and descs nulls_first :: "bool list option"
  defines "n \<equiv> col_len (c_data col)" and "desc \<equiv> (case descs of Some ds \<Rightarrow> ds ! 0 | None \<Rightarrow> False)"
  defines "nf \<equiv> (case nulls_first of Some ns \<Rightarrow> ns ! 0 | None \<Rightarrow> \<not> desc)" and "cmp \<equiv> sort_cmp (fallback_ctx [Some col] descs nulls_first)"
  assumes env: "column_env_ok env col" and n: "n < 2 ^ 32" and cells: "\<And>a. a < n \<Longrightarrow> cell_ok col a" and col: "exact_column col desc nf n"
    and str: "\<not> takes_str_msd col n"
  shows "\<exists>ys. sort_column env col descs nulls_first n = Ret ys \<and> rows_sorted cmp n ys \<and> (not_falling cmp n \<longrightarrow> rows_in_order cmp n ys)"
proof -
  have sub: "{..<n} \<subseteq> comparable (fallback_ctx [Some col] descs nulls_first)" by (rule comparable_rows) (use cells in auto)
  have mem: "v_mem env = (True, True)" using env by (simp add: column_env_ok_def Let_def)
  show ?thesis
  proof (cases "n > 64 \<and> radix_type (c_data col) \<and> column_rank env col \<noteq> None")
    case False
    then have "sort_column env col descs nulls_first n = merge_sort cmp (v_merge env) n"
      unfolding sort_column_def Let_def sort_fallback_def cmp_def mem using str by (auto split: option.splits)
    moreover have "merge_env_ok (v_merge env) n" using env by (simp add: column_env_ok_def n_def Let_def)
    ultimately show ?thesis
      using merge_sort_stable_rows [OF sc.row_order_axioms sub, of "v_merge env"] unfolding cmp_def by (metis rows_in_order_sorted)
  next
    case True
    then obtain rank keys0 where r: "column_rank env col = Some rank" "v_keys env = Some keys0" "length keys0 = n"
      using env unfolding column_env_ok_def n_def by (auto simp: Let_def)
    let ?c = "\<lparr>n_col = col, n_desc = desc, n_nulls_first = nf, n_rank = rank\<rparr>"
    have "\<exists>mem pool tmp. build_enum_rank mem pool tmp strings d = Some rank \<and> covers pool (length d) \<and> length tmp = unat (enum_max_id pool d) + 1"
      if "c_data col = Syms strings d" for strings d
      using that env r(1) unfolding column_env_ok_def column_rank_def Let_def
      by (intro exI [of _ "v_rank_mem env"] exI [of _ "v_rank_pool env"] exI [of _ "v_rank_tmp env"]) simp
    then have exact: "exact_keys ?c n" using col by (simp add: exact_keys_def)
    have le: "encode_key ?c a \<le> encode_key ?c b \<longleftrightarrow> cmp a b \<le> 0" if "a < n" "b < n" for a b
      using keys_in_order [of ?c a b n] True cells exact that single_key_cmp [of col descs nulls_first a b]
      unfolding cmp_def nf_def desc_def by simp
    have "drop_bit (8 * key_nbytes_max col) (encode_key ?c a) = drop_bit (8 * key_nbytes_max col) (encode_key ?c 0)" if "a < n" for a
      using keys_agree_above [of ?c n a 0] True exact that by simp
    from keys_sort_rows [OF sc.row_order_axioms sub _ n, of "v_sort env", OF _ le [unfolded cmp_def] this] env
    obtain ys where ys: "sort_single_key (v_sort env) (key_nbytes_max col) (map (encode_key ?c) [0..<n]) = Some (map int ys)"
        "rows_sorted cmp n ys" "not_falling cmp n \<longrightarrow> rows_in_order cmp n ys"
      unfolding cmp_def column_env_ok_def n_def Let_def by blast
    have "sort_column env col descs nulls_first n = Ret ys"
      using True r ys(1) encode_column_keys [of "v_encode env" n keys0 "v_indices env" ?c] env
        str
      unfolding sort_column_def Let_def mem desc_def nf_def column_env_ok_def n_def by (simp add: comp_def)
    then show ?thesis using ys(2,3) by blast
  qed
qed

text \<open>
  C37. The sort of a single column returns all rows in the order of \<open>sort_cmp\<close>; and unless the column falls all the way with
  equal rows in it, it returns exactly what the comparison sort returns, equal rows by row number. This holds ascending and
  descending, nulls first and last, for fewer than \<open>2 ^ 32\<close> rows, where memory suffices, the pool cuts its tasks at the grain,
  and the encoding is exact. String columns are in it up to 64 rows, which are sorted by comparison; the sort of longer ones is
  not modelled.
\<close>

theorem sort_column_order:
  fixes col :: column and descs nulls_first :: "bool list option"
  defines "n \<equiv> col_len (c_data col)" and "desc \<equiv> (case descs of Some ds \<Rightarrow> ds ! 0 | None \<Rightarrow> False)"
  defines "nf \<equiv> (case nulls_first of Some ns \<Rightarrow> ns ! 0 | None \<Rightarrow> \<not> desc)" and "cmp \<equiv> sort_cmp (fallback_ctx [Some col] descs nulls_first)"
  assumes "column_env_ok env col" "n < 2 ^ 32" "\<And>a. a < n \<Longrightarrow> cell_ok col a" "exact_column col desc nf n" "\<not> takes_str_msd col n"
  shows "\<exists>ys. sort_column env col descs nulls_first n = Ret ys \<and> rows_sorted cmp n ys \<and>
    (not_falling cmp n \<longrightarrow> rows_in_order cmp n ys \<and> sort_fallback (v_merge env) [Some col] descs nulls_first n = Ret ys)"
proof -
  have sub: "{..<n} \<subseteq> comparable (fallback_ctx [Some col] descs nulls_first)" by (rule comparable_rows) (use assms(7) in auto)
  have "merge_env_ok (v_merge env) n" using assms(5) by (simp add: column_env_ok_def n_def Let_def)
  then obtain ys where ys: "sort_fallback (v_merge env) [Some col] descs nulls_first n = Ret ys" "rows_in_order cmp n ys"
    using merge_sort_stable_rows [OF sc.row_order_axioms sub] unfolding sort_fallback_def cmp_def by blast
  obtain zs where "sort_column env col descs nulls_first n = Ret zs" "rows_sorted cmp n zs" "not_falling cmp n \<longrightarrow> rows_in_order cmp n zs"
    using sort_column_rows [OF assms(5-9) [unfolded n_def nf_def desc_def]] unfolding n_def cmp_def by blast
  moreover have "zs = ys" if "rows_in_order cmp n zs" using rows_unique [OF sc.row_order_axioms sub] that ys(2) unfolding cmp_def by blast
  ultimately show ?thesis using ys(1) by blast
qed

text \<open>Two thousand longs in two runs that repeat, with a null, sorted by four workers or by their keys.\<close>

definition sample_column :: column where
  "sample_column = \<lparr>c_data = I64s (map (\<lambda>i. if i = 7 then push_bit 63 1 else of_nat (i mod 1000)) [0..<2000]), c_nulls = True\<rparr>"

definition sample_column_env :: column_env where
  "sample_column_env = \<lparr>v_mem = (True, True), v_str_msd = (\<lambda>_ _ _ _. None), v_rank_mem = True, v_rank_pool = None, v_rank_tmp = [], v_encode = None, v_keys = Some (replicate 2000 0),
    v_indices = replicate 2000 0, v_sort = sample_env 2000, v_merge = sample_merge_env 2000\<rparr>"

lemma sample_column_facts: "col_len (c_data sample_column) = 2000" "cell_ok sample_column a \<longleftrightarrow> a < 2000" "exact_column sample_column desc (\<not> desc) n"
  by (simp_all add: sample_column_def cell_ok_def exact_column_def)

lemma sample_column_env_ok: "column_env_ok sample_column_env sample_column"
  using sample_merge_env_ok [of 2000] sample_env_ok [of 2000] unfolding column_env_ok_def Let_def sample_column_facts(1)
  by (simp add: sample_column_env_def covers_def) (simp add: sample_column_def)

theorem sort_column_order_witness:
  "\<exists>ys. sort_column sample_column_env sample_column None None 2000 = Ret ys \<and>
    sort_fallback (v_merge sample_column_env) [Some sample_column] None None 2000 = Ret ys \<and>
    rows_in_order (sort_cmp (fallback_ctx [Some sample_column] None None)) 2000 ys"
proof -
  let ?cmp = "sort_cmp (fallback_ctx [Some sample_column] None None)"
  have "?cmp 0 1 < 0"
    unfolding single_key_cmp by (simp add: key_cmp_def Let_def sample_column_def ray_vec_is_null_def)
  then have "not_falling ?cmp 2000" unfolding not_falling_def by (intro disjI1 exI [of _ 0] exI [of _ 1] conjI) simp_all
  moreover have "\<not> takes_str_msd sample_column 2000" by (simp add: takes_str_msd_def sample_column_def)
  ultimately show ?thesis
    using sort_column_order [OF sample_column_env_ok, of None None] sample_column_facts sample_column_facts(3) [of False 2000] by auto
qed

section \<open>Back to values\<close>

fun gather :: "payload \<Rightarrow> nat list \<Rightarrow> payload" where
  "gather (F64s d) rows = F64s (map ((!) d) rows)" | "gather (F32s d) rows = F32s (map ((!) d) rows)" | "gather (I64s d) rows = I64s (map ((!) d) rows)"
| "gather (I32s d) rows = I32s (map ((!) d) rows)" | "gather (I16s d) rows = I16s (map ((!) d) rows)" | "gather (Byte1s d) rows = Byte1s (map ((!) d) rows)"
| "gather p rows = p"

text \<open>The columns whose keys are turned back into values; narrow ones only without nulls.\<close>

definition decodable :: "column \<Rightarrow> bool" where
  "decodable col \<longleftrightarrow> (case c_data col of I64s _ \<Rightarrow> True | F64s _ \<Rightarrow> True | I32s _ \<Rightarrow> True | I16s _ \<Rightarrow> \<not> c_nulls col | Byte1s _ \<Rightarrow> \<not> c_nulls col | _ \<Rightarrow> False)"

lemma ucast_back: "ucast (ucast w :: u64) = w" if "LENGTH('a) \<le> 64" for w :: "'a :: len word"
  using that by (intro ucast_up_ucast_id) (simp add: is_up)

lemma decode_f64_key: "decode_f64 False (w XOR ((- drop_bit 63 w) OR push_bit 63 1)) = w"
proof (cases "bit w 63")
  case True
  then have "\<not> bit (NOT w) 63" by (simp add: bit_not_iff)
  then show ?thesis using True by (simp add: decode_f64_def f64_flip drop_top)
next
  case False
  then have "bit (w XOR push_bit 63 1) 63" by (simp add: bit_xor_iff bit_push_bit_iff del: push_bit_of_1)
  then show ?thesis using False by (simp add: decode_f64_def f64_flip drop_top xor.assoc)
qed

lemma decode_f64_desc: "decode_f64 True (NOT k) = decode_f64 False k"
  by (simp add: decode_f64_def)

text \<open>
  C39. Decoding the sorted keys of a column gives the values of the sorted rows, those that are not null.
\<close>

theorem radix_decode_values:
  assumes "decodable (n_col c)" "\<And>i. i \<in> set rows \<Longrightarrow> cell_ok (n_col c) i \<and> \<not> ray_vec_is_null (n_col c) i"
  shows "radix_decode_into (c_data (n_col c)) (n_desc c) (map (encode_key c) rows) = gather (c_data (n_col c)) rows"
proof -
  have raw: "(if n_desc c then NOT (encode_key c i) else encode_key c i) = encode_value c i" for i by (simp add: encode_key_def)
  show ?thesis
  proof (cases "c_data (n_col c)")
    case (F64s d)
    have "decode_f64 (n_desc c) (encode_key c i) = d ! i" if "i \<in> set rows" for i
    proof -
      have "\<not> is_nan64 (d ! i)" using assms(2) [OF that] F64s by (auto simp: cell_ok_def)
      then have "encode_value c i = d ! i XOR ((- drop_bit 63 (d ! i)) OR push_bit 63 1)" by (simp add: encode_value_def F64s nan_bits_nan)
      then show ?thesis using decode_f64_key [of "d ! i"] decode_f64_desc by (simp add: encode_key_def)
    qed
    then show ?thesis by (simp add: F64s)
  next
    case (I64s d)
    then show ?thesis using assms(2) by (auto simp: encode_key_def encode_value_def xor.assoc)
  next
    case (I32s d)
    then show ?thesis using assms(2) by (auto simp: encode_key_def encode_value_def xor.assoc ucast_back)
  next
    case (I16s d)
    then show ?thesis using assms by (auto simp: encode_key_def encode_value_def xor.assoc ucast_back decodable_def)
  next
    case (Byte1s d)
    then show ?thesis using assms by (auto simp: encode_key_def encode_value_def ucast_back decodable_def)
  qed (use assms(1) in \<open>simp_all add: decodable_def\<close>)
qed

theorem radix_decode_values_witness:
  "radix_decode_into (c_data sample_column) True (map (encode_key \<lparr>n_col = sample_column, n_desc = True, n_nulls_first = False, n_rank = []\<rparr>) [3, 1, 0]) =
    gather (c_data sample_column) [3, 1, 0]"
proof -
  let ?c = "\<lparr>n_col = sample_column, n_desc = True, n_nulls_first = False, n_rank = []\<rparr>"
  have "decodable (n_col ?c)" by (simp add: decodable_def sample_column_def)
  moreover have "cell_ok (n_col ?c) i \<and> \<not> ray_vec_is_null (n_col ?c) i" if "i \<in> set [3, 1, 0]" for i
    using that by (auto simp: sample_column_facts) (auto simp: sample_column_def ray_vec_is_null_def)
  ultimately show ?thesis using radix_decode_values [of ?c "[3, 1, 0]"] by simp
qed

section \<open>Where keys and comparator differ\<close>

text \<open>
  With nulls at the end of the larger values the key of a null is the key of the largest long: the null is not last.
  Negative zero is below zero by its key and equal to it in the comparator.
\<close>

lemma null_ties_with_largest:
  fixes col :: column and c :: radix_encode_ctx
  defines "col \<equiv> \<lparr>c_data = I64s [push_bit 63 1, mask 63], c_nulls = True\<rparr>"
  defines "c \<equiv> \<lparr>n_col = col, n_desc = False, n_nulls_first = False, n_rank = []\<rparr>"
  shows "encode_key c 0 = encode_key c 1" "key_cmp col False False 0 1 > 0"
  by (simp_all add: c_def col_def encode_key_def encode_value_def null_key_def ray_vec_is_null_def key_cmp_def mask_eq_exp_minus_1)

lemma zeros_differ:
  fixes col :: column and c :: radix_encode_ctx
  defines "col \<equiv> \<lparr>c_data = F64s [0, push_bit 63 1], c_nulls = False\<rparr>"
  defines "c \<equiv> \<lparr>n_col = col, n_desc = False, n_nulls_first = True, n_rank = []\<rparr>"
  shows "encode_key c 1 < encode_key c 0" "key_cmp col False True 0 1 = 0"
proof -
  show "encode_key c 1 < encode_key c 0"
    by (simp add: c_def col_def encode_key_def encode_value_def nan_bits_def drop_bit_eq_div)
  show "key_cmp col False True 0 1 = 0"
    by (simp add: c_def col_def key_cmp_def ray_vec_is_null_def f64_less_def sign_mag_def take_bit_eq_mod)
qed

end
