(* ===== verification/SortMulti.thy ===== *)
theory SortMulti
  imports SortKeys
begin

text \<open>
  The sort by several columns in \<open>sort_indices_ex\<close> of \<^verbatim>\<open>src/ops/sort.c\<close>: the scan for the range of every key, the composite
  of their offsets in one 64-bit word, and, when that takes too many bits, the composite of their ranks. Signed
  differences wrap as they do on the compiled targets.

  Shown: the composites are ordered as \<open>sort_cmp\<close> orders rows, by offsets under conditions that are stated, by ranks without;
  so the sort by several columns returns the rows the comparison sort returns. Two cases in which it does not are at
  the end.
\<close>

section \<open>Keys and their ranges\<close>

text \<open>What the arrays \<open>cols\<close>, \<open>descs\<close>, \<open>nulls_first\<close> and \<open>enum_ranks\<close> hold for one key.\<close>

record mkey =
  k_col :: column
  k_desc :: bool
  k_nf :: bool
  k_rank :: "nat list"

definition comp_val :: "mkey \<Rightarrow> nat \<Rightarrow> u64" where
  "comp_val key i =
    (case c_data (k_col key) of
       Syms _ d \<Rightarrow> of_nat (k_rank key ! unat (word_of_int (d ! i) :: u32))
     | I64s d \<Rightarrow> d ! i
     | F64s d \<Rightarrow> d ! i XOR ((- drop_bit 63 (d ! i)) OR push_bit 63 1)
     | I32s d \<Rightarrow> scast (d ! i)
     | I16s d \<Rightarrow> scast (d ! i)
     | Byte1s d \<Rightarrow> ucast (d ! i)
     | _ \<Rightarrow> 0)"

definition widen_range :: "mkey \<Rightarrow> nat list \<Rightarrow> int \<times> int \<Rightarrow> int \<times> int" where
  "widen_range key rows mm = fold (\<lambda>i (kmin, kmax). let v = sint (comp_val key i) in (if v < kmin then v else kmin, if v > kmax then v else kmax)) rows mm"

definition no_range :: "int \<times> int" where
  "no_range = (9223372036854775807, -9223372036854775808)"

definition mk_prescan_fn :: "mkey list \<Rightarrow> nat \<times> nat \<times> nat \<Rightarrow> (int \<times> int) list list \<Rightarrow> (int \<times> int) list list" where
  "mk_prescan_fn keys call pw =
    (case call of (wid, start, stop) \<Rightarrow> pw[wid := map (\<lambda>(key, mm). widen_range key [start..<stop] mm) (zip keys (pw ! wid))])"

definition MK_PRESCAN_MAX_KEYS :: nat where
  "MK_PRESCAN_MAX_KEYS = 8"

definition merge_ranges :: "(int \<times> int) list list \<Rightarrow> nat \<Rightarrow> int \<times> int" where
  "merge_ranges pw k = fold (\<lambda>w (kmin, kmax). (if fst (w ! k) < kmin then fst (w ! k) else kmin, if snd (w ! k) > kmax then snd (w ! k) else kmax)) pw no_range"

definition key_ranges :: "calls option \<Rightarrow> mkey list \<Rightarrow> nat \<Rightarrow> (int \<times> int) list" where
  "key_ranges pool keys nrows =
    (case pool of
       Some (nw, cs) \<Rightarrow>
         if length keys \<le> MK_PRESCAN_MAX_KEYS
         then map (merge_ranges (fold (mk_prescan_fn keys) cs (replicate nw (replicate (length keys) no_range)))) [0..<length keys]
         else map (\<lambda>key. widen_range key [0..<nrows] no_range) keys
     | None \<Rightarrow> map (\<lambda>key. widen_range key [0..<nrows] no_range) keys)"

text \<open>
  The loop that counts bits. At 64 bits the code shifts by the width of the word before it looks at \<open>bits\<close>; whatever
  that gives, the loop ends there.
\<close>

function bits_from :: "nat \<Rightarrow> u64 \<Rightarrow> nat" where
  "bits_from bits rng = (if bits < 64 \<and> push_bit bits 1 \<le> rng then bits_from (bits + 1) rng else bits)"
  by pat_completeness auto

termination by (relation "measure (\<lambda>(bits, rng). 64 - bits)") auto

declare bits_from.simps [simp del]

definition range_of :: "int \<times> int \<Rightarrow> u64" where
  "range_of mm = word_of_int (snd mm - fst mm)"

text \<open>The shifts, from the last key to the first.\<close>

definition bit_shifts :: "nat list \<Rightarrow> nat list" where
  "bit_shifts bits = fst (foldr (\<lambda>b (shifts, accum). (accum # shifts, accum + b)) bits ([], 0))"

definition compose :: "nat list \<Rightarrow> u64 list \<Rightarrow> u64" where
  "compose shifts parts = fold (\<lambda>(shift, part) composite. composite OR push_bit shift part) (zip shifts parts) 0"

definition key_part :: "mkey \<Rightarrow> int \<times> int \<Rightarrow> nat \<Rightarrow> u64" where
  "key_part key mm i = (let part = comp_val key i - word_of_int (fst mm) in if k_desc key then range_of mm - part else part)"

definition composite_key :: "mkey list \<Rightarrow> (int \<times> int) list \<Rightarrow> nat list \<Rightarrow> nat \<Rightarrow> u64" where
  "composite_key keys mms shifts i = compose shifts (map (\<lambda>(key, mm). key_part key mm i) (zip keys mms))"

section \<open>Dense ranks\<close>

definition rank_step :: "(nat \<Rightarrow> nat \<Rightarrow> int) \<Rightarrow> nat list \<Rightarrow> nat \<Rightarrow> nat \<times> nat list \<Rightarrow> nat \<times> nat list" where
  "rank_step cmp idx i s = (case s of (cur, r) \<Rightarrow> let cur' = (if cmp (idx ! (i - 1)) (idx ! i) \<noteq> 0 then cur + 1 else cur) in (cur', r[idx ! i := cur']))"

definition dense_ranks :: "(nat \<Rightarrow> nat \<Rightarrow> int) \<Rightarrow> nat list \<Rightarrow> nat list \<Rightarrow> nat \<times> nat list" where
  "dense_ranks cmp idx r0 = fold (rank_step cmp idx) [1..<length idx] (0, r0[idx ! 0 := 0])"

section \<open>The order of composites\<close>

lemma bits_from_bound: "r < 2 ^ 64 \<Longrightarrow> 1 \<le> b \<Longrightarrow> b \<le> 64 \<Longrightarrow> uint rng = r \<Longrightarrow> r < 2 ^ bits_from b rng \<and> b \<le> bits_from b rng \<and> bits_from b rng \<le> 64"
proof (induction "64 - b" arbitrary: b rule: less_induct)
  case less
  show ?case
  proof (cases "b < 64 \<and> push_bit b 1 \<le> rng")
    case True
    then have "b < 64" by blast
    then have "64 - (b + 1) < 64 - b" "b + 1 \<le> 64" by linarith+
    from less.hyps [OF this(1) less.prems(1) _ this(2) less.prems(4)] show ?thesis using True by (subst (1 2 3) bits_from.simps) simp
  next
    case False
    have "r < 2 ^ b"
    proof (cases "b = 64")
      case True
      then show ?thesis using less.prems by simp
    next
      case False
      then have "b < 64" "rng < push_bit b 1" using \<open>\<not> (b < 64 \<and> push_bit b 1 \<le> rng)\<close> less.prems(3) by auto
      moreover from this(1) have "uint (push_bit b 1 :: u64) = 2 ^ b" unfolding unsigned_push_bit_eq by (simp add: take_bit_of_exp)
      ultimately show ?thesis using less.prems(4) by (simp add: word_less_def)
    qed
    moreover have "bits_from b rng = b" using False by (subst bits_from.simps) (simp only: if_False)
    ultimately show ?thesis using less.prems by simp
  qed
qed

lemma bit_shifts_Cons: "bit_shifts (b # bits) = sum_list bits # bit_shifts bits"
proof -
  have "snd (foldr (\<lambda>b (shifts, accum). (accum # shifts, accum + b)) bits ([], 0)) = sum_list bits" for bits :: "nat list"
    by (induction bits) (auto simp: case_prod_beta)
  then show ?thesis by (simp add: bit_shifts_def case_prod_beta)
qed

lemma bit_shifts_Nil [simp]: "bit_shifts [] = []"
  by (simp add: bit_shifts_def)

lemma compose_Cons: "compose (s # ss) (p # ps) = push_bit s p OR compose ss ps"
proof -
  have "fold (\<lambda>(shift, part) composite. composite OR push_bit shift part) xs (a OR c) = a OR fold (\<lambda>(shift, part) composite. composite OR push_bit shift part) xs c"
    for xs :: "(nat \<times> u64) list" and a c by (induction xs arbitrary: c) (simp_all add: case_prod_beta or.assoc)
  from this [of "zip ss ps" "push_bit s p" 0] show ?thesis by (simp add: compose_def)
qed

text \<open>The composite is the number with the parts as digits.\<close>

fun digits :: "nat list \<Rightarrow> u64 list \<Rightarrow> nat" where
  "digits (b # bits) (p # ps) = unat p * 2 ^ sum_list bits + digits bits ps"
| "digits _ _ = 0"

definition digits_ok :: "nat list \<Rightarrow> u64 list \<Rightarrow> bool" where
  "digits_ok bits ps \<longleftrightarrow> list_all2 (\<lambda>b p. unat p < 2 ^ b) bits ps"

lemma digits_less: "digits_ok bits ps \<Longrightarrow> digits bits ps < 2 ^ sum_list bits"
  unfolding digits_ok_def
proof (induction bits ps rule: list_all2_induct)
  case (Cons b bits p ps)
  have "unat p * 2 ^ sum_list bits + digits bits ps < (unat p + 1) * 2 ^ sum_list bits" using Cons by simp
  also have "\<dots> \<le> 2 ^ b * 2 ^ sum_list bits" using Cons.hyps(1) by (intro mult_le_mono1) simp
  finally show ?case by (simp add: power_add)
qed simp

lemma compose_digits: "digits_ok bits ps \<Longrightarrow> sum_list bits \<le> 64 \<Longrightarrow> unat (compose (bit_shifts bits) ps) = digits bits ps"
proof (induction bits arbitrary: ps)
  case Nil
  then show ?case by (simp add: digits_ok_def compose_def)
next
  case (Cons b bits)
  then obtain p ps' where ps: "ps = p # ps'" "unat p < 2 ^ b" "digits_ok bits ps'" by (auto simp: digits_ok_def list_all2_Cons1)
  let ?s = "sum_list bits" and ?c = "compose (bit_shifts bits) ps'"
  have c: "unat ?c = digits bits ps'" "unat ?c < 2 ^ ?s" using Cons.IH [OF ps(3)] Cons.prems(2) digits_less [OF ps(3)] by simp_all
  have small: "unat p * 2 ^ ?s < 2 ^ 64"
  proof -
    have "unat p * 2 ^ ?s < 2 ^ b * 2 ^ ?s" using ps(2) by simp
    also have "\<dots> \<le> 2 ^ 64" using Cons.prems(2) by (simp flip: power_add del: power_numeral)
    finally show ?thesis .
  qed
  have low: "take_bit ?s ?c = ?c"
  proof -
    have "unat (take_bit ?s ?c) = unat ?c" unfolding unsigned_take_bit_eq using c(2) by (simp add: take_bit_eq_mod)
    then show ?thesis by (rule unsigned_word_eqI)
  qed
  have "push_bit ?s p OR ?c = push_bit ?s p + ?c"
  proof (rule disjunctive_add [symmetric])
    fix k
    have "\<not> bit ?c k" if "?s \<le> k" using low that by (metis bit_take_bit_iff not_le)
    then show "\<not> bit (push_bit ?s p) k \<or> \<not> bit ?c k" by (cases "?s \<le> k") (auto simp: bit_push_bit_iff)
  qed
  moreover have push: "unat (push_bit ?s p) = unat p * 2 ^ ?s"
    unfolding unsigned_push_bit_eq using small by (simp add: take_bit_eq_mod push_bit_eq_mult)
  moreover have "unat (push_bit ?s p + ?c) = unat (push_bit ?s p) + unat ?c"
  proof -
    have "unat (push_bit ?s p) + unat ?c < (unat p + 1) * 2 ^ ?s" using push c(2) by simp
    also have "\<dots> \<le> 2 ^ b * 2 ^ ?s" using ps(2) by (intro mult_le_mono1) simp
    also have "\<dots> \<le> 2 ^ 64" using Cons.prems(2) by (simp flip: power_add del: power_numeral)
    finally show ?thesis using unat_add_lem [of "push_bit ?s p" ?c] by simp
  qed
  ultimately show ?case using c(1) ps(1) by (simp add: bit_shifts_Cons compose_Cons)
qed

lemma digit_order:
  assumes "x < (m :: nat)" "y < m"
  shows "p * m + x \<le> q * m + y \<longleftrightarrow> p < q \<or> p = q \<and> x \<le> y"
proof (cases p q rule: linorder_cases)
  case less
  have "p * m + x < (p + 1) * m" using assms(1) by simp
  also have "\<dots> \<le> q * m" using less by (intro mult_le_mono1) simp
  finally show ?thesis using less by simp
next
  case greater
  have "q * m + y < (q + 1) * m" using assms(2) by simp
  also have "\<dots> \<le> p * m" using greater by (intro mult_le_mono1) simp
  finally show ?thesis using greater by simp
qed simp

section \<open>The comparator over a list of keys\<close>

fun cmp_list :: "mkey list \<Rightarrow> nat \<Rightarrow> nat \<Rightarrow> int" where
  "cmp_list [] a b = 0"
| "cmp_list (key # keys) a b =
    (let cmp = key_cmp (k_col key) (k_desc key) (k_nf key) a b in if cmp \<noteq> 0 then cmp else cmp_list keys a b)"

text \<open>The keys of a call: no flags mean ascending, and nulls first where ascending.\<close>

definition make_keys :: "column list \<Rightarrow> bool list option \<Rightarrow> bool list option \<Rightarrow> nat list list \<Rightarrow> mkey list" where
  "make_keys cols descs nulls_first ranks =
    map (\<lambda>k. let desc = (case descs of Some ds \<Rightarrow> ds ! k | None \<Rightarrow> False)
      in \<lparr>k_col = cols ! k, k_desc = desc, k_nf = (case nulls_first of Some ns \<Rightarrow> ns ! k | None \<Rightarrow> \<not> desc), k_rank = ranks ! k\<rparr>) [0..<length cols]"

lemma cmp_keys_suffix:
  "k \<le> length cols \<Longrightarrow> cmp_keys (fallback_ctx (map Some cols) descs nulls_first) [k..<length cols] a b = cmp_list (drop k (make_keys cols descs nulls_first ranks)) a b"
proof (induction "length cols - k" arbitrary: k)
  case (Suc m)
  let ?ctx = "fallback_ctx (map Some cols) descs nulls_first" and ?keys = "make_keys cols descs nulls_first ranks"
  have k: "k < length cols" using Suc.hyps(2) by simp
  have d: "drop k ?keys = ?keys ! k # drop (Suc k) ?keys" by (rule Cons_nth_drop_Suc [symmetric]) (simp add: k make_keys_def)
  have at: "x_vecs ?ctx ! k = Some (k_col (?keys ! k))" "key_desc ?ctx k = k_desc (?keys ! k)" "key_nf ?ctx k = k_nf (?keys ! k)"
    using k by (auto simp: make_keys_def fallback_ctx_def key_desc_def key_nf_def Let_def split: option.splits)
  have u: "[k..<length cols] = k # [Suc k..<length cols]" using k by (rule upt_conv_Cons)
  have "cmp_keys ?ctx [Suc k..<length cols] a b = cmp_list (drop (Suc k) ?keys) a b" using Suc k by (intro Suc.hyps(1)) simp_all
  then show ?case unfolding u d by (simp add: at Let_def)
qed (simp add: make_keys_def)

lemma sort_cmp_list: "sort_cmp (fallback_ctx (map Some cols) descs nulls_first) a b = cmp_list (make_keys cols descs nulls_first ranks) a b"
  using cmp_keys_suffix [of 0 cols descs nulls_first a b ranks] by (simp add: sort_cmp_def fallback_ctx_def)

text \<open>Parts in the order of the comparator of their key make composites in the order of the comparator of the list.\<close>

lemma composite_order:
  assumes "list_all2 (\<lambda>key bp. snd bp a \<le> snd bp b \<longleftrightarrow> key_cmp (k_col key) (k_desc key) (k_nf key) a b \<le> 0) keys (zip bits parts)"
    and "list_all2 (\<lambda>key bp. snd bp b \<le> snd bp a \<longleftrightarrow> key_cmp (k_col key) (k_desc key) (k_nf key) a b \<ge> 0) keys (zip bits parts)"
    and "digits_ok bits (map (\<lambda>p. p a) parts)" "digits_ok bits (map (\<lambda>p. p b) parts)" "length parts = length bits"
  shows "digits bits (map (\<lambda>p. p a) parts) \<le> digits bits (map (\<lambda>p. p b) parts) \<longleftrightarrow> cmp_list keys a b \<le> 0"
  using assms
proof (induction keys arbitrary: bits parts)
  case Nil
  then show ?case by (cases bits) auto
next
  case (Cons key keys)
  then obtain bt bits' p parts' where l: "bits = bt # bits'" "parts = p # parts'" by (cases bits; cases parts) auto
  note prems = Cons.prems [unfolded l]
  let ?A = "digits bits' (map (\<lambda>p. p a) parts')" and ?B = "digits bits' (map (\<lambda>p. p b) parts')"
  have ok: "digits_ok bits' (map (\<lambda>p. p a) parts')" "digits_ok bits' (map (\<lambda>p. p b) parts')" using prems(3,4) by (simp_all add: digits_ok_def)
  have IH: "?A \<le> ?B \<longleftrightarrow> cmp_list keys a b \<le> 0" using prems ok by (intro Cons.IH) simp_all
  have "digits bits (map (\<lambda>p. p a) parts) \<le> digits bits (map (\<lambda>p. p b) parts) \<longleftrightarrow> unat (p a) < unat (p b) \<or> unat (p a) = unat (p b) \<and> ?A \<le> ?B"
    unfolding l using digit_order [OF digits_less [OF ok(1)] digits_less [OF ok(2)]] by simp
  also have "\<dots> \<longleftrightarrow> p a < p b \<or> p a = p b \<and> ?A \<le> ?B" by (simp add: word_less_nat_alt word_unat_eq_iff)
  also have "\<dots> \<longleftrightarrow> cmp_list (key # keys) a b \<le> 0"
  proof -
    have "p a \<le> p b \<longleftrightarrow> key_cmp (k_col key) (k_desc key) (k_nf key) a b \<le> 0" "p b \<le> p a \<longleftrightarrow> key_cmp (k_col key) (k_desc key) (k_nf key) a b \<ge> 0"
      using prems(1,2) by simp_all
    then have "p a < p b \<longleftrightarrow> key_cmp (k_col key) (k_desc key) (k_nf key) a b < 0" "p a = p b \<longleftrightarrow> key_cmp (k_col key) (k_desc key) (k_nf key) a b = 0"
      by (auto simp: less_le_not_le)
    then show ?thesis using IH by (auto simp: Let_def)
  qed
  finally show ?case .
qed

section \<open>Dense ranks keep the order\<close>

text \<open>The number of changes up to a position of the sorted rows.\<close>

fun changes :: "(nat \<Rightarrow> nat \<Rightarrow> int) \<Rightarrow> nat list \<Rightarrow> nat \<Rightarrow> nat" where
  "changes cmp idx 0 = 0"
| "changes cmp idx (Suc i) = changes cmp idx i + of_bool (cmp (idx ! i) (idx ! Suc i) \<noteq> 0)"

lemma dense_ranks_at:
  assumes "distinct idx" "set idx = {..<n}" "length idx = n" "length r0 = n" "0 < n"
  shows "fst (dense_ranks cmp idx r0) = changes cmp idx (n - 1)" "i < n \<Longrightarrow> snd (dense_ranks cmp idx r0) ! (idx ! i) = changes cmp idx i"
proof -
  have in_range: "idx ! j < n" if "j < n" for j using assms(2,3) that nth_mem [of j idx] by auto
  have "fst (fold (rank_step cmp idx) [1..<Suc m] (0, r0[idx ! 0 := 0])) = changes cmp idx m \<and>
      length (snd (fold (rank_step cmp idx) [1..<Suc m] (0, r0[idx ! 0 := 0]))) = n \<and>
      (\<forall>j\<le>m. snd (fold (rank_step cmp idx) [1..<Suc m] (0, r0[idx ! 0 := 0])) ! (idx ! j) = changes cmp idx j)" if "m < n" for m
    using that
  proof (induction m)
    case 0
    then show ?case using assms(4) in_range [of 0] by simp
  next
    case (Suc m)
    obtain cur r where s: "fold (rank_step cmp idx) [1..<Suc m] (0, r0[idx ! 0 := 0]) = (cur, r)" by fastforce
    have IH: "cur = changes cmp idx m" "length r = n" "\<And>j. j \<le> m \<Longrightarrow> r ! (idx ! j) = changes cmp idx j" using Suc s by auto
    have other: "idx ! j \<noteq> idx ! Suc m" if "j \<le> m" for j using assms(1,3) Suc.prems that by (simp add: nth_eq_iff_index_eq)
    have "fold (rank_step cmp idx) [1..<Suc (Suc m)] (0, r0[idx ! 0 := 0]) = rank_step cmp idx (Suc m) (cur, r)"
    proof -
      have "[1..<Suc (Suc m)] = [1..<Suc m] @ [Suc m]" by simp
      then show ?thesis using s by (simp only: fold_append comp_apply fold_simps)
    qed
    also have "\<dots> = (changes cmp idx (Suc m), r[idx ! Suc m := changes cmp idx (Suc m)])" by (simp add: rank_step_def IH(1) Let_def)
    finally have F: "fold (rank_step cmp idx) [1..<Suc (Suc m)] (0, r0[idx ! 0 := 0]) = (changes cmp idx (Suc m), r[idx ! Suc m := changes cmp idx (Suc m)])" .
    have "r[idx ! Suc m := changes cmp idx (Suc m)] ! (idx ! j) = changes cmp idx j" if "j \<le> Suc m" for j
      using that IH(2,3) in_range [OF Suc.prems] other [of j] by (cases "j = Suc m") (simp_all add: le_Suc_eq del: changes.simps)
    then show ?case unfolding F using IH(2) by (simp del: changes.simps)
  qed
  from this [of "n - 1"] show "fst (dense_ranks cmp idx r0) = changes cmp idx (n - 1)" "i < n \<Longrightarrow> snd (dense_ranks cmp idx r0) ! (idx ! i) = changes cmp idx i"
    using assms(3,5) by (auto simp: dense_ranks_def)
qed

lemma changes_mono: "i \<le> j \<Longrightarrow> changes cmp idx i \<le> changes cmp idx j"
  by (induction j) (auto simp: le_Suc_eq)

lemma changes_order:
  assumes "row_order cmp R" "set idx \<subseteq> R" "sorted_wrt (\<lambda>a b. cmp a b \<le> 0) idx" "i \<le> j" "j < length idx"
  shows "changes cmp idx i < changes cmp idx j \<longleftrightarrow> cmp (idx ! i) (idx ! j) < 0"
  using assms(4,5)
proof (induction j rule: nat_induct_at_least)
  case base
  have "idx ! i \<in> R" using assms(2) base nth_mem by blast
  then show ?case using row_order.cmp_self [OF assms(1)] by simp
next
  case (Suc j)
  have R: "idx ! i \<in> R" "idx ! j \<in> R" "idx ! Suc j \<in> R" using assms(2) Suc nth_mem [of _ idx] by auto
  have le: "cmp (idx ! j) (idx ! Suc j) \<le> 0" using sorted_wrt_nth_less [OF assms(3), of j "Suc j"] Suc.prems by simp
  have "cmp (idx ! i) (idx ! j) \<le> 0"
    using assms(3) Suc sorted_wrt_nth_less [OF assms(3), of i j] row_order.cmp_self [OF assms(1) R(1)] by (cases "i = j") auto
  note step = row_order.flip [OF assms(1)] row_order.flip_tie [OF assms(1)] row_order.cmp_trans [OF assms(1)]
  show ?case
  proof (cases "cmp (idx ! j) (idx ! Suc j) = 0")
    case True
    then have "cmp (idx ! Suc j) (idx ! j) = 0" using step(2) R by blast
    then have "cmp (idx ! i) (idx ! Suc j) < 0 \<longleftrightarrow> cmp (idx ! i) (idx ! j) < 0"
      using True step(1) [OF R(1,2)] step(1) [OF R(1,3)] step(3) [OF R(2,3,1)] step(3) [OF R(3,2,1)] by auto
    then show ?thesis using Suc True by simp
  next
    case False
    then have "cmp (idx ! j) (idx ! Suc j) < 0" using le by simp
    then have "\<not> cmp (idx ! Suc j) (idx ! j) \<le> 0" using step(1) [OF R(2,3)] by simp
    then have "\<not> cmp (idx ! Suc j) (idx ! i) \<le> 0" using step(3) [OF R(3,1,2)] \<open>cmp (idx ! i) (idx ! j) \<le> 0\<close> by blast
    then have "cmp (idx ! i) (idx ! Suc j) < 0" using step(1) [OF R(1,3)] by simp
    moreover have "changes cmp idx i < changes cmp idx (Suc j)" using False changes_mono [OF Suc.hyps(1), of cmp idx] by simp
    ultimately show ?thesis by simp
  qed
qed

lemma dense_ranks_order:
  assumes "row_order cmp R" "{..<n} \<subseteq> R" "rows_sorted cmp n idx" "length r0 = n" "a < n" "b < n"
  defines "d \<equiv> dense_ranks cmp idx r0"
  shows "snd d ! a \<le> snd d ! b \<longleftrightarrow> cmp a b \<le> 0" "snd d ! a \<le> fst d" "fst d < n"
proof -
  have m: "mset idx = mset [0..<n]" and sorted: "sorted_wrt (\<lambda>a b. cmp a b \<le> 0) idx" using assms(3) by (simp_all add: rows_sorted_def)
  have idx: "distinct idx" "set idx = {..<n}" "length idx = n"
    using mset_eq_imp_distinct_iff [OF m] mset_eq_setD [OF m] mset_eq_length [OF m] by (simp_all add: atLeast0LessThan)
  have n: "0 < n" using assms(5) by simp
  note at = dense_ranks_at [OF idx assms(4) n, where cmp = cmp]
  obtain i j where ij: "i < n" "idx ! i = a" "j < n" "idx ! j = b"
  proof -
    have "a \<in> set idx" "b \<in> set idx" using idx(2) assms(5,6) by simp_all
    then show ?thesis using that idx(3) unfolding in_set_conv_nth by blast
  qed
  have sub: "set idx \<subseteq> R" using idx(2) assms(2) by simp
  have r: "snd d ! a = changes cmp idx i" "snd d ! b = changes cmp idx j" using at(2) ij unfolding d_def by blast+
  have R: "a \<in> R" "b \<in> R" using assms(2,5,6) by auto
  show "snd d ! a \<le> snd d ! b \<longleftrightarrow> cmp a b \<le> 0"
  proof (cases "i \<le> j")
    case True
    have "cmp a b \<le> 0" using True ij sorted_wrt_nth_less [OF sorted, of i j] idx(3) row_order.cmp_self [OF assms(1) R(1)] by (cases "i = j") auto
    then show ?thesis unfolding r using changes_mono [OF True] by simp
  next
    case False
    then have "snd d ! b < snd d ! a \<longleftrightarrow> cmp b a < 0" unfolding r using changes_order [OF assms(1) sub sorted, of j i] ij idx(3) by simp
    then show ?thesis using row_order.flip [OF assms(1) R(2,1)] by (auto simp: not_less [symmetric])
  qed
  have "changes cmp idx m \<le> m" for m by (induction m) auto
  from this [of "n - 1"] show "fst d < n" using at(1) n unfolding d_def by simp
  show "snd d ! a \<le> fst d" using at(1) changes_mono [of i "n - 1" cmp idx] ij(1) unfolding r by (simp add: d_def)
qed

section \<open>The ranges\<close>

abbreviation inside :: "int \<times> int \<Rightarrow> int \<Rightarrow> bool" where
  "inside mm v \<equiv> fst mm \<le> v \<and> v \<le> snd mm"

definition i64_range :: "int \<times> int \<Rightarrow> bool" where
  "i64_range mm \<longleftrightarrow> - (2 ^ 63) \<le> fst mm \<and> fst mm < 2 ^ 63 \<and> - (2 ^ 63) \<le> snd mm \<and> snd mm < 2 ^ 63"

lemma widen_inside:
  "inside mm v \<or> (\<exists>i\<in>set rows. v = sint (comp_val key i)) \<Longrightarrow> inside (widen_range key rows mm) v"
proof (induction rows arbitrary: mm)
  case (Cons i rows)
  obtain kmin kmax where mm: "mm = (kmin, kmax)" by (cases mm)
  let ?v = "sint (comp_val key i)"
  let ?mm = "(if ?v < kmin then ?v else kmin, if ?v > kmax then ?v else kmax)"
  have "inside ?mm v \<or> (\<exists>i\<in>set rows. v = sint (comp_val key i))" using Cons.prems mm by auto
  from Cons.IH [OF this] show ?case by (simp add: widen_range_def mm Let_def)
qed (simp add: widen_range_def)

lemma sint64: "- (2 ^ 63) \<le> sint w" "sint w < 2 ^ 63" for w :: u64
  using sint_ge [of w] sint_lt [of w] by simp_all

lemma widen_i64: "i64_range mm \<Longrightarrow> i64_range (widen_range key rows mm)"
proof (induction rows arbitrary: mm)
  case (Cons i rows)
  obtain kmin kmax where mm: "mm = (kmin, kmax)" by (cases mm)
  have "i64_range (if sint (comp_val key i) < kmin then sint (comp_val key i) else kmin, if sint (comp_val key i) > kmax then sint (comp_val key i) else kmax)"
    using Cons.prems sint64 [of "comp_val key i"] by (auto simp: i64_range_def mm)
  from Cons.IH [OF this] show ?case by (simp add: widen_range_def mm Let_def)
qed (simp add: widen_range_def)

definition scans_ok :: "mkey list \<Rightarrow> nat \<Rightarrow> (int \<times> int) list list \<Rightarrow> bool" where
  "scans_ok keys nw pw \<longleftrightarrow> length pw = nw \<and> (\<forall>mms\<in>set pw. length mms = length keys \<and> (\<forall>mm\<in>set mms. i64_range mm))"

lemma prescan_ok:
  assumes "scans_ok keys nw pw" "wid < nw"
  shows "scans_ok keys nw (mk_prescan_fn keys (wid, start, stop) pw)"
proof -
  have "pw ! wid \<in> set pw" using assms by (simp add: scans_ok_def)
  then have w: "length (pw ! wid) = length keys" "\<And>mm. mm \<in> set (pw ! wid) \<Longrightarrow> i64_range mm" using assms(1) by (auto simp: scans_ok_def)
  have "i64_range mm" if "mm \<in> set (map (\<lambda>(key, mm). widen_range key [start..<stop] mm) (zip keys (pw ! wid)))" for mm
    using that w(2) by (auto intro!: widen_i64 dest: set_zip_rightD)
  then show ?thesis using assms(1) w(1) unfolding scans_ok_def mk_prescan_fn_def by (auto dest!: set_update_subset_insert [THEN subsetD])
qed

lemma prescan_calls:
  assumes "scans_ok keys nw pw" "\<forall>(wid, start, stop)\<in>set cs. wid < nw" "k < length keys"
    and "(\<exists>w<nw. inside (pw ! w ! k) v) \<or> (\<exists>(wid, start, stop)\<in>set cs. \<exists>i\<in>{start..<stop}. v = sint (comp_val (keys ! k) i))"
  shows "scans_ok keys nw (fold (mk_prescan_fn keys) cs pw) \<and> (\<exists>w<nw. inside (fold (mk_prescan_fn keys) cs pw ! w ! k) v)"
  using assms
proof (induction cs arbitrary: pw)
  case (Cons c cs)
  obtain wid start stop where c: "c = (wid, start, stop)" by (cases c)
  let ?pw = "mk_prescan_fn keys c pw"
  have wid: "wid < nw" using Cons.prems(2) c by auto
  have ok: "scans_ok keys nw ?pw" unfolding c by (rule prescan_ok [OF Cons.prems(1) wid])
  have len: "length pw = nw" "length (pw ! wid) = length keys" using Cons.prems(1) wid by (auto simp: scans_ok_def)
  have at: "?pw ! wid ! k = widen_range (keys ! k) [start..<stop] (pw ! wid ! k)" using len wid Cons.prems(3) by (simp add: mk_prescan_fn_def c)
  have other: "?pw ! w = pw ! w" if "w \<noteq> wid" for w using that by (simp add: mk_prescan_fn_def c)
  have "\<exists>w<nw. inside (?pw ! w ! k) v" if "w < nw" "inside (pw ! w ! k) v" for w
  proof (cases "w = wid")
    case True
    then have "inside (?pw ! wid ! k) v" unfolding at using that(2) by (intro widen_inside) simp
    then show ?thesis using wid by blast
  next
    case False
    then show ?thesis using that other by (intro exI [of _ w]) simp
  qed
  moreover have "\<exists>w<nw. inside (?pw ! w ! k) v" if "i \<in> {start..<stop}" "v = sint (comp_val (keys ! k) i)" for i
  proof -
    have "inside (?pw ! wid ! k) v" unfolding at using that by (intro widen_inside) auto
    then show ?thesis using wid by blast
  qed
  ultimately have "(\<exists>w<nw. inside (?pw ! w ! k) v) \<or> (\<exists>(wid, start, stop)\<in>set cs. \<exists>i\<in>{start..<stop}. v = sint (comp_val (keys ! k) i))"
    using Cons.prems(4) c by auto
  then show ?case using Cons.IH [OF ok] Cons.prems(2,3) by simp
qed simp

lemma merge_inside:
  assumes "inside mm v \<or> (\<exists>w\<in>set pw. inside (w ! k) v)"
  shows "inside (fold (\<lambda>w (kmin, kmax). (if fst (w ! k) < kmin then fst (w ! k) else kmin, if snd (w ! k) > kmax then snd (w ! k) else kmax)) pw mm) v"
  using assms
proof (induction pw arbitrary: mm)
  case (Cons w pw)
  obtain kmin kmax where mm: "mm = (kmin, kmax)" by (cases mm)
  have "inside (if fst (w ! k) < kmin then fst (w ! k) else kmin, if snd (w ! k) > kmax then snd (w ! k) else kmax) v \<or> (\<exists>w\<in>set pw. inside (w ! k) v)"
    using Cons.prems mm by auto
  from Cons.IH [OF this] show ?case by (simp add: mm)
qed simp

lemma merge_i64:
  assumes "i64_range mm" "\<forall>w\<in>set pw. i64_range (w ! k)"
  shows "i64_range (fold (\<lambda>w (kmin, kmax). (if fst (w ! k) < kmin then fst (w ! k) else kmin, if snd (w ! k) > kmax then snd (w ! k) else kmax)) pw mm)"
  using assms
proof (induction pw arbitrary: mm)
  case (Cons w pw)
  obtain kmin kmax where mm: "mm = (kmin, kmax)" by (cases mm)
  have "i64_range (if fst (w ! k) < kmin then fst (w ! k) else kmin, if snd (w ! k) > kmax then snd (w ! k) else kmax)"
    using Cons.prems mm by (auto simp: i64_range_def)
  from Cons.IH [OF this] show ?case using Cons.prems(2) by (simp add: mm)
qed simp

lemma key_ranges_inside:
  assumes "covers pool n" "k < length keys"
  shows "length (key_ranges pool keys n) = length keys" "i64_range (key_ranges pool keys n ! k)"
    "i < n \<Longrightarrow> inside (key_ranges pool keys n ! k) (sint (comp_val (keys ! k) i))"
proof -
  have none: "i64_range no_range" by (simp add: no_range_def i64_range_def)
  show "length (key_ranges pool keys n) = length keys" by (simp add: key_ranges_def split: option.splits)
  have seq_range: "i64_range (widen_range (keys ! k) [0..<n] no_range)" by (rule widen_i64 [OF none])
  have seq_in: "inside (widen_range (keys ! k) [0..<n] no_range) (sint (comp_val (keys ! k) i))" if "i < n" by (rule widen_inside) (use that in auto)
  show "i64_range (key_ranges pool keys n ! k)" "i < n \<Longrightarrow> inside (key_ranges pool keys n ! k) (sint (comp_val (keys ! k) i))"
  proof -
    consider (par) nw cs where "pool = Some (nw, cs)" "length keys \<le> MK_PRESCAN_MAX_KEYS" | (seq) "key_ranges pool keys n = map (\<lambda>key. widen_range key [0..<n] no_range) keys"
      by (cases pool; cases "length keys \<le> MK_PRESCAN_MAX_KEYS") (auto simp: key_ranges_def)
    then have "i64_range (key_ranges pool keys n ! k) \<and> (i < n \<longrightarrow> inside (key_ranges pool keys n ! k) (sint (comp_val (keys ! k) i)))"
    proof cases
      case seq
      then show ?thesis using seq_range seq_in assms(2) by simp
    next
      case par
      let ?init = "replicate nw (replicate (length keys) no_range)" and ?v = "sint (comp_val (keys ! k) i)"
      let ?pw = "fold (mk_prescan_fn keys) cs ?init"
      have start: "scans_ok keys nw ?init" using none by (auto simp: scans_ok_def)
      have wids: "\<forall>(wid, start, stop)\<in>set cs. wid < nw" using assms(1) par by (auto simp: covers_def)
      have "scans_ok keys nw (fold (mk_prescan_fn keys) cs' pw)" if "scans_ok keys nw pw" "set cs' \<subseteq> set cs" for cs' pw
        using that wids by (induction cs' arbitrary: pw) (auto simp: prescan_ok)
      then have ok: "scans_ok keys nw ?pw" using start by blast
      have r: "key_ranges pool keys n ! k = merge_ranges ?pw k" using par assms(2) by (simp add: key_ranges_def)
      have "\<forall>w\<in>set ?pw. i64_range (w ! k)" using ok assms(2) unfolding scans_ok_def by (metis nth_mem)
      moreover have "inside (merge_ranges ?pw k) ?v" if i: "i < n"
      proof -
        have "mset (concat (map (\<lambda>(wid, start, stop). [start..<stop]) cs)) = mset [0..<n]" using assms(1) par unfolding covers_def by simp
        from mset_eq_setD [OF this] have "i \<in> set (concat (map (\<lambda>(wid, start, stop). [start..<stop]) cs))" using i by (simp only: set_upt) simp
        then have "\<exists>(wid, start, stop)\<in>set cs. \<exists>j\<in>{start..<stop}. ?v = sint (comp_val (keys ! k) j)" by fastforce
        with prescan_calls [OF start wids assms(2)] have "\<exists>w<nw. inside (?pw ! w ! k) ?v" by blast
        then have "\<exists>w\<in>set ?pw. inside (w ! k) ?v" using ok by (auto simp: scans_ok_def)
        then show ?thesis unfolding merge_ranges_def by (intro merge_inside) blast
      qed
      ultimately show ?thesis unfolding r using merge_i64 [OF none] by (auto simp: merge_ranges_def)
    qed
    then show "i64_range (key_ranges pool keys n ! k)" "i < n \<Longrightarrow> inside (key_ranges pool keys n ! k) (sint (comp_val (keys ! k) i))" by blast+
  qed
qed

section \<open>Offsets in the order of the values\<close>

abbreviation enc_of :: "mkey \<Rightarrow> radix_encode_ctx" where
  "enc_of key \<equiv> \<lparr>n_col = k_col key, n_desc = k_desc key, n_nulls_first = k_nf key, n_rank = k_rank key\<rparr>"

text \<open>
  The columns whose offsets are in the order of the comparator: nulls, which the composite takes as least, where they
  sort as such; floats of one sign.
\<close>

definition comp_exact :: "mkey \<Rightarrow> nat \<Rightarrow> bool" where
  "comp_exact key n \<longleftrightarrow>
    (let nulls_least = (k_nf key \<noteq> k_desc key \<or> (\<forall>i<n. \<not> ray_vec_is_null (k_col key) i))
     in case c_data (k_col key) of
          F64s d \<Rightarrow> (\<forall>i<n. \<not> is_nan64 (d ! i)) \<and> (\<forall>i<n. bit (d ! i) 63 = bit (d ! 0) 63)
        | I64s d \<Rightarrow> nulls_least | I32s d \<Rightarrow> nulls_least | I16s d \<Rightarrow> nulls_least
        | _ \<Rightarrow> True)"

lemma same_sign_order: "bit x 63 = bit y 63 \<Longrightarrow> sint x \<le> sint y \<longleftrightarrow> x \<le> y" for x y :: u64
proof -
  have x: "sint w = uint (w XOR push_bit 63 1) - 2 ^ 63" for w :: u64 using xor_sign_bit [of w] by simp
  have t: "take_bit 63 (w XOR push_bit 63 1) = take_bit 63 w" "bit (w XOR push_bit 63 1) 63 \<longleftrightarrow> \<not> bit w 63" for w :: u64
    by (auto intro!: bit_word_eqI simp: bit_simps)
  have "sint w = uint (take_bit 63 w) - 2 ^ 63 * of_bool (bit w 63)" for w :: u64
    unfolding x using uint_top [of "w XOR push_bit 63 1"] by (simp only: t) simp
  then show "bit x 63 = bit y 63 \<Longrightarrow> ?thesis" unfolding word_le_def uint_top [of x] uint_top [of y] by simp
qed

lemma small_sign: "x < 2 ^ 63 \<Longrightarrow> \<not> bit x 63" for x :: u64
  using uint_top [of x] by (auto simp: word_less_def)

lemma null_sentinel: "cell_ok col x \<Longrightarrow> c_nulls col \<Longrightarrow> \<not> no_null_type (c_data col) \<Longrightarrow> ray_vec_is_null col x \<longleftrightarrow> sentinel_is_null (c_data col) x"
  by (auto simp: ray_vec_is_null_def cell_ok_def)

lemma i64_comp:
  assumes "c_data (k_col key) = I64s d" "comp_exact key n" "x < n"
  shows "encode_value (enc_of key) x = comp_val key x XOR push_bit 63 1"
  using assms null_flagged [of "k_col key" x] by (auto simp: encode_value_def comp_val_def comp_exact_def null_key_def)

lemma i32_comp:
  assumes "c_data (k_col key) = I32s d" "comp_exact key n" "x < n"
  shows "uint (encode_value (enc_of key) x) = sint (comp_val key x) + 2 ^ 31"
proof -
  have "encode_value (enc_of key) x = ucast (d ! x XOR push_bit 31 1)"
    using assms null_flagged [of "k_col key" x] by (auto simp: encode_value_def comp_exact_def null_key_def)
  moreover have "sint (comp_val key x) = sint (d ! x)" using assms(1) by (simp add: comp_val_def sint_up_scast is_up)
  ultimately show ?thesis using xor_sign_bit [of "d ! x"] uint_ucast_up [of "d ! x XOR push_bit 31 1"] by simp
qed

lemma i16_comp:
  assumes "c_data (k_col key) = I16s d" "comp_exact key n" "x < n" "cell_ok (k_col key) x"
  shows "uint (encode_value (enc_of key) x) =
    (let v = sint (comp_val key x) in if \<not> c_nulls (k_col key) then v + 2 ^ 15 else if v = - (2 ^ 15) then 0 else v + 2 ^ 15 + 1)"
    "- (2 ^ 15) \<le> sint (comp_val key x)"
proof -
  let ?e = "ucast (d ! x XOR push_bit 15 1) :: u64"
  have v: "sint (comp_val key x) = sint (d ! x)" using assms(1) by (simp add: comp_val_def sint_up_scast is_up)
  have e: "uint ?e = sint (d ! x) + 2 ^ 15" using xor_sign_bit [of "d ! x"] uint_ucast_up [of "d ! x XOR push_bit 15 1"] by simp
  have bound: "- (2 ^ 15) \<le> sint (d ! x)" "sint (d ! x) < 2 ^ 15" using sint_ge [of "d ! x"] sint_lt [of "d ! x"] by simp_all
  have e1: "uint (?e + 1) = sint (d ! x) + 2 ^ 15 + 1" using e bound by (simp add: uint_plus_if')
  have least: "d ! x = push_bit 15 1 \<longleftrightarrow> sint (d ! x) = - (2 ^ 15)"
  proof -
    have "sint (push_bit 15 1 :: 16 word) = - (2 ^ 15)" by simp
    then show ?thesis using signed_word_eqI [of "d ! x" "push_bit 15 1", where ?'a = int] by auto
  qed
  have null: "ray_vec_is_null (k_col key) x \<longleftrightarrow> c_nulls (k_col key) \<and> sint (d ! x) = - (2 ^ 15)"
    using null_sentinel [OF assms(4)] null_flagged [of "k_col key" x] least assms(1) by auto
  then have val: "encode_value (enc_of key) x = (if \<not> c_nulls (k_col key) then ?e else if sint (d ! x) = - (2 ^ 15) then 0 else ?e + 1)"
    using assms(1-3) by (auto simp: encode_value_def comp_exact_def null_key_def)
  show "uint (encode_value (enc_of key) x) =
    (let v = sint (comp_val key x) in if \<not> c_nulls (k_col key) then v + 2 ^ 15 else if v = - (2 ^ 15) then 0 else v + 2 ^ 15 + 1)"
    unfolding val v Let_def using e e1 by (simp only: if_distrib [of uint] uint_0_eq)
  show "- (2 ^ 15) \<le> sint (comp_val key x)" unfolding v by (rule bound(1))
qed

lemma byte_comp:
  assumes "c_data (k_col key) = Byte1s d"
  shows "uint (encode_value (enc_of key) x) = sint (comp_val key x) + of_bool (c_nulls (k_col key))"
proof -
  let ?e = "ucast (d ! x) :: u64"
  have e: "uint ?e = uint (d ! x)" "uint (d ! x) < 2 ^ 8" using uint_ucast_up [of "d ! x"] uint_lt2p [of "d ! x"] by simp_all
  then have "uint (?e + 1) = uint (d ! x) + 1" by (simp add: uint_plus_if')
  moreover have "\<not> ray_vec_is_null (k_col key) x" using null_flagged [of "k_col key" x] assms by auto
  moreover have "sint ?e = uint ?e"
  proof -
    have "\<not> bit ?e 63" using e by (intro small_sign) (simp add: word_less_def)
    then have "signed_take_bit 63 (uint ?e) = take_bit 63 (uint ?e)" by (simp add: signed_take_bit_eq_if_positive bit_uint_iff)
    then show ?thesis using e by (simp add: sint_uint take_bit_int_eq_self)
  qed
  ultimately show ?thesis using e assms by (simp add: encode_value_def comp_val_def)
qed

lemma same_bits_comp:
  assumes "c_data (k_col key) = F64s d \<or> c_data (k_col key) = Syms strings e" "comp_exact key n" "x < n"
  shows "encode_value (enc_of key) x = comp_val key x"
  using assms by (auto simp: encode_value_def comp_val_def comp_exact_def nan_bits_nan)

lemma f64_comp_sign: "bit (w XOR ((- drop_bit 63 w) OR push_bit 63 1)) 63 \<longleftrightarrow> \<not> bit w 63" for w :: u64
  unfolding f64_flip by (auto simp: bit_simps)

lemma sym_comp_small:
  assumes "c_data (k_col key) = Syms strings d" "exact_keys (enc_of key) n" "cell_ok (k_col key) x"
  shows "\<not> bit (comp_val key x) 63"
proof -
  obtain mem pool tmp where r: "build_enum_rank mem pool tmp strings d = Some (k_rank key)" "covers pool (length d)"
      "length tmp = unat (enum_max_id pool d) + 1" using assms(1,2) by (auto simp: exact_keys_def)
  let ?raw = "word_of_int (d ! x) :: u32"
  have "x < length d" using assms(1,3) by (simp add: cell_ok_def)
  then have "?raw \<le> enum_max_id pool d" using max_id_ge [OF r(2)] by blast
  then have "k_rank key ! unat ?raw \<le> unat (enum_max_id pool d)"
    using build_enum_rank_order(1) [OF r(1,3), of "unat ?raw" "unat ?raw"] by (simp add: word_le_nat_alt)
  moreover have "unat (enum_max_id pool d) < 2 ^ 32" using unsigned_less [of "enum_max_id pool d", where ?'a = nat] by simp
  ultimately have "k_rank key ! unat ?raw < 2 ^ 32" by simp
  then have "unat (of_nat (k_rank key ! unat ?raw) :: u64) < 2 ^ 63" by (simp add: unat_of_nat)
  then show ?thesis using assms(1) by (intro small_sign) (simp add: comp_val_def word_less_nat_alt)
qed

lemma comp_value_order:
  assumes "radix_type (c_data (k_col key))" "comp_exact key n" "exact_keys (enc_of key) n"
    and "cell_ok (k_col key) a" "cell_ok (k_col key) b" "a < n" "b < n"
  shows "sint (comp_val key a) \<le> sint (comp_val key b) \<longleftrightarrow> encode_value (enc_of key) a \<le> encode_value (enc_of key) b"
proof (cases "c_data (k_col key)")
  case (F64s d)
  have sign: "bit (comp_val key x) 63 \<longleftrightarrow> \<not> bit (d ! x) 63" for x unfolding comp_val_def F64s payload.case by (rule f64_comp_sign)
  have "bit (d ! a) 63 = bit (d ! b) 63" using assms(2,6,7) unfolding comp_exact_def Let_def F64s payload.case by metis
  then have "bit (comp_val key a) 63 = bit (comp_val key b) 63" unfolding sign by simp
  then show ?thesis using same_sign_order same_bits_comp [OF _ assms(2), of d] F64s assms(6,7) by simp
next
  case (Syms strings d)
  then show ?thesis using same_sign_order sym_comp_small [OF Syms assms(3)] same_bits_comp [OF _ assms(2), of _ strings d] assms(4-7) by simp
next
  case (I64s d)
  show ?thesis unfolding i64_comp [OF I64s assms(2,6)] i64_comp [OF I64s assms(2,7)] word_le_def
    using xor_sign_bit [of "comp_val key a"] xor_sign_bit [of "comp_val key b"] by simp
next
  case (I32s d)
  show ?thesis unfolding word_le_def i32_comp [OF I32s assms(2,6)] i32_comp [OF I32s assms(2,7)] by simp
next
  case (I16s d)
  note a = i16_comp [OF I16s assms(2,6,4)] and b = i16_comp [OF I16s assms(2,7,5)]
  show ?thesis unfolding word_le_def a(1) b(1) using a(2) b(2) by (auto simp: Let_def)
next
  case (Byte1s d)
  show ?thesis unfolding word_le_def byte_comp [OF Byte1s] by simp
qed (use assms(1) in simp_all)

section \<open>Parts\<close>

lemma key_part_value:
  assumes "i64_range mm" "inside mm (sint (comp_val key i))"
  shows "uint (key_part key mm i) = (if k_desc key then snd mm - sint (comp_val key i) else sint (comp_val key i) - fst mm)"
    "uint (range_of mm) = snd mm - fst mm"
proof -
  let ?v = "sint (comp_val key i)"
  have exact: "uint (word_of_int x :: u64) = x" if "0 \<le> x" "x < 2 ^ 64" for x
    using that by (simp add: unsigned_of_int take_bit_int_eq_self)
  have ends: "0 \<le> ?v - fst mm" "?v - fst mm < 2 ^ 64" "0 \<le> snd mm - ?v" "snd mm - ?v < 2 ^ 64" "0 \<le> snd mm - fst mm" "snd mm - fst mm < 2 ^ 64"
    using assms by (simp_all add: i64_range_def)
  show "uint (range_of mm) = snd mm - fst mm" unfolding range_of_def by (rule exact [OF ends(5,6)])
  have c: "comp_val key i = word_of_int ?v" by simp
  have "key_part key mm i = word_of_int (if k_desc key then snd mm - ?v else ?v - fst mm)"
    unfolding key_part_def range_of_def by (subst c) (simp add: Let_def)
  then show "uint (key_part key mm i) = (if k_desc key then snd mm - ?v else ?v - fst mm)" using ends by (simp only: exact split: if_split) simp
qed

lemma key_part_order:
  assumes "radix_type (c_data (k_col key))" "comp_exact key n" "exact_keys (enc_of key) n"
    and "cell_ok (k_col key) a" "cell_ok (k_col key) b" "a < n" "b < n"
    and "i64_range mm" "inside mm (sint (comp_val key a))" "inside mm (sint (comp_val key b))"
  shows "key_part key mm a \<le> key_part key mm b \<longleftrightarrow> key_cmp (k_col key) (k_desc key) (k_nf key) a b \<le> 0"
proof -
  have "key_part key mm a \<le> key_part key mm b \<longleftrightarrow> encode_key (enc_of key) a \<le> encode_key (enc_of key) b"
    using comp_value_order [OF assms(1-7)] comp_value_order [OF assms(1-3,5,4,7,6)]
    unfolding word_le_def key_part_value(1) [OF assms(8,9)] key_part_value(1) [OF assms(8,10)] encode_key_def by (simp add: uint_not)
  also have "\<dots> \<longleftrightarrow> key_cmp (k_col key) (k_desc key) (k_nf key) a b \<le> 0" using keys_in_order [of "enc_of key" a b n] assms(1,3-7) by simp
  finally show ?thesis .
qed

lemma key_part_bits:
  assumes "i64_range mm" "inside mm (sint (comp_val key i))"
  shows "unat (key_part key mm i) < 2 ^ bits_from 1 (range_of mm)"
proof -
  have "uint (key_part key mm i) \<le> uint (range_of mm)" unfolding key_part_value [OF assms] using assms(2) by simp
  also have "\<dots> < 2 ^ bits_from 1 (range_of mm)" using bits_from_bound [of "uint (range_of mm)" 1 "range_of mm"] uint_lt2p [of "range_of mm"] by simp
  finally have "int (unat (key_part key mm i)) < int (2 ^ bits_from 1 (range_of mm))" by (simp only: uint_nat of_nat_power of_nat_numeral)
  then show ?thesis by (simp only: of_nat_less_iff)
qed

section \<open>Sorting by composites\<close>

definition sort_composites :: "sort_env \<Rightarrow> nat \<Rightarrow> u64 list \<Rightarrow> int list option" where
  "sort_composites env comp_nbytes keys =
    (let n = length keys; rows = zip keys (map int [0..<n])
     in if n \<le> RADIX_SORT_THRESHOLD then Some (map snd (key_introsort rows))
        else if \<not> e_mem_buf env then None
        else map_option (map snd) (msd_radix_sort_run (e_mem_msd env) (e_mem_hist env) (e_tasks env) (e_sched env) (e_buckets env) comp_nbytes rows (e_tmp env)))"

definition comp_bytes :: "nat \<Rightarrow> nat" where
  "comp_bytes total_bits = (let b = (total_bits + 7) div 8 in if b < 1 then 1 else b)"

lemma comp_bytes_enough: "total_bits \<le> 8 * comp_bytes total_bits"
  by (auto simp: comp_bytes_def Let_def)

lemma sort_composites_sorts:
  assumes "env_ok env (length keys)" "length keys < 2 ^ 32" "\<And>k. k \<in> set keys \<Longrightarrow> unat k < 2 ^ (8 * nb)"
  shows "sort_composites env nb keys = Some (stable_order keys)"
proof -
  let ?rows = "zip keys (map int [0..<length keys])"
  have asc: "sorted (map snd ?rows)" by (simp add: sorted_iff_nth_mono)
  show ?thesis
  proof (cases "length keys \<le> RADIX_SORT_THRESHOLD")
    case True
    then show ?thesis using sorted_row_order [of keys] by (simp add: sort_composites_def introsort_sorts sort_is_sort_key [OF asc])
  next
    case False
    have high: "unat (fst x) div 2 ^ (8 * nb) = 0" if "x \<in> set ?rows" for x
      using assms(3) [OF set_zip_leftD, of "fst x" "snd x"] that by (intro div_less) simp
    have "msd_radix_sort_run (e_mem_msd env) True (e_tasks env) (e_sched env) (e_buckets env) nb ?rows (e_tmp env) = Some (sort_key fst ?rows)"
      by (rule msd_sorts [OF _ _ _ _ _ asc high]) (use assms(1,2) in \<open>simp_all add: env_ok_def\<close>)
    then show ?thesis using False assms(1) sorted_row_order [of keys] by (simp add: sort_composites_def env_ok_def Let_def)
  qed
qed

text \<open>Parts with their number of bits, in the order of their keys, sort the rows.\<close>

definition parts_ok :: "nat \<Rightarrow> mkey list \<Rightarrow> (nat \<times> (nat \<Rightarrow> u64)) list \<Rightarrow> bool" where
  "parts_ok n keys bps \<longleftrightarrow> list_all2 (\<lambda>key (bits, part). (\<forall>a<n. unat (part a) < 2 ^ bits) \<and>
     (\<forall>a<n. \<forall>b<n. part a \<le> part b \<longleftrightarrow> key_cmp (k_col key) (k_desc key) (k_nf key) a b \<le> 0)) keys bps"

definition composed :: "(nat \<times> (nat \<Rightarrow> u64)) list \<Rightarrow> nat \<Rightarrow> u64" where
  "composed bps i = compose (bit_shifts (map fst bps)) (map (\<lambda>bp. snd bp i) bps)"

lemma composed_order:
  assumes "parts_ok n keys bps" "sum_list (map fst bps) \<le> 64" "\<And>key a. key \<in> set keys \<Longrightarrow> a < n \<Longrightarrow> cell_ok (k_col key) a" "a < n" "b < n"
  shows "composed bps a \<le> composed bps b \<longleftrightarrow> cmp_list keys a b \<le> 0" "unat (composed bps a) < 2 ^ sum_list (map fst bps)"
proof -
  let ?bits = "map fst bps" and ?parts = "map snd bps"
  have len: "length bps = length keys" using assms(1) by (auto simp: parts_ok_def dest: list_all2_lengthD)
  have at: "unat (snd (bps ! k) i) < 2 ^ fst (bps ! k)"
    "snd (bps ! k) i \<le> snd (bps ! k) j \<longleftrightarrow> key_cmp (k_col (keys ! k)) (k_desc (keys ! k)) (k_nf (keys ! k)) i j \<le> 0"
    if "k < length keys" "i < n" "j < n" for k i j using assms(1) that by (auto simp: parts_ok_def list_all2_conv_all_nth case_prod_beta)
  have dig: "digits_ok ?bits (map (\<lambda>p. p i) ?parts)" if "i < n" for i
    using at(1) that len by (simp add: digits_ok_def list_all2_conv_all_nth)
  have flip: "key_cmp (k_col (keys ! k)) (k_desc (keys ! k)) (k_nf (keys ! k)) b a \<le> 0 \<longleftrightarrow> key_cmp (k_col (keys ! k)) (k_desc (keys ! k)) (k_nf (keys ! k)) a b \<ge> 0"
    if "k < length keys" for k using row_order.flip_le [OF key_order] assms(3-5) that by (metis mem_Collect_eq nth_mem)
  have u: "unat (composed bps i) = digits ?bits (map (\<lambda>p. p i) ?parts)" if "i < n" for i
    using compose_digits [OF dig [OF that] assms(2)] by (simp add: composed_def comp_def)
  have "digits ?bits (map (\<lambda>p. p a) ?parts) \<le> digits ?bits (map (\<lambda>p. p b) ?parts) \<longleftrightarrow> cmp_list keys a b \<le> 0"
    by (rule composite_order) (use at(2) flip assms(4,5) len dig in \<open>auto simp: list_all2_conv_all_nth\<close>)
  then show "composed bps a \<le> composed bps b \<longleftrightarrow> cmp_list keys a b \<le> 0" using u assms(4,5) by (simp add: word_le_nat_alt)
  show "unat (composed bps a) < 2 ^ sum_list ?bits" unfolding u [OF assms(4)] by (rule digits_less [OF dig [OF assms(4)]])
qed

lemma composed_sorts:
  assumes "parts_ok n keys bps" "sum_list (map fst bps) \<le> 64" "\<And>key a. key \<in> set keys \<Longrightarrow> a < n \<Longrightarrow> cell_ok (k_col key) a"
    and "row_order cmp R" "{..<n} \<subseteq> R" "\<And>a b. cmp a b = cmp_list keys a b" "env_ok env n" "n < 2 ^ 32"
  defines "ks \<equiv> map (composed bps) [0..<n]" and "ys \<equiv> sort_key (composed bps) [0..<n]"
  shows "rows_in_order cmp n ys" "sort_composites env (comp_bytes (sum_list (map fst bps))) ks = Some (map int ys)"
    "sorted ks \<Longrightarrow> ys = [0..<n]"
proof -
  let ?t = "sum_list (map fst bps)"
  show "rows_in_order cmp n ys" unfolding ys_def
    by (rule sort_key_rows [OF assms(4,5)]) (simp add: composed_order(1) [OF assms(1-3)] assms(6))
  have "unat k < 2 ^ (8 * comp_bytes ?t)" if k: "k \<in> set ks" for k
  proof -
    have "unat k < 2 ^ ?t" using k composed_order(2) [OF assms(1-3)] by (auto simp: ks_def)
    also have "\<dots> \<le> 2 ^ (8 * comp_bytes ?t)" using comp_bytes_enough by (intro power_increasing) simp_all
    finally show ?thesis .
  qed
  moreover have "stable_order ks = map int ys"
    unfolding stable_order_def ks_def ys_def by (auto intro!: arg_cong [of _ _ "map int"] sort_key_same)
  ultimately show "sort_composites env (comp_bytes ?t) ks = Some (map int ys)"
    using sort_composites_sorts [of env ks "comp_bytes ?t"] assms(7,8) by (simp add: ks_def)
  show "ys = [0..<n]" if "sorted ks" unfolding ys_def by (rule sort_key_id_if_sorted) (use that in \<open>simp add: ks_def\<close>)
qed

section \<open>The sort by several columns\<close>

text \<open>
  What the outside decides in the sort of a table: for every column the building of its ranks and its own sort, the calls of
  the dispatches, whether the buffers could be allocated and what is in them, and the environments of the sorts.
\<close>

record multi_env =
  u_mem :: "bool \<times> bool"
  u_enum :: "column_env list"
  u_prescan :: "calls option"
  u_encode :: "calls option"
  u_keys :: "u64 list option"
  u_indices :: "nat list"
  u_sort :: sort_env
  u_cols :: "column_env list"
  u_ranks :: "nat list option list"
  u_rkeys :: bool
  u_rsort :: sort_env
  u_merge :: merge_env

definition composite_encode_fn :: "mkey list \<Rightarrow> (int \<times> int) list \<Rightarrow> nat list \<Rightarrow> nat \<times> nat \<times> nat \<Rightarrow> u64 list \<times> nat list \<Rightarrow> u64 list \<times> nat list" where
  "composite_encode_fn keys mms shifts call s =
    (case (call, s) of ((wid, start, stop), (ks, indices)) \<Rightarrow>
      (fold (\<lambda>i k. k[i := composite_key keys mms shifts i]) [start..<stop] ks, fold (\<lambda>i x. x[i := i]) [start..<stop] indices))"

definition key_bits :: "(int \<times> int) list \<Rightarrow> nat list" where
  "key_bits mms = map (\<lambda>mm. bits_from 1 (range_of mm)) mms"

definition composite_sort :: "multi_env \<Rightarrow> mkey list \<Rightarrow> (int \<times> int) list \<Rightarrow> nat \<Rightarrow> int list option" where
  "composite_sort env keys mms nrows =
    (case u_keys env of None \<Rightarrow> None
     | Some keys0 \<Rightarrow>
         let encode = composite_encode_fn keys mms (bit_shifts (key_bits mms));
             s = (keys0, u_indices env);
             (ks, indices) = (case u_encode env of Some (nw, cs) \<Rightarrow> fold encode cs s | None \<Rightarrow> encode (0, 0, nrows) s)
         in if detect_sortedness (e_detect (u_sort env)) ks = 0 then Some (map int indices)
            else sort_composites (u_sort env) (comp_bytes (sum_list (key_bits mms))) ks)"

text \<open>The sorts of the single columns and their dense ranks; any error of theirs clears the flag \<open>rank_ok\<close>, here \<open>Oom\<close>.\<close>

fun rank_columns :: "column_env list \<Rightarrow> nat list option list \<Rightarrow> mkey list \<Rightarrow> nat \<Rightarrow> (nat \<times> nat list) list outcome" where
  "rank_columns (e # es) (b # bs) (key # keys) nrows =
    (case sort_column e (k_col key) (Some [k_desc key]) (Some [k_nf key]) nrows of
       Trap \<Rightarrow> Trap
     | Oom \<Rightarrow> Oom
     | Nyi \<Rightarrow> Oom
     | Ret sk_idx \<Rightarrow>
         (case b of None \<Rightarrow> Oom
          | Some r0 \<Rightarrow>
             let r = dense_ranks (sort_cmp \<lparr>x_vecs = [Some (k_col key)], x_desc = Some [k_desc key], x_nulls_first = Some [k_nf key]\<rparr>) sk_idx r0
             in (case rank_columns es bs keys nrows of Ret rs \<Rightarrow> Ret (r # rs) | Trap \<Rightarrow> Trap | _ \<Rightarrow> Oom)))"
| "rank_columns _ _ _ nrows = Ret []"

definition rank_bits :: "(nat \<times> nat list) list \<Rightarrow> nat list" where
  "rank_bits rs = map (\<lambda>r. bits_from 1 (of_nat (fst r))) rs"

definition rank_sort :: "multi_env \<Rightarrow> mkey list \<Rightarrow> nat \<Rightarrow> int list outcome" where
  "rank_sort env keys nrows =
    (case rank_columns (u_cols env) (u_ranks env) keys nrows of
       Trap \<Rightarrow> Trap
     | Oom \<Rightarrow> Oom
     | Nyi \<Rightarrow> Oom
     | Ret rs \<Rightarrow>
         let rank_total = sum_list (rank_bits rs);
             rkeys = map (\<lambda>i. compose (bit_shifts (rank_bits rs)) (map (\<lambda>r. of_nat (snd r ! i)) rs)) [0..<nrows]
         in if rank_total \<le> 64 \<and> u_rkeys env
            then case sort_composites (u_rsort env) (comp_bytes rank_total) rkeys of Some idx \<Rightarrow> Ret idx | None \<Rightarrow> Oom
            else Oom)"

fun wide_type :: "payload \<Rightarrow> bool" where
  "wide_type (Strs _ _) = True" | "wide_type (Guids _) = True" | "wide_type _ = False"

definition composite_fits :: "multi_env \<Rightarrow> mkey list \<Rightarrow> nat \<Rightarrow> bool" where
  "composite_fits env keys nrows \<longleftrightarrow> \<not> list_ex (\<lambda>key. wide_type (c_data (k_col key))) keys \<and>
    sum_list (key_bits (key_ranges (u_prescan env) keys nrows)) \<le> 64"

definition enum_ranks :: "multi_env \<Rightarrow> column list \<Rightarrow> nat list list option" where
  "enum_ranks env cols = those (map2 column_rank (u_enum env) cols)"

definition sort_multi :: "multi_env \<Rightarrow> column list \<Rightarrow> bool list option \<Rightarrow> bool list option \<Rightarrow> nat \<Rightarrow> nat list outcome" where
  "sort_multi env cols descs nulls_first nrows =
    (let fallback = sort_fallback (u_merge env) (map Some cols) descs nulls_first nrows
     in allocated (u_mem env)
       (if nrows > 64 \<and> list_all (\<lambda>col. radix_type (c_data col) \<or> wide_type (c_data col)) cols
        then case enum_ranks env cols of None \<Rightarrow> fallback
          | Some ranks \<Rightarrow>
              let keys = make_keys cols descs nulls_first ranks
              in if composite_fits env keys nrows
                 then case composite_sort env keys (key_ranges (u_prescan env) keys nrows) nrows of Some idx \<Rightarrow> Ret (map nat idx) | None \<Rightarrow> fallback
                 else case rank_sort env keys nrows of Ret idx \<Rightarrow> Ret (map nat idx) | Trap \<Rightarrow> Trap | _ \<Rightarrow> fallback
        else fallback))"

text \<open>The whole entry point: no columns or no rows give the empty vector, more than 16 columns the error \<open>nyi\<close>.\<close>

definition sort_indices_ex :: "column_env \<Rightarrow> multi_env \<Rightarrow> column list \<Rightarrow> bool list option \<Rightarrow> bool list option \<Rightarrow> nat \<Rightarrow> nat list outcome" where
  "sort_indices_ex column_env env cols descs nulls_first nrows =
    (if cols = [] \<or> nrows = 0 then Ret []
     else if length cols > 16 then Nyi
     else case cols of
            [col] \<Rightarrow> sort_column column_env col descs nulls_first nrows
          | _ \<Rightarrow> sort_multi env cols descs nulls_first nrows)"

lemma write_all: "set rows = {0..<n} \<Longrightarrow> length k = n \<Longrightarrow> fold (\<lambda>i k. k[i := f i]) rows k = map f [0..<n]"
proof -
  assume rows: "set rows = {0..<n}" and k: "length k = n"
  have "length (fold (\<lambda>i k. k[i := f i]) rows k) = length k \<and> (\<forall>i<length k. fold (\<lambda>i k. k[i := f i]) rows k ! i = (if i \<in> set rows then f i else k ! i))" for rows k
    by (induction rows arbitrary: k) (auto simp: nth_list_update)
  then show ?thesis using rows k by (intro nth_equalityI) simp_all
qed

lemma encode_composites:
  fixes keys mms shifts
  assumes "covers pool n" "length keys0 = n" "length indices = n"
  defines "encode \<equiv> composite_encode_fn keys mms shifts"
  shows "(case pool of Some (nw, cs) \<Rightarrow> fold encode cs (keys0, indices) | None \<Rightarrow> encode (0, 0, n) (keys0, indices)) =
    (map (composite_key keys mms shifts) [0..<n], [0..<n])"
proof -
  have all: "fold encode cs (ks, ix) =
    (let rows = concat (map (\<lambda>(wid, start, stop). [start..<stop]) cs)
     in (fold (\<lambda>i k. k[i := composite_key keys mms shifts i]) rows ks, fold (\<lambda>i x. x[i := i]) rows ix))" for cs ks ix
    by (induction cs arbitrary: ks ix) (auto simp: encode_def composite_encode_fn_def Let_def)
  show ?thesis
  proof (cases pool)
    case None
    then show ?thesis using write_all [of "[0..<n]" n keys0 "composite_key keys mms shifts"] write_all [of "[0..<n]" n indices "\<lambda>i. i"] assms(2,3)
      by (simp add: encode_def composite_encode_fn_def)
  next
    case (Some p)
    obtain nw cs where p: "pool = Some (nw, cs)" using Some by (cases p) simp
    have "mset (concat (map (\<lambda>(wid, start, stop). [start..<stop]) cs)) = mset [0..<n]" using assms(1) unfolding covers_def p by simp
    from mset_eq_setD [OF this] have rows: "set (concat (map (\<lambda>(wid, start, stop). [start..<stop]) cs)) = {0..<n}" by (simp only: set_upt)
    show ?thesis using write_all [OF rows assms(2)] write_all [OF rows assms(3), of "\<lambda>i. i"] by (simp add: p all Let_def)
  qed
qed

text \<open>What memory and pool owe the sort: buffers of the right size, calls that cover the rows.\<close>

definition multi_env_ok :: "multi_env \<Rightarrow> column list \<Rightarrow> nat \<Rightarrow> bool" where
  "multi_env_ok env cols n \<longleftrightarrow> u_mem env = (True, True) \<and> merge_env_ok (u_merge env) n \<and> env_ok (u_sort env) n \<and> env_ok (u_rsort env) n \<and>
    covers (u_prescan env) n \<and> covers (u_encode env) n \<and> length (u_indices env) = n \<and>
    (\<forall>keys0. u_keys env = Some keys0 \<longrightarrow> length keys0 = n) \<and>
    list_all2 column_env_ok (u_enum env) cols \<and> list_all2 column_env_ok (u_cols env) cols \<and>
    list_all2 (\<lambda>b col. \<forall>r0. b = Some r0 \<longrightarrow> length r0 = n) (u_ranks env) cols"

lemma composite_sort_rows:
  assumes "multi_env_ok env cols n" "n < 2 ^ 32" "row_order cmp R" "{..<n} \<subseteq> R" "\<And>a b. cmp a b = cmp_list keys a b"
    and "\<And>key. key \<in> set keys \<Longrightarrow> radix_type (c_data (k_col key)) \<and> comp_exact key n \<and> exact_keys (enc_of key) n \<and> (\<forall>a<n. cell_ok (k_col key) a)"
    and "sum_list (key_bits (key_ranges (u_prescan env) keys n)) \<le> 64" "keys \<noteq> []"
  shows "composite_sort env keys (key_ranges (u_prescan env) keys n) n = None \<or>
    (\<exists>ys. composite_sort env keys (key_ranges (u_prescan env) keys n) n = Some (map int ys) \<and> rows_in_order cmp n ys)"
proof (cases "u_keys env")
  case (Some keys0)
  let ?mms = "key_ranges (u_prescan env) keys n"
  define bps where "bps = map (\<lambda>(key, mm). (bits_from 1 (range_of mm), key_part key mm)) (zip keys ?mms)"
  have cov: "covers (u_prescan env) n" "covers (u_encode env) n" and ok: "env_ok (u_sort env) n" using assms(1) by (simp_all add: multi_env_ok_def)
  have len: "length ?mms = length keys" using key_ranges_inside(1) [OF cov(1), of 0 keys] assms(8) by simp
  have bits: "map fst bps = key_bits ?mms" by (rule nth_equalityI) (use len in \<open>simp_all add: bps_def key_bits_def\<close>)
  have comp: "composed bps = composite_key keys ?mms (bit_shifts (key_bits ?mms))"
  proof
    fix i
    have "map (\<lambda>bp. snd bp i) bps = map (\<lambda>(key, mm). key_part key mm i) (zip keys ?mms)" by (auto simp: bps_def)
    then show "composed bps i = composite_key keys ?mms (bit_shifts (key_bits ?mms)) i" by (simp only: composed_def bits composite_key_def)
  qed
  have "parts_ok n keys bps"
    unfolding parts_ok_def list_all2_conv_all_nth
  proof (intro conjI allI impI)
    show "length keys = length bps" using len by (simp add: bps_def)
    fix k assume k: "k < length keys"
    note r = key_ranges_inside(2,3) [OF cov(1) k]
    have bp: "bps ! k = (bits_from 1 (range_of (?mms ! k)), key_part (keys ! k) (?mms ! k))" using k len by (simp add: bps_def)
    have key: "radix_type (c_data (k_col (keys ! k)))" "comp_exact (keys ! k) n" "exact_keys (enc_of (keys ! k)) n" "a < n \<Longrightarrow> cell_ok (k_col (keys ! k)) a" for a
      using assms(6) [OF nth_mem [OF k]] by blast+
    show "case bps ! k of (bits, part) \<Rightarrow> (\<forall>a<n. unat (part a) < 2 ^ bits) \<and>
      (\<forall>a<n. \<forall>b<n. part a \<le> part b \<longleftrightarrow> key_cmp (k_col (keys ! k)) (k_desc (keys ! k)) (k_nf (keys ! k)) a b \<le> 0)"
      unfolding bp prod.case using key_part_bits [OF r] key_part_order [OF key(1-3) key(4) key(4) _ _ r(1) r(2) r(2)] by blast
  qed
  note sorts = composed_sorts [OF this _ _ assms(3-5) ok assms(2), unfolded bits comp]
  have cells: "cell_ok (k_col key) a" if "key \<in> set keys" "a < n" for key a using assms(6) that by blast
  let ?ks = "map (composite_key keys ?mms (bit_shifts (key_bits ?mms))) [0..<n]" and ?ys = "sort_key (composite_key keys ?mms (bit_shifts (key_bits ?mms))) [0..<n]"
  have "detect_sortedness (e_detect (u_sort env)) ?ks = 0 \<longleftrightarrow> sorted ?ks" using detect_zero ok by (simp add: env_ok_def)
  moreover have "composite_sort env keys ?mms n =
    (if detect_sortedness (e_detect (u_sort env)) ?ks = 0 then Some (map int [0..<n]) else sort_composites (u_sort env) (comp_bytes (sum_list (key_bits ?mms))) ?ks)"
    using encode_composites [OF cov(2), of keys0 "u_indices env"] assms(1) Some by (simp add: composite_sort_def Let_def multi_env_ok_def)
  ultimately have "composite_sort env keys ?mms n = Some (map int ?ys)"
    using sorts(2) [OF assms(7) cells] sorts(3) [OF assms(7) cells] by auto
  then show ?thesis using sorts(1) [OF assms(7) cells] by blast
qed (simp add: composite_sort_def)

text \<open>Dense ranks of a key: below the number of rows, and in the order of its comparator.\<close>

definition ranks_ok :: "nat \<Rightarrow> mkey \<Rightarrow> nat \<times> nat list \<Rightarrow> bool" where
  "ranks_ok n key r \<longleftrightarrow> fst r < n \<and> (\<forall>a<n. snd r ! a \<le> fst r) \<and>
    (\<forall>a<n. \<forall>b<n. snd r ! a \<le> snd r ! b \<longleftrightarrow> key_cmp (k_col key) (k_desc key) (k_nf key) a b \<le> 0)"

text \<open>A key of the table: not a string column with the sort of its own, which is not modelled, and exact by itself.\<close>

definition key_ok :: "nat \<Rightarrow> mkey \<Rightarrow> bool" where
  "key_ok n key \<longleftrightarrow> \<not> takes_str_msd (k_col key) n \<and> col_len (c_data (k_col key)) = n \<and> (\<forall>a<n. cell_ok (k_col key) a) \<and> exact_column (k_col key) (k_desc key) (k_nf key) n"

lemma column_ranks_ok:
  assumes "key_ok n key" "column_env_ok e (k_col key)" "0 < n" "n < 2 ^ 32" "length r0 = n"
  shows "\<exists>idx. sort_column e (k_col key) (Some [k_desc key]) (Some [k_nf key]) n = Ret idx \<and>
    ranks_ok n key (dense_ranks (sort_cmp \<lparr>x_vecs = [Some (k_col key)], x_desc = Some [k_desc key], x_nulls_first = Some [k_nf key]\<rparr>) idx r0)"
proof -
  let ?ctx = "fallback_ctx [Some (k_col key)] (Some [k_desc key]) (Some [k_nf key])"
  have ctx: "\<lparr>x_vecs = [Some (k_col key)], x_desc = Some [k_desc key], x_nulls_first = Some [k_nf key]\<rparr> = ?ctx" by (simp add: fallback_ctx_def)
  have len: "col_len (c_data (k_col key)) = n" and cells: "a < n \<Longrightarrow> cell_ok (k_col key) a" for a using assms(1) by (simp_all add: key_ok_def)
  obtain idx where idx: "sort_column e (k_col key) (Some [k_desc key]) (Some [k_nf key]) n = Ret idx" "rows_sorted (sort_cmp ?ctx) n idx"
    using sort_column_rows [OF assms(2), of "Some [k_desc key]" "Some [k_nf key]"] assms(1,4) unfolding len key_ok_def by auto
  have sub: "{..<n} \<subseteq> comparable ?ctx" by (rule comparable_rows) (use cells in auto)
  note d = dense_ranks_order [OF sc.row_order_axioms sub idx(2) assms(5)]
  have "sort_cmp ?ctx a b = key_cmp (k_col key) (k_desc key) (k_nf key) a b" for a b unfolding single_key_cmp by simp
  then have "ranks_ok n key (dense_ranks (sort_cmp ?ctx) idx r0)" unfolding ranks_ok_def using d(1) d(2) d(3) assms(3) by auto
  then show ?thesis using idx(1) unfolding ctx by blast
qed

lemma rank_columns_cases:
  assumes "\<And>key. key \<in> set keys \<Longrightarrow> key_ok n key" "0 < n" "n < 2 ^ 32"
    and "list_all2 (\<lambda>e key. column_env_ok e (k_col key)) es keys" "list_all2 (\<lambda>b key. \<forall>r0. b = Some r0 \<longrightarrow> length r0 = n) bs keys"
  shows "rank_columns es bs keys n = Oom \<or> (\<exists>rs. rank_columns es bs keys n = Ret rs \<and> list_all2 (ranks_ok n) keys rs)"
  using assms
proof (induction keys arbitrary: es bs)
  case (Cons key keys)
  obtain e es' b bs' where l: "es = e # es'" "bs = b # bs'" "column_env_ok e (k_col key)"
    using Cons.prems(4,5) by (auto simp: list_all2_Cons2)
  have key: "key_ok n key" using Cons.prems(1) by simp
  have IH: "rank_columns es' bs' keys n = Oom \<or> (\<exists>rs. rank_columns es' bs' keys n = Ret rs \<and> list_all2 (ranks_ok n) keys rs)"
    using Cons.prems l by (intro Cons.IH) auto
  show ?case
  proof (cases b)
    case None
    obtain idx where "sort_column e (k_col key) (Some [k_desc key]) (Some [k_nf key]) n = Ret idx"
      using column_ranks_ok [OF key l(3) Cons.prems(2,3), of "replicate n 0"] by auto
    then show ?thesis unfolding l using None by simp
  next
    case (Some r0)
    then have "length r0 = n" using Cons.prems(5) l by simp
    from column_ranks_ok [OF key l(3) Cons.prems(2,3) this] show ?thesis unfolding l using Some IH by (auto simp: Let_def)
  qed
qed auto

lemma rank_parts_ok:
  assumes "list_all2 (ranks_ok n) keys rs" "n < 2 ^ 32"
  shows "parts_ok n keys (map (\<lambda>r. (bits_from 1 (of_nat (fst r)), \<lambda>i. of_nat (snd r ! i))) rs)"
proof -
  have "(\<forall>a<n. unat (of_nat (snd r ! a) :: u64) < 2 ^ bits_from 1 (of_nat (fst r))) \<and>
      (\<forall>a<n. \<forall>b<n. (of_nat (snd r ! a) :: u64) \<le> of_nat (snd r ! b) \<longleftrightarrow> key_cmp (k_col key) (k_desc key) (k_nf key) a b \<le> 0)"
    if r: "ranks_ok n key r" for key r
  proof -
    have max: "fst r < 2 ^ 32" using r assms(2) by (simp add: ranks_ok_def)
    have u: "unat (of_nat m :: u64) = m" if "m \<le> fst r" for m using that max by (simp add: unat_of_nat)
    have at: "unat (of_nat (snd r ! a) :: u64) = snd r ! a" "snd r ! a \<le> fst r" if "a < n" for a
      using r that by (simp_all add: ranks_ok_def u)
    have "int (fst r) < 2 ^ bits_from 1 (of_nat (fst r))"
      using bits_from_bound [of "int (fst r)" 1 "of_nat (fst r)"] u [of "fst r"] max by (simp add: uint_nat)
    then have "int (fst r) < int (2 ^ bits_from 1 (of_nat (fst r)))" by (simp only: of_nat_power of_nat_numeral)
    then have "fst r < 2 ^ bits_from 1 (of_nat (fst r))" by (simp only: of_nat_less_iff)
    then show ?thesis using at r by (auto simp: word_le_nat_alt ranks_ok_def intro: le_less_trans)
  qed
  then show ?thesis using assms(1) by (auto simp: parts_ok_def list_all2_conv_all_nth)
qed

lemma rank_sort_rows:
  assumes "multi_env_ok env cols n" "0 < n" "n < 2 ^ 32" "row_order cmp R" "{..<n} \<subseteq> R" "\<And>a b. cmp a b = cmp_list keys a b"
    and "\<And>key. key \<in> set keys \<Longrightarrow> key_ok n key" "map k_col keys = cols"
  shows "rank_sort env keys n = Oom \<or> (\<exists>ys. rank_sort env keys n = Ret (map int ys) \<and> rows_in_order cmp n ys)"
proof -
  have cells: "cell_ok (k_col key) a" if "key \<in> set keys" "a < n" for key a using assms(7) that by (simp add: key_ok_def)
  have envs: "list_all2 (\<lambda>e key. column_env_ok e (k_col key)) (u_cols env) keys" "list_all2 (\<lambda>b key. \<forall>r0. b = Some r0 \<longrightarrow> length r0 = n) (u_ranks env) keys"
    "env_ok (u_rsort env) n" using assms(1) by (simp_all add: multi_env_ok_def assms(8) [symmetric] list_all2_map2)
  have "rank_columns (u_cols env) (u_ranks env) keys n = Oom \<or> (\<exists>rs. rank_columns (u_cols env) (u_ranks env) keys n = Ret rs \<and> list_all2 (ranks_ok n) keys rs)"
    using rank_columns_cases [OF _ assms(2,3) envs(1,2)] assms(7) by blast
  then show ?thesis
  proof (elim disjE exE conjE)
    fix rs assume rs: "rank_columns (u_cols env) (u_ranks env) keys n = Ret rs" "list_all2 (ranks_ok n) keys rs"
    let ?bps = "map (\<lambda>r. (bits_from 1 (of_nat (fst r)), \<lambda>i. of_nat (snd r ! i))) rs :: (nat \<times> (nat \<Rightarrow> u64)) list"
    have bits: "map fst ?bps = rank_bits rs" by (simp add: rank_bits_def)
    have comp: "composed ?bps = (\<lambda>i. compose (bit_shifts (rank_bits rs)) (map (\<lambda>r. of_nat (snd r ! i)) rs))"
      by (rule ext) (simp add: composed_def rank_bits_def comp_def)
    note sorts = composed_sorts [OF rank_parts_ok [OF rs(2) assms(3)] _ cells assms(4-6) envs(3) assms(3), unfolded bits comp]
    show ?thesis
    proof (cases "sum_list (rank_bits rs) \<le> 64 \<and> u_rkeys env")
      case True
      then show ?thesis using sorts(1,2) rs(1) by (auto simp: rank_sort_def Let_def)
    qed (auto simp: rank_sort_def rs(1) Let_def)
  qed (simp add: rank_sort_def)
qed

definition column_keys :: "column list \<Rightarrow> bool list option \<Rightarrow> bool list option \<Rightarrow> mkey list" where
  "column_keys cols descs nulls_first = make_keys cols descs nulls_first (replicate (length cols) [])"

definition multi_exact :: "multi_env \<Rightarrow> column list \<Rightarrow> bool list option \<Rightarrow> bool list option \<Rightarrow> nat \<Rightarrow> bool" where
  "multi_exact env cols descs nulls_first n \<longleftrightarrow>
    (\<forall>ranks. enum_ranks env cols = Some ranks \<longrightarrow> composite_fits env (make_keys cols descs nulls_first ranks) n \<longrightarrow>
      list_all (\<lambda>key. comp_exact key n) (make_keys cols descs nulls_first ranks))"

lemma make_keys_cols: "map k_col (make_keys cols descs nulls_first ranks) = cols"
  by (rule nth_equalityI) (simp_all add: make_keys_def Let_def)

lemma make_keys_ok:
  assumes "list_all (key_ok n) (column_keys cols descs nulls_first)" "key \<in> set (make_keys cols descs nulls_first ranks)"
  shows "key_ok n key"
proof -
  have "length (make_keys cols descs nulls_first ranks) = length cols" by (simp add: make_keys_def)
  then obtain k where k: "k < length cols" "key = make_keys cols descs nulls_first ranks ! k" using assms(2) by (metis in_set_conv_nth)
  then have "key_ok n (column_keys cols descs nulls_first ! k)" using assms(1) by (simp add: list_all_length column_keys_def make_keys_def)
  then show ?thesis using k by (simp add: key_ok_def column_keys_def make_keys_def Let_def)
qed

lemma those_Some: "those xs = Some ys \<Longrightarrow> xs = map Some ys"
  by (induction xs arbitrary: ys) (auto split: option.splits)

lemma make_keys_exact:
  assumes "multi_env_ok env cols n" "enum_ranks env cols = Some ranks" "key \<in> set (make_keys cols descs nulls_first ranks)" "key_ok n key"
  shows "exact_keys (enc_of key) n"
proof -
  obtain k where k: "k < length cols" "k_col key = cols ! k" "k_rank key = ranks ! k" using assms(3) by (auto simp: make_keys_def Let_def)
  have e: "list_all2 column_env_ok (u_enum env) cols" using assms(1) by (simp add: multi_env_ok_def)
  then have len: "length (u_enum env) = length cols" by (rule list_all2_lengthD)
  have ok: "column_env_ok (u_enum env ! k) (k_col key)" using e k by (simp add: list_all2_conv_all_nth)
  have "map2 column_rank (u_enum env) cols = map Some ranks" using those_Some assms(2) unfolding enum_ranks_def by blast
  then have "column_rank (u_enum env ! k) (cols ! k) = Some (ranks ! k)"
    using k(1) len by (metis length_map length_zip min_less_iff_conj nth_map nth_zip old.prod.case)
  then have "\<exists>mem pool tmp. build_enum_rank mem pool tmp strings d = Some (k_rank key) \<and> covers pool (length d) \<and> length tmp = unat (enum_max_id pool d) + 1"
    if "c_data (k_col key) = Syms strings d" for strings d
    using that ok k unfolding column_env_ok_def column_rank_def Let_def
    by (intro exI [of _ "v_rank_mem (u_enum env ! k)"] exI [of _ "v_rank_pool (u_enum env ! k)"] exI [of _ "v_rank_tmp (u_enum env ! k)"]) simp
  then show ?thesis using assms(4) by (simp add: exact_keys_def key_ok_def)
qed

lemma table_cells:
  assumes "list_all (key_ok n) (column_keys cols descs nulls_first)"
  shows "{..<n} \<subseteq> comparable (fallback_ctx (map Some cols) descs nulls_first)"
proof (rule comparable_rows)
  fix col a assume "Some col \<in> set (map Some cols)" "a < n"
  moreover from this(1) have "col \<in> k_col ` set (make_keys cols descs nulls_first [])"
    using make_keys_cols [of cols descs nulls_first "[]"] by (metis image_iff list.set_map option.inject)
  ultimately show "cell_ok col a" using make_keys_ok [OF assms] by (auto simp: key_ok_def)
qed

lemma fitting_key:
  assumes "multi_env_ok env cols n" "list_all (key_ok n) (column_keys cols descs nulls_first)" "multi_exact env cols descs nulls_first n"
    and "enum_ranks env cols = Some ranks" "list_all (\<lambda>col. radix_type (c_data col) \<or> wide_type (c_data col)) cols"
    and "composite_fits env (make_keys cols descs nulls_first ranks) n" "key \<in> set (make_keys cols descs nulls_first ranks)"
  shows "radix_type (c_data (k_col key)) \<and> comp_exact key n \<and> exact_keys (enc_of key) n \<and> (\<forall>a<n. cell_ok (k_col key) a)"
proof -
  have ok: "key_ok n key" by (rule make_keys_ok [OF assms(2,7)])
  have "k_col key \<in> set (map k_col (make_keys cols descs nulls_first ranks))" using assms(7) by simp
  then have "radix_type (c_data (k_col key)) \<or> wide_type (c_data (k_col key))" using assms(5) unfolding make_keys_cols by (simp add: list.pred_set)
  moreover have "comp_exact key n" using assms(3,4,6,7) by (auto simp: multi_exact_def list.pred_set)
  moreover have "\<not> wide_type (c_data (k_col key))" using assms(6,7) by (auto simp: composite_fits_def list_ex_iff)
  ultimately show ?thesis using ok make_keys_exact [OF assms(1,4,7) ok] by (auto simp: key_ok_def)
qed

lemma sort_multi_rows:
  assumes "cols \<noteq> []" "multi_env_ok env cols n" "n < 2 ^ 32"
    and "list_all (key_ok n) (column_keys cols descs nulls_first)" "multi_exact env cols descs nulls_first n"
  shows "\<exists>ys. sort_multi env cols descs nulls_first n = Ret ys \<and> sort_fallback (u_merge env) (map Some cols) descs nulls_first n = Ret ys \<and>
    rows_in_order (sort_cmp (fallback_ctx (map Some cols) descs nulls_first)) n ys"
proof -
  let ?ctx = "fallback_ctx (map Some cols) descs nulls_first" and ?fb = "sort_fallback (u_merge env) (map Some cols) descs nulls_first n"
  note sub = table_cells [OF assms(4)]
  obtain ys where ys: "?fb = Ret ys" "rows_in_order (sort_cmp ?ctx) n ys"
    using merge_sort_stable_rows [OF sc.row_order_axioms sub, of "u_merge env"] assms(2) unfolding sort_fallback_def multi_env_ok_def by blast
  have mem: "u_mem env = (True, True)" using assms(2) by (simp add: multi_env_ok_def)
  have same: "zs = ys" if "rows_in_order (sort_cmp ?ctx) n zs" for zs using rows_unique [OF sc.row_order_axioms sub that ys(2)] .
  have "sort_multi env cols descs nulls_first n = Ret ys"
  proof (cases "n > 64 \<and> list_all (\<lambda>col. radix_type (c_data col) \<or> wide_type (c_data col)) cols \<and> enum_ranks env cols \<noteq> None")
    case False
    then show ?thesis using ys(1) by (auto simp: sort_multi_def mem Let_def split: option.splits)
  next
    case True
    then obtain ranks where ranks: "enum_ranks env cols = Some ranks" by blast
    let ?keys = "make_keys cols descs nulls_first ranks" and ?mms = "\<lambda>keys. key_ranges (u_prescan env) keys n"
    note cmp = sort_cmp_list [of cols descs nulls_first _ _ ranks] and key = fitting_key [OF assms(2,4,5) ranks]
    show ?thesis
    proof (cases "composite_fits env ?keys n")
      case fits: True
      have "composite_sort env ?keys (?mms ?keys) n = None \<or> (\<exists>zs. composite_sort env ?keys (?mms ?keys) n = Some (map int zs) \<and> rows_in_order (sort_cmp ?ctx) n zs)"
        by (rule composite_sort_rows [OF assms(2,3) sc.row_order_axioms sub cmp key]) (use True fits assms(1) in \<open>simp_all add: composite_fits_def make_keys_def\<close>)
      then show ?thesis using True ranks fits ys(1) same by (auto simp: sort_multi_def mem Let_def comp_def)
    next
      case False
      have "rank_sort env ?keys n = Oom \<or> (\<exists>zs. rank_sort env ?keys n = Ret (map int zs) \<and> rows_in_order (sort_cmp ?ctx) n zs)"
        by (rule rank_sort_rows [OF assms(2) _ assms(3) sc.row_order_axioms sub cmp make_keys_ok [OF assms(4)] make_keys_cols]) (use True in auto)
      then show ?thesis using True ranks False ys(1) same by (auto simp: sort_multi_def mem Let_def comp_def)
    qed
  qed
  then show ?thesis using ys by blast
qed

text \<open>
  C38. The sort by two to sixteen columns returns the rows the comparison sort returns, whether it sorts composites of the
  columns' offsets, composites of their ranks, or falls back: the order of \<open>sort_cmp\<close>, equal rows by row number. More
  than sixteen columns are refused with \<open>nyi\<close>, whatever they hold. The order holds for any workers and any order of their
  tasks, for fewer than \<open>2 ^ 32\<close> rows, where memory suffices and the pool cuts its tasks at the grain, and for
  columns whose encoding is exact, by itself and, where offsets are composed, in the composite; not for strings in more
  than 64 rows, whose sort is not modelled.
\<close>

theorem sort_indices_ex_order:
  assumes "2 \<le> length cols"
    and "length cols \<le> 16 \<Longrightarrow> n < 2 ^ 32 \<and> multi_env_ok env cols n \<and>
      list_all (key_ok n) (column_keys cols descs nulls_first) \<and> multi_exact env cols descs nulls_first n"
  shows "if 0 < n \<and> 16 < length cols then sort_indices_ex column_env env cols descs nulls_first n = Nyi
    else \<exists>ys. sort_indices_ex column_env env cols descs nulls_first n = Ret ys \<and>
      sort_fallback (u_merge env) (map Some cols) descs nulls_first n = Ret ys \<and>
      rows_in_order (sort_cmp (fallback_ctx (map Some cols) descs nulls_first)) n ys"
proof -
  have many: "cols \<noteq> []" "(case cols of [col] \<Rightarrow> x col | _ \<Rightarrow> y) = y" for x :: "column \<Rightarrow> nat list outcome" and y
    using assms(1) by (auto split: list.split)
  show ?thesis
  proof (cases "n = 0")
    case True
    then show ?thesis using many(1) by (simp add: sort_indices_ex_def sort_fallback_def merge_sort_def sort_insertion_def rows_in_order_def)
  next
    case False
    then show ?thesis using sort_multi_rows [OF many(1), of env n descs nulls_first] assms(2) many by (auto simp: sort_indices_ex_def)
  qed
qed

text \<open>Two thousand rows by a column of longs with a null, then by bytes.\<close>

definition sample_bytes :: column where
  "sample_bytes = \<lparr>c_data = Byte1s (map (\<lambda>i. of_nat (i mod 3)) [0..<2000]), c_nulls = False\<rparr>"

definition sample_table :: "column list" where
  "sample_table = [sample_column, sample_bytes]"

definition sample_multi_env :: multi_env where
  "sample_multi_env = \<lparr>u_mem = (True, True), u_enum = replicate 2 sample_column_env, u_prescan = None, u_encode = None, u_keys = Some (replicate 2000 0), u_indices = replicate 2000 0,
    u_sort = sample_env 2000, u_cols = replicate 2 sample_column_env, u_ranks = replicate 2 (Some (replicate 2000 0)), u_rkeys = True,
    u_rsort = sample_env 2000, u_merge = sample_merge_env 2000\<rparr>"

lemma sample_multi_env_ok: "multi_env_ok sample_multi_env sample_table 2000"
proof -
  have "column_env_ok sample_column_env sample_bytes"
    using sample_merge_env_ok [of 2000] sample_env_ok [of 2000] by (simp add: column_env_ok_def sample_column_env_def sample_bytes_def covers_def)
  then have "list_all2 column_env_ok (replicate 2 sample_column_env) sample_table"
    using sample_column_env_ok by (simp add: sample_table_def numeral_2_eq_2)
  then show ?thesis using sample_merge_env_ok [of 2000] sample_env_ok [of 2000]
    by (simp add: multi_env_ok_def sample_multi_env_def covers_def) (simp add: sample_table_def numeral_2_eq_2)
qed

lemma sample_table_keys:
  "make_keys sample_table None None ranks =
    [\<lparr>k_col = sample_column, k_desc = False, k_nf = True, k_rank = ranks ! 0\<rparr>, \<lparr>k_col = sample_bytes, k_desc = False, k_nf = True, k_rank = ranks ! 1\<rparr>]"
  by (simp add: make_keys_def sample_table_def upt_conv_Cons)

lemma sample_table_ok:
  "list_all (key_ok 2000) (column_keys sample_table None None)" "multi_exact sample_multi_env sample_table None None 2000"
proof -
  obtain d where d: "c_data sample_column = I64s d" by (simp add: sample_column_def)
  have "key_ok 2000 \<lparr>k_col = sample_column, k_desc = False, k_nf = True, k_rank = r\<rparr>" for r
    using sample_column_facts(1,2) sample_column_facts(3) [of False 2000] d by (simp add: key_ok_def takes_str_msd_def)
  moreover have "key_ok 2000 \<lparr>k_col = sample_bytes, k_desc = False, k_nf = True, k_rank = r\<rparr>" for r
    by (simp add: key_ok_def takes_str_msd_def sample_bytes_def cell_ok_def exact_column_def)
  ultimately show "list_all (key_ok 2000) (column_keys sample_table None None)" unfolding column_keys_def sample_table_keys by simp
  have "comp_exact \<lparr>k_col = sample_column, k_desc = False, k_nf = True, k_rank = r\<rparr> n" "comp_exact \<lparr>k_col = sample_bytes, k_desc = False, k_nf = True, k_rank = r\<rparr> n" for r n
    by (simp_all add: comp_exact_def d) (simp add: sample_bytes_def)
  then show "multi_exact sample_multi_env sample_table None None 2000" unfolding multi_exact_def sample_table_keys by simp
qed

theorem sort_indices_ex_order_witness:
  "\<exists>ys. sort_indices_ex sample_column_env sample_multi_env sample_table None None 2000 = Ret ys \<and>
    sort_fallback (u_merge sample_multi_env) (map Some sample_table) None None 2000 = Ret ys \<and>
    rows_in_order (sort_cmp (fallback_ctx (map Some sample_table) None None)) 2000 ys"
  using sort_indices_ex_order [of sample_table 2000 sample_multi_env None None sample_column_env] sample_multi_env_ok sample_table_ok
  by (simp add: sample_table_def)

section \<open>Where the composite departs from the comparator\<close>

text \<open>
  The composite has no place for \<open>nulls_first\<close>: in an ascending column of ints a null is below every value, also where the
  comparator, and the sort of up to 64 rows, put it last.
\<close>

lemma composite_nulls_last_ignored:
  assumes "c_data (k_col key) = I32s d" "\<not> k_desc key" "\<not> k_nf key" "ray_vec_is_null (k_col key) a" "\<not> ray_vec_is_null (k_col key) b"
    and "i64_range mm" "inside mm (sint (comp_val key a))" "inside mm (sint (comp_val key b))"
  shows "key_part key mm a \<le> key_part key mm b" "key_cmp (k_col key) (k_desc key) (k_nf key) a b = 1"
proof -
  have v: "sint (comp_val key x) = sint (d ! x)" for x using assms(1) by (simp add: comp_val_def sint_up_scast is_up)
  have "d ! a = push_bit 31 1" using null_flagged [OF assms(4)] assms(1) by simp
  then have "sint (d ! a) \<le> sint (d ! b)" using sint_ge [of "d ! b"] by simp
  then show "key_part key mm a \<le> key_part key mm b"
    unfolding word_le_def key_part_value(1) [OF assms(6,7)] key_part_value(1) [OF assms(6,8)] v using assms(2) by simp
  show "key_cmp (k_col key) (k_desc key) (k_nf key) a b = 1" using assms(2-5) by (simp add: key_cmp_def)
qed

text \<open>
  The bits of a float, made unsigned for comparison, are compared as signed: the infinities of both signs take 53 bits, so they
  can share a composite with another key, and come out in the wrong order.
\<close>

definition infinities :: mkey where
  "infinities = \<lparr>k_col = \<lparr>c_data = F64s [0xFFF0000000000000, 0x7FF0000000000000], c_nulls = False\<rparr>, k_desc = False, k_nf = True, k_rank = []\<rparr>"

lemma composite_float_signs:
  defines "mm \<equiv> widen_range infinities [0, 1] no_range"
  shows "key_bits [mm] = [53]" "key_part infinities mm 1 < key_part infinities mm 0"
    "key_cmp (k_col infinities) (k_desc infinities) (k_nf infinities) 0 1 = -1"
proof -
  have mm: "mm = (-4503599627370496, 4503599627370495)" unfolding mm_def by code_simp
  show "key_bits [mm] = [53]" "key_part infinities mm 1 < key_part infinities mm 0" unfolding mm by code_simp+
  have "f64_less 0xFFF0000000000000 0x7FF0000000000000" by (simp add: f64_less_def is_nan64_def sign_mag_def)
  then show "key_cmp (k_col infinities) (k_desc infinities) (k_nf infinities) 0 1 = -1" by (simp add: key_cmp_def ray_vec_is_null_def infinities_def)
qed

end
