(* ===== verification/Spec2Isabelle.thy ===== *)
theory Spec2Isabelle
  imports Prelude Calendar Temporal Codec Timers Glob Rowsel WireLz WireValue WireWrite WireRead WireRound
    WsFrame Ws Url HttpParse WsHandshake NumParse StableSort KeySort Radix Pool SortRun
    MergeSort SortCmp EnumRank SortKeys SortMulti
begin

text \<open>
  Verification of peachq, an implementation of the q language (\<^verbatim>\<open>src/qlang\<close>) on the rayforce columnar engine
  (\<^verbatim>\<open>src/core\<close>, \<^verbatim>\<open>src/ops\<close>, \<^verbatim>\<open>src/vec\<close>, \<^verbatim>\<open>src/mem\<close>, \<^verbatim>\<open>src/table\<close>, \<^verbatim>\<open>src/store\<close>, \<^verbatim>\<open>src/lang\<close>). Paths below are
  relative to the repository.

  \<^bold>\<open>How the program is put together.\<close> The q front end parses and evaluates q text; its verbs call engine kernels on
  vectors. Columns of temporal type are decoded and truncated by the calendar and by \<^verbatim>\<open>ops/temporal.c\<close>; \<open>like\<close> is the
  glob matcher; a \<open>where\<close> clause becomes a row selection that later operators refine; values travel between
  processes and to disk as IPC frames, compressed when they are long; \<^verbatim>\<open>\t\<close> and \<open>.z.ts\<close> are served by a heap of
  timers; \<open>.Q.btoa\<close>, \<open>md5\<close> and \<open>-33!\<close> are byte codecs. Processes also talk WebSocket: a handshake over HTTP, then frames
  that a pump feeds to a state machine per connection. Kernels run their
  morsels on a thread pool, sorting among them. Text becomes numbers in one place, the number parsers.

  \<^bold>\<open>Theories and the code they model.\<close>
  \<^item> \<open>Prelude\<close>: types, C's truncating division on integers, word lemmas, the doubling of buffers, bytes and text,
    and the interfaces \<open>lossless_codec\<close>, \<open>canonical_codec\<close> and \<open>prefix_codec\<close>.
  \<^item> \<open>Calendar\<close> (C1, C2): \<^verbatim>\<open>src/qlang/base/q_calendar.c\<close>, \<^verbatim>\<open>src/lang/cal.h\<close>. Civil dates and day numbers, the month
    payload, timestamps as day and nanosecond of day. Shown: the encoder counts days, the two encoders of the
    program agree, and the decoders invert them.
  \<^item> \<open>Temporal\<close> (C3--C5): \<^verbatim>\<open>src/ops/temporal.c\<close>. Field extraction (eager and in the executor) and date truncation.
    Shown: extraction inverts composition, the two extractors agree on nulls and on every cell whose conversion is defined
    in C, truncation is a floor.
  \<^item> \<open>Codec\<close> (C6): \<^verbatim>\<open>src/qlang/ops/q_codec.c\<close>. Base64 and the padding of MD5 and SHA-1. Shown: base64 decoding
    accepts exactly the encodings and inverts them; the padded buffers are those of the standards.
  \<^item> \<open>Timers\<close> (C7--C10): \<^verbatim>\<open>src/core/timer.c\<close>. The heap is an array with a count and a capacity; callbacks are
    arbitrary state changes, deadlines and ids 64-bit sums that wrap. Shown: heap order, capacity and unique ids are kept, what add, delete and the next
    deadline do, when firing ends, and three behaviours of callbacks the code does not expect.
  \<^item> \<open>Glob\<close> (C11, C12): \<^verbatim>\<open>src/ops/glob.c\<close>. Shown: the backtracking matcher returns and decides the meaning of the
    pattern; the compiled shapes agree with it.
  \<^item> \<open>Rowsel\<close> (C13--C15): \<^verbatim>\<open>src/ops/rowsel.c\<close>. The parallel passes are modelled for every schedule of their morsels;
    counters and offsets are reduced to the 32 bits they have. Shown: the selection holds the rows that pass, the
    streaming builder (with \<open>pred_sel_builders_finish\<close> of \<^verbatim>\<open>src/ops/expr.c\<close>) gives the same block, refinement is
    conjunction.
  \<^item> \<open>WireLz\<close> (C16--C18): compression in \<^verbatim>\<open>src/qlang/net/q_wire.c\<close>. Shown: decompression undoes it, the compressor
    stays in its buffer, the decompressor answers every input and never reads what it has not written.
  \<^item> \<open>WireValue\<close>: the values of a frame, float conversions on bit patterns, null atoms
    (\<^verbatim>\<open>include/rayforce.h\<close>), attribute letters (\<^verbatim>\<open>src/qlang/ops/q_attr.c\<close>) and list collapsing
    (\<^verbatim>\<open>src/qlang/ops/q_list.c\<close>).
  \<^item> \<open>WireWrite\<close> (C19, C20): the writer of \<^verbatim>\<open>q_wire.c\<close>. The buffer is a record with its bytes, length and capacity, an
    emitter a function on it; the calls joined by \<open>||\<close> are sequences that stop at the first failure. Shown:
    measuring is exact, the writer is append-only and stays in its buffer.
  \<^item> \<open>WireRead\<close> (C21): the reader of \<^verbatim>\<open>q_wire.c\<close>, a state of the remaining bytes with a flag that a read past the end
    would set. Shown: it is never set.
  \<^item> \<open>WireRound\<close> (C22, C23): writer, compression and reader together. Shown: the round trips of the wire and of the
    storage mode, and that storage records are self-delimiting.
  \<^item> \<open>WsFrame\<close> (C24, C25): the pure part of \<^verbatim>\<open>src/qlang/net/q_ws.c\<close>. Shown: the parser accepts exactly the frame
    headers, masked or not and with any reserved bits, that are minimal; the UTF-8 check accepts exactly the encodings of scalar values.
  \<^item> \<open>Ws\<close> (C26--C28): connections of \<^verbatim>\<open>q_ws.c\<close> and the pump of \<^verbatim>\<open>src/core/ipc.c\<close>. A connection is the C struct as a
    record, reachable connections an inductive predicate, the outside (handler set, allocations, sends, entropy) a
    record per call and a log of events. Shown: every reachable connection is within its limits; a conforming
    stream is delivered as an abstract receiver says; what a client sends arrives, or is refused with the close code for
    its length or its encoding.
  \<^item> \<open>Url\<close> (C31): URLs and redirects of \<^verbatim>\<open>src/qlang/net/q_http_client.c\<close>. Shown: the parser inverts printing.
  \<^item> \<open>HttpParse\<close>: the request and response parsers of \<^verbatim>\<open>third_party/picohttpparser/picohttpparser.c\<close>, without the
    chunked decoder. Shown: they return the lines of a well-formed header.
  \<^item> \<open>WsHandshake\<close> (C29, C30): the rest of \<^verbatim>\<open>q_ws.c\<close>, \<^verbatim>\<open>src/qlang/net/q_ws_client.c\<close> and the upgrade in
    \<open>q_http_respond\<close> of \<^verbatim>\<open>src/qlang/net/q_http.c\<close>. Shown: the bytes the client composes, parsed by the server, are
    answered with bytes the client, parsing them, accepts; the client reads exactly the response header.
  \<^item> \<open>NumParse\<close> (C32): \<^verbatim>\<open>src/core/numparse.c\<close>. Shown: the word-parallel digit kernels are exact, and the integer parser is
    the plain decimal parser with an exact range check.
  \<^item> \<open>Pool\<close> (C33, C34): \<^verbatim>\<open>src/core/pool.c\<close>. The threads are program counters over a shared record, every atomic operation a
    step of one of them, and reachable states an inductive predicate. Shown: an invariant of ring, cursors, barrier and
    calls; a dispatch calls every task exactly once, covers the rows, and can be completed from every state; admission
    respects the number of active workers; and a schedule in which a task runs before the parallel flag is up.
  \<^item> \<open>StableSort\<close>, \<open>KeySort\<close>, \<open>Radix\<close>, \<open>SortRun\<close> (C35): the sort of one encoded key in \<^verbatim>\<open>src/ops/sort.c\<close>. The specification is
    the library's stable sort. \<open>KeySort\<close> is introsort with its heap and insertion sorts; \<open>Radix\<close> the parallel passes, for any
    digit (\<open>radix_digit\<close>) and any order of the tasks, which advance offsets they share; \<open>SortRun\<close> the byte count, the sortedness scans, the hybrid and packed
    sorts and the choice between them. Shown: the exact result of every path, which is the stable order
    but for keys that fall with ties and are taken backwards; two cases in which the code departs from the stable order are
    stated at the end of \<open>SortRun\<close>.
  \<^item> \<open>MergeSort\<close>, \<open>SortCmp\<close> (C36): the comparison sort of \<^verbatim>\<open>sort.c\<close> over any number of columns: insertion sort of small
    chunks, recursive merges, the passes over pairs of chunks on the pool, and the comparator on the bytes of the columns.
    Its interface to the sort is the locale \<open>row_order\<close>. Shown: the rows in comparator order, equal ones in the order of
    the table; what is returned when an allocation fails.
  \<^item> \<open>EnumRank\<close>, \<open>SortKeys\<close> (C37, C39): columns as sort keys. The order-preserving encoding of every type, symbols by the rank of
    their text, the width of a key, and the decoder of the sorted keys. Shown: the sort of a column returns its rows
    sorted, and the rows of the comparison sort unless the column falls with ties; decoding gives the sorted values; the departures (a null that ties with the largest
    value, zeros of both signs) are stated there.
  \<^item> \<open>SortMulti\<close> (C38): the sort by several columns: the scan for the ranges of the keys, the composite of their offsets in
    one word, and, when that takes more than 64 bits, the composite of the dense ranks of the columns; and the
    entry point with its guards. Shown: the same rows as the comparison sort, on every path, and the refusal of more than
    sixteen columns; the two cases in which composites of offsets are not in the comparator's order.
  \<^item> This theory (C40): a radix pass run by the pool.

  \<^bold>\<open>Bounds and fuel.\<close> Loops are recursive functions with termination proofs. \<open>q_wire_write_obj\<close> and \<open>rd_obj\<close> recurse
  on the nesting depth still allowed, which is the code's own limit (512) and not a fuel of the model. The loop
  over expired timers, which the code may never leave, runs on fuel and is \<open>OutOfFuel\<close> when it ends; that some fuel is enough
  is proved under stated conditions, and that none is in another case. The growth of the row builder's index, a loop
  that never ends beyond \<open>2 ^ 31\<close> entries, is a partial function into \<open>option\<close>, shown to return below that. Sorts are for fewer than \<open>2 ^ 32\<close> rows, the range of
  their 32-bit counters, and symbol ranks for ids and columns below \<open>2 ^ 31\<close>. A step of the pool's model calls a whole task, which is sound for tasks that write apart from
  each other, as the scatters are shown to do.

  \<^bold>\<open>Parameters.\<close> What the codec asks of the rest of the program (registry, native table, parser and evaluator,
  index building, mapped tables) is the record \<open>wenv\<close>; the properties hold for every such record. The sort of long string
  columns is the field \<open>v_str_msd\<close> of \<open>column_env\<close>; the properties are for the columns that do not use it. Characters are
  signed in \<open>Glob.in_range\<close>, as on the compiled targets.

  \<^bold>\<open>Not modelled.\<close> Memory allocation and reference counts (allocations succeed unless a flag says otherwise), the
  heap, the symbol table, parsing and evaluation, the query, group and join kernels, the byte-wise sort of string columns of more than 64 rows
  (alone or as one of several keys) and the top-k sort, storage on disk, the HTTP
  exchange beyond the WebSocket upgrade, TLS, CSV and JSON, the DuckDB and Kafka bridges, the console, and the other vendored
  libraries under \<^verbatim>\<open>third_party\<close>. Enumerations, which the writer turns into plain values, and floating-point arithmetic beyond the
  conversions between \<open>float\<close> and \<open>double\<close> are left out too.

  \<^bold>\<open>Plan.\<close> Next the byte-wise sort of strings and grouping, and the bodies of HTTP responses.
\<close>

section \<open>Sorting on the pool\<close>

text \<open>
  C40. A radix pass dispatched on the thread pool: in whatever order and on whatever threads the pool calls the scatter tasks,
  when its barrier is down and the query was not cancelled, the destination holds the stable sort by the byte of the pass. The
  tasks advance offsets they share, so that a task called twice would spoil the pass: the proof rests on the pool calling
  each exactly once.
\<close>

theorem pool_radix_pass:
  assumes "pool_reachable w s" "p_pcs s ! 0 = Spin" "p_pending s = 0" "\<not> p_cancelled s"
    and "p_job s = part_tasks cap fn n_tasks" "0 < n_tasks" "n_tasks \<le> cap" "length xs < 2 ^ 32" "length tmp = length xs"
  shows "fst (radix_pass (\<lambda>x. byte_at shift (fst x)) (radix_scatter_fn shift) n_tasks (map (\<lambda>l. t_start (snd (snd l))) (p_log s)) (xs, tmp)) =
    sort_key (\<lambda>x. byte_at shift (fst x)) xs"
proof -
  let ?sched = "map (\<lambda>l. t_start (snd (snd l))) (p_log s)"
  have "mset (map (\<lambda>l. snd (snd l)) (p_log s)) = mset (part_tasks cap fn n_tasks)"
    using served_tasks [OF reachable_inv] skip_only_cancelled assms(1-5) by simp
  then have "image_mset t_start (mset (map (\<lambda>l. snd (snd l)) (p_log s))) = image_mset t_start (mset (part_tasks cap fn n_tasks))" by simp
  moreover have "map t_start (part_tasks cap fn n_tasks) = [0..<n_tasks]" using assms(7) by (simp add: part_tasks_def comp_def min_absorb1)
  ultimately have "mset ?sched = mset [0..<n_tasks]" by (metis (no_types, lifting) list.map_comp comp_apply map_eq_conv mset_map)
  then show ?thesis using kvd.radix_pass_sorts(1) [OF assms(6,8) _ assms(9)] by (simp add: radix_scatter_fn_def)
qed

text \<open>
  Two tasks on a pool with one worker: the worker claims the first, the main thread claims and calls the second, and the
  worker's call comes last.
\<close>

definition crossed_run :: "event list" where
  "crossed_run = (let main = Act False 0; w = Act False 1 in
    [Dispatch_n True 1 2] @ replicate 8 main @ replicate 5 w @ replicate 6 main @ replicate 3 w @ [main, main])"

theorem pool_radix_pass_witness:
  "\<exists>s. pool_run crossed_run (ray_pool_create 1) = Some s \<and> map (\<lambda>l. (fst l, t_start (snd (snd l)))) (p_log s) = [(0, 1), (1, 0)] \<and>
    fst (radix_pass (\<lambda>x. byte_at 0 (fst x)) (radix_scatter_fn 0) 2 (map (\<lambda>l. t_start (snd (snd l))) (p_log s)) ([(3, 0), (1, 1)], [(0, 0), (0, 0)])) =
    sort_key (\<lambda>x. byte_at 0 (fst x)) [(3, 0), (1, 1)]"
proof -
  have "case pool_run crossed_run (ray_pool_create 1) of None \<Rightarrow> False
    | Some s \<Rightarrow> p_pcs s ! 0 = Spin \<and> p_pending s = 0 \<and> \<not> p_cancelled s \<and> map (\<lambda>l. (fst l, t_start (snd (snd l)))) (p_log s) = [(0, 1), (1, 0)] \<and>
        p_job s = [\<lparr>t_fn = 1, t_start = 0, t_end = 1\<rparr>, \<lparr>t_fn = 1, t_start = 1, t_end = 2\<rparr>]" by code_simp
  then obtain s where s: "pool_run crossed_run (ray_pool_create 1) = Some s"
    "p_pcs s ! 0 = Spin" "p_pending s = 0" "\<not> p_cancelled s" "map (\<lambda>l. (fst l, t_start (snd (snd l)))) (p_log s) = [(0, 1), (1, 0)]"
    "p_job s = [\<lparr>t_fn = 1, t_start = 0, t_end = 1\<rparr>, \<lparr>t_fn = 1, t_start = 1, t_end = 2\<rparr>]"
    by (cases "pool_run crossed_run (ray_pool_create 1)") simp_all
  then have "pool_reachable 1 s" using reachable_run [OF pool_reachable.create] by blast
  moreover have "p_job s = part_tasks 1024 1 2" using s(6) by (simp add: part_tasks_def upt_conv_Cons)
  ultimately show ?thesis using pool_radix_pass [OF _ s(2-4), of 1 1024 1 2 "[(3, 0), (1, 1)]" "[(0, 0), (0, 0)]" 0] s(1,5) by auto
qed

end
